(* ===== verification/Quagga_Prelude.thy ===== *)
theory Quagga_Prelude
  imports Main "HOL-Library.Word" "HOL-Library.Monad_Syntax" "HOL-Library.Multiset"
begin

text \<open>
  Shared vocabulary of the development.

  Conventions.  The C integer types are words (\<open>u8\<close>, \<open>u16\<close>, \<open>u32\<close>, \<open>u64\<close>); a \<open>size_t\<close> offset is
  a \<open>nat\<close> whose additions are taken modulo \<open>2 ^ 64\<close> where the source adds without a bound
  (\<open>size_add\<close>).  Code that can run into a failed \<open>assert\<close> (Quagga's \<open>zassert\<close> logs and aborts the
  daemon) or into undefined behaviour has a result of type \<open>'a option\<close>: \<open>None\<close> is the abort, and
  the sequencing of such code is \<open>do\<close> notation on options.  Error codes the source returns are
  ordinary values.
\<close>

unbundle bit_operations_syntax

type_synonym u8 = "8 word"
type_synonym u16 = "16 word"
type_synonym u32 = "32 word"
type_synonym u64 = "64 word"

named_theorems defs \<open>definitions of straight-line operations, unfolded by proofs about them\<close>
named_theorems bounds \<open>bounds on lengths and offsets\<close>

subsection \<open>Assertions and aborting code\<close>

definition zassert :: "bool \<Rightarrow> unit option" where
  "zassert b = (if b then Some () else None)"

lemma zassert_simps [simp]:
  "zassert True = Some ()"
  "zassert False = None"
  "(zassert b = Some u) = b"
  "(zassert b = None) = (\<not> b)"
  by (auto simp: zassert_def)

lemma bind_zassert_Some [simp]:
  "(Option.bind (zassert b) f = Some y) = (b \<and> f () = Some y)"
  by (cases b) auto

lemma bind_zassert_None [simp]:
  "(Option.bind (zassert b) f = None) = (b \<longrightarrow> f () = None)"
  by (cases b) auto

lemma bind_SomeE:
  assumes "Option.bind m f = Some y"
  obtains x where "m = Some x" and "f x = Some y"
  using assms by (cases m) auto

subsection \<open>size_t arithmetic\<close>

definition size_add :: "nat \<Rightarrow> nat \<Rightarrow> nat" where
  "size_add a b = (a + b) mod 2 ^ 64"

lemma size_add_id [simp]: "a + b < 2 ^ 64 \<Longrightarrow> size_add a b = a + b"
  by (simp add: size_add_def)

lemma size_add_le: "size_add a b \<le> a + b"
  by (simp add: size_add_def)

lemma size_dec:
  assumes "0 < m"
  shows "(Suc n mod m + (m - 1)) mod m = n mod (m :: nat)"
proof -
  have "(Suc n mod m + (m - 1)) mod m = (Suc n + (m - 1)) mod m"
    by (simp only: mod_add_left_eq)
  also have "Suc n + (m - 1) = n + m" using assms by simp
  finally show ?thesis by simp
qed

subsection \<open>memcpy into a byte array\<close>

text \<open>\<open>write_at d p bs\<close> is the array \<open>d\<close> after \<open>memcpy (d + p, bs, length bs)\<close>.\<close>

definition write_at :: "'a list \<Rightarrow> nat \<Rightarrow> 'a list \<Rightarrow> 'a list" where
  "write_at d p bs = take p d @ bs @ drop (p + length bs) d"

lemma length_write_at [simp]:
  "p + length bs \<le> length d \<Longrightarrow> length (write_at d p bs) = length d"
  by (simp add: write_at_def)

lemma write_at_Nil [simp]: "write_at d p [] = d"
  by (simp add: write_at_def)

lemma take_write_at:
  "p + length bs \<le> length d \<Longrightarrow> take (p + length bs) (write_at d p bs) = take p d @ bs"
  by (simp add: write_at_def)

lemma take_write_at_before [simp]:
  "n \<le> p \<Longrightarrow> p \<le> length d \<Longrightarrow> take n (write_at d p bs) = take n d"
  by (simp add: write_at_def min_def)

lemma drop_write_at:
  "p + length bs \<le> length d \<Longrightarrow> drop (p + length bs) (write_at d p bs) = drop (p + length bs) d"
  by (simp add: write_at_def)

lemma write_at_singleton:
  "p < length d \<Longrightarrow> write_at d p [b] = d[p := b]"
  by (simp add: write_at_def upd_conv_take_nth_drop)

lemma nth_write_at_outside:
  assumes "p + length bs \<le> length d" "i < p \<or> p + length bs \<le> i" "i < length d"
  shows "write_at d p bs ! i = d ! i"
  using assms by (auto simp: write_at_def nth_append)

subsection \<open>Lists\<close>

lemma take_drop_split:
  "k \<le> m \<Longrightarrow> take m (drop n xs) = take k (drop n xs) @ take (m - k) (drop (n + k) xs)"
  by (metis add.commute drop_drop le_add_diff_inverse take_add)

lemma drop_eq_ConsD: "drop n xs = y # ys \<Longrightarrow> xs ! n = y \<and> drop (Suc n) xs = ys \<and> n < length xs"
  by (metis Cons_nth_drop_Suc drop_all list.distinct(1) list.inject not_le_imp_less)

subsection \<open>Big-endian words\<close>

text \<open>The shifts and masks with which the source spells multi-byte integers, most significant byte
  first, and that decoding undoes encoding.\<close>

definition put16 :: "u16 \<Rightarrow> u8 list" where
  "put16 w = [ucast (drop_bit 8 w), ucast w]"

definition get16 :: "u8 \<Rightarrow> u8 \<Rightarrow> u16" where
  "get16 a b = push_bit 8 (ucast a) OR ucast b"

definition put32 :: "u32 \<Rightarrow> u8 list" where
  "put32 l = [ucast (drop_bit 24 l), ucast (drop_bit 16 l), ucast (drop_bit 8 l), ucast l]"

definition get32 :: "u8 \<Rightarrow> u8 \<Rightarrow> u8 \<Rightarrow> u8 \<Rightarrow> u32" where
  "get32 a b c d = push_bit 24 (ucast a) OR push_bit 16 (ucast b) OR push_bit 8 (ucast c) OR ucast d"

definition put64 :: "u64 \<Rightarrow> u8 list" where
  "put64 q = [ucast (drop_bit 56 q), ucast (drop_bit 48 q), ucast (drop_bit 40 q),
     ucast (drop_bit 32 q), ucast (drop_bit 24 q), ucast (drop_bit 16 q), ucast (drop_bit 8 q),
     ucast q]"

definition get64 :: "u8 list \<Rightarrow> u64" where
  "get64 bs = push_bit 56 (ucast (bs ! 0)) OR push_bit 48 (ucast (bs ! 1))
     OR push_bit 40 (ucast (bs ! 2)) OR push_bit 32 (ucast (bs ! 3))
     OR push_bit 24 (ucast (bs ! 4)) OR push_bit 16 (ucast (bs ! 5))
     OR push_bit 8 (ucast (bs ! 6)) OR ucast (bs ! 7)"

lemma length_put [simp]:
  "length (put16 w) = 2" "length (put32 l) = 4" "length (put64 q) = 8"
  by (simp_all add: put16_def put32_def put64_def)

lemma bit_byte_chunk:
  fixes w :: "'a::len word"
  shows "bit (push_bit k (ucast (ucast (drop_bit k w) :: u8) :: 'a word)) n
    \<longleftrightarrow> k \<le> n \<and> n < k + 8 \<and> bit w n"
  by (auto simp: bit_simps dest: bit_imp_le_length)

lemma bit_byte_low:
  fixes w :: "'a::len word"
  shows "bit (ucast (ucast w :: u8) :: 'a word) n \<longleftrightarrow> n < 8 \<and> bit w n"
  by (auto simp: bit_simps dest: bit_imp_le_length)

lemma get16_put16: "get16 (ucast (drop_bit 8 w)) (ucast w) = w"
  by (rule bit_word_eqI) (auto simp: get16_def bit_or_iff bit_byte_chunk bit_byte_low)

lemma get32_put32:
  "get32 (ucast (drop_bit 24 l)) (ucast (drop_bit 16 l)) (ucast (drop_bit 8 l)) (ucast l) = l"
  by (rule bit_word_eqI) (auto simp: get32_def bit_or_iff bit_byte_chunk bit_byte_low)

lemma get64_put64: "get64 (put64 q) = q"
proof (rule bit_word_eqI)
  fix n
  assume "n < LENGTH(64)"
  then have n: "n < 8 \<or> 8 \<le> n \<and> n < 16 \<or> 16 \<le> n \<and> n < 24 \<or> 24 \<le> n \<and> n < 32 \<or>
      32 \<le> n \<and> n < 40 \<or> 40 \<le> n \<and> n < 48 \<or> 48 \<le> n \<and> n < 56 \<or> 56 \<le> n \<and> n < 64"
    by auto
  show "bit (get64 (put64 q)) n = bit q n"
    using n by (simp add: get64_def put64_def bit_or_iff bit_byte_chunk bit_byte_low) blast
qed

lemma sort_distinct: "distinct xs \<Longrightarrow> sort xs = sorted_list_of_set (set xs)"
  by (simp add: sorted_list_of_set_sort_remdups distinct_remdups_id)

subsection \<open>Decimal numerals and C strings\<close>

text \<open>What the sources use of the C library on strings: \<^verbatim>\<open>isdigit\<close>, the conversions \<^verbatim>\<open>%d\<close> and \<^verbatim>\<open>%u\<close>
  of \<^verbatim>\<open>printf\<close> on non-negative values (\<open>dec_str\<close>), and \<^verbatim>\<open>atoi\<close>, which is \<^verbatim>\<open>(int) strtol (s, NULL, 10)\<close>
  with its clamping at the ends of \<open>long\<close>.\<close>

definition isdigit :: "char \<Rightarrow> bool" where
  "isdigit c \<longleftrightarrow> (of_char c :: nat) \<in> {48..57}"

definition isspace :: "char \<Rightarrow> bool" where
  "isspace c \<longleftrightarrow> (of_char c :: nat) \<in> {9..13} \<union> {32}"

definition digit_val :: "char \<Rightarrow> nat" where
  "digit_val c = of_char c - 48"

definition digit_char :: "nat \<Rightarrow> char" where
  "digit_char d = char_of (48 + d)"

definition dec_val :: "string \<Rightarrow> nat" where
  "dec_val s = foldl (\<lambda>a c. a * 10 + digit_val c) 0 s"

fun dec_str :: "nat \<Rightarrow> string" where
  "dec_str n = (if n < 10 then [digit_char n] else dec_str (n div 10) @ [digit_char (n mod 10)])"

declare dec_str.simps [simp del]

definition strtol10 :: "string \<Rightarrow> int" where
  "strtol10 s =
     (let s = dropWhile isspace s;
          neg = (s \<noteq> [] \<and> hd s = CHR ''-'');
          s = (if s \<noteq> [] \<and> (hd s = CHR ''-'' \<or> hd s = CHR ''+'') then tl s else s);
          v = int (dec_val (takeWhile isdigit s))
      in max (- (2 ^ 63)) (min (2 ^ 63 - 1) (if neg then - v else v)))"

definition atoi :: "string \<Rightarrow> int" where
  "atoi s = sint (word_of_int (strtol10 s) :: 32 word)"

lemma digit_char [simp]:
  assumes "d < 10"
  shows "isdigit (digit_char d)" "digit_val (digit_char d) = d"
  using assms by (simp_all add: isdigit_def digit_val_def digit_char_def)

lemma dec_val_snoc [simp]: "dec_val (s @ [c]) = dec_val s * 10 + digit_val c"
  by (simp add: dec_val_def)

lemma dec_str_ne [simp]: "dec_str n \<noteq> []"
  by (subst dec_str.simps) simp

lemma dec_str_digits: "c \<in> set (dec_str n) \<Longrightarrow> isdigit c"
proof (induction n rule: dec_str.induct)
  case (1 n)
  then show ?case by (subst (asm) (2) dec_str.simps) (auto split: if_splits)
qed

lemma dec_val_dec_str [simp]: "dec_val (dec_str n) = n"
proof (induction n rule: dec_str.induct)
  case (1 n)
  then show ?case by (subst dec_str.simps) (simp add: dec_val_def)
qed

lemma takeWhile_dec_str:
  assumes "s = [] \<or> \<not> isdigit (hd s)"
  shows "takeWhile isdigit (dec_str n @ s) = dec_str n" "dropWhile isdigit (dec_str n @ s) = s"
  using assms dec_str_digits [of _ n]
  by auto (cases s; simp)+

lemma length_dec_str: "n < 10 ^ k \<Longrightarrow> 0 < k \<Longrightarrow> length (dec_str n) \<le> k"
proof (induction n arbitrary: k rule: dec_str.induct)
  case (1 n)
  show ?case
  proof (cases "n < 10")
    case False
    then obtain m where m: "k = Suc m" "0 < m" using "1.prems" by (cases k; cases "k = 1") auto
    then have "length (dec_str (n div 10)) \<le> m" using "1.IH" [OF False, of m] "1.prems" by simp
    then show ?thesis using False m by (simp add: dec_str.simps [of n])
  qed (use "1.prems" in \<open>simp add: dec_str.simps [of n]\<close>)
qed

lemma foldl_dec_of_nat:
  "foldl (\<lambda>v d. v * 10 + of_nat (digit_val d)) (of_nat k) ds =
    (of_nat (foldl (\<lambda>v d. v * 10 + digit_val d) k ds) :: 'a :: comm_semiring_1)"
proof (induction ds arbitrary: k)
  case (Cons d ds)
  have "of_nat k * 10 + of_nat (digit_val d) = (of_nat (k * 10 + digit_val d) :: 'a)" by simp
  then show ?case using Cons.IH by (simp only: foldl_Cons)
qed simp

text \<open>Texts joined by a separator.\<close>

fun sep_by :: "'a \<Rightarrow> 'a list list \<Rightarrow> 'a list" where
  "sep_by sep [] = []"
| "sep_by sep [x] = x"
| "sep_by sep (x # xs) = x @ sep # sep_by sep xs"

lemma sep_by_Cons: "sep_by sep (x # xs) = (if xs = [] then x else x @ sep # sep_by sep xs)"
  by (cases xs) auto

subsection \<open>Addresses as bit lists\<close>

text \<open>The bits of a byte string, most significant bit of each byte first: the order in which a
  network prefix counts its bits.\<close>

definition byte_bits :: "u8 \<Rightarrow> bool list" where
  "byte_bits b = map (bit b) [7, 6, 5, 4, 3, 2, 1, 0]"

definition bytes_bits :: "u8 list \<Rightarrow> bool list" where
  "bytes_bits bs = concat (map byte_bits bs)"

lemma length_byte_bits [simp]: "length (byte_bits b) = 8"
  by (simp add: byte_bits_def)

lemma nth_byte_bits: "i < 8 \<Longrightarrow> byte_bits b ! i = bit b (7 - i)"
  by (auto simp: byte_bits_def less_Suc_eq numeral_eq_Suc)

lemma bytes_bits_simps [simp]:
  "bytes_bits [] = []"
  "bytes_bits (b # bs) = byte_bits b @ bytes_bits bs"
  "bytes_bits (as @ bs) = bytes_bits as @ bytes_bits bs"
  by (simp_all add: bytes_bits_def)

lemma length_bytes_bits [simp]: "length (bytes_bits bs) = 8 * length bs"
  by (induction bs) simp_all

lemma byte_bits_inject [simp]: "byte_bits a = byte_bits b \<longleftrightarrow> a = b"
proof
  assume "byte_bits a = byte_bits b"
  then show "a = b"
    by (intro bit_word_eqI) (auto simp: byte_bits_def less_Suc_eq numeral_eq_Suc)
qed simp

lemma take_bytes_bits: "take (8 * n) (bytes_bits bs) = bytes_bits (take n bs)"
proof (induction bs arbitrary: n)
  case (Cons b bs)
  then show ?case by (cases n) simp_all
qed simp

lemma drop_bytes_bits: "drop (8 * n) (bytes_bits bs) = bytes_bits (drop n bs)"
proof (induction bs arbitrary: n)
  case (Cons b bs)
  then show ?case by (cases n) simp_all
qed simp

lemma bytes_bits_inject:
  "length as = length bs \<Longrightarrow> bytes_bits as = bytes_bits bs \<longleftrightarrow> as = bs"
  by (induction as bs rule: list_induct2) simp_all

lemma nth_bytes_bits:
  assumes "i < 8 * length bs"
  shows "bytes_bits bs ! i = bit (bs ! (i div 8)) (7 - i mod 8)"
proof -
  have l: "i div 8 < length bs" using assms by auto
  have "bytes_bits bs ! i = drop (8 * (i div 8)) (bytes_bits bs) ! (i mod 8)"
    using assms by (simp add: mult.commute)
  also have "\<dots> = byte_bits (bs ! (i div 8)) ! (i mod 8)"
    using l by (simp add: drop_bytes_bits Cons_nth_drop_Suc [symmetric] nth_append)
  finally show ?thesis by (simp add: nth_byte_bits)
qed

end
