(* ===== verification/Zstream.thy ===== *)
theory Zstream
  imports Quagga_Prelude
begin

text \<open>
  \<^verbatim>\<open>lib/stream.c\<close>: the bounds-checked byte buffer every packet of every daemon is read from and
  written to, and the fifo of buffers a peer sends from.

  A \<open>stream\<close> holds the buffer and its three markers.  Every operation first checks
  \<^verbatim>\<open>STREAM_VERIFY_SANE\<close> and aborts (\<open>None\<close>) when the markers are out of order; an access out of
  bounds runs into \<^verbatim>\<open>STREAM_BOUND_WARN\<close>, which ends in \<^verbatim>\<open>assert (0)\<close>, so it aborts too and the
  statements after it are never reached.  \<open>XMALLOC\<close> and \<open>XREALLOC\<close> abort the daemon when memory
  runs out, so their NULL branches are not modelled; the bytes they leave unset are a parameter
  \<open>fill\<close>.  Data read from a descriptor is a parameter too: the number the system call returns and
  the bytes it stored.
\<close>

subsection \<open>The buffer and its markers\<close>

record stream =
  getp :: nat
  endp :: nat
  ssize :: nat
  data :: "u8 list"

definition GETP_VALID :: "stream \<Rightarrow> nat \<Rightarrow> bool" where
  "GETP_VALID s g \<longleftrightarrow> g \<le> endp s"

definition PUT_AT_VALID :: "stream \<Rightarrow> nat \<Rightarrow> bool" where
  "PUT_AT_VALID s g \<longleftrightarrow> GETP_VALID s g"

definition ENDP_VALID :: "stream \<Rightarrow> nat \<Rightarrow> bool" where
  "ENDP_VALID s e \<longleftrightarrow> e \<le> ssize s"

definition STREAM_VERIFY_SANE :: "stream \<Rightarrow> unit option" where
  "STREAM_VERIFY_SANE s = do { zassert (GETP_VALID s (getp s)); zassert (ENDP_VALID s (endp s)) }"

definition STREAM_WRITEABLE :: "stream \<Rightarrow> nat" where
  "STREAM_WRITEABLE s = ssize s - endp s"

definition STREAM_READABLE :: "stream \<Rightarrow> nat" where
  "STREAM_READABLE s = endp s - getp s"

text \<open>\<^verbatim>\<open>CHECK_SIZE\<close>: truncate the requested size to the room that is left.\<close>

definition CHECK_SIZE :: "stream \<Rightarrow> nat \<Rightarrow> nat" where
  "CHECK_SIZE s z = (if size_add (endp s) z > ssize s then ssize s - endp s else z)"

definition stream_new :: "(nat \<Rightarrow> u8) \<Rightarrow> nat \<Rightarrow> stream option" where
  "stream_new fill n = do {
     zassert (n > 0);
     Some \<lparr>getp = 0, endp = 0, ssize = n, data = map fill [0..<n]\<rparr> }"

definition stream_copy :: "stream \<Rightarrow> stream \<Rightarrow> stream option" where
  "stream_copy new src = do {
     STREAM_VERIFY_SANE src;
     zassert (ssize new \<ge> endp src);
     Some (new\<lparr>endp := endp src, getp := getp src,
               data := write_at (data new) 0 (take (endp src) (data src))\<rparr>) }"

definition stream_dup :: "(nat \<Rightarrow> u8) \<Rightarrow> stream \<Rightarrow> stream option" where
  "stream_dup fill s = do {
     STREAM_VERIFY_SANE s;
     new \<leftarrow> stream_new fill (endp s);
     stream_copy new s }"

text \<open>An \<open>offset\<close> beyond \<open>endp\<close> of the first stream makes the last \<open>memcpy\<close> size wrap around:
  undefined behaviour, hence \<open>None\<close>.\<close>

definition stream_dupcat :: "(nat \<Rightarrow> u8) \<Rightarrow> stream \<Rightarrow> stream \<Rightarrow> nat \<Rightarrow> stream option" where
  "stream_dupcat fill s1 s2 offset = do {
     STREAM_VERIFY_SANE s1;
     STREAM_VERIFY_SANE s2;
     new \<leftarrow> stream_new fill (size_add (endp s1) (endp s2));
     zassert (offset \<le> endp s1 \<and> endp s1 + endp s2 < 2 ^ 64);
     let d = write_at (data new) 0 (take offset (data s1));
         d = write_at d offset (take (endp s2) (data s2));
         d = write_at d (offset + endp s2) (take (endp s1 - offset) (drop offset (data s1)))
     in Some (new\<lparr>data := d, endp := endp s1 + endp s2\<rparr>) }"

definition stream_resize :: "(nat \<Rightarrow> u8) \<Rightarrow> stream \<Rightarrow> nat \<Rightarrow> (nat \<times> stream) option" where
  "stream_resize fill s newsize = do {
     STREAM_VERIFY_SANE s;
     let s1 = s\<lparr>data := take newsize (data s) @ map fill [length (data s)..<newsize], ssize := newsize\<rparr>;
         s2 = (if endp s1 > ssize s1 then s1\<lparr>endp := ssize s1\<rparr> else s1);
         s3 = (if getp s2 > endp s2 then s2\<lparr>getp := endp s2\<rparr> else s2)
     in do { STREAM_VERIFY_SANE s3; Some (ssize s3, s3) } }"

definition stream_get_getp :: "stream \<Rightarrow> nat option" where
  "stream_get_getp s = do { STREAM_VERIFY_SANE s; Some (getp s) }"

definition stream_get_endp :: "stream \<Rightarrow> nat option" where
  "stream_get_endp s = do { STREAM_VERIFY_SANE s; Some (endp s) }"

definition stream_get_size :: "stream \<Rightarrow> nat option" where
  "stream_get_size s = do { STREAM_VERIFY_SANE s; Some (ssize s) }"

definition stream_set_getp :: "stream \<Rightarrow> nat \<Rightarrow> stream option" where
  "stream_set_getp s pos = do {
     STREAM_VERIFY_SANE s;
     zassert (GETP_VALID s pos);
     Some (s\<lparr>getp := pos\<rparr>) }"

definition stream_set_endp :: "stream \<Rightarrow> nat \<Rightarrow> stream option" where
  "stream_set_endp s pos = do {
     STREAM_VERIFY_SANE s;
     zassert (ENDP_VALID s pos);
     zassert (\<not> getp s > pos);
     let s' = s\<lparr>endp := pos\<rparr> in do { STREAM_VERIFY_SANE s'; Some s' } }"

definition stream_forward_getp :: "stream \<Rightarrow> nat \<Rightarrow> stream option" where
  "stream_forward_getp s n = do {
     STREAM_VERIFY_SANE s;
     zassert (GETP_VALID s (size_add (getp s) n));
     Some (s\<lparr>getp := size_add (getp s) n\<rparr>) }"

definition stream_forward_endp :: "stream \<Rightarrow> nat \<Rightarrow> stream option" where
  "stream_forward_endp s n = do {
     STREAM_VERIFY_SANE s;
     zassert (ENDP_VALID s (size_add (endp s) n));
     Some (s\<lparr>endp := size_add (endp s) n\<rparr>) }"

subsection \<open>Reading\<close>

definition stream_get :: "stream \<Rightarrow> nat \<Rightarrow> (u8 list \<times> stream) option" where
  "stream_get s n = do {
     STREAM_VERIFY_SANE s;
     zassert (\<not> STREAM_READABLE s < n);
     Some (take n (drop (getp s) (data s)), s\<lparr>getp := getp s + n\<rparr>) }"

definition stream_getc :: "stream \<Rightarrow> (u8 \<times> stream) option" where
  "stream_getc s = do {
     STREAM_VERIFY_SANE s;
     zassert (\<not> STREAM_READABLE s < 1);
     Some (data s ! getp s, s\<lparr>getp := getp s + 1\<rparr>) }"

definition stream_getc_from :: "stream \<Rightarrow> nat \<Rightarrow> u8 option" where
  "stream_getc_from s from = do {
     STREAM_VERIFY_SANE s;
     zassert (GETP_VALID s (size_add from 1));
     zassert (from < length (data s));
     Some (data s ! from) }"

definition stream_getw :: "stream \<Rightarrow> (u16 \<times> stream) option" where
  "stream_getw s = do {
     STREAM_VERIFY_SANE s;
     zassert (\<not> STREAM_READABLE s < 2);
     let p = getp s; d = data s
     in Some (get16 (d ! p) (d ! (p + 1)), s\<lparr>getp := p + 2\<rparr>) }"

definition stream_getw_from :: "stream \<Rightarrow> nat \<Rightarrow> u16 option" where
  "stream_getw_from s from = do {
     STREAM_VERIFY_SANE s;
     zassert (GETP_VALID s (size_add from 2));
     zassert (from + 1 < length (data s));
     let d = data s in Some (get16 (d ! from) (d ! (from + 1))) }"

definition stream_getl :: "stream \<Rightarrow> (u32 \<times> stream) option" where
  "stream_getl s = do {
     STREAM_VERIFY_SANE s;
     zassert (\<not> STREAM_READABLE s < 4);
     let p = getp s; d = data s
     in Some (get32 (d ! p) (d ! (p + 1)) (d ! (p + 2)) (d ! (p + 3)), s\<lparr>getp := p + 4\<rparr>) }"

definition stream_getl_from :: "stream \<Rightarrow> nat \<Rightarrow> u32 option" where
  "stream_getl_from s from = do {
     STREAM_VERIFY_SANE s;
     zassert (GETP_VALID s (size_add from 4));
     zassert (from + 3 < length (data s));
     let d = data s
     in Some (get32 (d ! from) (d ! (from + 1)) (d ! (from + 2)) (d ! (from + 3))) }"

definition stream_getq :: "stream \<Rightarrow> (u64 \<times> stream) option" where
  "stream_getq s = do {
     STREAM_VERIFY_SANE s;
     zassert (\<not> STREAM_READABLE s < 8);
     Some (get64 (take 8 (drop (getp s) (data s))), s\<lparr>getp := getp s + 8\<rparr>) }"

definition stream_getq_from :: "stream \<Rightarrow> nat \<Rightarrow> u64 option" where
  "stream_getq_from s from = do {
     STREAM_VERIFY_SANE s;
     zassert (GETP_VALID s (size_add from 8));
     zassert (from + 7 < length (data s));
     Some (get64 (take 8 (drop from (data s)))) }"

text \<open>An IPv4 address is copied as four raw bytes: it stays in network byte order.\<close>

definition stream_get_ipv4 :: "stream \<Rightarrow> (u8 list \<times> stream) option" where
  "stream_get_ipv4 s = do {
     STREAM_VERIFY_SANE s;
     zassert (\<not> STREAM_READABLE s < 4);
     Some (take 4 (drop (getp s) (data s)), s\<lparr>getp := getp s + 4\<rparr>) }"

subsection \<open>Writing\<close>

text \<open>\<^verbatim>\<open>stream_put\<close> copies \<open>size\<close> bytes of its source, or zeroes when the source is NULL.\<close>

definition stream_put :: "stream \<Rightarrow> u8 list option \<Rightarrow> nat \<Rightarrow> stream option" where
  "stream_put s src n =
     (let n = CHECK_SIZE s n in do {
        STREAM_VERIFY_SANE s;
        zassert (\<not> STREAM_WRITEABLE s < n);
        let bs = (case src of Some b \<Rightarrow> take n b | None \<Rightarrow> replicate n 0)
        in do {
          zassert (length bs = n);
          Some (s\<lparr>data := write_at (data s) (endp s) bs, endp := endp s + n\<rparr>) } })"

definition stream_write :: "stream \<Rightarrow> u8 list \<Rightarrow> nat \<Rightarrow> (nat \<times> stream) option" where
  "stream_write s ptr n =
     (let n = CHECK_SIZE s n in do {
        STREAM_VERIFY_SANE s;
        zassert (\<not> STREAM_WRITEABLE s < n);
        zassert (n \<le> length ptr);
        Some (n, s\<lparr>data := write_at (data s) (endp s) (take n ptr), endp := endp s + n\<rparr>) })"

definition stream_putc :: "stream \<Rightarrow> u8 \<Rightarrow> (nat \<times> stream) option" where
  "stream_putc s c = do {
     STREAM_VERIFY_SANE s;
     zassert (\<not> STREAM_WRITEABLE s < 1);
     Some (1, s\<lparr>data := write_at (data s) (endp s) [c], endp := endp s + 1\<rparr>) }"

definition stream_putw :: "stream \<Rightarrow> u16 \<Rightarrow> (nat \<times> stream) option" where
  "stream_putw s w = do {
     STREAM_VERIFY_SANE s;
     zassert (\<not> STREAM_WRITEABLE s < 2);
     Some (2, s\<lparr>data := write_at (data s) (endp s) (put16 w), endp := endp s + 2\<rparr>) }"

definition stream_putl :: "stream \<Rightarrow> u32 \<Rightarrow> (nat \<times> stream) option" where
  "stream_putl s l = do {
     STREAM_VERIFY_SANE s;
     zassert (\<not> STREAM_WRITEABLE s < 4);
     Some (4, s\<lparr>data := write_at (data s) (endp s) (put32 l), endp := endp s + 4\<rparr>) }"

definition stream_putq :: "stream \<Rightarrow> u64 \<Rightarrow> (nat \<times> stream) option" where
  "stream_putq s q = do {
     STREAM_VERIFY_SANE s;
     zassert (\<not> STREAM_WRITEABLE s < 8);
     Some (8, s\<lparr>data := write_at (data s) (endp s) (put64 q), endp := endp s + 8\<rparr>) }"

text \<open>The \<open>_at\<close> forms overwrite bytes already put.  A \<open>putp\<close> near \<open>2 ^ 64\<close> passes the wrapped check
  and writes outside the buffer: undefined behaviour.\<close>

definition put_at :: "stream \<Rightarrow> nat \<Rightarrow> u8 list \<Rightarrow> (nat \<times> stream) option" where
  "put_at s putp bs = do {
     STREAM_VERIFY_SANE s;
     zassert (PUT_AT_VALID s (size_add putp (length bs)));
     zassert (putp + length bs \<le> length (data s));
     Some (length bs, s\<lparr>data := write_at (data s) putp bs\<rparr>) }"

definition stream_putc_at :: "stream \<Rightarrow> nat \<Rightarrow> u8 \<Rightarrow> (nat \<times> stream) option" where
  "stream_putc_at s putp c = put_at s putp [c]"

definition stream_putw_at :: "stream \<Rightarrow> nat \<Rightarrow> u16 \<Rightarrow> (nat \<times> stream) option" where
  "stream_putw_at s putp w = put_at s putp (put16 w)"

definition stream_putl_at :: "stream \<Rightarrow> nat \<Rightarrow> u32 \<Rightarrow> (nat \<times> stream) option" where
  "stream_putl_at s putp l = put_at s putp (put32 l)"

definition stream_putq_at :: "stream \<Rightarrow> nat \<Rightarrow> u64 \<Rightarrow> (nat \<times> stream) option" where
  "stream_putq_at s putp q = put_at s putp (put64 q)"

definition stream_put_ipv4 :: "stream \<Rightarrow> u8 list \<Rightarrow> (nat \<times> stream) option" where
  "stream_put_ipv4 s l = do {
     STREAM_VERIFY_SANE s;
     zassert (\<not> STREAM_WRITEABLE s < 4);
     Some (4, s\<lparr>data := write_at (data s) (endp s) (take 4 l), endp := endp s + 4\<rparr>) }"

definition stream_put_in_addr :: "stream \<Rightarrow> u8 list \<Rightarrow> (nat \<times> stream) option" where
  "stream_put_in_addr s addr = do {
     STREAM_VERIFY_SANE s;
     zassert (\<not> STREAM_WRITEABLE s < 4);
     Some (4, s\<lparr>data := write_at (data s) (endp s) (take 4 addr), endp := endp s + 4\<rparr>) }"

subsection \<open>Descriptors\<close>

text \<open>\<open>rd n\<close> is what the system call does when asked for \<open>n\<close> bytes: the number it returns and the
  bytes it stored.  \<open>retry\<close> is \<^verbatim>\<open>ERRNO_IO_RETRY (errno)\<close>.\<close>

definition stream_read :: "(nat \<Rightarrow> int \<times> u8 list) \<Rightarrow> stream \<Rightarrow> nat \<Rightarrow> (int \<times> stream) option" where
  "stream_read rd s n = do {
     STREAM_VERIFY_SANE s;
     zassert (\<not> STREAM_WRITEABLE s < n);
     let (nbytes, bs) = rd n; s1 = s\<lparr>data := write_at (data s) (endp s) bs\<rparr>
     in Some (nbytes, if nbytes > 0 then s1\<lparr>endp := endp s1 + nat nbytes\<rparr> else s1) }"

definition stream_read_try ::
  "(nat \<Rightarrow> int \<times> u8 list) \<Rightarrow> bool \<Rightarrow> stream \<Rightarrow> nat \<Rightarrow> (int \<times> stream) option" where
  "stream_read_try rd retry s n = do {
     STREAM_VERIFY_SANE s;
     zassert (\<not> STREAM_WRITEABLE s < n);
     let (nbytes, bs) = rd n; s1 = s\<lparr>data := write_at (data s) (endp s) bs\<rparr>
     in Some (if nbytes \<ge> 0 then (nbytes, s1\<lparr>endp := endp s1 + nat nbytes\<rparr>)
              else if retry then (-2, s1) else (-1, s1)) }"

definition stream_recvfrom ::
  "(nat \<Rightarrow> int \<times> u8 list) \<Rightarrow> bool \<Rightarrow> stream \<Rightarrow> nat \<Rightarrow> (int \<times> stream) option" where
  "stream_recvfrom rd retry s n = do {
     STREAM_VERIFY_SANE s;
     zassert (\<not> STREAM_WRITEABLE s < n);
     let (nbytes, bs) = rd n; s1 = s\<lparr>data := write_at (data s) (endp s) bs\<rparr>
     in Some (if nbytes \<ge> 0 then (nbytes, s1\<lparr>endp := endp s1 + nat nbytes\<rparr>)
              else if retry then (-2, s1) else (-1, s1)) }"

definition stream_recvmsg ::
  "(nat \<Rightarrow> int \<times> u8 list) \<Rightarrow> nat \<Rightarrow> stream \<Rightarrow> nat \<Rightarrow> (int \<times> stream) option" where
  "stream_recvmsg rd iovlen s n = do {
     STREAM_VERIFY_SANE s;
     zassert (iovlen > 0);
     zassert (\<not> STREAM_WRITEABLE s < n);
     let (nbytes, bs) = rd n; s1 = s\<lparr>data := write_at (data s) (endp s) bs\<rparr>
     in Some (nbytes, if nbytes > 0 then s1\<lparr>endp := endp s1 + nat nbytes\<rparr> else s1) }"

text \<open>The bytes \<^verbatim>\<open>stream_flush\<close> hands to \<open>write\<close>; \<open>stream_pnt\<close> is the buffer from the read marker on.\<close>

definition stream_flush :: "(u8 list \<Rightarrow> int) \<Rightarrow> stream \<Rightarrow> int option" where
  "stream_flush wr s = do {
     STREAM_VERIFY_SANE s;
     Some (wr (take (endp s - getp s) (drop (getp s) (data s)))) }"

definition stream_pnt :: "stream \<Rightarrow> u8 list option" where
  "stream_pnt s = do { STREAM_VERIFY_SANE s; Some (drop (getp s) (data s)) }"

definition stream_empty :: "stream \<Rightarrow> bool option" where
  "stream_empty s = do { STREAM_VERIFY_SANE s; Some (endp s = 0) }"

definition stream_reset :: "stream \<Rightarrow> stream option" where
  "stream_reset s = do { STREAM_VERIFY_SANE s; Some (s\<lparr>getp := 0, endp := 0\<rparr>) }"

subsection \<open>The fifo of streams\<close>

text \<open>The fifo links the streams through their own \<^verbatim>\<open>next\<close> field, so its state is the two ends, the
  count, and the store of \<^verbatim>\<open>next\<close> links \<open>nx\<close>, indexed by stream address.  Neither \<^verbatim>\<open>stream_fifo_push\<close>
  nor \<^verbatim>\<open>stream_fifo_pop\<close> clears the \<^verbatim>\<open>next\<close> of the stream it moves.\<close>

type_synonym addr = nat

record stream_fifo =
  fcount :: nat
  head :: "addr option"
  tail :: "addr option"
  nx :: "addr \<Rightarrow> addr option"

definition stream_fifo_new :: "(addr \<Rightarrow> addr option) \<Rightarrow> stream_fifo" where
  "stream_fifo_new store = \<lparr>fcount = 0, head = None, tail = None, nx = store\<rparr>"

definition stream_fifo_push :: "stream_fifo \<Rightarrow> addr \<Rightarrow> stream_fifo" where
  "stream_fifo_push fifo s =
     (let fifo1 = (case tail fifo of
                     Some t \<Rightarrow> fifo\<lparr>nx := (nx fifo)(t := Some s)\<rparr>
                   | None \<Rightarrow> fifo\<lparr>head := Some s\<rparr>)
      in fifo1\<lparr>tail := Some s, fcount := size_add (fcount fifo1) 1\<rparr>)"

definition stream_fifo_pop :: "stream_fifo \<Rightarrow> addr option \<times> stream_fifo" where
  "stream_fifo_pop fifo =
     (case head fifo of
        None \<Rightarrow> (None, fifo)
      | Some s \<Rightarrow>
          (let f1 = fifo\<lparr>head := nx fifo s\<rparr>;
               f2 = (if head f1 = None then f1\<lparr>tail := None\<rparr> else f1)
           in (Some s, f2\<lparr>fcount := (fcount f2 + (2 ^ 64 - 1)) mod 2 ^ 64\<rparr>)))"

definition stream_fifo_head :: "stream_fifo \<Rightarrow> addr option" where
  "stream_fifo_head fifo = head fifo"

text \<open>The loop of \<^verbatim>\<open>stream_fifo_clean\<close>: the streams it frees, in order.  On a cyclic chain it would
  not return, which is \<open>None\<close>.\<close>

partial_function (option) stream_fifo_walk ::
  "(addr \<Rightarrow> addr option) \<Rightarrow> addr option \<Rightarrow> addr list option" where
  "stream_fifo_walk store p =
     (case p of
        None \<Rightarrow> Some []
      | Some s \<Rightarrow> do { rest \<leftarrow> stream_fifo_walk store (store s); Some (s # rest) })"

definition stream_fifo_clean :: "stream_fifo \<Rightarrow> (addr list \<times> stream_fifo) option" where
  "stream_fifo_clean fifo = do {
     freed \<leftarrow> stream_fifo_walk (nx fifo) (head fifo);
     Some (freed, fifo\<lparr>head := None, tail := None, fcount := 0\<rparr>) }"

subsection \<open>The invariant and the unread bytes\<close>

definition sane :: "stream \<Rightarrow> bool" where
  "sane s \<longleftrightarrow> getp s \<le> endp s \<and> endp s \<le> ssize s \<and> length (data s) = ssize s \<and> ssize s < 2 ^ 64"

definition unread :: "stream \<Rightarrow> u8 list" where
  "unread s = take (endp s - getp s) (drop (getp s) (data s))"

definition written :: "stream \<Rightarrow> u8 list" where
  "written s = take (endp s) (data s)"

definition append_bytes :: "stream \<Rightarrow> u8 list \<Rightarrow> stream" where
  "append_bytes s bs = s\<lparr>data := write_at (data s) (endp s) bs, endp := endp s + length bs\<rparr>"

definition advance :: "stream \<Rightarrow> nat \<Rightarrow> stream" where
  "advance s n = s\<lparr>getp := getp s + n\<rparr>"

lemmas marker_defs = GETP_VALID_def PUT_AT_VALID_def ENDP_VALID_def STREAM_READABLE_def
  STREAM_WRITEABLE_def

lemma verify_sane [simp]: "sane s \<Longrightarrow> STREAM_VERIFY_SANE s = Some ()"
  by (simp add: STREAM_VERIFY_SANE_def sane_def marker_defs)

lemma verify_sane_Some:
  "(STREAM_VERIFY_SANE s = Some u) \<longleftrightarrow> getp s \<le> endp s \<and> endp s \<le> ssize s"
  by (simp add: STREAM_VERIFY_SANE_def marker_defs)

lemma bind_verify_sane_Some [simp]:
  "(Option.bind (STREAM_VERIFY_SANE s) f = Some y)
     \<longleftrightarrow> getp s \<le> endp s \<and> endp s \<le> ssize s \<and> f () = Some y"
  by (auto simp: STREAM_VERIFY_SANE_def marker_defs)

lemma length_unread: "sane s \<Longrightarrow> length (unread s) = STREAM_READABLE s"
  by (auto simp: sane_def unread_def marker_defs)

lemma append_bytes_Nil [simp]: "append_bytes s [] = s"
  by (simp add: append_bytes_def)

lemma append_bytes_simps [simp]:
  "getp (append_bytes s bs) = getp s"
  "endp (append_bytes s bs) = endp s + length bs"
  "ssize (append_bytes s bs) = ssize s"
  "STREAM_WRITEABLE (append_bytes s bs) = STREAM_WRITEABLE s - length bs"
  by (auto simp: append_bytes_def STREAM_WRITEABLE_def)

lemma sane_append_bytes [simp]:
  "sane s \<Longrightarrow> length bs \<le> STREAM_WRITEABLE s \<Longrightarrow> sane (append_bytes s bs)"
  by (auto simp: sane_def append_bytes_def marker_defs)

lemma append_bytes_append:
  assumes "sane s" "length bs + length cs \<le> STREAM_WRITEABLE s"
  shows "append_bytes (append_bytes s bs) cs = append_bytes s (bs @ cs)"
  using assms by (auto simp: sane_def append_bytes_def marker_defs write_at_def ac_simps)

lemma written_append_bytes:
  assumes "sane s" "length bs \<le> STREAM_WRITEABLE s"
  shows "written (append_bytes s bs) = written s @ bs"
  using assms take_write_at [of "endp s" bs "data s"]
  by (auto simp: sane_def append_bytes_def written_def marker_defs)

lemma unread_written: "sane s \<Longrightarrow> unread s = drop (getp s) (written s)"
  by (simp add: sane_def unread_def written_def drop_take)

lemma unread_append_bytes:
  assumes "sane s" "length bs \<le> STREAM_WRITEABLE s"
  shows "unread (append_bytes s bs) = unread s @ bs"
  using assms by (simp add: unread_written written_append_bytes)
    (auto simp: sane_def written_def)

lemma advance_simps [simp]:
  "getp (advance s n) = getp s + n" "endp (advance s n) = endp s"
  "ssize (advance s n) = ssize s" "data (advance s n) = data s"
  "advance s 0 = s" "advance (advance s n) m = advance s (n + m)"
  by (auto simp: advance_def)

lemma sane_advance [simp]: "sane s \<Longrightarrow> n \<le> STREAM_READABLE s \<Longrightarrow> sane (advance s n)"
  by (auto simp: sane_def advance_def marker_defs)

lemma unread_advance: "sane s \<Longrightarrow> n \<le> STREAM_READABLE s \<Longrightarrow> unread (advance s n) = drop n (unread s)"
  by (auto simp: unread_def drop_take add.commute)

lemma unread_advance_append:
  assumes "sane s" "unread s = bs @ rest"
  shows "length bs \<le> STREAM_READABLE s" "unread (advance s (length bs)) = rest"
proof -
  show le: "length bs \<le> STREAM_READABLE s"
    using assms length_unread [of s] by simp
  show "unread (advance s (length bs)) = rest"
    using assms unread_advance [OF assms(1) le] by simp
qed

text \<open>Reading the next bytes of the buffer is reading the next bytes of \<open>unread\<close>.\<close>

lemma data_unread:
  assumes "sane s" "i < STREAM_READABLE s"
  shows "data s ! (getp s + i) = unread s ! i"
  using assms by (auto simp: sane_def unread_def marker_defs)

lemma data_unread_append:
  assumes "sane s" "unread s = bs @ rest" "i < length bs"
  shows "data s ! (getp s + i) = bs ! i"
  using assms data_unread [of s i] unread_advance_append(1) [OF assms(1,2)]
  by (simp add: nth_append)

lemma take_data_unread:
  assumes "sane s" "unread s = bs @ rest"
  shows "take (length bs) (drop (getp s) (data s)) = bs"
proof -
  have "length bs \<le> endp s - getp s"
    using unread_advance_append(1) [OF assms] by (simp add: marker_defs)
  then have "take (length bs) (unread s) = take (length bs) (drop (getp s) (data s))"
    by (simp add: unread_def min_def)
  then show ?thesis using assms(2) by simp
qed

subsection \<open>Fixed-width fields as a contract\<close>

text \<open>Clients write and read sequences of fixed-width fields.  \<open>put_all\<close> and \<open>get_n\<close> are their loops;
  the locale is what a pair of field operations promises, and its lemmas what the loops do.\<close>

fun put_all :: "(stream \<Rightarrow> 'a \<Rightarrow> (nat \<times> stream) option) \<Rightarrow> stream \<Rightarrow> 'a list \<Rightarrow> stream option" where
  "put_all put s [] = Some s"
| "put_all put s (x # xs) = do { (_, s') \<leftarrow> put s x; put_all put s' xs }"

fun get_n :: "(stream \<Rightarrow> ('a \<times> stream) option) \<Rightarrow> nat \<Rightarrow> stream \<Rightarrow> ('a list \<times> stream) option" where
  "get_n get 0 s = Some ([], s)"
| "get_n get (Suc n) s = do { (x, s') \<leftarrow> get s; (xs, s'') \<leftarrow> get_n get n s'; Some (x # xs, s'') }"

locale wire_field =
  fixes put :: "stream \<Rightarrow> 'a \<Rightarrow> (nat \<times> stream) option"
    and get :: "stream \<Rightarrow> ('a \<times> stream) option"
    and enc :: "'a \<Rightarrow> u8 list"
    and width :: nat
  assumes enc_width [simp]: "length (enc x) = width"
    and put_ok: "sane s \<Longrightarrow> width \<le> STREAM_WRITEABLE s \<Longrightarrow> put s x = Some (width, append_bytes s (enc x))"
    and put_full: "sane s \<Longrightarrow> STREAM_WRITEABLE s < width \<Longrightarrow> put s x = None"
    and get_ok: "sane s \<Longrightarrow> unread s = enc x @ rest \<Longrightarrow> get s = Some (x, advance s width)"
    and get_short: "sane s \<Longrightarrow> STREAM_READABLE s < width \<Longrightarrow> get s = None"
    and get_total: "sane s \<Longrightarrow> width \<le> STREAM_READABLE s \<Longrightarrow> \<exists>x. get s = Some (x, advance s width)"
begin

lemma length_enc_all: "length (concat (map enc xs)) = length xs * width"
  by (induction xs) auto

lemma put_all_ok:
  assumes "sane s" "length xs * width \<le> STREAM_WRITEABLE s"
  shows "put_all put s xs = Some (append_bytes s (concat (map enc xs)))"
  using assms
proof (induction xs arbitrary: s)
  case Nil
  then show ?case by simp
next
  case (Cons x xs)
  then show ?case
    by (simp add: put_ok append_bytes_append length_enc_all)
qed

lemma get_n_ok:
  assumes "sane s" "unread s = concat (map enc xs) @ rest"
  shows "get_n get (length xs) s = Some (xs, advance s (length xs * width))"
  using assms
proof (induction xs arbitrary: s)
  case Nil
  then show ?case by simp
next
  case (Cons x xs)
  from Cons.prems have u: "unread s = enc x @ (concat (map enc xs) @ rest)"
    by simp
  note a = unread_advance_append [OF Cons.prems(1) u]
  have "get_n get (length xs) (advance s width) = Some (xs, advance (advance s width) (length xs * width))"
    using Cons.IH [of "advance s width"] a Cons.prems(1) by simp
  then show ?case
    using get_ok [OF Cons.prems(1) u] by simp
qed

lemma get_n_total:
  assumes "sane s" "n * width \<le> STREAM_READABLE s"
  shows "\<exists>xs. get_n get n s = Some (xs, advance s (n * width)) \<and> length xs = n"
  using assms
proof (induction n arbitrary: s)
  case 0
  then show ?case by simp
next
  case (Suc n)
  then obtain x where x: "get s = Some (x, advance s width)"
    using get_total [of s] by auto
  have "sane (advance s width)" "n * width \<le> STREAM_READABLE (advance s width)"
    using Suc.prems by (auto simp: marker_defs)
  with Suc.IH obtain xs where "get_n get n (advance s width) = Some (xs, advance (advance s width) (n * width))"
      "length xs = n"
    by blast
  with x show ?case by auto
qed

theorem get_n_put_all:
  assumes "sane s" "unread s = []" "length xs * width \<le> STREAM_WRITEABLE s"
  shows "\<exists>s'. put_all put s xs = Some s' \<and> sane s' \<and>
      (\<exists>s''. get_n get (length xs) s' = Some (xs, s'') \<and> unread s'' = [])"
proof -
  let ?s = "append_bytes s (concat (map enc xs))"
  have s: "sane ?s" "unread ?s = concat (map enc xs) @ []"
    using assms by (simp_all add: unread_append_bytes length_enc_all)
  from put_all_ok [OF assms(1,3)] get_n_ok [OF s] unread_advance_append(2) [OF s] s(1)
  show ?thesis by (auto simp: length_enc_all)
qed

end

lemma bytes4: "length bs = 4 \<Longrightarrow> bs = [bs ! 0, bs ! 1, bs ! 2, bs ! 3]"
  by (auto simp: numeral_eq_Suc length_Suc_conv)

interpretation field_c: wire_field stream_putc stream_getc "\<lambda>c. [c]" 1
proof unfold_locales
  fix s c rest
  assume s: "sane s" and u: "unread s = [c] @ rest"
  show "stream_getc s = Some (c, advance s 1)"
    using s unread_advance_append(1) [OF s u] data_unread_append [OF s u, of 0]
    by (simp add: stream_getc_def advance_def)
qed (auto simp: stream_putc_def stream_getc_def append_bytes_def advance_def marker_defs)

interpretation field_w: wire_field stream_putw stream_getw put16 2
proof unfold_locales
  fix s w rest
  assume s: "sane s" and u: "unread s = put16 w @ rest"
  show "stream_getw s = Some (w, advance s 2)"
    using s unread_advance_append(1) [OF s u] data_unread_append [OF s u, of 0]
      data_unread_append [OF s u, of 1] get16_put16 [of w]
    by (simp add: stream_getw_def advance_def Let_def put16_def)
qed (auto simp: stream_putw_def stream_getw_def append_bytes_def advance_def marker_defs Let_def)

interpretation field_l: wire_field stream_putl stream_getl put32 4
proof unfold_locales
  fix s l rest
  assume s: "sane s" and u: "unread s = put32 l @ rest"
  show "stream_getl s = Some (l, advance s 4)"
    using s unread_advance_append(1) [OF s u] data_unread_append [OF s u, of 0]
      data_unread_append [OF s u, of 1] data_unread_append [OF s u, of 2]
      data_unread_append [OF s u, of 3] get32_put32 [of l]
    by (simp add: stream_getl_def advance_def Let_def put32_def)
qed (auto simp: stream_putl_def stream_getl_def append_bytes_def advance_def marker_defs Let_def)

interpretation field_q: wire_field stream_putq stream_getq put64 8
proof unfold_locales
  fix s q rest
  assume s: "sane s" and u: "unread s = put64 q @ rest"
  show "stream_getq s = Some (q, advance s 8)"
    using s unread_advance_append(1) [OF s u] take_data_unread [OF s u] get64_put64 [of q]
    by (simp add: stream_getq_def advance_def)
qed (auto simp: stream_putq_def stream_getq_def append_bytes_def advance_def marker_defs)

subsection \<open>Every operation keeps the markers in order\<close>

text \<open>One operation needs a side condition: \<^verbatim>\<open>stream_forward_endp\<close> adds a \<open>size_t\<close> without checking that
  the sum does not wrap around, and unlike \<^verbatim>\<open>stream_set_endp\<close> it does not compare the new end with
  the read marker.\<close>

text \<open>What the source relies on of \<open>read\<close>, \<open>recvfrom\<close> and \<open>recvmsg\<close>: at most the bytes asked for are
  stored, and the count returned is the number stored.\<close>

definition rd_ok :: "(nat \<Rightarrow> int \<times> u8 list) \<Rightarrow> bool" where
  "rd_ok rd \<longleftrightarrow> (\<forall>n. fst (rd n) \<le> int n \<and> length (snd (rd n)) = nat (fst (rd n)))"

inductive stream_step :: "stream \<Rightarrow> stream \<Rightarrow> bool" where
  copy: "stream_copy s src = Some s' \<Longrightarrow> sane src \<Longrightarrow> stream_step s s'"
| resize: "stream_resize fill s n = Some (r, s') \<Longrightarrow> n < 2 ^ 64 \<Longrightarrow> stream_step s s'"
| set_getp: "stream_set_getp s n = Some s' \<Longrightarrow> stream_step s s'"
| set_endp: "stream_set_endp s n = Some s' \<Longrightarrow> stream_step s s'"
| forward_getp: "stream_forward_getp s n = Some s' \<Longrightarrow> stream_step s s'"
| forward_endp: "stream_forward_endp s n = Some s' \<Longrightarrow> endp s + n < 2 ^ 64 \<Longrightarrow> stream_step s s'"
| get: "stream_get s n = Some (bs, s') \<Longrightarrow> stream_step s s'"
| getc: "stream_getc s = Some (c, s') \<Longrightarrow> stream_step s s'"
| getw: "stream_getw s = Some (w, s') \<Longrightarrow> stream_step s s'"
| getl: "stream_getl s = Some (l, s') \<Longrightarrow> stream_step s s'"
| getq: "stream_getq s = Some (q, s') \<Longrightarrow> stream_step s s'"
| get_ipv4: "stream_get_ipv4 s = Some (bs, s') \<Longrightarrow> stream_step s s'"
| put: "stream_put s src n = Some s' \<Longrightarrow> stream_step s s'"
| write_buf: "stream_write s ptr n = Some (r, s') \<Longrightarrow> stream_step s s'"
| putc: "stream_putc s c = Some (r, s') \<Longrightarrow> stream_step s s'"
| putw: "stream_putw s w = Some (r, s') \<Longrightarrow> stream_step s s'"
| putl: "stream_putl s l = Some (r, s') \<Longrightarrow> stream_step s s'"
| putq: "stream_putq s q = Some (r, s') \<Longrightarrow> stream_step s s'"
| putc_at: "stream_putc_at s p c = Some (r, s') \<Longrightarrow> stream_step s s'"
| putw_at: "stream_putw_at s p w = Some (r, s') \<Longrightarrow> stream_step s s'"
| putl_at: "stream_putl_at s p l = Some (r, s') \<Longrightarrow> stream_step s s'"
| putq_at: "stream_putq_at s p q = Some (r, s') \<Longrightarrow> stream_step s s'"
| put_ipv4: "stream_put_ipv4 s a = Some (r, s') \<Longrightarrow> length a = 4 \<Longrightarrow> stream_step s s'"
| put_in_addr: "stream_put_in_addr s a = Some (r, s') \<Longrightarrow> length a = 4 \<Longrightarrow> stream_step s s'"
| read: "stream_read rd s n = Some (k, s') \<Longrightarrow> rd_ok rd \<Longrightarrow> stream_step s s'"
| read_try: "stream_read_try rd retry s n = Some (k, s') \<Longrightarrow> rd_ok rd \<Longrightarrow> stream_step s s'"
| recvfrom: "stream_recvfrom rd retry s n = Some (k, s') \<Longrightarrow> rd_ok rd \<Longrightarrow> stream_step s s'"
| recvmsg: "stream_recvmsg rd iovlen s n = Some (k, s') \<Longrightarrow> rd_ok rd \<Longrightarrow> stream_step s s'"
| reset: "stream_reset s = Some s' \<Longrightarrow> stream_step s s'"

inductive stream_reachable :: "stream \<Rightarrow> bool" where
  new: "stream_new fill n = Some s \<Longrightarrow> n < 2 ^ 64 \<Longrightarrow> stream_reachable s"
| dup: "stream_reachable s \<Longrightarrow> stream_dup fill s = Some s' \<Longrightarrow> stream_reachable s'"
| dupcat: "stream_reachable s \<Longrightarrow> stream_reachable t \<Longrightarrow> stream_dupcat fill s t n = Some s' \<Longrightarrow>
    stream_reachable s'"
| step: "stream_reachable s \<Longrightarrow> stream_step s s' \<Longrightarrow> stream_reachable s'"

lemmas move_defs = stream_set_getp_def stream_set_endp_def stream_forward_getp_def
  stream_forward_endp_def stream_reset_def
lemmas get_defs = stream_get_def stream_getc_def stream_getw_def stream_getl_def stream_getq_def
  stream_get_ipv4_def
lemmas put_defs = stream_put_def stream_write_def stream_putc_def stream_putw_def stream_putl_def
  stream_putq_def stream_put_ipv4_def stream_put_in_addr_def
lemmas put_at_defs = put_at_def stream_putc_at_def stream_putw_at_def stream_putl_at_def
  stream_putq_at_def
lemmas io_defs = stream_read_def stream_read_try_def stream_recvfrom_def stream_recvmsg_def

lemma sane_new: "stream_new fill n = Some s \<Longrightarrow> n < 2 ^ 64 \<Longrightarrow> sane s"
  by (auto simp: stream_new_def sane_def)

lemma sane_copy: "stream_copy s src = Some s' \<Longrightarrow> sane src \<Longrightarrow> sane s \<Longrightarrow> sane s'"
  by (auto simp: stream_copy_def sane_def marker_defs)

lemma sane_dup: "stream_dup fill s = Some s' \<Longrightarrow> sane s \<Longrightarrow> sane s'"
  by (auto simp: stream_dup_def elim!: bind_SomeE dest!: sane_new sane_copy) (auto simp: sane_def)

lemma sane_dupcat:
  assumes "stream_dupcat fill s t n = Some s'" "sane s" "sane t"
  shows "sane s'"
  using assms
  by (auto simp: stream_dupcat_def stream_new_def sane_def Let_def)

lemma sane_io:
  assumes "rd_ok rd" "sane s" "\<not> ssize s - endp s < n" "rd n = (k, bs)"
  shows "sane (s\<lparr>data := write_at (data s) (endp s) bs, endp := endp s + nat k\<rparr>)"
    and "sane (s\<lparr>data := write_at (data s) (endp s) bs\<rparr>)"
  using assms spec [of _ n, OF assms(1) [unfolded rd_ok_def]] by (auto simp: sane_def)

lemma sane_io_ops:
  assumes "rd_ok rd" "sane s"
  shows "stream_read rd s n = Some (k, s') \<Longrightarrow> sane s'"
    and "stream_read_try rd retry s n = Some (k, s') \<Longrightarrow> sane s'"
    and "stream_recvfrom rd retry s n = Some (k, s') \<Longrightarrow> sane s'"
    and "stream_recvmsg rd iovlen s n = Some (k, s') \<Longrightarrow> sane s'"
  using assms
  by (auto simp: io_defs marker_defs Let_def intro: sane_io split: prod.splits if_splits)

lemma sane_step: "stream_step s s' \<Longrightarrow> sane s \<Longrightarrow> sane s'"
proof (induction rule: stream_step.induct)
  case (resize fill s n r s')
  then show ?case
    by (auto simp: stream_resize_def sane_def Let_def split: if_splits)
next
  case (copy s src s')
  then show ?case by (blast intro: sane_copy)
qed (auto simp: move_defs get_defs put_defs put_at_defs sane_def marker_defs Let_def
  intro: sane_io_ops [unfolded sane_def] dest: sane_io_ops)

lemma sane_reachable: "stream_reachable s \<Longrightarrow> sane s"
  by (induction rule: stream_reachable.induct)
    (blast intro: sane_new sane_dup sane_dupcat sane_step)+

subsection \<open>The fifo implements a queue\<close>

text \<open>What a user of a fifo relies on.  \<open>fresh\<close> says which elements may be pushed.\<close>

fun pop_n :: "('q \<Rightarrow> 'e option \<times> 'q) \<Rightarrow> nat \<Rightarrow> 'q \<Rightarrow> 'e option list \<times> 'q" where
  "pop_n pop 0 q = ([], q)"
| "pop_n pop (Suc n) q = (let (e, q1) = pop q; (es, q2) = pop_n pop n q1 in (e # es, q2))"

locale fifo_queue =
  fixes push :: "'q \<Rightarrow> 'e \<Rightarrow> 'q"
    and pop :: "'q \<Rightarrow> 'e option \<times> 'q"
    and contents :: "'q \<Rightarrow> 'e list"
    and ok :: "'q \<Rightarrow> bool"
    and fresh :: "'q \<Rightarrow> 'e \<Rightarrow> bool"
  assumes push_ok: "ok q \<Longrightarrow> fresh q e \<Longrightarrow> ok (push q e)"
    and push_contents: "ok q \<Longrightarrow> fresh q e \<Longrightarrow> contents (push q e) = contents q @ [e]"
    and push_fresh: "ok q \<Longrightarrow> fresh q e \<Longrightarrow> fresh q e' \<Longrightarrow> e' \<noteq> e \<Longrightarrow> fresh (push q e) e'"
    and pop_empty: "ok q \<Longrightarrow> contents q = [] \<Longrightarrow> pop q = (None, q)"
    and pop_first: "ok q \<Longrightarrow> contents q = e # es \<Longrightarrow> \<exists>q'. pop q = (Some e, q') \<and> ok q' \<and> contents q' = es"
begin

lemma push_all:
  assumes "ok q" "\<forall>e \<in> set es. fresh q e" "distinct es"
  shows "ok (foldl push q es) \<and> contents (foldl push q es) = contents q @ es"
  using assms
proof (induction es arbitrary: q)
  case Nil
  then show ?case by simp
next
  case (Cons e es)
  have "\<forall>e' \<in> set es. fresh (push q e) e'"
    using Cons.prems push_fresh by auto
  with Cons show ?case
    using push_ok [of q e] push_contents [of q e] by simp
qed

lemma pop_all:
  assumes "ok q" "contents q = es @ rest"
  shows "\<exists>q'. pop_n pop (length es) q = (map Some es, q') \<and> ok q' \<and> contents q' = rest"
  using assms
proof (induction es arbitrary: q)
  case Nil
  then show ?case by simp
next
  case (Cons e es)
  then obtain q1 where q1: "pop q = (Some e, q1)" "ok q1" "contents q1 = es @ rest"
    using pop_first [of q e "es @ rest"] by auto
  with Cons.IH [of q1] show ?case by auto
qed

lemma first_in_first_out:
  assumes "ok q" "contents q = []" "\<forall>e \<in> set es. fresh q e" "distinct es"
  shows "\<exists>q'. pop_n pop (length es) (foldl push q es) = (map Some es, q') \<and> contents q' = []"
  using push_all [OF assms(1,3,4)] pop_all [of "foldl push q es" es "[]"] assms(2) by auto

end

fun chain :: "(addr \<Rightarrow> addr option) \<Rightarrow> addr option \<Rightarrow> addr list \<Rightarrow> bool" where
  "chain store p [] = (p = None)"
| "chain store p (a # as) = (p = Some a \<and> chain store (store a) as)"

definition fifo_contents :: "stream_fifo \<Rightarrow> addr list" where
  "fifo_contents f = (case stream_fifo_walk (nx f) (head f) of Some ps \<Rightarrow> ps | None \<Rightarrow> [])"

definition fifo_ok :: "stream_fifo \<Rightarrow> bool" where
  "fifo_ok f \<longleftrightarrow> (let ps = fifo_contents f in
     chain (nx f) (head f) ps \<and> distinct ps \<and> fcount f = length ps mod 2 ^ 64 \<and>
     tail f = (if ps = [] then None else Some (last ps)))"

definition fifo_fresh :: "stream_fifo \<Rightarrow> addr \<Rightarrow> bool" where
  "fifo_fresh f a \<longleftrightarrow> nx f a = None \<and> a \<notin> set (fifo_contents f)"

lemma walk_chain: "chain store p ps \<Longrightarrow> stream_fifo_walk store p = Some ps"
proof (induction ps arbitrary: p)
  case Nil
  then show ?case by (simp add: stream_fifo_walk.simps [of store None])
next
  case (Cons a ps)
  then show ?case by (simp add: stream_fifo_walk.simps [of store "Some a"])
qed

lemma fifo_contents_chain: "chain (nx f) (head f) ps \<Longrightarrow> fifo_contents f = ps"
  by (simp add: fifo_contents_def walk_chain)

lemma chain_append:
  "ps \<noteq> [] \<Longrightarrow> distinct (ps @ [a]) \<Longrightarrow> chain store p ps \<Longrightarrow> store a = None \<Longrightarrow>
    chain (store(last ps := Some a)) p (ps @ [a])"
proof (induction ps arbitrary: p)
  case Nil
  then show ?case by simp
next
  case (Cons b bs)
  then show ?case by (cases bs) auto
qed

lemma fifo_okI:
  assumes "chain (nx f) (head f) ps" "distinct ps" "fcount f = length ps mod 2 ^ 64"
    "tail f = (if ps = [] then None else Some (last ps))"
  shows "fifo_ok f" "fifo_contents f = ps"
  using assms fifo_contents_chain [OF assms(1)] by (simp_all add: fifo_ok_def)

lemma stream_fifo_push_rel:
  assumes "fifo_ok f" "fifo_fresh f a"
  shows "fifo_ok (stream_fifo_push f a)" "fifo_contents (stream_fifo_push f a) = fifo_contents f @ [a]"
    and "fifo_fresh f b \<Longrightarrow> b \<noteq> a \<Longrightarrow> fifo_fresh (stream_fifo_push f a) b"
proof -
  let ?ps = "fifo_contents f" and ?f = "stream_fifo_push f a"
  have f: "chain (nx f) (head f) ?ps" "distinct (?ps @ [a])" "fcount f = length ?ps mod 2 ^ 64"
      "tail f = (if ?ps = [] then None else Some (last ?ps))" "nx f a = None"
    using assms by (auto simp: fifo_ok_def fifo_fresh_def Let_def)
  have c: "chain (nx ?f) (head ?f) (?ps @ [a])"
    using f chain_append [OF _ f(2,1,5)] by (auto simp: stream_fifo_push_def Let_def)
  have n: "fcount ?f = length (?ps @ [a]) mod 2 ^ 64"
    using f(3) by (auto simp: stream_fifo_push_def size_add_def Let_def mod_simps split: option.split)
  have t: "tail ?f = (if ?ps @ [a] = [] then None else Some (last (?ps @ [a])))"
    by (simp add: stream_fifo_push_def Let_def)
  show "fifo_ok ?f" and cts: "fifo_contents ?f = ?ps @ [a]"
    using fifo_okI [OF c f(2) n t] by auto
  show "fifo_fresh ?f b" if b: "fifo_fresh f b" "b \<noteq> a"
  proof -
    have "b \<notin> set ?ps" "nx f b = None" using b(1) by (auto simp: fifo_fresh_def)
    moreover have "nx ?f b = nx f b"
      using f(4) \<open>b \<notin> set ?ps\<close> last_in_set [of ?ps]
      by (auto simp: stream_fifo_push_def Let_def split: if_splits)
    ultimately show ?thesis using b(2) by (simp add: fifo_fresh_def cts)
  qed
qed

lemma stream_fifo_pop_rel:
  assumes "fifo_ok f" "fifo_contents f = a # as"
  shows "\<exists>f'. stream_fifo_pop f = (Some a, f') \<and> fifo_ok f' \<and> fifo_contents f' = as"
proof -
  let ?f = "snd (stream_fifo_pop f)"
  have f: "chain (nx f) (head f) (a # as)" "distinct (a # as)" "fcount f = length (a # as) mod 2 ^ 64"
      "tail f = Some (last (a # as))"
    using assms by (auto simp: fifo_ok_def Let_def split: if_splits)
  have "(length (a # as) mod 2 ^ 64 + (2 ^ 64 - 1)) mod 2 ^ 64 = length as mod (2 ^ 64 :: nat)"
    using size_dec [of "2 ^ 64" "length as"] by simp
  moreover have "nx f a = None \<longleftrightarrow> as = []"
    using f(1) by (cases as) auto
  moreover have "fst (stream_fifo_pop f) = Some a" "nx ?f = nx f" "head ?f = nx f a"
      "fcount ?f = (length (a # as) mod 2 ^ 64 + (2 ^ 64 - 1)) mod 2 ^ 64"
      "tail ?f = (if nx f a = None then None else tail f)"
    using f by (simp_all add: stream_fifo_pop_def Let_def)
  ultimately have "fifo_ok ?f" "fifo_contents ?f = as" "stream_fifo_pop f = (Some a, ?f)"
    using f fifo_okI [of ?f as] by (auto simp: prod_eq_iff)
  then show ?thesis by blast
qed

interpretation stream_q: fifo_queue stream_fifo_push stream_fifo_pop fifo_contents fifo_ok fifo_fresh
proof unfold_locales
  fix q :: stream_fifo
  assume "fifo_ok q" "fifo_contents q = []"
  then show "stream_fifo_pop q = (None, q)"
    by (auto simp: fifo_ok_def stream_fifo_pop_def)
qed (fact stream_fifo_push_rel stream_fifo_pop_rel)+

lemma stream_fifo_clean_frees:
  assumes "fifo_ok f"
  shows "\<exists>f'. stream_fifo_clean f = Some (fifo_contents f, f') \<and> fifo_ok f' \<and> fifo_contents f' = []"
proof -
  let ?f = "f\<lparr>head := None, tail := None, fcount := 0\<rparr>"
  have "stream_fifo_walk (nx f) (head f) = Some (fifo_contents f)"
    using assms walk_chain by (simp add: fifo_ok_def Let_def)
  then have "stream_fifo_clean f = Some (fifo_contents f, ?f)"
    by (simp add: stream_fifo_clean_def)
  moreover have "fifo_ok ?f" "fifo_contents ?f = []"
    using fifo_okI [of ?f "[]"] by simp_all
  ultimately show ?thesis by blast
qed

subsection \<open>Properties\<close>


lemma reachable_example:
  "stream_reachable \<lparr>getp = 1, endp = 2, ssize = 3, data = [7, 9, 0]\<rparr>"
proof -
  let ?a = "\<lparr>getp = 0, endp = 0, ssize = 3, data = [0, 0, 0 :: u8]\<rparr>"
  let ?b = "\<lparr>getp = 0, endp = 2, ssize = 3, data = [7, 9, 0 :: u8]\<rparr>"
  have "stream_new (\<lambda>_. 0) 3 = Some ?a"
    by (simp add: stream_new_def upt_rec)
  then have "stream_reachable ?a" by (rule stream_reachable.new) simp
  moreover have "stream_putw ?a 0x0709 = Some (2, ?b)"
    by (simp add: stream_putw_def STREAM_VERIFY_SANE_def marker_defs write_at_def put16_def drop_bit_eq_div)
  ultimately have "stream_reachable ?b" by (blast intro: stream_reachable.step stream_step.putw)
  moreover have "stream_getc ?b = Some (7, \<lparr>getp = 1, endp = 2, ssize = 3, data = [7, 9, 0]\<rparr>)"
    by (simp add: stream_getc_def STREAM_VERIFY_SANE_def marker_defs)
  ultimately show ?thesis by (blast intro: stream_reachable.step stream_step.getc)
qed




text \<open>Round trip: any list of 32-bit values that fits in the room left is written without an
  abort, and reading it back from there gives the same list and consumes exactly those bytes.\<close>

lemma stream_putl_getl_roundtrip:
  assumes "sane s" "unread s = []" "length xs * 4 \<le> STREAM_WRITEABLE s"
  shows "\<exists>s'. put_all stream_putl s xs = Some s' \<and> sane s' \<and>
    (\<exists>s''. get_n stream_getl (length xs) s' = Some (xs, s'') \<and> unread s'' = [])"
  using assms by (rule field_l.get_n_put_all)

text \<open>The fifo is a queue: streams pushed on an empty fifo, each not linked to another one and
  each once, come out in the order they went in, and the fifo is empty again.\<close>

lemma stream_fifo_first_in_first_out:
  assumes "fifo_ok f" "fifo_contents f = []" "\<forall>e \<in> set es. fifo_fresh f e" "distinct es"
  shows "\<exists>f'. pop_n stream_fifo_pop (length es) (foldl stream_fifo_push f es) = (map Some es, f') \<and>
    fifo_contents f' = []"
  using assms by (rule stream_q.first_in_first_out)

text \<open>The \<open>size_t\<close> sum in \<^verbatim>\<open>stream_forward_endp\<close> can wrap around: there is a stream in order and
  an argument for which the call returns and leaves the end marker before the read marker, so the
  next stream operation aborts the daemon.\<close>

lemma stream_forward_endp_wraps:
  "\<exists>s n s'. sane s \<and> n < 2 ^ 64 \<and> stream_forward_endp s n = Some s' \<and> endp s' < getp s' \<and>
    stream_getc s' = None"
proof -
  let ?s = "\<lparr>getp = 1, endp = 1, ssize = 2, data = [0, 0 :: u8]\<rparr>"
  have "stream_forward_endp ?s (2 ^ 64 - 1) = Some (?s\<lparr>endp := 0\<rparr>)"
    by (simp add: stream_forward_endp_def STREAM_VERIFY_SANE_def marker_defs size_add_def)
  moreover have "stream_getc (?s\<lparr>endp := 0\<rparr>) = None"
    by (simp add: stream_getc_def STREAM_VERIFY_SANE_def marker_defs)
  moreover have "sane ?s" by (simp add: sane_def)
  ultimately show ?thesis
    by (intro exI [of _ ?s] exI [of _ "2 ^ 64 - 1"] exI [of _ "?s\<lparr>endp := 0\<rparr>"]) simp
qed

end
