(* ===== verification/Zprefix.thy ===== *)
theory Zprefix
  imports Quagga_Prelude Zstream "HOL-Library.Sublist"
begin

text \<open>
  Network prefixes: \<^verbatim>\<open>lib/prefix.c\<close> and \<^verbatim>\<open>lib/prefix.h\<close>.

  A \<open>struct prefix\<close> is a record of its family, its length in bits and the sixteen bytes of its
  address union (IPv6 is always compiled in).  An IPv4 address is the first four bytes, in network
  order, and an \<open>in_addr\<close> on its own is a list of four bytes.  The \<open>u_char\<close> fields are \<open>nat\<close>, with the
  conversion to \<open>u_char\<close> written \<open>mod 256\<close> where the source converts.  \<^verbatim>\<open>inet_aton\<close>, \<^verbatim>\<open>inet_pton\<close> and
  \<^verbatim>\<open>inet_ntop\<close> are parameters.

  The abstract view of a prefix is its key, the list of its significant bits: the matching
  functions are the prefix order on keys, and masking keeps the key.
\<close>

subsection \<open>Data\<close>

record prefix =
  family :: nat
  prefixlen :: nat
  u :: "u8 list"

abbreviation (input) AF_UNSPEC :: nat where "AF_UNSPEC \<equiv> 0"
abbreviation (input) AF_INET :: nat where "AF_INET \<equiv> 2"
abbreviation (input) AF_INET6 :: nat where "AF_INET6 \<equiv> 10"

abbreviation (input) AFI_IP :: nat where "AFI_IP \<equiv> 1"
abbreviation (input) AFI_IP6 :: nat where "AFI_IP6 \<equiv> 2"

abbreviation (input) IPV4_MAX_BYTELEN :: nat where "IPV4_MAX_BYTELEN \<equiv> 4"
abbreviation (input) IPV4_MAX_BITLEN :: nat where "IPV4_MAX_BITLEN \<equiv> 32"
abbreviation (input) IPV6_MAX_BYTELEN :: nat where "IPV6_MAX_BYTELEN \<equiv> 16"
abbreviation (input) IPV6_MAX_BITLEN :: nat where "IPV6_MAX_BITLEN \<equiv> 128"

definition PSIZE :: "nat \<Rightarrow> nat" where
  "PSIZE a = (a + 7) div 8"

subsection \<open>Operations\<close>

definition maskbit :: "u8 list" where
  "maskbit = [0x00, 0x80, 0xc0, 0xe0, 0xf0, 0xf8, 0xfc, 0xfe, 0xff]"

definition maskbytes6 :: "u8 list list" where
  "maskbytes6 = [
    [0x00, 0x00, 0x00, 0x00, 0x00, 0x00, 0x00, 0x00, 0x00, 0x00, 0x00, 0x00, 0x00, 0x00, 0x00, 0x00],
    [0x80, 0x00, 0x00, 0x00, 0x00, 0x00, 0x00, 0x00, 0x00, 0x00, 0x00, 0x00, 0x00, 0x00, 0x00, 0x00],
    [0xc0, 0x00, 0x00, 0x00, 0x00, 0x00, 0x00, 0x00, 0x00, 0x00, 0x00, 0x00, 0x00, 0x00, 0x00, 0x00],
    [0xe0, 0x00, 0x00, 0x00, 0x00, 0x00, 0x00, 0x00, 0x00, 0x00, 0x00, 0x00, 0x00, 0x00, 0x00, 0x00],
    [0xf0, 0x00, 0x00, 0x00, 0x00, 0x00, 0x00, 0x00, 0x00, 0x00, 0x00, 0x00, 0x00, 0x00, 0x00, 0x00],
    [0xf8, 0x00, 0x00, 0x00, 0x00, 0x00, 0x00, 0x00, 0x00, 0x00, 0x00, 0x00, 0x00, 0x00, 0x00, 0x00],
    [0xfc, 0x00, 0x00, 0x00, 0x00, 0x00, 0x00, 0x00, 0x00, 0x00, 0x00, 0x00, 0x00, 0x00, 0x00, 0x00],
    [0xfe, 0x00, 0x00, 0x00, 0x00, 0x00, 0x00, 0x00, 0x00, 0x00, 0x00, 0x00, 0x00, 0x00, 0x00, 0x00],
    [0xff, 0x00, 0x00, 0x00, 0x00, 0x00, 0x00, 0x00, 0x00, 0x00, 0x00, 0x00, 0x00, 0x00, 0x00, 0x00],
    [0xff, 0x80, 0x00, 0x00, 0x00, 0x00, 0x00, 0x00, 0x00, 0x00, 0x00, 0x00, 0x00, 0x00, 0x00, 0x00],
    [0xff, 0xc0, 0x00, 0x00, 0x00, 0x00, 0x00, 0x00, 0x00, 0x00, 0x00, 0x00, 0x00, 0x00, 0x00, 0x00],
    [0xff, 0xe0, 0x00, 0x00, 0x00, 0x00, 0x00, 0x00, 0x00, 0x00, 0x00, 0x00, 0x00, 0x00, 0x00, 0x00],
    [0xff, 0xf0, 0x00, 0x00, 0x00, 0x00, 0x00, 0x00, 0x00, 0x00, 0x00, 0x00, 0x00, 0x00, 0x00, 0x00],
    [0xff, 0xf8, 0x00, 0x00, 0x00, 0x00, 0x00, 0x00, 0x00, 0x00, 0x00, 0x00, 0x00, 0x00, 0x00, 0x00],
    [0xff, 0xfc, 0x00, 0x00, 0x00, 0x00, 0x00, 0x00, 0x00, 0x00, 0x00, 0x00, 0x00, 0x00, 0x00, 0x00],
    [0xff, 0xfe, 0x00, 0x00, 0x00, 0x00, 0x00, 0x00, 0x00, 0x00, 0x00, 0x00, 0x00, 0x00, 0x00, 0x00],
    [0xff, 0xff, 0x00, 0x00, 0x00, 0x00, 0x00, 0x00, 0x00, 0x00, 0x00, 0x00, 0x00, 0x00, 0x00, 0x00],
    [0xff, 0xff, 0x80, 0x00, 0x00, 0x00, 0x00, 0x00, 0x00, 0x00, 0x00, 0x00, 0x00, 0x00, 0x00, 0x00],
    [0xff, 0xff, 0xc0, 0x00, 0x00, 0x00, 0x00, 0x00, 0x00, 0x00, 0x00, 0x00, 0x00, 0x00, 0x00, 0x00],
    [0xff, 0xff, 0xe0, 0x00, 0x00, 0x00, 0x00, 0x00, 0x00, 0x00, 0x00, 0x00, 0x00, 0x00, 0x00, 0x00],
    [0xff, 0xff, 0xf0, 0x00, 0x00, 0x00, 0x00, 0x00, 0x00, 0x00, 0x00, 0x00, 0x00, 0x00, 0x00, 0x00],
    [0xff, 0xff, 0xf8, 0x00, 0x00, 0x00, 0x00, 0x00, 0x00, 0x00, 0x00, 0x00, 0x00, 0x00, 0x00, 0x00],
    [0xff, 0xff, 0xfc, 0x00, 0x00, 0x00, 0x00, 0x00, 0x00, 0x00, 0x00, 0x00, 0x00, 0x00, 0x00, 0x00],
    [0xff, 0xff, 0xfe, 0x00, 0x00, 0x00, 0x00, 0x00, 0x00, 0x00, 0x00, 0x00, 0x00, 0x00, 0x00, 0x00],
    [0xff, 0xff, 0xff, 0x00, 0x00, 0x00, 0x00, 0x00, 0x00, 0x00, 0x00, 0x00, 0x00, 0x00, 0x00, 0x00],
    [0xff, 0xff, 0xff, 0x80, 0x00, 0x00, 0x00, 0x00, 0x00, 0x00, 0x00, 0x00, 0x00, 0x00, 0x00, 0x00],
    [0xff, 0xff, 0xff, 0xc0, 0x00, 0x00, 0x00, 0x00, 0x00, 0x00, 0x00, 0x00, 0x00, 0x00, 0x00, 0x00],
    [0xff, 0xff, 0xff, 0xe0, 0x00, 0x00, 0x00, 0x00, 0x00, 0x00, 0x00, 0x00, 0x00, 0x00, 0x00, 0x00],
    [0xff, 0xff, 0xff, 0xf0, 0x00, 0x00, 0x00, 0x00, 0x00, 0x00, 0x00, 0x00, 0x00, 0x00, 0x00, 0x00],
    [0xff, 0xff, 0xff, 0xf8, 0x00, 0x00, 0x00, 0x00, 0x00, 0x00, 0x00, 0x00, 0x00, 0x00, 0x00, 0x00],
    [0xff, 0xff, 0xff, 0xfc, 0x00, 0x00, 0x00, 0x00, 0x00, 0x00, 0x00, 0x00, 0x00, 0x00, 0x00, 0x00],
    [0xff, 0xff, 0xff, 0xfe, 0x00, 0x00, 0x00, 0x00, 0x00, 0x00, 0x00, 0x00, 0x00, 0x00, 0x00, 0x00],
    [0xff, 0xff, 0xff, 0xff, 0x00, 0x00, 0x00, 0x00, 0x00, 0x00, 0x00, 0x00, 0x00, 0x00, 0x00, 0x00],
    [0xff, 0xff, 0xff, 0xff, 0x80, 0x00, 0x00, 0x00, 0x00, 0x00, 0x00, 0x00, 0x00, 0x00, 0x00, 0x00],
    [0xff, 0xff, 0xff, 0xff, 0xc0, 0x00, 0x00, 0x00, 0x00, 0x00, 0x00, 0x00, 0x00, 0x00, 0x00, 0x00],
    [0xff, 0xff, 0xff, 0xff, 0xe0, 0x00, 0x00, 0x00, 0x00, 0x00, 0x00, 0x00, 0x00, 0x00, 0x00, 0x00],
    [0xff, 0xff, 0xff, 0xff, 0xf0, 0x00, 0x00, 0x00, 0x00, 0x00, 0x00, 0x00, 0x00, 0x00, 0x00, 0x00],
    [0xff, 0xff, 0xff, 0xff, 0xf8, 0x00, 0x00, 0x00, 0x00, 0x00, 0x00, 0x00, 0x00, 0x00, 0x00, 0x00],
    [0xff, 0xff, 0xff, 0xff, 0xfc, 0x00, 0x00, 0x00, 0x00, 0x00, 0x00, 0x00, 0x00, 0x00, 0x00, 0x00],
    [0xff, 0xff, 0xff, 0xff, 0xfe, 0x00, 0x00, 0x00, 0x00, 0x00, 0x00, 0x00, 0x00, 0x00, 0x00, 0x00],
    [0xff, 0xff, 0xff, 0xff, 0xff, 0x00, 0x00, 0x00, 0x00, 0x00, 0x00, 0x00, 0x00, 0x00, 0x00, 0x00],
    [0xff, 0xff, 0xff, 0xff, 0xff, 0x80, 0x00, 0x00, 0x00, 0x00, 0x00, 0x00, 0x00, 0x00, 0x00, 0x00],
    [0xff, 0xff, 0xff, 0xff, 0xff, 0xc0, 0x00, 0x00, 0x00, 0x00, 0x00, 0x00, 0x00, 0x00, 0x00, 0x00],
    [0xff, 0xff, 0xff, 0xff, 0xff, 0xe0, 0x00, 0x00, 0x00, 0x00, 0x00, 0x00, 0x00, 0x00, 0x00, 0x00],
    [0xff, 0xff, 0xff, 0xff, 0xff, 0xf0, 0x00, 0x00, 0x00, 0x00, 0x00, 0x00, 0x00, 0x00, 0x00, 0x00],
    [0xff, 0xff, 0xff, 0xff, 0xff, 0xf8, 0x00, 0x00, 0x00, 0x00, 0x00, 0x00, 0x00, 0x00, 0x00, 0x00],
    [0xff, 0xff, 0xff, 0xff, 0xff, 0xfc, 0x00, 0x00, 0x00, 0x00, 0x00, 0x00, 0x00, 0x00, 0x00, 0x00],
    [0xff, 0xff, 0xff, 0xff, 0xff, 0xfe, 0x00, 0x00, 0x00, 0x00, 0x00, 0x00, 0x00, 0x00, 0x00, 0x00],
    [0xff, 0xff, 0xff, 0xff, 0xff, 0xff, 0x00, 0x00, 0x00, 0x00, 0x00, 0x00, 0x00, 0x00, 0x00, 0x00],
    [0xff, 0xff, 0xff, 0xff, 0xff, 0xff, 0x80, 0x00, 0x00, 0x00, 0x00, 0x00, 0x00, 0x00, 0x00, 0x00],
    [0xff, 0xff, 0xff, 0xff, 0xff, 0xff, 0xc0, 0x00, 0x00, 0x00, 0x00, 0x00, 0x00, 0x00, 0x00, 0x00],
    [0xff, 0xff, 0xff, 0xff, 0xff, 0xff, 0xe0, 0x00, 0x00, 0x00, 0x00, 0x00, 0x00, 0x00, 0x00, 0x00],
    [0xff, 0xff, 0xff, 0xff, 0xff, 0xff, 0xf0, 0x00, 0x00, 0x00, 0x00, 0x00, 0x00, 0x00, 0x00, 0x00],
    [0xff, 0xff, 0xff, 0xff, 0xff, 0xff, 0xf8, 0x00, 0x00, 0x00, 0x00, 0x00, 0x00, 0x00, 0x00, 0x00],
    [0xff, 0xff, 0xff, 0xff, 0xff, 0xff, 0xfc, 0x00, 0x00, 0x00, 0x00, 0x00, 0x00, 0x00, 0x00, 0x00],
    [0xff, 0xff, 0xff, 0xff, 0xff, 0xff, 0xfe, 0x00, 0x00, 0x00, 0x00, 0x00, 0x00, 0x00, 0x00, 0x00],
    [0xff, 0xff, 0xff, 0xff, 0xff, 0xff, 0xff, 0x00, 0x00, 0x00, 0x00, 0x00, 0x00, 0x00, 0x00, 0x00],
    [0xff, 0xff, 0xff, 0xff, 0xff, 0xff, 0xff, 0x80, 0x00, 0x00, 0x00, 0x00, 0x00, 0x00, 0x00, 0x00],
    [0xff, 0xff, 0xff, 0xff, 0xff, 0xff, 0xff, 0xc0, 0x00, 0x00, 0x00, 0x00, 0x00, 0x00, 0x00, 0x00],
    [0xff, 0xff, 0xff, 0xff, 0xff, 0xff, 0xff, 0xe0, 0x00, 0x00, 0x00, 0x00, 0x00, 0x00, 0x00, 0x00],
    [0xff, 0xff, 0xff, 0xff, 0xff, 0xff, 0xff, 0xf0, 0x00, 0x00, 0x00, 0x00, 0x00, 0x00, 0x00, 0x00],
    [0xff, 0xff, 0xff, 0xff, 0xff, 0xff, 0xff, 0xf8, 0x00, 0x00, 0x00, 0x00, 0x00, 0x00, 0x00, 0x00],
    [0xff, 0xff, 0xff, 0xff, 0xff, 0xff, 0xff, 0xfc, 0x00, 0x00, 0x00, 0x00, 0x00, 0x00, 0x00, 0x00],
    [0xff, 0xff, 0xff, 0xff, 0xff, 0xff, 0xff, 0xfe, 0x00, 0x00, 0x00, 0x00, 0x00, 0x00, 0x00, 0x00],
    [0xff, 0xff, 0xff, 0xff, 0xff, 0xff, 0xff, 0xff, 0x00, 0x00, 0x00, 0x00, 0x00, 0x00, 0x00, 0x00],
    [0xff, 0xff, 0xff, 0xff, 0xff, 0xff, 0xff, 0xff, 0x80, 0x00, 0x00, 0x00, 0x00, 0x00, 0x00, 0x00],
    [0xff, 0xff, 0xff, 0xff, 0xff, 0xff, 0xff, 0xff, 0xc0, 0x00, 0x00, 0x00, 0x00, 0x00, 0x00, 0x00],
    [0xff, 0xff, 0xff, 0xff, 0xff, 0xff, 0xff, 0xff, 0xe0, 0x00, 0x00, 0x00, 0x00, 0x00, 0x00, 0x00],
    [0xff, 0xff, 0xff, 0xff, 0xff, 0xff, 0xff, 0xff, 0xf0, 0x00, 0x00, 0x00, 0x00, 0x00, 0x00, 0x00],
    [0xff, 0xff, 0xff, 0xff, 0xff, 0xff, 0xff, 0xff, 0xf8, 0x00, 0x00, 0x00, 0x00, 0x00, 0x00, 0x00],
    [0xff, 0xff, 0xff, 0xff, 0xff, 0xff, 0xff, 0xff, 0xfc, 0x00, 0x00, 0x00, 0x00, 0x00, 0x00, 0x00],
    [0xff, 0xff, 0xff, 0xff, 0xff, 0xff, 0xff, 0xff, 0xfe, 0x00, 0x00, 0x00, 0x00, 0x00, 0x00, 0x00],
    [0xff, 0xff, 0xff, 0xff, 0xff, 0xff, 0xff, 0xff, 0xff, 0x00, 0x00, 0x00, 0x00, 0x00, 0x00, 0x00],
    [0xff, 0xff, 0xff, 0xff, 0xff, 0xff, 0xff, 0xff, 0xff, 0x80, 0x00, 0x00, 0x00, 0x00, 0x00, 0x00],
    [0xff, 0xff, 0xff, 0xff, 0xff, 0xff, 0xff, 0xff, 0xff, 0xc0, 0x00, 0x00, 0x00, 0x00, 0x00, 0x00],
    [0xff, 0xff, 0xff, 0xff, 0xff, 0xff, 0xff, 0xff, 0xff, 0xe0, 0x00, 0x00, 0x00, 0x00, 0x00, 0x00],
    [0xff, 0xff, 0xff, 0xff, 0xff, 0xff, 0xff, 0xff, 0xff, 0xf0, 0x00, 0x00, 0x00, 0x00, 0x00, 0x00],
    [0xff, 0xff, 0xff, 0xff, 0xff, 0xff, 0xff, 0xff, 0xff, 0xf8, 0x00, 0x00, 0x00, 0x00, 0x00, 0x00],
    [0xff, 0xff, 0xff, 0xff, 0xff, 0xff, 0xff, 0xff, 0xff, 0xfc, 0x00, 0x00, 0x00, 0x00, 0x00, 0x00],
    [0xff, 0xff, 0xff, 0xff, 0xff, 0xff, 0xff, 0xff, 0xff, 0xfe, 0x00, 0x00, 0x00, 0x00, 0x00, 0x00],
    [0xff, 0xff, 0xff, 0xff, 0xff, 0xff, 0xff, 0xff, 0xff, 0xff, 0x00, 0x00, 0x00, 0x00, 0x00, 0x00],
    [0xff, 0xff, 0xff, 0xff, 0xff, 0xff, 0xff, 0xff, 0xff, 0xff, 0x80, 0x00, 0x00, 0x00, 0x00, 0x00],
    [0xff, 0xff, 0xff, 0xff, 0xff, 0xff, 0xff, 0xff, 0xff, 0xff, 0xc0, 0x00, 0x00, 0x00, 0x00, 0x00],
    [0xff, 0xff, 0xff, 0xff, 0xff, 0xff, 0xff, 0xff, 0xff, 0xff, 0xe0, 0x00, 0x00, 0x00, 0x00, 0x00],
    [0xff, 0xff, 0xff, 0xff, 0xff, 0xff, 0xff, 0xff, 0xff, 0xff, 0xf0, 0x00, 0x00, 0x00, 0x00, 0x00],
    [0xff, 0xff, 0xff, 0xff, 0xff, 0xff, 0xff, 0xff, 0xff, 0xff, 0xf8, 0x00, 0x00, 0x00, 0x00, 0x00],
    [0xff, 0xff, 0xff, 0xff, 0xff, 0xff, 0xff, 0xff, 0xff, 0xff, 0xfc, 0x00, 0x00, 0x00, 0x00, 0x00],
    [0xff, 0xff, 0xff, 0xff, 0xff, 0xff, 0xff, 0xff, 0xff, 0xff, 0xfe, 0x00, 0x00, 0x00, 0x00, 0x00],
    [0xff, 0xff, 0xff, 0xff, 0xff, 0xff, 0xff, 0xff, 0xff, 0xff, 0xff, 0x00, 0x00, 0x00, 0x00, 0x00],
    [0xff, 0xff, 0xff, 0xff, 0xff, 0xff, 0xff, 0xff, 0xff, 0xff, 0xff, 0x80, 0x00, 0x00, 0x00, 0x00],
    [0xff, 0xff, 0xff, 0xff, 0xff, 0xff, 0xff, 0xff, 0xff, 0xff, 0xff, 0xc0, 0x00, 0x00, 0x00, 0x00],
    [0xff, 0xff, 0xff, 0xff, 0xff, 0xff, 0xff, 0xff, 0xff, 0xff, 0xff, 0xe0, 0x00, 0x00, 0x00, 0x00],
    [0xff, 0xff, 0xff, 0xff, 0xff, 0xff, 0xff, 0xff, 0xff, 0xff, 0xff, 0xf0, 0x00, 0x00, 0x00, 0x00],
    [0xff, 0xff, 0xff, 0xff, 0xff, 0xff, 0xff, 0xff, 0xff, 0xff, 0xff, 0xf8, 0x00, 0x00, 0x00, 0x00],
    [0xff, 0xff, 0xff, 0xff, 0xff, 0xff, 0xff, 0xff, 0xff, 0xff, 0xff, 0xfc, 0x00, 0x00, 0x00, 0x00],
    [0xff, 0xff, 0xff, 0xff, 0xff, 0xff, 0xff, 0xff, 0xff, 0xff, 0xff, 0xfe, 0x00, 0x00, 0x00, 0x00],
    [0xff, 0xff, 0xff, 0xff, 0xff, 0xff, 0xff, 0xff, 0xff, 0xff, 0xff, 0xff, 0x00, 0x00, 0x00, 0x00],
    [0xff, 0xff, 0xff, 0xff, 0xff, 0xff, 0xff, 0xff, 0xff, 0xff, 0xff, 0xff, 0x80, 0x00, 0x00, 0x00],
    [0xff, 0xff, 0xff, 0xff, 0xff, 0xff, 0xff, 0xff, 0xff, 0xff, 0xff, 0xff, 0xc0, 0x00, 0x00, 0x00],
    [0xff, 0xff, 0xff, 0xff, 0xff, 0xff, 0xff, 0xff, 0xff, 0xff, 0xff, 0xff, 0xe0, 0x00, 0x00, 0x00],
    [0xff, 0xff, 0xff, 0xff, 0xff, 0xff, 0xff, 0xff, 0xff, 0xff, 0xff, 0xff, 0xf0, 0x00, 0x00, 0x00],
    [0xff, 0xff, 0xff, 0xff, 0xff, 0xff, 0xff, 0xff, 0xff, 0xff, 0xff, 0xff, 0xf8, 0x00, 0x00, 0x00],
    [0xff, 0xff, 0xff, 0xff, 0xff, 0xff, 0xff, 0xff, 0xff, 0xff, 0xff, 0xff, 0xfc, 0x00, 0x00, 0x00],
    [0xff, 0xff, 0xff, 0xff, 0xff, 0xff, 0xff, 0xff, 0xff, 0xff, 0xff, 0xff, 0xfe, 0x00, 0x00, 0x00],
    [0xff, 0xff, 0xff, 0xff, 0xff, 0xff, 0xff, 0xff, 0xff, 0xff, 0xff, 0xff, 0xff, 0x00, 0x00, 0x00],
    [0xff, 0xff, 0xff, 0xff, 0xff, 0xff, 0xff, 0xff, 0xff, 0xff, 0xff, 0xff, 0xff, 0x80, 0x00, 0x00],
    [0xff, 0xff, 0xff, 0xff, 0xff, 0xff, 0xff, 0xff, 0xff, 0xff, 0xff, 0xff, 0xff, 0xc0, 0x00, 0x00],
    [0xff, 0xff, 0xff, 0xff, 0xff, 0xff, 0xff, 0xff, 0xff, 0xff, 0xff, 0xff, 0xff, 0xe0, 0x00, 0x00],
    [0xff, 0xff, 0xff, 0xff, 0xff, 0xff, 0xff, 0xff, 0xff, 0xff, 0xff, 0xff, 0xff, 0xf0, 0x00, 0x00],
    [0xff, 0xff, 0xff, 0xff, 0xff, 0xff, 0xff, 0xff, 0xff, 0xff, 0xff, 0xff, 0xff, 0xf8, 0x00, 0x00],
    [0xff, 0xff, 0xff, 0xff, 0xff, 0xff, 0xff, 0xff, 0xff, 0xff, 0xff, 0xff, 0xff, 0xfc, 0x00, 0x00],
    [0xff, 0xff, 0xff, 0xff, 0xff, 0xff, 0xff, 0xff, 0xff, 0xff, 0xff, 0xff, 0xff, 0xfe, 0x00, 0x00],
    [0xff, 0xff, 0xff, 0xff, 0xff, 0xff, 0xff, 0xff, 0xff, 0xff, 0xff, 0xff, 0xff, 0xff, 0x00, 0x00],
    [0xff, 0xff, 0xff, 0xff, 0xff, 0xff, 0xff, 0xff, 0xff, 0xff, 0xff, 0xff, 0xff, 0xff, 0x80, 0x00],
    [0xff, 0xff, 0xff, 0xff, 0xff, 0xff, 0xff, 0xff, 0xff, 0xff, 0xff, 0xff, 0xff, 0xff, 0xc0, 0x00],
    [0xff, 0xff, 0xff, 0xff, 0xff, 0xff, 0xff, 0xff, 0xff, 0xff, 0xff, 0xff, 0xff, 0xff, 0xe0, 0x00],
    [0xff, 0xff, 0xff, 0xff, 0xff, 0xff, 0xff, 0xff, 0xff, 0xff, 0xff, 0xff, 0xff, 0xff, 0xf0, 0x00],
    [0xff, 0xff, 0xff, 0xff, 0xff, 0xff, 0xff, 0xff, 0xff, 0xff, 0xff, 0xff, 0xff, 0xff, 0xf8, 0x00],
    [0xff, 0xff, 0xff, 0xff, 0xff, 0xff, 0xff, 0xff, 0xff, 0xff, 0xff, 0xff, 0xff, 0xff, 0xfc, 0x00],
    [0xff, 0xff, 0xff, 0xff, 0xff, 0xff, 0xff, 0xff, 0xff, 0xff, 0xff, 0xff, 0xff, 0xff, 0xfe, 0x00],
    [0xff, 0xff, 0xff, 0xff, 0xff, 0xff, 0xff, 0xff, 0xff, 0xff, 0xff, 0xff, 0xff, 0xff, 0xff, 0x00],
    [0xff, 0xff, 0xff, 0xff, 0xff, 0xff, 0xff, 0xff, 0xff, 0xff, 0xff, 0xff, 0xff, 0xff, 0xff, 0x80],
    [0xff, 0xff, 0xff, 0xff, 0xff, 0xff, 0xff, 0xff, 0xff, 0xff, 0xff, 0xff, 0xff, 0xff, 0xff, 0xc0],
    [0xff, 0xff, 0xff, 0xff, 0xff, 0xff, 0xff, 0xff, 0xff, 0xff, 0xff, 0xff, 0xff, 0xff, 0xff, 0xe0],
    [0xff, 0xff, 0xff, 0xff, 0xff, 0xff, 0xff, 0xff, 0xff, 0xff, 0xff, 0xff, 0xff, 0xff, 0xff, 0xf0],
    [0xff, 0xff, 0xff, 0xff, 0xff, 0xff, 0xff, 0xff, 0xff, 0xff, 0xff, 0xff, 0xff, 0xff, 0xff, 0xf8],
    [0xff, 0xff, 0xff, 0xff, 0xff, 0xff, 0xff, 0xff, 0xff, 0xff, 0xff, 0xff, 0xff, 0xff, 0xff, 0xfc],
    [0xff, 0xff, 0xff, 0xff, 0xff, 0xff, 0xff, 0xff, 0xff, 0xff, 0xff, 0xff, 0xff, 0xff, 0xff, 0xfe],
    [0xff, 0xff, 0xff, 0xff, 0xff, 0xff, 0xff, 0xff, 0xff, 0xff, 0xff, 0xff, 0xff, 0xff, 0xff, 0xff]]"

definition prefix_bit :: "u8 list \<Rightarrow> nat \<Rightarrow> nat" where
  "prefix_bit addr len = unat (drop_bit (7 - len mod 8) (addr ! (len div 8)) AND 1)"

definition prefix6_bit :: "u8 list \<Rightarrow> nat \<Rightarrow> nat" where
  "prefix6_bit addr len = prefix_bit addr len"

definition afi2family :: "nat \<Rightarrow> nat" where
  "afi2family afi = (if afi = AFI_IP then AF_INET else if afi = AFI_IP6 then AF_INET6 else 0)"

definition family2afi :: "nat \<Rightarrow> nat" where
  "family2afi fam = (if fam = AF_INET then AFI_IP else if fam = AF_INET6 then AFI_IP6 else 0)"

text \<open>The loop \<^verbatim>\<open>while (offset--) if (np[offset] != pp[offset]) return\<close>: whether one of the bytes
  before \<open>offset\<close> differs.\<close>

fun bytes_differ :: "u8 list \<Rightarrow> u8 list \<Rightarrow> nat \<Rightarrow> bool" where
  "bytes_differ np pp 0 = False"
| "bytes_differ np pp (Suc offset) = (if np ! offset \<noteq> pp ! offset then True else bytes_differ np pp offset)"

definition prefix_match :: "prefix \<Rightarrow> prefix \<Rightarrow> bool" where
  "prefix_match n p =
     (if prefixlen n > prefixlen p then False
      else let np = u n; pp = u p; offset = prefixlen n div 8; shift = prefixlen n mod 8 in
        if shift \<noteq> 0 \<and> maskbit ! shift AND (np ! offset XOR pp ! offset) \<noteq> 0 then False
        else \<not> bytes_differ np pp offset)"

definition prefix_copy :: "prefix \<Rightarrow> prefix \<Rightarrow> prefix option" where
  "prefix_copy dest src =
     (let dest = dest\<lparr>family := family src, prefixlen := prefixlen src\<rparr> in
      if family src = AF_INET then Some (dest\<lparr>u := write_at (u dest) 0 (take 4 (u src))\<rparr>)
      else if family src = AF_INET6 then Some (dest\<lparr>u := write_at (u dest) 0 (take 16 (u src))\<rparr>)
      else if family src = AF_UNSPEC then Some (dest\<lparr>u := write_at (u dest) 0 (take 8 (u src))\<rparr>)
      else None)"

definition prefix_same :: "prefix \<Rightarrow> prefix \<Rightarrow> bool" where
  "prefix_same p1 p2 =
     (if family p1 = family p2 \<and> prefixlen p1 = prefixlen p2 then
        if family p1 = AF_INET \<and> take 4 (u p1) = take 4 (u p2) then True
        else if family p1 = AF_INET6 \<and> take 16 (u p1) = take 16 (u p2) then True
        else False
      else False)"

definition prefix_cmp :: "prefix \<Rightarrow> prefix \<Rightarrow> int" where
  "prefix_cmp p1 p2 =
     (if family p1 \<noteq> family p2 \<or> prefixlen p1 \<noteq> prefixlen p2 then 1
      else let pp1 = u p1; pp2 = u p2; offset = prefixlen p1 div 8; shift = prefixlen p1 mod 8 in
        if shift \<noteq> 0 \<and> maskbit ! shift AND (pp1 ! offset XOR pp2 ! offset) \<noteq> 0 then 1
        else if bytes_differ pp1 pp2 offset then 1 else 0)"

text \<open>The two loops of \<^verbatim>\<open>prefix_common_bits\<close>: the first differing byte before \<open>len\<close>, and the first
  set bit of the difference.\<close>

function first_diff :: "u8 list \<Rightarrow> u8 list \<Rightarrow> nat \<Rightarrow> nat \<Rightarrow> nat" where
  "first_diff pp1 pp2 len pos =
     (if pos < len \<and> pp1 ! pos = pp2 ! pos then first_diff pp1 pp2 len (pos + 1) else pos)"
  by pat_completeness auto
termination by (relation "measure (\<lambda>(_, _, len, pos). len - pos)") auto

function first_set :: "u8 \<Rightarrow> nat \<Rightarrow> nat" where
  "first_set x k = (if k < 8 \<and> x AND push_bit (7 - k) 1 = 0 then first_set x (k + 1) else k)"
  by pat_completeness auto
termination by (relation "measure (\<lambda>(_, k). 8 - k)") auto

declare first_diff.simps [simp del] first_set.simps [simp del]

definition prefix_common_bits :: "prefix \<Rightarrow> prefix \<Rightarrow> int" where
  "prefix_common_bits p1 p2 =
     (let len = (if family p1 = AF_INET then IPV4_MAX_BYTELEN
                 else if family p1 = AF_INET6 then IPV6_MAX_BYTELEN else 0) in
      if family p1 \<noteq> family p2 \<or> len = 0 then - 1
      else let pos = first_diff (u p1) (u p2) len 0 in
        if pos = len then int (pos * 8)
        else int (pos * 8 + first_set (u p1 ! pos XOR u p2 ! pos) 0))"

definition prefix_family_str :: "prefix \<Rightarrow> string" where
  "prefix_family_str p =
     (if family p = AF_INET then ''inet'' else if family p = AF_INET6 then ''inet6'' else ''unspec'')"

definition prefix_new :: prefix where
  "prefix_new = \<lparr>family = 0, prefixlen = 0, u = replicate 16 0\<rparr>"

definition prefix_ipv4_new :: prefix where
  "prefix_ipv4_new = prefix_new\<lparr>family := AF_INET\<rparr>"

definition prefix_ipv6_new :: prefix where
  "prefix_ipv6_new = prefix_new\<lparr>family := AF_INET6\<rparr>"

text \<open>\<open>strchr (str, '/')\<close> splits the string; the caller's \<open>inet_aton\<close> gives the address of a valid
  dotted string.  On success the first four bytes of the address union are overwritten.\<close>

definition str2prefix_ipv4 :: "(string \<Rightarrow> u8 list option) \<Rightarrow> string \<Rightarrow> prefix \<Rightarrow> bool \<times> prefix" where
  "str2prefix_ipv4 inet_aton str p =
     (let addr = takeWhile (\<lambda>c. c \<noteq> CHR ''/'') str;
          pnt = dropWhile (\<lambda>c. c \<noteq> CHR ''/'') str;
          ret = inet_aton addr;
          q = (case ret of Some a \<Rightarrow> p\<lparr>u := write_at (u p) 0 a\<rparr> | None \<Rightarrow> p)
      in if pnt = [] then
           (if ret = None then (False, q)
            else (True, q\<lparr>family := AF_INET, prefixlen := IPV4_MAX_BITLEN\<rparr>))
         else let plen = nat (atoi (tl pnt) mod 256) in
           if plen > 32 then (False, q)
           else (ret \<noteq> None, q\<lparr>family := AF_INET, prefixlen := plen\<rparr>))"

definition masklen2ip :: "int \<Rightarrow> u8 list option" where
  "masklen2ip masklen = do {
     zassert (masklen \<ge> 0 \<and> masklen \<le> 32);
     Some (put32 (ucast (push_bit (nat (32 - masklen)) (0xffffffff :: u64)))) }"

text \<open>\<^verbatim>\<open>__builtin_clz\<close>: the number of zero bits above the highest set bit.\<close>

definition clz32 :: "u32 \<Rightarrow> nat" where
  "clz32 w = length (takeWhile (\<lambda>i. \<not> bit w i) (rev [0..<32]))"

definition ip_masklen :: "u8 list \<Rightarrow> nat" where
  "ip_masklen netmask =
     (let tmp = NOT (get32 (netmask ! 0) (netmask ! 1) (netmask ! 2) (netmask ! 3)) in
      if tmp \<noteq> 0 then clz32 tmp else 32)"

definition apply_mask_ipv4 :: "prefix \<Rightarrow> prefix option" where
  "apply_mask_ipv4 p = do {
     mask \<leftarrow> masklen2ip (int (prefixlen p));
     Some (p\<lparr>u := write_at (u p) 0 (map2 (AND) (take 4 (u p)) mask)\<rparr>) }"

definition prefix_ipv4_any :: "prefix \<Rightarrow> bool" where
  "prefix_ipv4_any p \<longleftrightarrow> take 4 (u p) = [0, 0, 0, 0] \<and> prefixlen p = 0"

definition str2prefix_ipv6 :: "(string \<Rightarrow> u8 list option) \<Rightarrow> string \<Rightarrow> prefix \<Rightarrow> bool \<times> prefix" where
  "str2prefix_ipv6 inet_pton6 str p =
     (let addr = takeWhile (\<lambda>c. c \<noteq> CHR ''/'') str;
          pnt = dropWhile (\<lambda>c. c \<noteq> CHR ''/'') str
      in case inet_pton6 addr of
           None \<Rightarrow> (False, p)
         | Some a \<Rightarrow>
             let q = p\<lparr>u := write_at (u p) 0 a\<rparr> in
             if pnt = [] then (True, q\<lparr>prefixlen := IPV6_MAX_BITLEN, family := AF_INET6\<rparr>)
             else let plen = nat (atoi (tl pnt) mod 256) in
               if plen > IPV6_MAX_BITLEN then (False, q)
               else (True, q\<lparr>prefixlen := plen, family := AF_INET6\<rparr>))"

text \<open>The two loops of \<^verbatim>\<open>ip6_masklen\<close>.  The first one reads the byte before it tests \<open>len\<close>, so on the
  all-ones mask it reads one byte past the address; that byte does not change the result.  The
  second one shifts a byte out to the left, at most eight times.\<close>

function ip6_ff_len :: "u8 list \<Rightarrow> nat \<Rightarrow> nat" where
  "ip6_ff_len netmask len =
     (if len < IPV6_MAX_BITLEN \<and> netmask ! (len div 8) = 0xff then ip6_ff_len netmask (len + 8) else len)"
  by pat_completeness auto
termination by (relation "measure (\<lambda>(_, len). 128 - len)") auto

fun shift_out :: "nat \<Rightarrow> u8 \<Rightarrow> nat" where
  "shift_out 0 v = 0"
| "shift_out (Suc k) v = (if v \<noteq> 0 then 1 + shift_out k (push_bit 1 v) else 0)"

declare ip6_ff_len.simps [simp del]

definition ip6_masklen :: "u8 list \<Rightarrow> nat" where
  "ip6_masklen netmask =
     (let len = ip6_ff_len netmask 0 in
      if len < IPV6_MAX_BITLEN then len + shift_out 8 (netmask ! (len div 8)) else len)"

definition masklen2ip6 :: "int \<Rightarrow> u8 list option" where
  "masklen2ip6 masklen = do {
     zassert (masklen \<ge> 0 \<and> masklen \<le> 128);
     Some (maskbytes6 ! nat masklen) }"

definition apply_mask_ipv6 :: "prefix \<Rightarrow> prefix" where
  "apply_mask_ipv6 p =
     (let index = prefixlen p div 8 in
      if index < 16 then
        let offset = prefixlen p mod 8 in
        p\<lparr>u := write_at ((u p)[index := u p ! index AND maskbit ! offset]) (index + 1)
                 (replicate (16 - (index + 1)) 0)\<rparr>
      else p)"

definition apply_mask :: "prefix \<Rightarrow> prefix option" where
  "apply_mask p =
     (if family p = AF_INET then apply_mask_ipv4 p
      else if family p = AF_INET6 then Some (apply_mask_ipv6 p)
      else Some p)"

text \<open>The parts of \<open>union sockunion\<close> the conversions use.\<close>

record sockunion =
  sa_family :: nat
  sin_addr :: "u8 list"
  sin6_addr :: "u8 list"

definition sockunion2prefix :: "sockunion \<Rightarrow> sockunion \<Rightarrow> prefix option" where
  "sockunion2prefix dest netmask =
     (if sa_family dest = AF_INET then
        Some (prefix_ipv4_new\<lparr>family := AF_INET, u := write_at (u prefix_ipv4_new) 0 (sin_addr dest),
                prefixlen := ip_masklen (sin_addr netmask)\<rparr>)
      else if sa_family dest = AF_INET6 then
        Some (prefix_ipv6_new\<lparr>family := AF_INET6, prefixlen := ip6_masklen (sin6_addr netmask),
                u := write_at (u prefix_ipv6_new) 0 (sin6_addr dest)\<rparr>)
      else None)"

definition sockunion2hostprefix :: "sockunion \<Rightarrow> prefix option" where
  "sockunion2hostprefix su =
     (if sa_family su = AF_INET then
        Some (prefix_ipv4_new\<lparr>family := AF_INET, u := write_at (u prefix_ipv4_new) 0 (sin_addr su),
                prefixlen := IPV4_MAX_BITLEN\<rparr>)
      else if sa_family su = AF_INET6 then
        Some (prefix_ipv6_new\<lparr>family := AF_INET6, prefixlen := IPV6_MAX_BITLEN,
                u := write_at (u prefix_ipv6_new) 0 (sin6_addr su)\<rparr>)
      else None)"

definition prefix2sockunion :: "prefix \<Rightarrow> sockunion" where
  "prefix2sockunion p =
     (let su = \<lparr>sa_family = family p, sin_addr = replicate 4 0, sin6_addr = replicate 16 0\<rparr>;
          su = (if family p = AF_INET then su\<lparr>sin_addr := take 4 (u p)\<rparr> else su)
      in if family p = AF_INET6 then su\<lparr>sin6_addr := take 16 (u p)\<rparr> else su)"

definition prefix_blen :: "prefix \<Rightarrow> nat" where
  "prefix_blen p =
     (if family p = AF_INET then IPV4_MAX_BYTELEN
      else if family p = AF_INET6 then IPV6_MAX_BYTELEN else 0)"

definition str2prefix ::
  "(string \<Rightarrow> u8 list option) \<Rightarrow> (string \<Rightarrow> u8 list option) \<Rightarrow> string \<Rightarrow> prefix \<Rightarrow> bool \<times> prefix" where
  "str2prefix inet_aton inet_pton6 str p =
     (let (ret, p) = str2prefix_ipv4 inet_aton str p in
      if ret then (True, p)
      else let (ret, p) = str2prefix_ipv6 inet_pton6 str p in
        if ret then (True, p) else (False, p))"

text \<open>\<^verbatim>\<open>snprintf\<close> keeps at most \<open>sz - 1\<close> characters.\<close>

definition prefix2str :: "(nat \<Rightarrow> u8 list \<Rightarrow> string) \<Rightarrow> prefix \<Rightarrow> nat \<Rightarrow> string" where
  "prefix2str inet_ntop p sz = take (sz - 1) (inet_ntop (family p) (u p) @ ''/'' @ dec_str (prefixlen p))"

fun all_digit :: "string \<Rightarrow> bool" where
  "all_digit [] = True"
| "all_digit (c # str) = (if \<not> isdigit c then False else all_digit str)"

text \<open>The class tests of \<^verbatim>\<open>netinet/in.h\<close>, on an address in host order.\<close>

definition IN_CLASSA :: "u32 \<Rightarrow> bool" where "IN_CLASSA a \<longleftrightarrow> a AND 0x80000000 = 0"
definition IN_CLASSB :: "u32 \<Rightarrow> bool" where "IN_CLASSB a \<longleftrightarrow> a AND 0xc0000000 = 0x80000000"
definition IN_CLASSC :: "u32 \<Rightarrow> bool" where "IN_CLASSC a \<longleftrightarrow> a AND 0xe0000000 = 0xc0000000"

definition ntohl :: "u8 list \<Rightarrow> u32" where
  "ntohl b = get32 (b ! 0) (b ! 1) (b ! 2) (b ! 3)"

definition apply_classful_mask_ipv4 :: "prefix \<Rightarrow> prefix option" where
  "apply_classful_mask_ipv4 p =
     (let destination = ntohl (u p) in
      if prefixlen p = 32 then Some p
      else if IN_CLASSC destination then apply_mask_ipv4 (p\<lparr>prefixlen := 24\<rparr>)
      else if IN_CLASSB destination then apply_mask_ipv4 (p\<lparr>prefixlen := 16\<rparr>)
      else apply_mask_ipv4 (p\<lparr>prefixlen := 8\<rparr>))"

definition ipv4_network_addr :: "u8 list \<Rightarrow> int \<Rightarrow> u8 list option" where
  "ipv4_network_addr hostaddr masklen = do {
     mask \<leftarrow> masklen2ip masklen;
     Some (map2 (AND) hostaddr mask) }"

definition ipv4_broadcast_addr :: "u8 list \<Rightarrow> int \<Rightarrow> u8 list option" where
  "ipv4_broadcast_addr hostaddr masklen = do {
     mask \<leftarrow> masklen2ip masklen;
     Some (if masklen \<noteq> 31 then map2 (\<lambda>h m. h OR NOT m) hostaddr mask
           else map2 (\<lambda>h m. h XOR NOT m) hostaddr mask) }"

definition netmask_str2prefix_str ::
  "(string \<Rightarrow> u8 list option) \<Rightarrow> string \<Rightarrow> string option \<Rightarrow> string option" where
  "netmask_str2prefix_str inet_aton net_str mask_str = do {
     network \<leftarrow> inet_aton net_str;
     len \<leftarrow> (case mask_str of
        Some ms \<Rightarrow> do { mask \<leftarrow> inet_aton ms; Some (ip_masklen mask) }
      | None \<Rightarrow>
          let destination = ntohl network in
          if network = [0, 0, 0, 0] then Some 0
          else if IN_CLASSC destination then Some 24
          else if IN_CLASSB destination then Some 16
          else if IN_CLASSA destination then Some 8
          else None);
     Some (net_str @ ''/'' @ dec_str len) }"

text \<open>\<^verbatim>\<open>ipv4_martian\<close> (\<^verbatim>\<open>prefix.h\<close>) reads \<open>s_addr\<close>, which is in network order, as a host integer: the
  value depends on the byte order of the machine.\<close>

definition s_addr :: "bool \<Rightarrow> u8 list \<Rightarrow> u32" where
  "s_addr big_endian b = (if big_endian then ntohl b else ntohl (rev (take 4 b)))"

definition ipv4_martian :: "bool \<Rightarrow> u8 list \<Rightarrow> bool" where
  "ipv4_martian big_endian addr =
     (let ip = s_addr big_endian addr in
      ip AND 0xff000000 = 0 \<or> ip AND 0xff000000 = 0x7f000000 \<or> ip AND 0xe0000000 = 0xe0000000)"

text \<open>\<^verbatim>\<open>stream_put_prefix\<close> of \<^verbatim>\<open>lib/stream.c\<close> writes a prefix in NLRI format.\<close>

definition stream_put_prefix :: "stream \<Rightarrow> prefix \<Rightarrow> (nat \<times> stream) option" where
  "stream_put_prefix s p =
     (let psize = PSIZE (prefixlen p) in do {
        STREAM_VERIFY_SANE s;
        zassert (\<not> STREAM_WRITEABLE s < psize + 1);
        zassert (psize \<le> length (u p));
        let s = s\<lparr>data := write_at (data s) (endp s) [of_nat (prefixlen p)], endp := endp s + 1\<rparr>
        in Some (psize, s\<lparr>data := write_at (data s) (endp s) (take psize (u p)), endp := endp s + psize\<rparr>) })"

subsection \<open>Keys: the significant bits of a prefix\<close>

definition famlen :: "nat \<Rightarrow> nat" where
  "famlen fam = (if fam = AF_INET then 32 else if fam = AF_INET6 then 128
     else if fam = AF_UNSPEC then 64 else 0)"

definition wf_prefix :: "prefix \<Rightarrow> bool" where
  "wf_prefix p \<longleftrightarrow> length (u p) = 16 \<and> prefixlen p \<le> famlen (family p) \<and>
     family p \<in> {AF_INET, AF_INET6, AF_UNSPEC}"

definition key :: "prefix \<Rightarrow> bool list" where
  "key p = take (prefixlen p) (bytes_bits (u p))"

lemma famlen_le: "famlen fam \<le> 128"
  by (simp add: famlen_def)

lemma wf_prefix_length: "wf_prefix p \<Longrightarrow> length (u p) = 16"
  by (simp add: wf_prefix_def)

lemma wf_prefix_len [bounds]: "wf_prefix p \<Longrightarrow> prefixlen p \<le> 128"
  using famlen_le [of "family p"] by (simp add: wf_prefix_def)

lemma length_key: "wf_prefix p \<Longrightarrow> length (key p) = prefixlen p"
  using wf_prefix_len [of p] by (simp add: key_def wf_prefix_length)

lemma bytes_differ_iff:
  "n \<le> length np \<Longrightarrow> n \<le> length pp \<Longrightarrow> bytes_differ np pp n \<longleftrightarrow> take n np \<noteq> take n pp"
  by (induction n) (auto simp: take_Suc_conv_app_nth)

lemma bit_maskbit:
  assumes "s \<le> 8" "n < 8"
  shows "bit (maskbit ! s) n \<longleftrightarrow> 8 - s \<le> n"
proof -
  have "s \<in> {0, 1, 2, 3, 4, 5, 6, 7, 8}" "n \<in> {0, 1, 2, 3, 4, 5, 6, 7}"
    using assms by auto
  then show ?thesis by (elim insertE emptyE) (simp_all add: maskbit_def)
qed

lemma maskbit_test:
  assumes "s < 8"
  shows "maskbit ! s AND (a XOR b) = 0 \<longleftrightarrow> take s (byte_bits a) = take s (byte_bits b)"
proof -
  have "maskbit ! s AND (a XOR b) = 0 \<longleftrightarrow>
      (\<forall>n < 8. bit (maskbit ! s) n \<longrightarrow> bit a n = bit b n)"
    by (auto simp: bit_eq_iff bit_simps)
  also have "\<dots> \<longleftrightarrow> (\<forall>n < 8. 8 - s \<le> n \<longrightarrow> bit a n = bit b n)"
    using assms by (simp add: bit_maskbit)
  also have "\<dots> \<longleftrightarrow> (\<forall>i < s. bit a (7 - i) = bit b (7 - i))"
    (is "?l \<longleftrightarrow> ?r")
  proof
    assume r: ?r
    show ?l
    proof (intro allI impI)
      fix n :: nat
      assume "n < 8" "8 - s \<le> n"
      then show "bit a n = bit b n" using r [rule_format, of "7 - n"] assms by simp
    qed
  qed (use assms in simp)
  also have "\<dots> \<longleftrightarrow> take s (byte_bits a) = take s (byte_bits b)"
    using assms by (auto simp: list_eq_iff_nth_eq nth_byte_bits)
  finally show ?thesis .
qed

lemma take_bytes_bits_split:
  assumes "k < 8 * length bs \<or> k \<le> 8 * length bs \<and> k mod 8 = 0"
  shows "take k (bytes_bits bs) =
    bytes_bits (take (k div 8) bs) @ (if k mod 8 = 0 then [] else take (k mod 8) (byte_bits (bs ! (k div 8))))"
proof -
  have "take k (bytes_bits bs) =
      take (8 * (k div 8)) (bytes_bits bs) @ take (k mod 8) (drop (8 * (k div 8)) (bytes_bits bs))"
    by (metis mult_div_mod_eq take_add)
  also have "\<dots> = bytes_bits (take (k div 8) bs) @ take (k mod 8) (bytes_bits (drop (k div 8) bs))"
    by (simp only: take_bytes_bits drop_bytes_bits)
  also have "take (k mod 8) (bytes_bits (drop (k div 8) bs)) =
      (if k mod 8 = 0 then [] else take (k mod 8) (byte_bits (bs ! (k div 8))))"
  proof (cases "k mod 8 = 0")
    case False
    with assms have "k div 8 < length bs" by auto
    then show ?thesis
      using False by (simp add: Cons_nth_drop_Suc [symmetric])
  qed simp
  finally show ?thesis .
qed

text \<open>The comparison that \<^verbatim>\<open>prefix_match\<close> and \<^verbatim>\<open>prefix_cmp\<close> share: equality of the first \<open>k\<close> bits.\<close>

lemma bytes_compare:
  assumes "length np = 16" "length pp = 16" "k \<le> 128"
  shows "\<not> (k mod 8 \<noteq> 0 \<and> maskbit ! (k mod 8) AND (np ! (k div 8) XOR pp ! (k div 8)) \<noteq> 0) \<and>
     \<not> bytes_differ np pp (k div 8) \<longleftrightarrow> take k (bytes_bits np) = take k (bytes_bits pp)"
proof -
  have k: "k < 8 * 16 \<or> k \<le> 8 * 16 \<and> k mod 8 = 0" and d: "k div 8 \<le> 16"
    using assms(3) by (cases "k = 128"; simp)+
  have "take k (bytes_bits np) = take k (bytes_bits pp) \<longleftrightarrow>
      take (k div 8) np = take (k div 8) pp \<and>
      (k mod 8 \<noteq> 0 \<longrightarrow> take (k mod 8) (byte_bits (np ! (k div 8))) = take (k mod 8) (byte_bits (pp ! (k div 8))))"
    using k d assms(1,2) by (simp add: take_bytes_bits_split bytes_bits_inject)
  then show ?thesis
    using d assms(1,2) by (auto simp: maskbit_test bytes_differ_iff)
qed

lemma take_key: "k \<le> prefixlen p \<Longrightarrow> take k (key p) = take k (bytes_bits (u p))"
  by (simp add: key_def min_def)

lemma prefix_match_key:
  assumes "wf_prefix n" "wf_prefix p"
  shows "prefix_match n p \<longleftrightarrow> prefix (key n) (key p)"
proof (cases "prefixlen n > prefixlen p")
  case True
  then have "\<not> prefix (key n) (key p)"
    using assms length_key prefix_length_le by (metis linorder_not_le)
  then show ?thesis using True by (simp add: prefix_match_def)
next
  case False
  have "prefix_match n p \<longleftrightarrow> key n = take (prefixlen n) (bytes_bits (u p))"
    using False bytes_compare [of "u n" "u p" "prefixlen n"] assms
      wf_prefix_len [OF assms(1)]
    by (auto simp: prefix_match_def Let_def key_def wf_prefix_length)
  also have "\<dots> \<longleftrightarrow> key n = take (prefixlen n) (key p)"
    using False by (simp add: take_key)
  also have "\<dots> \<longleftrightarrow> prefix (key n) (key p)"
    using assms(1) length_key by (metis append_eq_conv_conj prefix_def take_is_prefix)
  finally show ?thesis .
qed

lemma prefix_bit_key:
  assumes "wf_prefix p" "k < prefixlen p"
  shows "prefix_bit (u p) k = (if key p ! k then 1 else 0)"
proof -
  have "k < 8 * length (u p)" using assms wf_prefix_len [OF assms(1)] by (simp add: wf_prefix_length)
  then have "key p ! k = bit (u p ! (k div 8)) (7 - k mod 8)"
    using assms(2) by (simp add: key_def nth_bytes_bits)
  moreover have "unat (drop_bit j b AND 1) = (if bit b j then 1 else 0)" for b :: u8 and j
    by (simp add: and_one_eq bit_iff_odd_drop_bit mod2_eq_if)
  ultimately show ?thesis by (simp add: prefix_bit_def)
qed

lemma prefix_cmp_key:
  assumes "wf_prefix p1" "wf_prefix p2"
  shows "prefix_cmp p1 p2 = (if family p1 = family p2 \<and> key p1 = key p2 then 0 else 1)"
proof (cases "family p1 \<noteq> family p2 \<or> prefixlen p1 \<noteq> prefixlen p2")
  case True
  then have "\<not> (family p1 = family p2 \<and> key p1 = key p2)"
    using length_key [OF assms(1)] length_key [OF assms(2)] by auto
  then show ?thesis using True by (simp add: prefix_cmp_def)
next
  case False
  then show ?thesis
    using bytes_compare [of "u p1" "u p2" "prefixlen p1"] assms wf_prefix_len [OF assms(1)]
    by (auto simp: prefix_cmp_def Let_def key_def wf_prefix_length)
qed

lemma prefix_copy_ok:
  assumes "wf_prefix src" "length (u dest) = 16"
  shows "\<exists>p. prefix_copy dest src = Some p \<and> wf_prefix p \<and> key p = key src \<and>
    family p = family src \<and> prefixlen p = prefixlen src"
proof -
  obtain n where n: "n \<le> 16" "prefixlen src \<le> 8 * n" and
    c: "prefix_copy dest src = Some (dest\<lparr>family := family src, prefixlen := prefixlen src,
      u := write_at (u dest) 0 (take n (u src))\<rparr>)" (is "_ = Some ?p")
  proof (rule that [of "famlen (family src) div 8"])
    show "famlen (family src) div 8 \<le> 16" by (simp add: famlen_def)
    show "prefixlen src \<le> 8 * (famlen (family src) div 8)"
      using assms(1) by (simp add: wf_prefix_def famlen_def split: if_splits)
  qed (use assms(1) in \<open>auto simp: prefix_copy_def famlen_def wf_prefix_def\<close>)
  define p where "p = ?p"
  have "take (prefixlen src) (bytes_bits (u p)) = take (prefixlen src) (take (8 * n) (bytes_bits (u p)))"
    using n(2) by (simp add: min_def)
  also have "take (8 * n) (bytes_bits (u p)) = take (8 * n) (bytes_bits (u src))"
    using n(1) assms by (simp add: p_def take_bytes_bits write_at_def wf_prefix_length)
  finally have "key p = key src"
    using n(2) by (simp add: key_def p_def min_def)
  moreover have "wf_prefix p"
    using assms n(1) by (simp add: wf_prefix_def p_def)
  ultimately show ?thesis using c by (simp add: p_def)
qed

subsection \<open>Common bits\<close>

lemma first_diff_prop:
  assumes "pos \<le> len" "take pos a = take pos b" "len \<le> length a" "len \<le> length b"
  shows "first_diff a b len pos \<le> len \<and>
    take (first_diff a b len pos) a = take (first_diff a b len pos) b \<and>
    (first_diff a b len pos < len \<longrightarrow> a ! first_diff a b len pos \<noteq> b ! first_diff a b len pos)"
  using assms
proof (induction a b len pos rule: first_diff.induct)
  case (1 a b len pos)
  show ?case
  proof (cases "pos < len \<and> a ! pos = b ! pos")
    case True
    then have "first_diff a b len pos = first_diff a b len (pos + 1)"
      by (simp add: first_diff.simps [of a b len pos])
    then show ?thesis using 1 True by (simp add: take_Suc_conv_app_nth)
  next
    case False
    then have "first_diff a b len pos = pos" by (subst first_diff.simps) auto
    then show ?thesis using 1 False by auto
  qed
qed

lemma first_set_prop:
  assumes "k \<le> 8" "\<forall>i < k. \<not> bit x (7 - i)"
  shows "first_set x k \<le> 8 \<and> (\<forall>i < first_set x k. \<not> bit x (7 - i)) \<and>
    (first_set x k < 8 \<longrightarrow> bit x (7 - first_set x k))"
  using assms
proof (induction x k rule: first_set.induct)
  case (1 x k)
  have t: "x AND push_bit (7 - k) 1 = 0 \<longleftrightarrow> \<not> bit x (7 - k)"
    by (simp add: and_exp_eq_0_iff_not_bit)
  show ?case
  proof (cases "k < 8 \<and> \<not> bit x (7 - k)")
    case True
    then have "first_set x k = first_set x (k + 1)"
      using t by (subst first_set.simps) simp
    then show ?thesis using 1 True t by (simp add: less_Suc_eq)
  next
    case False
    then have "first_set x k = k" using t by (subst first_set.simps) auto
    then show ?thesis using 1 False by auto
  qed
qed

lemma first_set_xor:
  assumes "a \<noteq> b"
  defines "k \<equiv> first_set (a XOR b) 0"
  shows "k < 8" "take k (byte_bits a) = take k (byte_bits b)" "byte_bits a ! k \<noteq> byte_bits b ! k"
proof -
  have p: "k \<le> 8" "\<forall>i < k. bit a (7 - i) = bit b (7 - i)" "k < 8 \<longrightarrow> bit a (7 - k) \<noteq> bit b (7 - k)"
    using first_set_prop [of 0 "a XOR b"] by (auto simp: k_def bit_xor_iff)
  show t: "take k (byte_bits a) = take k (byte_bits b)"
    by (rule nth_equalityI) (use p in \<open>simp_all add: nth_byte_bits\<close>)
  have "k \<noteq> 8" using t assms(1) by auto
  with p(1) show k: "k < 8" by simp
  show "byte_bits a ! k \<noteq> byte_bits b ! k"
    using k p(3) by (simp add: nth_byte_bits)
qed

lemma prefix_common_bits_prop:
  assumes "family p1 = family p2" "family p1 \<in> {AF_INET, AF_INET6}" "length (u p1) = 16" "length (u p2) = 16"
  defines "k \<equiv> nat (prefix_common_bits p1 p2)"
  shows "prefix_common_bits p1 p2 = int k" "k \<le> 8 * prefix_blen p1"
    "take k (bytes_bits (u p1)) = take k (bytes_bits (u p2))"
    "k < 8 * prefix_blen p1 \<longrightarrow> bytes_bits (u p1) ! k \<noteq> bytes_bits (u p2) ! k"
proof -
  define len where "len = prefix_blen p1"
  have len: "0 < len" "len \<le> 16" using assms(2) by (auto simp: len_def prefix_blen_def)
  define pos where "pos = first_diff (u p1) (u p2) len 0"
  have pos: "pos \<le> len" "take pos (u p1) = take pos (u p2)" "pos < len \<longrightarrow> u p1 ! pos \<noteq> u p2 ! pos"
    using first_diff_prop [of 0 len "u p1" "u p2"] len assms by (auto simp: pos_def)
  define j where "j = (if pos = len then 0 else first_set (u p1 ! pos XOR u p2 ! pos) 0)"
  have "prefix_common_bits p1 p2 = int (8 * pos + j)"
    using assms(1,2) len(1)
    by (auto simp: prefix_common_bits_def Let_def j_def pos_def len_def prefix_blen_def)
  then have k: "k = 8 * pos + j" and *: "prefix_common_bits p1 p2 = int k" by (simp_all add: k_def)
  have j: "pos < len \<longrightarrow> j < 8 \<and> take j (byte_bits (u p1 ! pos)) = take j (byte_bits (u p2 ! pos)) \<and>
      byte_bits (u p1 ! pos) ! j \<noteq> byte_bits (u p2 ! pos) ! j"
    using first_set_xor [of "u p1 ! pos" "u p2 ! pos"] pos by (simp add: j_def)
  have d: "bytes_bits (drop pos bs) = byte_bits (bs ! pos) @ bytes_bits (drop (Suc pos) bs)"
    if "pos < len" "length bs = 16" for bs
    using that len by (simp add: Cons_nth_drop_Suc [symmetric])
  show "prefix_common_bits p1 p2 = int k" by (fact *)
  show "k \<le> 8 * prefix_blen p1"
    using j pos(1) by (cases "pos = len") (auto simp: k j_def simp flip: len_def)
  show "take k (bytes_bits (u p1)) = take k (bytes_bits (u p2))"
    using j pos d assms(3,4)
    by (cases "pos = len") (auto simp: k take_add take_bytes_bits drop_bytes_bits j_def)
  show "k < 8 * prefix_blen p1 \<longrightarrow> bytes_bits (u p1) ! k \<noteq> bytes_bits (u p2) ! k"
  proof
    assume "k < 8 * prefix_blen p1"
    then have l: "pos < len" using pos(1) by (simp add: k len_def)
    have "bytes_bits bs ! k = byte_bits (bs ! pos) ! j" if "length bs = 16" for bs
    proof -
      have "bytes_bits bs ! k = drop (8 * pos) (bytes_bits bs) ! j"
        using that l len by (simp add: k)
      then show ?thesis using d [OF l that] j l by (simp add: drop_bytes_bits nth_append)
    qed
    then show "bytes_bits (u p1) ! k \<noteq> bytes_bits (u p2) ! k" using j l assms(3,4) by simp
  qed
qed

subsection \<open>Masks\<close>

lemma bytes_bits_put32: "bytes_bits (put32 w) = map (bit w) (rev [0..<32])"
proof -
  have "rev [0..<32] = [31, 30, 29, 28, 27, 26, 25, 24, 23, 22, 21, 20, 19, 18, 17, 16,
      15, 14, 13, 12, 11, 10, 9, 8, 7, 6, 5, 4, 3, 2, 1, 0 :: nat]"
    by code_simp
  then show ?thesis by (simp add: put32_def byte_bits_def bit_simps)
qed

lemma map_bit_mask:
  "m \<le> n \<Longrightarrow> map (\<lambda>j. n - m \<le> j) (rev [0..<n]) = replicate m True @ replicate (n - m) False"
  by (auto simp: list_eq_iff_nth_eq nth_append rev_nth)

lemma masklen2ip_ok:
  assumes "m \<le> 32"
  shows "\<exists>mk. masklen2ip (int m) = Some mk \<and> length mk = 4 \<and>
    bytes_bits mk = replicate m True @ replicate (32 - m) False"
proof -
  let ?w = "ucast (push_bit (32 - m) (0xffffffff :: u64)) :: u32"
  have ff: "(0xffffffff :: u64) = mask 32" by (simp add: mask_eq_exp_minus_1)
  have "bit ?w j \<longleftrightarrow> 32 - m \<le> j" if "j < 32" for j
    unfolding ff using that by (auto simp: bit_simps)
  then have "map (bit ?w) (rev [0..<32]) = map (\<lambda>j. 32 - m \<le> j) (rev [0..<32])"
    by (intro map_cong) auto
  then show ?thesis
    using assms map_bit_mask [of m 32]
    by (simp add: masklen2ip_def nat_diff_distrib bytes_bits_put32)
qed

lemma bytes_bits_map2_and:
  "length a = length b \<Longrightarrow> bytes_bits (map2 (AND) a b) = map2 (\<and>) (bytes_bits a) (bytes_bits b)"
  by (induction a b rule: list_induct2) (simp_all add: byte_bits_def bit_and_iff)

lemma map2_and_mask:
  "length xs = n \<Longrightarrow> m \<le> n \<Longrightarrow>
     map2 (\<and>) xs (replicate m True @ replicate (n - m) False) = take m xs @ replicate (n - m) False"
  by (auto simp: list_eq_iff_nth_eq nth_append)

lemma byte_bits_and_maskbit:
  assumes "k < 8"
  shows "byte_bits (b AND maskbit ! k) = take k (byte_bits b) @ replicate (8 - k) False"
  using assms
  by (auto simp: list_eq_iff_nth_eq nth_byte_bits nth_append bit_and_iff bit_maskbit)

lemma bytes_bits_zeros [simp]: "bytes_bits (replicate n 0) = replicate (8 * n) False"
  by (induction n) (simp_all add: byte_bits_def numeral_eq_Suc)

lemma apply_mask_ipv4_ok:
  assumes "length (u p) = 16" "prefixlen p \<le> 32"
  shows "\<exists>bs. apply_mask_ipv4 p = Some (p\<lparr>u := bs @ drop 4 (u p)\<rparr>) \<and> length bs = 4 \<and>
    bytes_bits bs = key p @ replicate (32 - prefixlen p) False"
proof -
  obtain mk where mk: "masklen2ip (int (prefixlen p)) = Some mk" "length mk = 4"
      "bytes_bits mk = replicate (prefixlen p) True @ replicate (32 - prefixlen p) False"
    using masklen2ip_ok [OF assms(2)] by blast
  let ?bs = "map2 (AND) (take 4 (u p)) mk"
  have "apply_mask_ipv4 p = Some (p\<lparr>u := ?bs @ drop 4 (u p)\<rparr>)"
    using mk(1,2) assms(1) by (simp add: apply_mask_ipv4_def write_at_def)
  moreover have "bytes_bits ?bs = key p @ replicate (32 - prefixlen p) False"
  proof -
    have "bytes_bits ?bs = map2 (\<and>) (bytes_bits (take 4 (u p))) (bytes_bits mk)"
      using mk(2) assms(1) by (simp add: bytes_bits_map2_and)
    also have "\<dots> = take (prefixlen p) (bytes_bits (take 4 (u p))) @ replicate (32 - prefixlen p) False"
      unfolding mk(3) using assms by (intro map2_and_mask) simp_all
    also have "take (prefixlen p) (bytes_bits (take 4 (u p))) = key p"
      using assms(2) take_bytes_bits [of 4 "u p", symmetric] by (simp add: key_def min_def)
    finally show ?thesis .
  qed
  ultimately show ?thesis using mk(2) assms(1) by (intro exI [of _ ?bs]) simp
qed

lemma apply_mask_ipv6_ok:
  assumes "length (u p) = 16" "prefixlen p \<le> 128"
  shows "bytes_bits (u (apply_mask_ipv6 p)) = key p @ replicate (128 - prefixlen p) False"
    "length (u (apply_mask_ipv6 p)) = 16"
proof -
  let ?i = "prefixlen p div 8" and ?o = "prefixlen p mod 8"
  have "bytes_bits (u (apply_mask_ipv6 p)) = key p @ replicate (128 - prefixlen p) False \<and>
      length (u (apply_mask_ipv6 p)) = 16"
  proof (cases "?i < 16")
    case True
    have "prefixlen p < 128" using True assms(2) by (cases "prefixlen p = 128") auto
    then have k: "key p = bytes_bits (take ?i (u p)) @ take ?o (byte_bits (u p ! ?i))"
      using take_bytes_bits_split [of "prefixlen p" "u p"] assms(1) by (auto simp: key_def)
    have m: "u (apply_mask_ipv6 p) = take ?i (u p) @ (u p ! ?i AND maskbit ! ?o) # replicate (15 - ?i) 0"
      using True assms(1)
      by (simp add: apply_mask_ipv6_def Let_def write_at_def take_Suc_conv_app_nth)
    have "8 - ?o + 8 * (15 - ?i) = 128 - prefixlen p"
      using True mult_div_mod_eq [of 8 "prefixlen p"] by linarith
    then show ?thesis
      using True assms(1)
      by (simp add: m k byte_bits_and_maskbit replicate_add [symmetric])
  next
    case False
    then have "prefixlen p = 128" using assms(2) by (simp add: not_less)
    then show ?thesis using assms(1) by (simp add: apply_mask_ipv6_def key_def)
  qed
  then show "bytes_bits (u (apply_mask_ipv6 p)) = key p @ replicate (128 - prefixlen p) False"
    "length (u (apply_mask_ipv6 p)) = 16" by blast+
qed

lemma apply_mask_ipv4_twice:
  assumes "length (u p) = 16" "prefixlen p \<le> 32"
  shows "\<exists>q. apply_mask_ipv4 p = Some q \<and> family q = family p \<and> prefixlen q = prefixlen p \<and>
    bytes_bits (take 4 (u q)) = key p @ replicate (32 - prefixlen p) False \<and> apply_mask_ipv4 q = Some q"
proof -
  obtain bs where bs: "apply_mask_ipv4 p = Some (p\<lparr>u := bs @ drop 4 (u p)\<rparr>)" "length bs = 4"
      "bytes_bits bs = key p @ replicate (32 - prefixlen p) False"
    using apply_mask_ipv4_ok [OF assms] by blast
  define q where "q = p\<lparr>u := bs @ drop 4 (u p)\<rparr>"
  have q: "length (u q) = 16" "prefixlen q = prefixlen p"
    using bs(2) assms(1) by (simp_all add: q_def)
  have k: "length (key p) = prefixlen p" using assms by (simp add: key_def)
  have "key q = take (prefixlen p) (bytes_bits bs @ bytes_bits (drop 4 (u p)))"
    by (simp add: key_def q_def)
  then have "key q = key p"
    using assms(2) bs(3) k by simp
  then obtain cs where cs: "apply_mask_ipv4 q = Some (q\<lparr>u := cs @ drop 4 (u q)\<rparr>)" "length cs = 4"
      "bytes_bits cs = bytes_bits bs"
    using apply_mask_ipv4_ok [of q] q assms(2) bs(3) by auto
  then have "cs = bs" using bs(2) bytes_bits_inject [of cs bs] by simp
  then have "apply_mask_ipv4 q = Some q"
    using cs(1) bs(2) by (simp add: q_def)
  then show ?thesis using bs by (auto simp: q_def)
qed

lemma apply_mask_ipv6_twice:
  assumes "length (u p) = 16" "prefixlen p \<le> 128"
  shows "apply_mask_ipv6 (apply_mask_ipv6 p) = apply_mask_ipv6 p"
    "family (apply_mask_ipv6 p) = family p" "prefixlen (apply_mask_ipv6 p) = prefixlen p"
proof -
  let ?q = "apply_mask_ipv6 p"
  show q: "family ?q = family p" "prefixlen ?q = prefixlen p"
    by (simp_all add: apply_mask_ipv6_def Let_def)
  have k: "length (key p) = prefixlen p" using assms by (simp add: key_def)
  have "key ?q = key p"
    using apply_mask_ipv6_ok [OF assms] k q by (simp add: key_def [of ?q])
  then have "bytes_bits (u (apply_mask_ipv6 ?q)) = bytes_bits (u ?q)"
    using apply_mask_ipv6_ok [OF assms] apply_mask_ipv6_ok [of ?q] q assms by simp
  then have "u (apply_mask_ipv6 ?q) = u ?q"
    using apply_mask_ipv6_ok(2) [OF assms] apply_mask_ipv6_ok(2) [of ?q] q assms
    by (simp add: bytes_bits_inject)
  then show "apply_mask_ipv6 ?q = ?q"
    using q by (simp add: apply_mask_ipv6_def [of ?q] Let_def split: if_splits)
qed

lemma takeWhile_high_zeros:
  assumes "\<And>j. j < n \<Longrightarrow> P j \<longleftrightarrow> k \<le> j" "k \<le> n"
  shows "length (takeWhile P (rev [0..<n])) = n - k"
  using assms
proof (induction n)
  case (Suc n)
  show ?case
  proof (cases "k = Suc n")
    case True
    then show ?thesis using Suc.prems(1) [of n] by simp
  next
    case False
    then have "length (takeWhile P (rev [0..<n])) = n - k" by (intro Suc.IH) (use Suc.prems in auto)
    then show ?thesis using False Suc.prems by simp
  qed
qed simp

lemma ip_masklen_masklen2ip:
  assumes "m \<le> 32" "masklen2ip (int m) = Some mk"
  shows "ip_masklen mk = m"
proof -
  let ?w = "ucast (push_bit (32 - m) (0xffffffff :: u64)) :: u32"
  have ff: "(0xffffffff :: u64) = mask 32" by (simp add: mask_eq_exp_minus_1)
  have b: "bit (NOT ?w) j \<longleftrightarrow> \<not> 32 - m \<le> j" if "j < 32" for j
    unfolding ff using that by (auto simp: bit_simps)
  have mk: "mk = put32 ?w" using assms by (simp add: masklen2ip_def nat_diff_distrib)
  have ip: "ip_masklen mk = (if NOT ?w \<noteq> 0 then clz32 (NOT ?w) else 32)"
    unfolding mk by (simp add: ip_masklen_def put32_def get32_put32)
  show ?thesis
  proof (cases "m = 32")
    case True
    then have "NOT ?w = 0" using b by (intro bit_word_eqI) simp
    then show ?thesis using True by (simp add: ip)
  next
    case False
    then have "bit (NOT ?w) 0" using b [of 0] assms(1) by simp
    then have "NOT ?w \<noteq> 0" by (metis bit_0_eq bot_apply bot_bool_def)
    moreover have "clz32 (NOT ?w) = 32 - (32 - m)"
      unfolding clz32_def by (rule takeWhile_high_zeros) (simp_all add: b)
    ultimately show ?thesis using assms(1) by (simp add: ip)
  qed
qed

lemma maskbytes6_bits:
  "map bytes_bits maskbytes6 = map (\<lambda>n. replicate n True @ replicate (128 - n) False) [0..<129]"
  by code_simp

lemma maskbytes6_masklen: "map ip6_masklen maskbytes6 = [0..<129]"
  by code_simp

lemma masklen2ip6_ok:
  assumes "m \<le> 128"
  shows "\<exists>mk. masklen2ip6 (int m) = Some mk \<and>
    bytes_bits mk = replicate m True @ replicate (128 - m) False \<and> ip6_masklen mk = m"
proof -
  have l: "length maskbytes6 = 129"
    using arg_cong [OF maskbytes6_masklen, of length] by simp
  have "bytes_bits (maskbytes6 ! m) = replicate m True @ replicate (128 - m) False"
    using arg_cong [OF maskbytes6_bits, of "\<lambda>xs. xs ! m"] assms l by simp
  moreover have "ip6_masklen (maskbytes6 ! m) = m"
    using arg_cong [OF maskbytes6_masklen, of "\<lambda>xs. xs ! m"] assms l by simp
  ultimately show ?thesis using assms by (simp add: masklen2ip6_def)
qed

lemma atoi_dec_str:
  assumes "n < 2 ^ 31"
  shows "atoi (dec_str n) = int n"
proof -
  obtain c cs where d: "dec_str n = c # cs" by (cases "dec_str n") auto
  have c: "isdigit c" using dec_str_digits [of c n] d by simp
  then have "\<not> isspace c" "c \<noteq> CHR ''-''" "c \<noteq> CHR ''+''"
    by (auto simp: isdigit_def isspace_def)
  then have "strtol10 (dec_str n) = int n"
    using d takeWhile_dec_str(1) [of "[]" n] assms dec_val_dec_str [of n]
    by (simp add: strtol10_def Let_def)
  moreover have "sint (word_of_int (int n) :: 32 word) = signed_take_bit 31 (int n)"
    by transfer simp
  ultimately show ?thesis
    using assms by (simp add: atoi_def signed_take_bit_int_eq_self del: of_int_of_nat_eq)
qed

subsection \<open>Properties\<close>

text \<open>C21.  \<^verbatim>\<open>prefix_match\<close> decides containment: on well-formed prefixes it holds exactly when the
  significant bits of the first are an initial segment of those of the second; and \<^verbatim>\<open>prefix_cmp\<close>
  returns 0 exactly on equal families and equal significant bits.\<close>

theorem prefix_match_is_containment:
  assumes "wf_prefix n" "wf_prefix p"
  shows "(prefix_match n p \<longleftrightarrow> prefix (key n) (key p)) \<and>
    prefix_cmp n p = (if family n = family p \<and> key n = key p then 0 else 1)"
  using assms by (simp add: prefix_match_key prefix_cmp_key)

abbreviation net10 :: prefix where
  "net10 \<equiv> \<lparr>family = AF_INET, prefixlen = 8, u = [10, 0, 0, 9] @ replicate 12 0\<rparr>"
abbreviation host10 :: prefix where
  "host10 \<equiv> \<lparr>family = AF_INET, prefixlen = 32, u = [10, 1, 2, 3] @ replicate 12 0\<rparr>"

lemma wf_examples: "wf_prefix net10" "wf_prefix host10"
  by (simp_all add: wf_prefix_def famlen_def)

theorem prefix_match_is_containment_witness:
  "prefix_match net10 host10 \<and> prefix (key net10) (key host10) \<and> prefix_cmp net10 host10 = 1"
proof -
  have "prefix_match net10 host10"
    by (simp add: prefix_match_def Let_def)
  moreover have "key net10 \<noteq> key host10"
    using length_key [OF wf_examples(1)] length_key [OF wf_examples(2)] by auto
  ultimately show ?thesis
    using prefix_match_is_containment [OF wf_examples] by simp
qed

text \<open>\<^verbatim>\<open>apply_mask\<close> on a well-formed IPv4 or IPv6 prefix returns, keeps family, length and all the
  significant bits, clears every bit of the address after them, and changes nothing when it is
  applied again.\<close>

lemma apply_mask_clears_host_bits:
  assumes "wf_prefix p" "family p \<in> {AF_INET, AF_INET6}"
  shows "\<exists>q. apply_mask p = Some q \<and> family q = family p \<and> prefixlen q = prefixlen p \<and>
    bytes_bits (take (prefix_blen p) (u q)) = key p @ replicate (8 * prefix_blen p - prefixlen p) False \<and>
    apply_mask q = Some q"
proof -
  have l: "length (u p) = 16" using assms(1) by (rule wf_prefix_length)
  consider "family p = AF_INET" "prefixlen p \<le> 32" | "family p = AF_INET6" "prefixlen p \<le> 128"
    using assms by (auto simp: wf_prefix_def famlen_def)
  then show ?thesis
  proof cases
    case 1
    then show ?thesis using apply_mask_ipv4_twice [OF l 1(2)]
      by (auto simp: apply_mask_def prefix_blen_def)
  next
    case 2
    then show ?thesis using apply_mask_ipv6_twice [OF l 2(2)] apply_mask_ipv6_ok [OF l 2(2)]
      by (simp add: apply_mask_def prefix_blen_def)
  qed
qed

text \<open>\<^verbatim>\<open>prefix_common_bits\<close> of two addresses of the same family is the length of their longest
  common bit prefix: that many bits agree, and the next bit differs unless the whole addresses
  agree.\<close>

lemma prefix_common_bits_longest:
  assumes "family p1 = family p2" "family p1 \<in> {AF_INET, AF_INET6}" "length (u p1) = 16" "length (u p2) = 16"
  shows "\<exists>k. prefix_common_bits p1 p2 = int k \<and> k \<le> 8 * prefix_blen p1 \<and>
    take k (bytes_bits (u p1)) = take k (bytes_bits (u p2)) \<and>
    (k = 8 * prefix_blen p1 \<or> bytes_bits (u p1) ! k = (\<not> bytes_bits (u p2) ! k))"
  using prefix_common_bits_prop [OF assms]
  by (intro exI [of _ "nat (prefix_common_bits p1 p2)"]) auto

text \<open>Mask lengths and netmasks correspond: for every length the family allows, the netmask has
  exactly that many leading one bits, and the length is read back from it.\<close>

lemma masklen_netmask_roundtrip:
  "(m \<le> 32 \<longrightarrow> (\<exists>mk. masklen2ip (int m) = Some mk \<and>
      bytes_bits mk = replicate m True @ replicate (32 - m) False \<and> ip_masklen mk = m)) \<and>
   (m \<le> 128 \<longrightarrow> (\<exists>mk. masklen2ip6 (int m) = Some mk \<and>
      bytes_bits mk = replicate m True @ replicate (128 - m) False \<and> ip6_masklen mk = m))"
  using masklen2ip_ok ip_masklen_masklen2ip masklen2ip6_ok by blast

lemma str2prefix_ipv4_text:
  assumes "CHR ''/'' \<notin> set addr" "inet_aton addr = Some a" "n < 2 ^ 31"
  shows "str2prefix_ipv4 inet_aton (addr @ ''/'' @ dec_str n) p =
    (if n mod 256 \<le> 32
     then (True, p\<lparr>u := write_at (u p) 0 a, family := AF_INET, prefixlen := n mod 256\<rparr>)
     else (False, p\<lparr>u := write_at (u p) 0 a\<rparr>))"
proof -
  have "takeWhile (\<lambda>c. c \<noteq> CHR ''/'') (addr @ ''/'' @ dec_str n) = addr"
    "dropWhile (\<lambda>c. c \<noteq> CHR ''/'') (addr @ ''/'' @ dec_str n) = ''/'' @ dec_str n"
    using assms(1) by (simp_all add: takeWhile_append dropWhile_append)
  then show ?thesis
    using assms(2,3) by (simp add: str2prefix_ipv4_def Let_def atoi_dec_str nat_mod_distrib not_less)
qed

text \<open>\<^verbatim>\<open>str2prefix_ipv4\<close> converts the length after the slash to \<open>u_char\<close> before it checks it, so
  the length it accepts and stores is the number written modulo 256: every number whose remainder
  is at most 32 is accepted, among them 264, which gives a /8.\<close>

lemma str2prefix_ipv4_length_wraps:
  assumes "CHR ''/'' \<notin> set addr" "inet_aton addr = Some a" "n < 2 ^ 31"
  shows "str2prefix_ipv4 inet_aton (addr @ ''/'' @ dec_str n) p =
    (if n mod 256 \<le> 32
     then (True, p\<lparr>u := write_at (u p) 0 a, family := AF_INET, prefixlen := n mod 256\<rparr>)
     else (False, p\<lparr>u := write_at (u p) 0 a\<rparr>))"
  using assms by (rule str2prefix_ipv4_text)

text \<open>On a little-endian machine \<^verbatim>\<open>ipv4_martian\<close> tests the last byte of the address instead of the
  first: 127.0.0.1 is not reported, and 10.0.0.127 is; on a big-endian machine it is the other way.\<close>

lemma ipv4_martian_tests_wrong_byte:
  "\<not> ipv4_martian False [127, 0, 0, 1] \<and> ipv4_martian False [10, 0, 0, 127] \<and>
   ipv4_martian True [127, 0, 0, 1] \<and> \<not> ipv4_martian True [10, 0, 0, 127]"
  by (simp add: ipv4_martian_def s_addr_def ntohl_def get32_def)

text \<open>A prefix put on a stream that has room for it is its length byte and then just the bytes
  its length covers; nothing else of the stream changes and the stream stays in order.\<close>

lemma stream_put_prefix_bytes:
  assumes "sane s" "wf_prefix p" "PSIZE (prefixlen p) + 1 \<le> STREAM_WRITEABLE s"
  shows "\<exists>s'. stream_put_prefix s p = Some (PSIZE (prefixlen p), s') \<and> sane s' \<and> getp s' = getp s \<and>
    written s' = written s @ of_nat (prefixlen p) # take (PSIZE (prefixlen p)) (u p)"
proof -
  have w: "PSIZE (prefixlen p) \<le> length (u p)"
    using wf_prefix_len [OF assms(2)] by (simp add: PSIZE_def wf_prefix_length [OF assms(2)])
  let ?bs = "of_nat (prefixlen p) # take (PSIZE (prefixlen p)) (u p)"
  have "stream_put_prefix s p = Some (PSIZE (prefixlen p), append_bytes s ?bs)"
    using assms(1,3) w append_bytes_append [of s "[of_nat (prefixlen p)]" "take (PSIZE (prefixlen p)) (u p)"]
    by (simp add: stream_put_prefix_def Let_def append_bytes_def marker_defs sane_def)
  then show ?thesis
    using assms(1,3) w by (simp add: written_append_bytes)
qed

end
