(* ===== verification/Ztable.thy ===== *)
theory Ztable
  imports Zprefix
begin

text \<open>
  The routing table: \<^verbatim>\<open>lib/table.c\<close> and \<^verbatim>\<open>lib/table.h\<close>.

  The table is a radix tree of heap nodes linked both ways.  The model keeps the pointers: a table
  has its top pointer, its node count and the store of its live nodes, and a node has its prefix,
  parent, two links, lock count and info.  \<open>None\<close> as the result of an operation is a failed
  assertion, the use of a pointer to no live node, or a loop that does not end; \<open>route_node_create\<close> takes
  the address the allocator returns as an argument.  Lock and node counts are natural numbers.

  The invariant \<open>wf_table\<close> is local to each link: a child's key properly extends its parent's key, it
  hangs on the side of its next bit, and parent and link pointers agree.  It makes the walk for a
  prefix visit exactly the live nodes whose key the prefix extends, shortest first, which is what
  lookup, longest match and insertion rest on.
\<close>

subsection \<open>Data\<close>

record 'v route_node =
  pfx :: prefix
  parent :: "addr option"
  l_left :: "addr option"
  l_right :: "addr option"
  lock :: nat
  info :: "'v option"

record 'v route_table =
  ttop :: "addr option"
  tcount :: nat
  nodes :: "addr \<Rightarrow> 'v route_node option"

definition rt_link :: "'v route_node \<Rightarrow> nat \<Rightarrow> addr option" where
  "rt_link n b = (if b = 0 then l_left n else l_right n)"

definition set_rt_link :: "nat \<Rightarrow> addr option \<Rightarrow> 'v route_node \<Rightarrow> 'v route_node" where
  "set_rt_link b c n = (if b = 0 then n\<lparr>l_left := c\<rparr> else n\<lparr>l_right := c\<rparr>)"

text \<open>An assignment through a node pointer.\<close>

definition upd_node :: "addr \<Rightarrow> ('v route_node \<Rightarrow> 'v route_node) \<Rightarrow> 'v route_table \<Rightarrow> 'v route_table option" where
  "upd_node a f T = do {
     n \<leftarrow> nodes T a;
     Some (T\<lparr>nodes := (nodes T)(a \<mapsto> f n)\<rparr>) }"

subsection \<open>Operations\<close>

definition route_table_init :: "'v route_table" where
  "route_table_init = \<lparr>ttop = None, tcount = 0, nodes = Map.empty\<rparr>"

definition route_node_create :: "'v route_table \<Rightarrow> addr \<Rightarrow> 'v route_table" where
  "route_node_create T a = T\<lparr>nodes := (nodes T)(a \<mapsto>
     \<lparr>pfx = prefix_new, parent = None, l_left = None, l_right = None, lock = 0, info = None\<rparr>)\<rparr>"

definition route_node_set :: "'v route_table \<Rightarrow> addr \<Rightarrow> prefix \<Rightarrow> 'v route_table option" where
  "route_node_set T a p =
     (let T = route_node_create T a in do {
        n \<leftarrow> nodes T a;
        q \<leftarrow> prefix_copy (pfx n) p;
        upd_node a (\<lambda>n. n\<lparr>pfx := q\<rparr>) T })"

text \<open>The two loops of \<^verbatim>\<open>route_common\<close>: the copy of the common whole bytes, and the search of the first
  differing bit in the next one.\<close>

function common_bytes :: "u8 list \<Rightarrow> u8 list \<Rightarrow> nat \<Rightarrow> nat \<Rightarrow> u8 list \<Rightarrow> nat \<times> u8 list" where
  "common_bytes np pp lim i newp =
     (if i < lim then
        if np ! i = pp ! i then common_bytes np pp lim (i + 1) (newp[i := np ! i]) else (i, newp)
      else (i, newp))"
  by pat_completeness auto
termination by (relation "measure (\<lambda>(_, _, lim, i, _). lim - i)") auto

function common_shift :: "u8 \<Rightarrow> u8 \<Rightarrow> nat \<Rightarrow> nat \<Rightarrow> nat" where
  "common_shift diff msk plen len =
     (if len < plen \<and> msk AND diff = 0 then common_shift diff (drop_bit 1 msk) plen (len + 1) else len)"
  by pat_completeness auto
termination by (relation "measure (\<lambda>(_, _, plen, len). plen - len)") auto

declare common_bytes.simps [simp del] common_shift.simps [simp del]

definition route_common :: "prefix \<Rightarrow> prefix \<Rightarrow> prefix \<Rightarrow> prefix" where
  "route_common n p new =
     (let np = u n; pp = u p;
          (i, newp) = common_bytes np pp (prefixlen p div 8) 0 (u new);
          len = i * 8
      in if len \<noteq> prefixlen p then
           let len = common_shift (np ! i XOR pp ! i) 0x80 (prefixlen p) len
           in new\<lparr>prefixlen := len, u := newp[i := np ! i AND maskbit ! (len mod 8)]\<rparr>
         else new\<lparr>prefixlen := len, u := newp\<rparr>)"

definition set_link :: "'v route_table \<Rightarrow> addr \<Rightarrow> addr \<Rightarrow> 'v route_table option" where
  "set_link T node new = do {
     n \<leftarrow> nodes T node;
     m \<leftarrow> nodes T new;
     let b = prefix_bit (u (pfx m)) (prefixlen (pfx n)) in do {
       T \<leftarrow> upd_node node (set_rt_link b (Some new)) T;
       upd_node new (\<lambda>m. m\<lparr>parent := Some node\<rparr>) T } }"

definition route_lock_node :: "'v route_table \<Rightarrow> addr \<Rightarrow> 'v route_table option" where
  "route_lock_node T a = upd_node a (\<lambda>n. n\<lparr>lock := lock n + 1\<rparr>) T"

partial_function (option) route_node_delete :: "'v route_table \<Rightarrow> addr \<Rightarrow> 'v route_table option" where
  "route_node_delete T a = do {
     n \<leftarrow> nodes T a;
     zassert (lock n = 0);
     zassert (info n = None);
     if l_left n \<noteq> None \<and> l_right n \<noteq> None then Some T
     else let child = (if l_left n \<noteq> None then l_left n else l_right n) in do {
       T \<leftarrow> (case child of Some c \<Rightarrow> upd_node c (\<lambda>m. m\<lparr>parent := parent n\<rparr>) T | None \<Rightarrow> Some T);
       T \<leftarrow> (case parent n of
           Some q \<Rightarrow> upd_node q (\<lambda>m. if l_left m = Some a then m\<lparr>l_left := child\<rparr> else m\<lparr>l_right := child\<rparr>) T
         | None \<Rightarrow> Some (T\<lparr>ttop := child\<rparr>));
       let T = T\<lparr>tcount := tcount T - 1, nodes := (nodes T)(a := None)\<rparr> in
       case parent n of
         Some q \<Rightarrow> do {
           m \<leftarrow> nodes T q;
           if lock m = 0 then route_node_delete T q else Some T }
       | None \<Rightarrow> Some T } }"

definition route_unlock_node :: "'v route_table \<Rightarrow> addr \<Rightarrow> 'v route_table option" where
  "route_unlock_node T a = do {
     n \<leftarrow> nodes T a;
     zassert (lock n > 0);
     T \<leftarrow> upd_node a (\<lambda>n. n\<lparr>lock := lock n - 1\<rparr>) T;
     n \<leftarrow> nodes T a;
     if lock n = 0 then route_node_delete T a else Some T }"

partial_function (option) match_walk ::
  "'v route_table \<Rightarrow> prefix \<Rightarrow> addr option \<Rightarrow> addr option \<Rightarrow> addr option option" where
  "match_walk T p node matched = (case node of
     None \<Rightarrow> Some matched
   | Some a \<Rightarrow> do {
       n \<leftarrow> nodes T a;
       if prefixlen (pfx n) \<le> prefixlen p \<and> prefix_match (pfx n) p then
         let matched = (if info n \<noteq> None then Some a else matched) in
         if prefixlen (pfx n) = prefixlen p then Some matched
         else match_walk T p (rt_link n (prefix_bit (u p) (prefixlen (pfx n)))) matched
       else Some matched })"

definition route_node_match :: "'v route_table \<Rightarrow> prefix \<Rightarrow> (addr option \<times> 'v route_table) option" where
  "route_node_match T p = do {
     matched \<leftarrow> match_walk T p (ttop T) None;
     case matched of
       Some a \<Rightarrow> do { T \<leftarrow> route_lock_node T a; Some (Some a, T) }
     | None \<Rightarrow> Some (None, T) }"

definition route_node_match_ipv4 :: "'v route_table \<Rightarrow> u8 list \<Rightarrow> (addr option \<times> 'v route_table) option" where
  "route_node_match_ipv4 T ad =
     route_node_match T \<lparr>family = AF_INET, prefixlen = 32, u = write_at (replicate 16 0) 0 ad\<rparr>"

definition route_node_match_ipv6 :: "'v route_table \<Rightarrow> u8 list \<Rightarrow> (addr option \<times> 'v route_table) option" where
  "route_node_match_ipv6 T ad =
     route_node_match T \<lparr>family = AF_INET6, prefixlen = 128, u = write_at (replicate 16 0) 0 ad\<rparr>"

partial_function (option) lookup_walk :: "'v route_table \<Rightarrow> prefix \<Rightarrow> addr option \<Rightarrow> addr option option" where
  "lookup_walk T p node = (case node of
     None \<Rightarrow> Some None
   | Some a \<Rightarrow> do {
       n \<leftarrow> nodes T a;
       if prefixlen (pfx n) \<le> prefixlen p \<and> prefix_match (pfx n) p then
         if prefixlen (pfx n) = prefixlen p then Some (if info n \<noteq> None then Some a else None)
         else lookup_walk T p (rt_link n (prefix_bit (u p) (prefixlen (pfx n))))
       else Some None })"

definition route_node_lookup :: "'v route_table \<Rightarrow> prefix \<Rightarrow> (addr option \<times> 'v route_table) option" where
  "route_node_lookup T p = do {
     r \<leftarrow> lookup_walk T p (ttop T);
     case r of
       Some a \<Rightarrow> do { T \<leftarrow> route_lock_node T a; Some (Some a, T) }
     | None \<Rightarrow> Some (None, T) }"

text \<open>The walk of \<^verbatim>\<open>route_node_get\<close> ends at a node with the same prefix, or outside the tree below
  \<open>match\<close> (\<open>node\<close> is NULL), or at a node that does not contain the prefix.\<close>

datatype get_result = Found addr | Stopped "addr option" "addr option"

partial_function (option) get_walk ::
  "'v route_table \<Rightarrow> prefix \<Rightarrow> addr option \<Rightarrow> addr option \<Rightarrow> get_result option" where
  "get_walk T p match node = (case node of
     None \<Rightarrow> Some (Stopped match None)
   | Some a \<Rightarrow> do {
       n \<leftarrow> nodes T a;
       if prefixlen (pfx n) \<le> prefixlen p \<and> prefix_match (pfx n) p then
         if prefixlen (pfx n) = prefixlen p then Some (Found a)
         else get_walk T p (Some a) (rt_link n (prefix_bit (u p) (prefixlen (pfx n))))
       else Some (Stopped match (Some a)) })"

text \<open>\<open>a1\<close> and \<open>a2\<close> are the addresses of the first and the second node the call allocates.\<close>

definition link_or_top :: "'v route_table \<Rightarrow> addr option \<Rightarrow> addr \<Rightarrow> 'v route_table option" where
  "link_or_top T match new = (case match of
     Some m \<Rightarrow> set_link T m new
   | None \<Rightarrow> Some (T\<lparr>ttop := Some new\<rparr>))"

definition route_node_get :: "'v route_table \<Rightarrow> prefix \<Rightarrow> addr \<Rightarrow> addr \<Rightarrow> (addr \<times> 'v route_table) option" where
  "route_node_get T p a1 a2 = do {
     r \<leftarrow> get_walk T p None (ttop T);
     case r of
       Found a \<Rightarrow> do { T \<leftarrow> route_lock_node T a; Some (a, T) }
     | Stopped match None \<Rightarrow> do {
         T \<leftarrow> route_node_set T a1 p;
         T \<leftarrow> link_or_top T match a1;
         T \<leftarrow> route_lock_node (T\<lparr>tcount := tcount T + 1\<rparr>) a1;
         Some (a1, T) }
     | Stopped match (Some node) \<Rightarrow> do {
         n \<leftarrow> nodes T node;
         let T = route_node_create T a1 in do {
           T \<leftarrow> upd_node a1 (\<lambda>m. m\<lparr>pfx := (route_common (pfx n) p (pfx m))\<lparr>family := family p\<rparr>\<rparr>) T;
           T \<leftarrow> set_link T a1 node;
           T \<leftarrow> link_or_top T match a1;
           new \<leftarrow> nodes T a1;
           if prefixlen (pfx new) \<noteq> prefixlen p then do {
             T \<leftarrow> route_node_set T a2 p;
             T \<leftarrow> set_link T a1 a2;
             T \<leftarrow> route_lock_node (T\<lparr>tcount := tcount T + 1 + 1\<rparr>) a2;
             Some (a2, T) }
           else do {
             T \<leftarrow> route_lock_node (T\<lparr>tcount := tcount T + 1\<rparr>) a1;
             Some (a1, T) } } } }"

text \<open>The bulk deletion of \<^verbatim>\<open>route_table_finish\<close>: descend to a node without children, free it, go on
  at its parent.\<close>

partial_function (option) free_walk :: "'v route_table \<Rightarrow> addr option \<Rightarrow> 'v route_table option" where
  "free_walk T node = (case node of
     None \<Rightarrow> Some T
   | Some a \<Rightarrow> do {
       n \<leftarrow> nodes T a;
       if l_left n \<noteq> None then free_walk T (l_left n)
       else if l_right n \<noteq> None then free_walk T (l_right n)
       else let T = T\<lparr>tcount := tcount T - 1, nodes := (nodes T)(a := None)\<rparr> in
         case parent n of
           Some q \<Rightarrow> do {
             T \<leftarrow> upd_node q (\<lambda>m. if l_left m = Some a then m\<lparr>l_left := None\<rparr> else m\<lparr>l_right := None\<rparr>) T;
             free_walk T (Some q) }
         | None \<Rightarrow> Some T })"

definition route_table_finish :: "'v route_table \<Rightarrow> 'v route_table option" where
  "route_table_finish T = do {
     T \<leftarrow> free_walk T (ttop T);
     zassert (tcount T = 0);
     Some T }"

definition route_top :: "'v route_table \<Rightarrow> (addr option \<times> 'v route_table) option" where
  "route_top T = (case ttop T of
     None \<Rightarrow> Some (None, T)
   | Some a \<Rightarrow> do { T \<leftarrow> route_lock_node T a; Some (Some a, T) })"

text \<open>The climbing loop of \<^verbatim>\<open>route_next\<close>, \<^verbatim>\<open>route_next_until\<close> and \<^verbatim>\<open>route_get_subtree_next\<close>; \<open>limit\<close> is
  the node at which the second one stops.\<close>

partial_function (option) next_up :: "'v route_table \<Rightarrow> addr option \<Rightarrow> addr \<Rightarrow> addr option option" where
  "next_up T limit a = do {
     n \<leftarrow> nodes T a;
     case parent n of
       None \<Rightarrow> Some None
     | Some q \<Rightarrow>
         if limit = Some a then Some None
         else do {
           m \<leftarrow> nodes T q;
           if l_left m = Some a \<and> l_right m \<noteq> None then Some (l_right m)
           else next_up T limit q } }"

definition route_next_until ::
  "'v route_table \<Rightarrow> addr \<Rightarrow> addr option \<Rightarrow> (addr option \<times> 'v route_table) option" where
  "route_next_until T a limit = do {
     n \<leftarrow> nodes T a;
     next \<leftarrow> (if l_left n \<noteq> None then Some (l_left n)
              else if l_right n \<noteq> None then Some (l_right n)
              else next_up T limit a);
     T \<leftarrow> (case next of Some c \<Rightarrow> route_lock_node T c | None \<Rightarrow> Some T);
     T \<leftarrow> route_unlock_node T a;
     Some (next, T) }"

definition route_next :: "'v route_table \<Rightarrow> addr \<Rightarrow> (addr option \<times> 'v route_table) option" where
  "route_next T a = route_next_until T a None"

definition route_table_count :: "'v route_table \<Rightarrow> nat" where
  "route_table_count T = tcount T"

definition route_table_prefix_iter_cmp :: "prefix \<Rightarrow> prefix \<Rightarrow> int option" where
  "route_table_prefix_iter_cmp p1 p2 =
     (if prefixlen p1 \<le> prefixlen p2 \<and> prefix_match p1 p2 then
        Some (if prefixlen p1 = prefixlen p2 then 0 else - 1)
      else if \<not> prefixlen p1 \<le> prefixlen p2 \<and> prefix_match p2 p1 then Some 1
      else let common = prefixlen (route_common p1 p2 prefix_new) in do {
        zassert (common < prefixlen p1);
        zassert (common < prefixlen p2);
        if prefix_bit (u p1) common \<noteq> 0 then do {
          zassert (prefix_bit (u p2) common = 0);
          Some 1 }
        else do {
          zassert (prefix_bit (u p2) common \<noteq> 0);
          Some (- 1) } })"

definition route_get_subtree_next :: "'v route_table \<Rightarrow> addr \<Rightarrow> addr option option" where
  "route_get_subtree_next T a = next_up T None a"

partial_function (option) get_next_walk ::
  "'v route_table \<Rightarrow> prefix \<Rightarrow> addr option \<Rightarrow> (addr option \<times> 'v route_table) option" where
  "get_next_walk T p node = (case node of
     None \<Rightarrow> Some (None, T)
   | Some a \<Rightarrow> do {
       n \<leftarrow> nodes T a;
       let match = (if prefixlen (pfx n) < prefixlen p then prefix_match (pfx n) p else prefix_match p (pfx n)) in
       if match then
         if prefixlen (pfx n) = prefixlen p then do {
           T \<leftarrow> route_lock_node T a;
           (next, T) \<leftarrow> route_next T a;
           T \<leftarrow> (case next of Some c \<Rightarrow> route_unlock_node T c | None \<Rightarrow> Some T);
           Some (next, T) }
         else if prefixlen (pfx n) > prefixlen p then Some (Some a, T)
         else let tmp_node = rt_link n (prefix_bit (u p) (prefixlen (pfx n))) in
           if tmp_node \<noteq> None then get_next_walk T p tmp_node
           else if l_right n \<noteq> None then Some (l_right n, T)
           else do { r \<leftarrow> route_get_subtree_next T a; Some (r, T) }
       else do {
         cmp \<leftarrow> route_table_prefix_iter_cmp (pfx n) p;
         if cmp > 0 then Some (Some a, T)
         else do {
           zassert (cmp < 0);
           r \<leftarrow> route_get_subtree_next T a;
           Some (r, T) } } })"

definition route_table_get_next_internal ::
  "'v route_table \<Rightarrow> prefix \<Rightarrow> (addr option \<times> 'v route_table) option" where
  "route_table_get_next_internal T p = get_next_walk T p (ttop T)"

definition route_table_get_next :: "'v route_table \<Rightarrow> prefix \<Rightarrow> (addr option \<times> 'v route_table) option" where
  "route_table_get_next T p = do {
     (node, T) \<leftarrow> route_table_get_next_internal T p;
     case node of
       None \<Rightarrow> Some (None, T)
     | Some a \<Rightarrow> do {
         n \<leftarrow> nodes T a;
         cmp \<leftarrow> route_table_prefix_iter_cmp (pfx n) p;
         zassert (cmp > 0);
         T \<leftarrow> route_lock_node T a;
         Some (Some a, T) } }"

subsection \<open>Iterators\<close>

datatype route_table_iter_state =
  RT_ITER_STATE_INIT | RT_ITER_STATE_ITERATING | RT_ITER_STATE_PAUSED | RT_ITER_STATE_DONE

record route_table_iter =
  istate :: route_table_iter_state
  current :: "addr option"
  pause_prefix :: prefix

definition route_table_iter_init :: route_table_iter where
  "route_table_iter_init = \<lparr>istate = RT_ITER_STATE_INIT, current = None, pause_prefix = prefix_new\<rparr>"

definition route_table_iter_pause ::
  "'v route_table \<Rightarrow> route_table_iter \<Rightarrow> (route_table_iter \<times> 'v route_table) option" where
  "route_table_iter_pause T it = (case istate it of
     RT_ITER_STATE_ITERATING \<Rightarrow> do {
       a \<leftarrow> current it;
       n \<leftarrow> nodes T a;
       q \<leftarrow> prefix_copy (pause_prefix it) (pfx n);
       T \<leftarrow> route_unlock_node T a;
       Some (it\<lparr>pause_prefix := q, current := None, istate := RT_ITER_STATE_PAUSED\<rparr>, T) }
   | _ \<Rightarrow> Some (it, T))"

definition route_table_iter_cleanup ::
  "'v route_table \<Rightarrow> route_table_iter \<Rightarrow> (route_table_iter \<times> 'v route_table) option" where
  "route_table_iter_cleanup T it = do {
     (it, T) \<leftarrow> (if istate it = RT_ITER_STATE_ITERATING then do {
         a \<leftarrow> current it;
         T \<leftarrow> route_unlock_node T a;
         Some (it\<lparr>current := None\<rparr>, T) }
       else Some (it, T));
     zassert (current it = None);
     Some (it\<lparr>istate := RT_ITER_STATE_DONE\<rparr>, T) }"

definition route_table_iter_next ::
  "'v route_table \<Rightarrow> route_table_iter \<Rightarrow> (addr option \<times> route_table_iter \<times> 'v route_table) option" where
  "route_table_iter_next T it =
     (if istate it = RT_ITER_STATE_DONE then Some (None, it, T)
      else do {
        (node, T) \<leftarrow> (case istate it of
            RT_ITER_STATE_INIT \<Rightarrow> route_top T
          | RT_ITER_STATE_ITERATING \<Rightarrow> do { a \<leftarrow> current it; route_next T a }
          | _ \<Rightarrow> route_table_get_next T (pause_prefix it));
        Some (node, it\<lparr>current := node,
          istate := (if node \<noteq> None then RT_ITER_STATE_ITERATING else RT_ITER_STATE_DONE)\<rparr>, T) })"

definition route_table_iter_is_done :: "route_table_iter \<Rightarrow> bool" where
  "route_table_iter_is_done it \<longleftrightarrow> istate it = RT_ITER_STATE_DONE"

definition route_table_iter_started :: "route_table_iter \<Rightarrow> bool" where
  "route_table_iter_started it \<longleftrightarrow> istate it \<noteq> RT_ITER_STATE_INIT"

subsection \<open>Radix trees over keys\<close>

text \<open>The shape of the tree, over the set \<open>D\<close> of live nodes, their keys \<open>K\<close>, parents \<open>P\<close> and children
  \<open>C\<close> (by side), and the top pointer.\<close>

datatype side = Left_side | Right_side

definition bit_side :: "bool list \<Rightarrow> nat \<Rightarrow> side" where
  "bit_side k i = (if k ! i then Right_side else Left_side)"

lemma bit_side_prefix: "prefix k k' \<Longrightarrow> i < length k \<Longrightarrow> bit_side k' i = bit_side k i"
  by (auto simp: bit_side_def prefix_def nth_append)

definition wf_radix ::
  "addr set \<Rightarrow> (addr \<Rightarrow> bool list) \<Rightarrow> (addr \<Rightarrow> addr option) \<Rightarrow> (addr \<Rightarrow> side \<Rightarrow> addr option) \<Rightarrow> addr option \<Rightarrow> bool"
  where
  "wf_radix D K P C t \<longleftrightarrow> finite D \<and>
     (\<forall>a. t = Some a \<longrightarrow> a \<in> D \<and> P a = None) \<and>
     (\<forall>a \<in> D. P a = None \<longrightarrow> t = Some a) \<and>
     (\<forall>a \<in> D. \<forall>b. P a = Some b \<longrightarrow>
        b \<in> D \<and> strict_prefix (K b) (K a) \<and> C b (bit_side (K a) (length (K b))) = Some a) \<and>
     (\<forall>b \<in> D. \<forall>i a. C b i = Some a \<longrightarrow> a \<in> D \<and> P a = Some b \<and> bit_side (K a) (length (K b)) = i)"

text \<open>The walk for a key: its i-th node, as long as the nodes are extended by the key.\<close>

definition covered :: "(addr \<Rightarrow> bool list) \<Rightarrow> bool list \<Rightarrow> addr option \<Rightarrow> addr option" where
  "covered K k x = (case x of Some c \<Rightarrow> if prefix (K c) k then Some c else None | None \<Rightarrow> None)"

primrec rwalk ::
  "(addr \<Rightarrow> bool list) \<Rightarrow> (addr \<Rightarrow> side \<Rightarrow> addr option) \<Rightarrow> addr option \<Rightarrow> bool list \<Rightarrow> nat \<Rightarrow> addr option" where
  "rwalk K C t k 0 = covered K k t"
| "rwalk K C t k (Suc i) = (case rwalk K C t k i of
     None \<Rightarrow> None
   | Some a \<Rightarrow> if length (K a) < length k then covered K k (C a (bit_side k (length (K a)))) else None)"

lemma covered_Some [simp]: "covered K k x = Some c \<longleftrightarrow> x = Some c \<and> prefix (K c) k"
  by (auto simp: covered_def split: option.splits)

lemma wf_radixD:
  assumes "wf_radix D K P C t"
  shows "finite D"
    "t = Some a \<Longrightarrow> a \<in> D" "t = Some a \<Longrightarrow> P a = None"
    "a \<in> D \<Longrightarrow> P a = None \<Longrightarrow> t = Some a"
    "a \<in> D \<Longrightarrow> P a = Some b \<Longrightarrow> b \<in> D" "a \<in> D \<Longrightarrow> P a = Some b \<Longrightarrow> strict_prefix (K b) (K a)"
    "a \<in> D \<Longrightarrow> P a = Some b \<Longrightarrow> C b (bit_side (K a) (length (K b))) = Some a"
    "b \<in> D \<Longrightarrow> C b i = Some a \<Longrightarrow> a \<in> D" "b \<in> D \<Longrightarrow> C b i = Some a \<Longrightarrow> P a = Some b"
    "b \<in> D \<Longrightarrow> C b i = Some a \<Longrightarrow> bit_side (K a) (length (K b)) = i"
  using assms unfolding wf_radix_def by blast+

lemma rwalk_sound:
  assumes "wf_radix D K P C t"
  shows "rwalk K C t k i = Some a \<Longrightarrow> a \<in> D \<and> prefix (K a) k \<and> i \<le> length (K a)"
proof (induction i arbitrary: a)
  case 0
  then show ?case using wf_radixD(2) [OF assms] by simp
next
  case (Suc i)
  then obtain b where b: "rwalk K C t k i = Some b" "C b (bit_side k (length (K b))) = Some a" "prefix (K a) k"
    by (auto split: option.splits if_splits)
  with Suc.IH have bD: "b \<in> D" "i \<le> length (K b)" by auto
  with b(2) have "a \<in> D" "P a = Some b" using wf_radixD(8,9) [OF assms] by blast+
  then have "strict_prefix (K b) (K a)" using wf_radixD(6) [OF assms] by blast
  then have "length (K b) < length (K a)" by (rule prefix_length_less)
  then show ?case using bD b(3) \<open>a \<in> D\<close> by simp
qed

lemma rwalk_step_longer:
  assumes "wf_radix D K P C t" "rwalk K C t k i = Some a" "rwalk K C t k (Suc i) = Some b"
  shows "length (K a) < length (K b)"
proof -
  have "C a (bit_side k (length (K a))) = Some b" using assms(2,3) by (simp split: if_splits)
  moreover have "a \<in> D" using rwalk_sound [OF assms(1,2)] by simp
  ultimately have "strict_prefix (K a) (K b)" using wf_radixD(6,8,9) [OF assms(1)] by blast
  then show ?thesis by (rule prefix_length_less)
qed

lemma rwalk_prefix_closed: "rwalk K C t k j \<noteq> None \<Longrightarrow> i \<le> j \<Longrightarrow> rwalk K C t k i \<noteq> None"
  by (induction j) (auto simp: le_Suc_eq split: option.splits)

lemma rwalk_longer:
  assumes "wf_radix D K P C t"
  shows "i < j \<Longrightarrow> rwalk K C t k i = Some a \<Longrightarrow> rwalk K C t k j = Some b \<Longrightarrow> length (K a) < length (K b)"
proof (induction j arbitrary: b)
  case (Suc j)
  obtain c where c: "rwalk K C t k j = Some c"
    using Suc.prems(3) rwalk_prefix_closed [of K C t k "Suc j" j] by fastforce
  have "length (K c) < length (K b)" using rwalk_step_longer [OF assms c Suc.prems(3)] .
  moreover have "i = j \<longrightarrow> a = c" using c Suc.prems(2) by auto
  ultimately show ?case
    using Suc.IH [OF _ Suc.prems(2) c] Suc.prems(1) less_Suc_eq by (cases "i = j") auto
qed simp

lemma rwalk_ends: "wf_radix D K P C t \<Longrightarrow> length k < i \<Longrightarrow> rwalk K C t k i = None"
  using rwalk_sound [of D K P C t k i] prefix_length_le by (cases "rwalk K C t k i") fastforce+

lemma rwalk_extend:
  assumes "prefix k k'"
  shows "rwalk K C t k i = Some a \<Longrightarrow> rwalk K C t k' i = Some a"
proof (induction i arbitrary: a)
  case 0
  then show ?case using assms by (auto intro: prefix_order.trans)
next
  case (Suc i)
  then obtain b where b: "rwalk K C t k i = Some b" "length (K b) < length k"
      "C b (bit_side k (length (K b))) = Some a" "prefix (K a) k"
    by (auto split: option.splits if_splits)
  moreover have "bit_side k' (length (K b)) = bit_side k (length (K b))"
    using assms b(2) by (rule bit_side_prefix)
  ultimately show ?case
    using Suc.IH [OF b(1)] assms prefix_length_le [OF assms] by (auto intro: prefix_order.trans)
qed

lemma rwalk_complete:
  assumes wf: "wf_radix D K P C t" and "a \<in> D" "prefix (K a) k"
  shows "\<exists>i. rwalk K C t k i = Some a"
proof -
  have "\<exists>i. rwalk K C t (K a) i = Some a" using \<open>a \<in> D\<close>
  proof (induction "length (K a)" arbitrary: a rule: less_induct)
    case less
    show ?case
    proof (cases "P a")
      case None
      then have "rwalk K C t (K a) 0 = Some a" using wf_radixD(4) [OF wf less.prems] by simp
      then show ?thesis by blast
    next
      case (Some b)
      then have b: "b \<in> D" "strict_prefix (K b) (K a)" "C b (bit_side (K a) (length (K b))) = Some a"
        using wf_radixD(5-7) [OF wf less.prems] by auto
      have l: "length (K b) < length (K a)" by (rule prefix_length_less [OF b(2)])
      then obtain i where "rwalk K C t (K b) i = Some b" using less.hyps b(1) by blast
      then have "rwalk K C t (K a) i = Some b"
        by (rule rwalk_extend [OF prefix_order.less_imp_le [OF b(2)]])
      then have "rwalk K C t (K a) (Suc i) = Some a" using b(3) l by simp
      then show ?thesis by blast
    qed
  qed
  then show ?thesis using rwalk_extend [OF assms(3)] by blast
qed

lemma radix_unique:
  assumes "wf_radix D K P C t" "a \<in> D" "b \<in> D" "K a = K b"
  shows "a = b"
proof -
  obtain i j where "rwalk K C t (K a) i = Some a" "rwalk K C t (K a) j = Some b"
    using rwalk_complete [OF assms(1,2), of "K a"] rwalk_complete [OF assms(1,3), of "K a"] assms(4) by auto
  then show ?thesis
    using rwalk_longer [OF assms(1)] assms(4) by (cases i j rule: linorder_cases) fastforce+
qed

text \<open>The three changes of the tree: a new leaf below a node or at the top, a new node above an
  existing one, and the removal of a node with at most one child.\<close>

definition set_child ::
  "(addr \<Rightarrow> side \<Rightarrow> addr option) \<Rightarrow> addr \<Rightarrow> side \<Rightarrow> addr option \<Rightarrow> addr \<Rightarrow> side \<Rightarrow> addr option" where
  "set_child C a i x = C(a := (C a)(i := x))"

lemma set_child_simp [simp]:
  "set_child C a i x b j = (if b = a \<and> j = i then x else C b j)"
  by (auto simp: set_child_def)

lemma wf_radixI:
  assumes "finite D"
    "\<And>a. t = Some a \<Longrightarrow> a \<in> D \<and> P a = None" "\<And>a. a \<in> D \<Longrightarrow> P a = None \<Longrightarrow> t = Some a"
    "\<And>a b. a \<in> D \<Longrightarrow> P a = Some b \<Longrightarrow>
       b \<in> D \<and> strict_prefix (K b) (K a) \<and> C b (bit_side (K a) (length (K b))) = Some a"
    "\<And>a b i. b \<in> D \<Longrightarrow> C b i = Some a \<Longrightarrow> a \<in> D \<and> P a = Some b \<and> bit_side (K a) (length (K b)) = i"
  shows "wf_radix D K P C t"
  unfolding wf_radix_def using assms by blast

lemma wf_radix_root:
  assumes "wf_radix D K P C None" "n \<notin> D"
  shows "wf_radix (insert n D) (K(n := k)) (P(n := None)) (C(n := (\<lambda>_. None))) (Some n)"
proof -
  have "D = {}"
  proof (rule ccontr)
    assume "D \<noteq> {}"
    then obtain a where "a \<in> D" by blast
    then obtain i where "rwalk K C None (K a) i = Some a"
      using rwalk_complete [OF assms(1)] by blast
    then have "rwalk K C None (K a) 0 \<noteq> None"
      using rwalk_prefix_closed [of K C None "K a" i 0] by simp
    then show False by (simp add: covered_def)
  qed
  then show ?thesis by (simp add: wf_radix_def)
qed

lemma wf_radix_leaf:
  assumes wf: "wf_radix D K P C t" and n: "n \<notin> D" and m: "m \<in> D" "strict_prefix (K m) k"
    and free: "C m (bit_side k (length (K m))) = None"
  shows "wf_radix (insert n D) (K(n := k)) (P(n := Some m))
    (set_child (C(n := (\<lambda>_. None))) m (bit_side k (length (K m))) (Some n)) t"
    (is "wf_radix ?D ?K ?P ?C t")
proof (rule wf_radixI)
  note D = wf_radixD [OF wf]
  have nm: "n \<noteq> m" using n m(1) by blast
  show "finite ?D" using D(1) by simp
  show "a \<in> ?D \<and> ?P a = None" if "t = Some a" for a
    using D(2,3) [OF that] n by auto
  show "t = Some a" if "a \<in> ?D" "?P a = None" for a
    using D(4) [of a] that by (auto split: if_splits)
  show "b \<in> ?D \<and> strict_prefix (?K b) (?K a) \<and> ?C b (bit_side (?K a) (length (?K b))) = Some a"
    if "a \<in> ?D" "?P a = Some b" for a b
  proof (cases "a = n")
    case True
    then show ?thesis using that m nm by simp
  next
    case False
    then have aD: "a \<in> D" "P a = Some b" using that by auto
    have "b \<noteq> n" "\<not> (b = m \<and> bit_side (K a) (length (K m)) = bit_side k (length (K m)))"
      using D(5,7) [OF aD] n free by auto
    then show ?thesis using False D(5-7) [OF aD] by auto
  qed
  show "a \<in> ?D \<and> ?P a = Some b \<and> bit_side (?K a) (length (?K b)) = i" if "b \<in> ?D" "?C b i = Some a" for a b i
  proof (cases "b = m \<and> i = bit_side k (length (K m))")
    case True
    then show ?thesis using that nm by simp
  next
    case False
    then have bC: "b \<noteq> n" "C b i = Some a" using that by (auto split: if_splits)
    then have "b \<in> D" using that by blast
    then have "a \<in> D" "P a = Some b" "bit_side (K a) (length (K b)) = i" using D(8-10) bC(2) by blast+
    then show ?thesis using bC(1) n by auto
  qed
qed

lemma wf_radix_above_top:
  assumes wf: "wf_radix D K P C t" and n: "n \<notin> D" and c: "c \<in> D" "strict_prefix k (K c)" and top: "P c = None"
  shows "wf_radix (insert n D) (K(n := k)) (P(n := None, c := Some n))
    (C(n := (\<lambda>_. None)(bit_side (K c) (length k) := Some c))) (Some n)"
    (is "wf_radix ?D ?K ?P ?C _")
proof (rule wf_radixI)
  note D = wf_radixD [OF wf]
  have nc: "n \<noteq> c" using n c(1) by blast
  have t: "t = Some c" using D(4) c(1) top by blast
  show "finite ?D" using D(1) by simp
  show "a \<in> ?D \<and> ?P a = None" if "Some n = Some a" for a using that nc by auto
  show "Some n = Some a" if "a \<in> ?D" "?P a = None" for a
    using D(4) [of a] that t by (auto split: if_splits)
  show "b \<in> ?D \<and> strict_prefix (?K b) (?K a) \<and> ?C b (bit_side (?K a) (length (?K b))) = Some a"
    if "a \<in> ?D" "?P a = Some b" for a b
  proof (cases "a = c")
    case True
    then show ?thesis using that c nc by auto
  next
    case False
    then have aD: "a \<in> D" "P a = Some b" "a \<noteq> n" using that by (auto split: if_splits)
    have "b \<noteq> n" using D(5) [OF aD(1,2)] n by blast
    then show ?thesis using False D(5-7) [OF aD(1,2)] aD(3) by auto
  qed
  show "a \<in> ?D \<and> ?P a = Some b \<and> bit_side (?K a) (length (?K b)) = i" if "b \<in> ?D" "?C b i = Some a" for a b i
  proof (cases "b = n")
    case True
    then show ?thesis using that nc c by (auto split: if_splits)
  next
    case False
    then have bC: "b \<in> D" "C b i = Some a" using that by auto
    then have "a \<in> D" "P a = Some b" "bit_side (K a) (length (K b)) = i" using D(8-10) by blast+
    then show ?thesis using False n top by auto
  qed
qed

lemma wf_radix_above:
  assumes wf: "wf_radix D K P C t" and n: "n \<notin> D" and c: "c \<in> D" "strict_prefix k (K c)"
    and m: "P c = Some m" "strict_prefix (K m) k"
  shows "wf_radix (insert n D) (K(n := k)) (P(n := Some m, c := Some n))
    (set_child (C(n := (\<lambda>_. None)(bit_side (K c) (length k) := Some c))) m (bit_side k (length (K m))) (Some n)) t"
    (is "wf_radix ?D ?K ?P ?C _")
proof (rule wf_radixI)
  note D = wf_radixD [OF wf]
  have mD: "m \<in> D" "C m (bit_side (K c) (length (K m))) = Some c" using D(5,7) c(1) m(1) by blast+
  have eq: "bit_side (K c) (length (K m)) = bit_side k (length (K m))"
    using c(2) prefix_length_less [OF m(2)] by (auto intro: bit_side_prefix)
  have ne: "n \<noteq> m" "n \<noteq> c" using n mD(1) c(1) by blast+
  show "finite ?D" using D(1) by simp
  show "a \<in> ?D \<and> ?P a = None" if "t = Some a" for a
    using D(2,3) [OF that] n m(1) by auto
  show "t = Some a" if "a \<in> ?D" "?P a = None" for a
    using D(4) [of a] that by (auto split: if_splits)
  show "b \<in> ?D \<and> strict_prefix (?K b) (?K a) \<and> ?C b (bit_side (?K a) (length (?K b))) = Some a"
    if "a \<in> ?D" "?P a = Some b" for a b
  proof (cases "a = n \<or> a = c")
    case True
    then show ?thesis using that c ne mD m(2) by auto
  next
    case False
    then have aD: "a \<in> D" "P a = Some b" using that by (auto split: if_splits)
    have "b \<noteq> n" "\<not> (b = m \<and> bit_side (K a) (length (K m)) = bit_side k (length (K m)))"
      using D(5,7) [OF aD] n mD(2) eq False by auto
    then show ?thesis using False D(5-7) [OF aD] by auto
  qed
  show "a \<in> ?D \<and> ?P a = Some b \<and> bit_side (?K a) (length (?K b)) = i" if "b \<in> ?D" "?C b i = Some a" for a b i
  proof (cases "b = n \<or> b = m \<and> i = bit_side k (length (K m))")
    case True
    then show ?thesis using that ne c by (auto split: if_splits)
  next
    case False
    then have bC: "b \<in> D" "C b i = Some a" using that by (auto split: if_splits)
    then have a: "a \<in> D" "P a = Some b" "bit_side (K a) (length (K b)) = i" using D(8-10) by blast+
    have "a \<noteq> c" using a m(1) eq False by auto
    then show ?thesis using False a n by auto
  qed
qed

lemma wf_radix_remove:
  assumes wf: "wf_radix D K P C t" and a: "a \<in> D"
    and x: "\<And>i b. C a i = Some b \<Longrightarrow> x = Some b" "\<And>b. x = Some b \<Longrightarrow> \<exists>i. C a i = Some b"
  shows "wf_radix (D - {a}) K (\<lambda>b. if x = Some b then P a else P b)
    (case P a of Some q \<Rightarrow> set_child C q (bit_side (K a) (length (K q))) x | None \<Rightarrow> C)
    (case P a of Some q \<Rightarrow> t | None \<Rightarrow> x)"
    (is "wf_radix ?D K ?P ?C ?t")
proof (rule wf_radixI)
  note D = wf_radixD [OF wf]
  have xD: "b \<in> D" "P b = Some a" "strict_prefix (K a) (K b)" "b \<noteq> a" if xb: "x = Some b" for b
  proof -
    obtain i where "C a i = Some b" using x(2) [OF xb] by blast
    then show "b \<in> D" "P b = Some a" using D(8,9) a by blast+
    then show "strict_prefix (K a) (K b)" using D(6) by blast
    then show "b \<noteq> a" by auto
  qed
  have q: "q \<in> D" "strict_prefix (K q) (K a)" "q \<noteq> a" "C q (bit_side (K a) (length (K q))) = Some a"
    if "P a = Some q" for q
    using D(5-7) [OF a that] by auto
  show "finite ?D" using D(1) by simp
  show "e \<in> ?D \<and> ?P e = None" if "?t = Some e" for e
    using that xD [of e] D(2,3) [of e] by (auto split: option.splits)
  show "?t = Some e" if "e \<in> ?D" "?P e = None" for e
    using that D(4) [of e] D(4) [of a] a by (auto split: option.splits if_splits)
  show "b \<in> ?D \<and> strict_prefix (K b) (K e) \<and> ?C b (bit_side (K e) (length (K b))) = Some e"
    if "e \<in> ?D" "?P e = Some b" for e b
  proof (cases "x = Some e")
    case True
    then have b: "P a = Some b" using that by simp
    have "bit_side (K e) (length (K b)) = bit_side (K a) (length (K b))"
      using xD(3) [OF True] prefix_length_less [OF q(2) [OF b]] by (intro bit_side_prefix) auto
    then show ?thesis
      using True b q(1,2,3) [OF b] xD(3) [OF True] by (auto intro: prefix_order.less_trans)
  next
    case False
    then have e: "e \<in> D" "e \<noteq> a" "P e = Some b" using that by auto
    have "b \<noteq> a" using x(1) D(7) [OF e(1,3)] False by auto
    then show ?thesis
      using D(5-7) [OF e(1,3)] q(4) e(2) by (auto split: option.splits)
  qed
  show "e \<in> ?D \<and> ?P e = Some b \<and> bit_side (K e) (length (K b)) = i" if b: "b \<in> ?D" "?C b i = Some e" for e b i
  proof (cases "P a = Some b \<and> i = bit_side (K a) (length (K b))")
    case True
    then have e: "x = Some e" using b(2) by simp
    have "bit_side (K e) (length (K b)) = bit_side (K a) (length (K b))"
      using xD(3) [OF e] prefix_length_less [OF q(2)] True by (intro bit_side_prefix) auto
    then show ?thesis using True e xD [OF e] by simp
  next
    case False
    then have c: "C b i = Some e" "b \<in> D" "b \<noteq> a" using b by (auto split: option.splits if_splits)
    then have e: "e \<in> D" "P e = Some b" "bit_side (K e) (length (K b)) = i" using D(8-10) by blast+
    then have "e \<noteq> a" "x \<noteq> Some e" using False xD(2) [of e] c(3) by auto
    then show ?thesis using e by simp
  qed
qed

subsection \<open>The table as a radix tree\<close>

text \<open>The fields of the live nodes as functions of their addresses.\<close>

definition live :: "'v route_table \<Rightarrow> addr set" where
  "live T = dom (nodes T)"

definition npfx :: "'v route_table \<Rightarrow> addr \<Rightarrow> prefix" where
  "npfx T a = pfx (the (nodes T a))"

definition npar :: "'v route_table \<Rightarrow> addr \<Rightarrow> addr option" where
  "npar T a = parent (the (nodes T a))"

definition nchild :: "'v route_table \<Rightarrow> addr \<Rightarrow> side \<Rightarrow> addr option" where
  "nchild T a i = (case i of Left_side \<Rightarrow> l_left (the (nodes T a)) | Right_side \<Rightarrow> l_right (the (nodes T a)))"

definition nlock :: "'v route_table \<Rightarrow> addr \<Rightarrow> nat" where
  "nlock T a = lock (the (nodes T a))"

definition ninfo :: "'v route_table \<Rightarrow> addr \<Rightarrow> 'v option" where
  "ninfo T a = info (the (nodes T a))"

definition nkey :: "'v route_table \<Rightarrow> addr \<Rightarrow> bool list" where
  "nkey T a = key (npfx T a)"

lemmas node_defs = live_def npfx_def npar_def nchild_def nlock_def ninfo_def

definition wf_tree :: "'v route_table \<Rightarrow> bool" where
  "wf_tree T \<longleftrightarrow> wf_radix (live T) (nkey T) (npar T) (nchild T) (ttop T) \<and>
     (\<forall>a \<in> live T. wf_prefix (npfx T a))"

text \<open>A node nobody holds is there only to branch: it has both children and no info.\<close>

definition no_stubs :: "'v route_table \<Rightarrow> bool" where
  "no_stubs T \<longleftrightarrow> (\<forall>a \<in> live T. nlock T a = 0 \<longrightarrow> (\<forall>i. nchild T a i \<noteq> None) \<and> ninfo T a = None)"

definition wf_table :: "'v route_table \<Rightarrow> bool" where
  "wf_table T \<longleftrightarrow> wf_tree T \<and> no_stubs T \<and> tcount T = card (live T)"

lemma liveI: "nodes T a = Some n \<Longrightarrow> a \<in> live T"
  by (auto simp: live_def)

lemma wf_table_empty: "wf_table route_table_init"
  by (simp add: wf_table_def wf_tree_def no_stubs_def wf_radix_def route_table_init_def live_def)

lemma wf_tree_prefix: "wf_tree T \<Longrightarrow> nodes T a = Some n \<Longrightarrow> wf_prefix (pfx n)"
  by (force simp: wf_tree_def node_defs)

lemma wf_tree_radix: "wf_tree T \<Longrightarrow> wf_radix (live T) (nkey T) (npar T) (nchild T) (ttop T)"
  by (simp add: wf_tree_def)

lemma wf_table_tree [simp]: "wf_table T \<Longrightarrow> wf_tree T"
  by (simp add: wf_table_def)

abbreviation walk_for :: "'v route_table \<Rightarrow> prefix \<Rightarrow> nat \<Rightarrow> addr option" where
  "walk_for T p \<equiv> rwalk (nkey T) (nchild T) (ttop T) (key p)"

text \<open>One turn of the descending loops: the test is that the node's key is extended by the key of the
  prefix, and the link followed is the one on the side of the next bit.\<close>

lemma node_test:
  assumes "wf_tree T" "wf_prefix p" "nodes T a = Some n"
  shows "prefixlen (pfx n) \<le> prefixlen p \<and> prefix_match (pfx n) p \<longleftrightarrow> prefix (nkey T a) (key p)"
    "prefixlen (pfx n) = length (nkey T a)"
    "length (nkey T a) < length (key p) \<Longrightarrow>
       rt_link n (prefix_bit (u p) (prefixlen (pfx n))) = nchild T a (bit_side (key p) (length (nkey T a)))"
proof -
  have w: "wf_prefix (pfx n)" using wf_tree_prefix assms(1,3) by blast
  show l: "prefixlen (pfx n) = length (nkey T a)" using length_key [OF w] assms(3) by (simp add: nkey_def npfx_def)
  show "prefixlen (pfx n) \<le> prefixlen p \<and> prefix_match (pfx n) p \<longleftrightarrow> prefix (nkey T a) (key p)"
    using prefix_match_key [OF w assms(2)] length_key [OF w] length_key [OF assms(2)] assms(3)
      prefix_length_le [of "key (pfx n)" "key p"] by (auto simp: nkey_def npfx_def)
  show "rt_link n (prefix_bit (u p) (prefixlen (pfx n))) = nchild T a (bit_side (key p) (length (nkey T a)))"
    if "length (nkey T a) < length (key p)"
    using prefix_bit_key [OF assms(2), of "prefixlen (pfx n)"] that l length_key [OF assms(2)] assms(3)
    by (simp add: rt_link_def nchild_def bit_side_def)
qed

text \<open>The cases of a descending loop at a pointer whose covered part is the i-th node of the walk.\<close>

definition at_walk :: "'v route_table \<Rightarrow> prefix \<Rightarrow> nat \<Rightarrow> addr option \<Rightarrow> bool" where
  "at_walk T p i x \<longleftrightarrow> covered (nkey T) (key p) x = walk_for T p i \<and> (\<forall>a. x = Some a \<longrightarrow> a \<in> live T)"

lemma at_walk_top: "wf_tree T \<Longrightarrow> at_walk T p 0 (ttop T)"
  using wf_radixD(2) [OF wf_tree_radix] by (auto simp: at_walk_def)

lemma walk_after_None:
  "walk_for T p i = None \<Longrightarrow> i \<le> j \<Longrightarrow> walk_for T p j = None"
  using rwalk_prefix_closed [of "nkey T" "nchild T" "ttop T" "key p" j i] by blast

lemma walk_after_exact:
  assumes wf: "wf_tree T" and a: "walk_for T p i = Some a" "nkey T a = key p" and ij: "i < j"
  shows "walk_for T p j = None"
proof (rule ccontr)
  assume "walk_for T p j \<noteq> None"
  then obtain b where b: "walk_for T p j = Some b" by auto
  note W = wf_tree_radix [OF wf]
  have "length (nkey T a) < length (nkey T b)" by (rule rwalk_longer [OF W ij a(1) b])
  then show False using rwalk_sound [OF W b] a(2) prefix_length_le by fastforce
qed

lemma walk_cases [consumes 3]:
  assumes wf: "wf_tree T" and p: "wf_prefix p" and x: "at_walk T p i x"
  obtains (outside) "walk_for T p i = None" "x = None"
  | (mismatch) a n where "walk_for T p i = None" "x = Some a" "nodes T a = Some n" "a \<in> live T"
      "\<not> (prefixlen (pfx n) \<le> prefixlen p \<and> prefix_match (pfx n) p)" "\<not> prefix (nkey T a) (key p)"
  | (exact) a n where "walk_for T p i = Some a" "x = Some a" "nodes T a = Some n" "nkey T a = key p"
      "prefixlen (pfx n) = prefixlen p" "prefix_match (pfx n) p"
  | (down) a n where "walk_for T p i = Some a" "x = Some a" "nodes T a = Some n" "i < length (key p)"
      "prefixlen (pfx n) < prefixlen p" "prefix_match (pfx n) p"
      "at_walk T p (Suc i) (rt_link n (prefix_bit (u p) (prefixlen (pfx n))))"
      "rt_link n (prefix_bit (u p) (prefixlen (pfx n))) = nchild T a (bit_side (key p) (length (nkey T a)))"
proof (cases x)
  case None
  then have "walk_for T p i = None" using x by (simp add: at_walk_def covered_def)
  then show ?thesis using None outside by blast
next
  case (Some a)
  note W = wf_tree_radix [OF wf]
  have live: "a \<in> live T" using x Some by (simp add: at_walk_def)
  then obtain n where n: "nodes T a = Some n" by (auto simp: live_def)
  note t = node_test [OF wf p n]
  show ?thesis
  proof (cases "prefix (nkey T a) (key p)")
    case False
    then have "walk_for T p i = None" using x Some by (auto simp: at_walk_def covered_def)
    then show ?thesis using mismatch [OF _ Some n live] False t(1) by blast
  next
    case True
    then have w: "walk_for T p i = Some a" using x Some by (simp add: at_walk_def covered_def)
    have len: "length (nkey T a) \<le> length (key p)" by (rule prefix_length_le [OF True])
    show ?thesis
    proof (cases "length (nkey T a) = length (key p)")
      case eq: True
      then have "nkey T a = key p" using True by (auto simp: prefix_def)
      then show ?thesis using exact [OF w Some n] t True eq length_key [OF p] by simp
    next
      case False
      then have lt: "length (nkey T a) < length (key p)" using len by simp
      have "at_walk T p (Suc i) (nchild T a (bit_side (key p) (length (nkey T a))))"
        using w lt wf_radixD(8) [OF W live] by (auto simp: at_walk_def)
      then show ?thesis
        using down [OF w Some n] t True lt length_key [OF p] rwalk_sound [OF W w] by simp
    qed
  qed
qed

text \<open>The result of the longest-match loop: the last node with info of the walk from its i-th node
  on, or the value \<open>m\<close> carried so far.\<close>

definition last_info :: "'v route_table \<Rightarrow> prefix \<Rightarrow> nat \<Rightarrow> addr option \<Rightarrow> addr option \<Rightarrow> bool" where
  "last_info T p i m r \<longleftrightarrow>
     r = m \<and> (\<forall>j \<ge> i. \<forall>b. walk_for T p j = Some b \<longrightarrow> ninfo T b = None) \<or>
     (\<exists>j \<ge> i. \<exists>a. r = Some a \<and> walk_for T p j = Some a \<and> ninfo T a \<noteq> None \<and>
        (\<forall>j' > j. \<forall>b. walk_for T p j' = Some b \<longrightarrow> ninfo T b = None))"

lemma last_info_None: "walk_for T p i = None \<Longrightarrow> last_info T p i m m"
  using walk_after_None [of T p i] by (simp add: last_info_def)

lemma last_info_step:
  assumes "walk_for T p i = Some a" "last_info T p (Suc i) (if ninfo T a \<noteq> None then Some a else m) r"
  shows "last_info T p i m r"
proof -
  have split: "i \<le> j \<longleftrightarrow> j = i \<or> Suc i \<le> j" for j by auto
  show ?thesis
  proof (cases "\<exists>j \<ge> Suc i. \<exists>a. r = Some a \<and> walk_for T p j = Some a \<and> ninfo T a \<noteq> None \<and>
        (\<forall>j' > j. \<forall>b. walk_for T p j' = Some b \<longrightarrow> ninfo T b = None)")
    case True
    then show ?thesis unfolding last_info_def split by blast
  next
    case False
    then have "r = (if ninfo T a \<noteq> None then Some a else m)"
      "\<forall>j \<ge> Suc i. \<forall>b. walk_for T p j = Some b \<longrightarrow> ninfo T b = None"
      using assms(2) unfolding last_info_def by blast+
    then show ?thesis
      using assms(1) unfolding last_info_def split by (cases "ninfo T a = None") (auto simp: Suc_le_eq)
  qed
qed

lemma match_walk_spec:
  assumes wf: "wf_tree T" and p: "wf_prefix p"
  shows "at_walk T p i x \<Longrightarrow> \<exists>r. match_walk T p x m = Some r \<and> last_info T p i m r"
proof (induction "length (key p) - i" arbitrary: i x m rule: less_induct)
  case less
  from wf p less.prems show ?case
  proof (cases rule: walk_cases)
    case outside
    then show ?thesis using last_info_None by (auto simp: match_walk.simps)
  next
    case (mismatch a n)
    have "match_walk T p x m = Some m" using mismatch(2,3,5) by (subst match_walk.simps) auto
    then show ?thesis using last_info_None [OF mismatch(1)] by simp
  next
    case (exact a n)
    have "match_walk T p x m = Some (if ninfo T a \<noteq> None then Some a else m)"
      using exact by (subst match_walk.simps) (simp add: ninfo_def)
    moreover have "walk_for T p (Suc i) = None" by (rule walk_after_exact [OF wf exact(1,4) lessI])
    ultimately show ?thesis using last_info_step [OF exact(1) last_info_None] by blast
  next
    case (down a n)
    let ?m = "if ninfo T a \<noteq> None then Some a else m"
    have "match_walk T p x m = match_walk T p (rt_link n (prefix_bit (u p) (prefixlen (pfx n)))) ?m"
      using down(2,3,5,6) by (subst match_walk.simps) (simp add: ninfo_def)
    then show ?thesis
      using less.hyps [OF _ down(7), of ?m] last_info_step [OF down(1)] down(4)
      by (metis diff_less_mono2 lessI)
  qed
qed

lemma lookup_walk_spec:
  assumes wf: "wf_tree T" and p: "wf_prefix p"
  shows "at_walk T p i x \<Longrightarrow> \<exists>r. lookup_walk T p x = Some r \<and>
    (\<forall>a. r = Some a \<longleftrightarrow> (\<exists>j \<ge> i. walk_for T p j = Some a \<and> nkey T a = key p \<and> ninfo T a \<noteq> None))"
proof (induction "length (key p) - i" arbitrary: i x rule: less_induct)
  case less
  from wf p less.prems show ?case
  proof (cases rule: walk_cases)
    case outside
    then show ?thesis using walk_after_None [OF outside(1)] by (auto simp: lookup_walk.simps)
  next
    case (mismatch a n)
    have "lookup_walk T p x = Some None" using mismatch(2,3,5) by (subst lookup_walk.simps) auto
    then show ?thesis using walk_after_None [OF mismatch(1)] by auto
  next
    case (exact a n)
    have "lookup_walk T p x = Some (if ninfo T a \<noteq> None then Some a else None)"
      using exact by (subst lookup_walk.simps) (simp add: ninfo_def)
    then show ?thesis
      using exact(1,4) walk_after_exact [OF wf exact(1,4)] by (auto simp: le_less)
  next
    case (down a n)
    have step: "lookup_walk T p x = lookup_walk T p (rt_link n (prefix_bit (u p) (prefixlen (pfx n))))"
      using down(2,3,5,6) by (subst lookup_walk.simps) simp
    have ne: "nkey T a \<noteq> key p"
      using node_test(2) [OF wf p down(3)] down(5) length_key [OF p] by auto
    have "(\<exists>j \<ge> i. walk_for T p j = Some b \<and> nkey T b = key p \<and> ninfo T b \<noteq> None) \<longleftrightarrow>
        (\<exists>j \<ge> Suc i. walk_for T p j = Some b \<and> nkey T b = key p \<and> ninfo T b \<noteq> None)" for b
      using down(1) ne by (metis Suc_leD Suc_leI le_neq_implies_less option.inject)
    then show ?thesis
      unfolding step using less.hyps [OF _ down(7)] down(4) diff_less_mono2 [OF lessI down(4)] by presburger
  qed
qed

text \<open>Where the walk of \<^verbatim>\<open>route_node_get\<close> stands: \<open>x\<close> is the top pointer, or the link of the last covered
  node \<open>m\<close> on the side of the next bit.\<close>

definition below :: "'v route_table \<Rightarrow> prefix \<Rightarrow> addr option \<Rightarrow> addr option \<Rightarrow> bool" where
  "below T p m x \<longleftrightarrow> (case m of
     None \<Rightarrow> x = ttop T
   | Some q \<Rightarrow> q \<in> live T \<and> strict_prefix (nkey T q) (key p) \<and>
       x = nchild T q (bit_side (key p) (length (nkey T q))))"

definition get_spec :: "'v route_table \<Rightarrow> prefix \<Rightarrow> get_result \<Rightarrow> bool" where
  "get_spec T p r \<longleftrightarrow> (case r of
     Found a \<Rightarrow> a \<in> live T \<and> nkey T a = key p
   | Stopped m x \<Rightarrow> below T p m x \<and> (\<forall>a \<in> live T. nkey T a \<noteq> key p) \<and>
       (\<forall>c. x = Some c \<longrightarrow> c \<in> live T \<and> \<not> prefix (nkey T c) (key p)))"

lemma no_exact:
  assumes wf: "wf_tree T" and i: "walk_for T p i = None" "\<forall>j < i. \<forall>b. walk_for T p j = Some b \<longrightarrow> nkey T b \<noteq> key p"
  shows "\<forall>a \<in> live T. nkey T a \<noteq> key p"
proof (intro ballI notI)
  fix a assume a: "a \<in> live T" "nkey T a = key p"
  then obtain j where j: "walk_for T p j = Some a"
    using rwalk_complete [OF wf_tree_radix [OF wf] a(1), of "key p"] by auto
  then have "j < i" using walk_after_None [OF i(1), of j] by (cases "i \<le> j") auto
  then show False using i(2) j a(2) by blast
qed

lemma get_walk_spec:
  assumes wf: "wf_tree T" and p: "wf_prefix p"
  shows "at_walk T p i x \<Longrightarrow> below T p m x \<Longrightarrow>
    (\<forall>j < i. \<forall>b. walk_for T p j = Some b \<longrightarrow> nkey T b \<noteq> key p) \<Longrightarrow>
    \<exists>r. get_walk T p m x = Some r \<and> get_spec T p r"
proof (induction "length (key p) - i" arbitrary: i x m rule: less_induct)
  case less
  from wf p less.prems(1) show ?case
  proof (cases rule: walk_cases)
    case outside
    then show ?thesis
      using less.prems(2) no_exact [OF wf outside(1) less.prems(3)] by (simp add: get_walk.simps get_spec_def)
  next
    case (mismatch a n)
    have "get_walk T p m x = Some (Stopped m x)" using mismatch(2,3,5) by (subst get_walk.simps) auto
    then show ?thesis
      using less.prems(2) no_exact [OF wf mismatch(1) less.prems(3)] mismatch(2,4,6) by (simp add: get_spec_def)
  next
    case (exact a n)
    have "get_walk T p m x = Some (Found a)" using exact by (subst get_walk.simps) simp
    then show ?thesis using exact by (simp add: get_spec_def liveI)
  next
    case (down a n)
    let ?x = "rt_link n (prefix_bit (u p) (prefixlen (pfx n)))"
    have step: "get_walk T p m x = get_walk T p (Some a) ?x"
      using down(2,3,5,6) by (subst get_walk.simps) simp
    have ne: "nkey T a \<noteq> key p"
      using node_test(2) [OF wf p down(3)] down(5) length_key [OF p] by auto
    have "below T p (Some a) ?x"
      using rwalk_sound [OF wf_tree_radix [OF wf] down(1)] ne down(8) by (simp add: below_def strict_prefix_def)
    moreover have "\<forall>j < Suc i. \<forall>b. walk_for T p j = Some b \<longrightarrow> nkey T b \<noteq> key p"
      using less.prems(3) down(1) ne by (auto simp: less_Suc_eq)
    ultimately show ?thesis
      unfolding step using less.hyps [OF _ down(7)] down(4) by (simp add: diff_less_mono2)
  qed
qed

subsection \<open>Effects of the pointer operations\<close>

lemma proj_upd [simp]:
  "live (T\<lparr>nodes := (nodes T)(a \<mapsto> n)\<rparr>) = insert a (live T)"
  "npfx (T\<lparr>nodes := (nodes T)(a \<mapsto> n)\<rparr>) = (npfx T)(a := pfx n)"
  "npar (T\<lparr>nodes := (nodes T)(a \<mapsto> n)\<rparr>) = (npar T)(a := parent n)"
  "nchild (T\<lparr>nodes := (nodes T)(a \<mapsto> n)\<rparr>) = (nchild T)(a := case_side (l_left n) (l_right n))"
  "nlock (T\<lparr>nodes := (nodes T)(a \<mapsto> n)\<rparr>) = (nlock T)(a := lock n)"
  "ninfo (T\<lparr>nodes := (nodes T)(a \<mapsto> n)\<rparr>) = (ninfo T)(a := info n)"
  by (auto simp: node_defs fun_eq_iff split: side.split)

lemma proj_table [simp]:
  "live (T\<lparr>ttop := x\<rparr>) = live T" "live (T\<lparr>tcount := c\<rparr>) = live T"
  "npfx (T\<lparr>ttop := x\<rparr>) = npfx T" "npfx (T\<lparr>tcount := c\<rparr>) = npfx T"
  "npar (T\<lparr>ttop := x\<rparr>) = npar T" "npar (T\<lparr>tcount := c\<rparr>) = npar T"
  "nchild (T\<lparr>ttop := x\<rparr>) = nchild T" "nchild (T\<lparr>tcount := c\<rparr>) = nchild T"
  "nlock (T\<lparr>ttop := x\<rparr>) = nlock T" "nlock (T\<lparr>tcount := c\<rparr>) = nlock T"
  "ninfo (T\<lparr>ttop := x\<rparr>) = ninfo T" "ninfo (T\<lparr>tcount := c\<rparr>) = ninfo T"
  by (auto simp: node_defs fun_eq_iff split: side.split)

lemma nkey_fun: "nkey T = (\<lambda>a. key (npfx T a))"
  by (simp add: fun_eq_iff nkey_def)

lemma nkey_frame: "npfx T' = npfx T \<Longrightarrow> nkey T' = nkey T"
  by (simp add: nkey_fun)

lemma proj_node:
  assumes "nodes T a = Some n"
  shows "pfx n = npfx T a" "parent n = npar T a" "lock n = nlock T a" "info n = ninfo T a"
    "l_left n = nchild T a Left_side" "l_right n = nchild T a Right_side" "a \<in> live T"
  using assms by (auto simp: node_defs)

lemma lock_effect:
  assumes "a \<in> live T"
  shows "\<exists>T'. route_lock_node T a = Some T' \<and> live T' = live T \<and> npfx T' = npfx T \<and> npar T' = npar T \<and>
    nchild T' = nchild T \<and> nlock T' = (nlock T)(a := nlock T a + 1) \<and> ninfo T' = ninfo T \<and>
    ttop T' = ttop T \<and> tcount T' = tcount T"
proof -
  obtain n where n: "nodes T a = Some n" using assms by (auto simp: live_def)
  show ?thesis
    using n assms by (auto simp: route_lock_node_def upd_node_def proj_node [OF n] fun_eq_iff split: side.split)
qed

lemma set_link_effect:
  assumes "m \<in> live T" "a \<in> live T" "m \<noteq> a" "wf_prefix (npfx T a)" "wf_prefix (npfx T m)"
    "strict_prefix (nkey T m) (nkey T a)"
  shows "\<exists>T'. set_link T m a = Some T' \<and> live T' = live T \<and> npfx T' = npfx T \<and> npar T' = (npar T)(a := Some m) \<and>
    nchild T' = set_child (nchild T) m (bit_side (nkey T a) (length (nkey T m))) (Some a) \<and>
    nlock T' = nlock T \<and> ninfo T' = ninfo T \<and> ttop T' = ttop T \<and> tcount T' = tcount T"
proof -
  obtain nm na where n: "nodes T m = Some nm" "nodes T a = Some na" using assms(1,2) by (auto simp: live_def)
  have l: "prefixlen (npfx T m) = length (nkey T m)" "prefixlen (npfx T a) = length (nkey T a)"
    using assms(4,5) by (simp_all add: nkey_def length_key)
  have b: "prefix_bit (u (pfx na)) (prefixlen (pfx nm)) = (if nkey T a ! length (nkey T m) then 1 else 0)"
    using prefix_bit_key [OF assms(4), of "length (nkey T m)"] prefix_length_less [OF assms(6)] l
    by (simp add: proj_node(1) [OF n(1)] proj_node(1) [OF n(2)] nkey_def)
  define T1 where "T1 = T\<lparr>nodes := (nodes T)(m \<mapsto>
    set_rt_link (if nkey T a ! length (nkey T m) then 1 else 0) (Some a) nm)\<rparr>"
  define T2 where "T2 = T1\<lparr>nodes := (nodes T1)(a \<mapsto> na\<lparr>parent := Some m\<rparr>)\<rparr>"
  have e: "set_link T m a = Some T2"
    using n b assms(3) by (simp add: set_link_def upd_node_def T1_def T2_def)
  have p1: "live T1 = live T" "npfx T1 = npfx T" "npar T1 = npar T" "nlock T1 = nlock T" "ninfo T1 = ninfo T"
    "nchild T1 = set_child (nchild T) m (bit_side (nkey T a) (length (nkey T m))) (Some a)"
    using assms(1) unfolding T1_def
    by (auto simp: set_rt_link_def bit_side_def set_child_def proj_node [OF n(1)] fun_eq_iff split: side.split)
  have "live T2 = live T1" "npfx T2 = npfx T1" "npar T2 = (npar T1)(a := Some m)" "nlock T2 = nlock T1"
    "ninfo T2 = ninfo T1" "nchild T2 = nchild T1"
    using assms(2,3) p1 unfolding T2_def
    by (auto simp: proj_node [OF n(2)] fun_eq_iff split: side.split)
  then show ?thesis using e p1 by (simp add: T1_def T2_def)
qed

lemma node_set_effect:
  assumes "wf_prefix p"
  shows "\<exists>T' q. route_node_set T a p = Some T' \<and> live T' = insert a (live T) \<and> npfx T' = (npfx T)(a := q) \<and>
    wf_prefix q \<and> key q = key p \<and> npar T' = (npar T)(a := None) \<and> nchild T' = (nchild T)(a := (\<lambda>_. None)) \<and>
    nlock T' = (nlock T)(a := 0) \<and> ninfo T' = (ninfo T)(a := None) \<and> ttop T' = ttop T \<and> tcount T' = tcount T"
proof -
  obtain q where q: "prefix_copy prefix_new p = Some q" "wf_prefix q" "key q = key p"
    using prefix_copy_ok [OF assms, of prefix_new] by (auto simp: prefix_new_def)
  then show ?thesis
    by (auto simp: route_node_set_def route_node_create_def upd_node_def node_defs fun_eq_iff
        split: side.split intro!: exI [of _ q])
qed

subsection \<open>The common prefix\<close>

lemma common_bytes_spec:
  assumes "i \<le> lim" "lim \<le> length np" "lim \<le> length pp" "lim \<le> length newp"
    "take i np = take i pp" "take i newp = take i np"
  shows "\<exists>j r. common_bytes np pp lim i newp = (j, r) \<and> j \<le> lim \<and> length r = length newp \<and>
    take j np = take j pp \<and> take j r = take j np \<and> (j < lim \<longrightarrow> np ! j \<noteq> pp ! j)"
  using assms
proof (induction np pp lim i newp rule: common_bytes.induct)
  case (1 np pp lim i newp)
  show ?case
  proof (cases "i < lim \<and> np ! i = pp ! i")
    case True
    then have "common_bytes np pp lim i newp = common_bytes np pp lim (i + 1) (newp[i := np ! i])"
      by (subst common_bytes.simps) simp
    moreover have "take (i + 1) (newp[i := np ! i]) = take (i + 1) np"
      using 1(2-7) True by (simp add: take_Suc_conv_app_nth)
    moreover have "take (i + 1) np = take (i + 1) pp"
      using 1(2-7) True by (simp add: take_Suc_conv_app_nth)
    ultimately show ?thesis using 1 True by simp
  next
    case False
    then have "common_bytes np pp lim i newp = (i, newp)" by (subst common_bytes.simps) auto
    then show ?thesis using 1 False by auto
  qed
qed

lemma common_mask:
  "drop_bit k (0x80 :: u8) AND diff = 0 \<longleftrightarrow> (k < 8 \<longrightarrow> \<not> bit diff (7 - k))"
proof -
  have eight: "(0x80 :: u8) = 2 ^ 7" by simp
  have "bit (0x80 :: u8) n \<longleftrightarrow> n = 7" for n unfolding eight bit_exp_iff by auto
  then have d: "bit (drop_bit k (0x80 :: u8)) j \<longleftrightarrow> k + j = 7" for j
    by (simp add: bit_drop_bit_eq)
  have "drop_bit k (0x80 :: u8) AND diff = 0 \<longleftrightarrow> (\<forall>j. k + j = 7 \<longrightarrow> \<not> bit diff j)"
    by (auto simp: bit_eq_iff [of "drop_bit k 0x80 AND diff" 0] bit_and_iff d)
  also have "\<dots> \<longleftrightarrow> (k < 8 \<longrightarrow> \<not> bit diff (7 - k))"
  proof -
    have "k + j = 7 \<longleftrightarrow> k < 8 \<and> j = 7 - k" for j by auto
    then show ?thesis by simp
  qed
  finally show ?thesis .
qed

definition shift_ok :: "u8 \<Rightarrow> nat \<Rightarrow> nat \<Rightarrow> nat \<Rightarrow> nat \<Rightarrow> bool" where
  "shift_ok diff plen b k m \<longleftrightarrow> b + k \<le> m \<and> m \<le> plen \<and>
     (\<forall>j. k \<le> j \<and> j < 8 \<and> b + j < m \<longrightarrow> \<not> bit diff (7 - j)) \<and>
     (m < plen \<longrightarrow> m < b + 8 \<and> bit diff (7 - (m - b)))"

lemma common_shift_spec:
  "b + k \<le> plen \<Longrightarrow> shift_ok diff plen b k (common_shift diff (drop_bit k 0x80) plen (b + k))"
proof (induction "plen - (b + k)" arbitrary: k)
  case 0
  then have "common_shift diff (drop_bit k 0x80) plen (b + k) = b + k"
    by (subst common_shift.simps) simp
  then show ?case using 0 by (auto simp: shift_ok_def)
next
  case (Suc n)
  then have lt: "b + k < plen" by simp
  show ?case
  proof (cases "k < 8 \<and> bit diff (7 - k)")
    case True
    then have "common_shift diff (drop_bit k 0x80) plen (b + k) = b + k"
      using common_mask [of k diff] by (subst common_shift.simps) simp
    then show ?thesis using True lt by (auto simp: shift_ok_def)
  next
    case False
    then have "common_shift diff (drop_bit k 0x80) plen (b + k) = common_shift diff (drop_bit (Suc k) 0x80) plen (b + Suc k)"
      using common_mask [of k diff] lt by (subst common_shift.simps) (simp add: drop_bit_drop_bit)
    moreover have "n = plen - (b + Suc k)" "b + Suc k \<le> plen" using Suc.hyps(2) lt by auto
    ultimately have "shift_ok diff plen b (Suc k) (common_shift diff (drop_bit k 0x80) plen (b + k))"
      using Suc.hyps(1) [of "Suc k"] by simp
    then show ?thesis using False unfolding shift_ok_def by (metis Suc_leD add_Suc_right le_antisym not_less_eq_eq)
  qed
qed

lemma take_byte:
  assumes "r < 8" "i < length bs"
  shows "take (8 * i + r) (bytes_bits bs) = bytes_bits (take i bs) @ take r (byte_bits (bs ! i))"
  using assms by (simp add: take_add take_bytes_bits drop_bytes_bits Cons_nth_drop_Suc [symmetric])

lemma shift_ok_byte:
  assumes "shift_ok (a XOR b) plen (8 * i) 0 m" "a \<noteq> b \<or> plen < 8 * i + 8"
  shows "m < 8 * i + 8" "take (m - 8 * i) (byte_bits a) = take (m - 8 * i) (byte_bits b)"
proof -
  have eq: "bit a (7 - j) = bit b (7 - j)" if "j < 8" "8 * i + j < m" for j
    using assms(1) that by (auto simp: shift_ok_def bit_xor_iff)
  show m: "m < 8 * i + 8"
  proof (rule ccontr)
    assume "\<not> m < 8 * i + 8"
    then have "byte_bits a = byte_bits b"
      by (intro nth_equalityI) (simp_all add: nth_byte_bits eq)
    then show False using assms \<open>\<not> m < 8 * i + 8\<close> by (auto simp: shift_ok_def)
  qed
  show "take (m - 8 * i) (byte_bits a) = take (m - 8 * i) (byte_bits b)"
    by (intro nth_equalityI) (use m in \<open>auto simp: nth_byte_bits eq\<close>)
qed

lemma route_common_bits:
  assumes "length (u n) = 16" "length (u p) = 16" "length (u new) = 16" "prefixlen p \<le> 128"
  defines "q \<equiv> route_common n p new"
  shows "length (u q) = 16 \<and> prefixlen q \<le> prefixlen p \<and> family q = family new \<and>
    key q = take (prefixlen q) (bytes_bits (u n)) \<and> key q = take (prefixlen q) (bytes_bits (u p)) \<and>
    (prefixlen q < prefixlen p \<longrightarrow> bytes_bits (u n) ! prefixlen q = (\<not> bytes_bits (u p) ! prefixlen q))"
proof -
  let ?lim = "prefixlen p div 8"
  obtain i r where cb: "common_bytes (u n) (u p) ?lim 0 (u new) = (i, r)" "i \<le> ?lim" "length r = 16"
      "take i (u n) = take i (u p)" "take i r = take i (u n)" "i < ?lim \<longrightarrow> u n ! i \<noteq> u p ! i"
    using common_bytes_spec [of 0 ?lim "u n" "u p" "u new"] assms(1-3) div_le_mono [OF assms(4), of 8] by auto
  show ?thesis
  proof (cases "i * 8 = prefixlen p")
    case True
    then have "q = new\<lparr>prefixlen := 8 * i, u := r\<rparr>"
      using cb(1) by (simp add: q_def route_common_def mult.commute)
    moreover have "prefixlen p = 8 * i" using True by simp
    ultimately show ?thesis using cb(3-5) by (simp add: key_def take_bytes_bits)
  next
    case False
    let ?a = "u n ! i" and ?b = "u p ! i"
    define m where "m = common_shift (?a XOR ?b) 0x80 (prefixlen p) (8 * i)"
    have lt: "8 * i < prefixlen p" using False cb(2) by linarith
    then have i: "i < 16" using assms(4) by simp
    have ok: "shift_ok (?a XOR ?b) (prefixlen p) (8 * i) 0 m"
      using common_shift_spec [of "8 * i" 0 "prefixlen p"] lt by (simp add: m_def)
    have ne: "?a \<noteq> ?b \<or> prefixlen p < 8 * i + 8" using cb(2,6) by linarith
    note bb = shift_ok_byte [OF ok ne]
    have m: "8 * i \<le> m" "m \<le> prefixlen p" "m = 8 * i + (m - 8 * i)" "m - 8 * i < 8" "m mod 8 = m - 8 * i"
    proof -
      show "8 * i \<le> m" "m \<le> prefixlen p" using ok by (simp_all add: shift_ok_def)
      then obtain s where s: "m = 8 * i + s" using le_Suc_ex by blast
      then show "m = 8 * i + (m - 8 * i)" "m - 8 * i < 8" "m mod 8 = m - 8 * i" using bb(1) by simp_all
    qed
    have q: "q = new\<lparr>prefixlen := m, u := r[i := ?a AND maskbit ! (m mod 8)]\<rparr>"
      using False cb(1) by (simp add: q_def route_common_def m_def Let_def mult.commute)
    have t: "take m (bytes_bits bs) = bytes_bits (take i bs) @ take (m - 8 * i) (byte_bits (bs ! i))"
      if "length bs = 16" for bs
      using take_byte [OF m(4), of i bs] i that m(3) by simp
    have k: "key q = bytes_bits (take i (u n)) @ take (m - 8 * i) (byte_bits ?a)"
      using t [of "r[i := ?a AND maskbit ! (m mod 8)]"] cb(3,5) i m(4)
      by (simp add: q key_def m(5) byte_bits_and_maskbit)
    have d: "m < prefixlen p \<longrightarrow> bytes_bits (u n) ! m = (\<not> bytes_bits (u p) ! m)"
    proof
      assume "m < prefixlen p"
      then have "bit (?a XOR ?b) (7 - m mod 8)" using ok unfolding shift_ok_def m(5) by blast
      moreover have "m < 8 * 16" "m div 8 = i" using \<open>m < prefixlen p\<close> assms(4) m(3,4) by auto
      ultimately show "bytes_bits (u n) ! m = (\<not> bytes_bits (u p) ! m)"
        using assms(1,2) by (simp add: nth_bytes_bits bit_xor_iff)
    qed
    show ?thesis
      using k t [OF assms(1)] t [OF assms(2)] bb(2) cb(3,4) m(2) d by (simp add: q)
  qed
qed

lemma route_common_key:
  assumes n: "wf_prefix n" and p: "wf_prefix p" and no: "\<not> prefix (key n) (key p)"
  defines "q \<equiv> (route_common n p prefix_new)\<lparr>family := family p\<rparr>"
  shows "wf_prefix q" "strict_prefix (key q) (key n)" "prefix (key q) (key p)"
    "key q \<noteq> key p \<Longrightarrow> bit_side (key n) (length (key q)) \<noteq> bit_side (key p) (length (key q))"
proof -
  let ?r = "route_common n p prefix_new"
  have "length (u prefix_new) = 16" by (simp add: prefix_new_def)
  note r = route_common_bits [OF wf_prefix_length [OF n] wf_prefix_length [OF p] this wf_prefix_len [OF p]]
  have e: "key q = key ?r" "prefixlen q = prefixlen ?r" "u q = u ?r" "family q = family p"
    by (simp_all add: q_def key_def)
  have "length (u q) = 16 \<and> prefixlen q \<le> prefixlen p \<and> family q = family p \<and>
    key q = take (prefixlen q) (bytes_bits (u n)) \<and> key q = take (prefixlen q) (bytes_bits (u p)) \<and>
    (prefixlen q < prefixlen p \<longrightarrow> bytes_bits (u n) ! prefixlen q = (\<not> bytes_bits (u p) ! prefixlen q))"
    unfolding e using r by blast
  then have q: "length (u q) = 16" "prefixlen q \<le> prefixlen p" "family q = family p"
    "key q = take (prefixlen q) (bytes_bits (u n))" "key q = take (prefixlen q) (bytes_bits (u p))"
    "prefixlen q < prefixlen p \<Longrightarrow> bytes_bits (u n) ! prefixlen q = (\<not> bytes_bits (u p) ! prefixlen q)"
    by blast+
  show w: "wf_prefix q" using q(1-3) p by (auto simp: wf_prefix_def)
  have kp: "key q = take (prefixlen q) (key p)" using q(2,5) by (simp add: take_key)
  then show "prefix (key q) (key p)" by (simp add: take_is_prefix)
  have lt: "prefixlen q < prefixlen n"
  proof (rule ccontr)
    assume "\<not> prefixlen q < prefixlen n"
    then have "key n = take (prefixlen n) (key q)" using q(4) by (simp add: key_def min_def)
    then have "prefix (key n) (key q)" by (metis take_is_prefix)
    then show False using no \<open>prefix (key q) (key p)\<close> prefix_order.trans by blast
  qed
  then have kn: "key q = take (prefixlen q) (key n)" using q(4) by (simp add: take_key)
  then have "prefix (key q) (key n)" by (metis take_is_prefix)
  then show "strict_prefix (key q) (key n)"
    using lt length_key [OF w] length_key [OF n] by (auto simp: strict_prefix_def)
  show "bit_side (key n) (length (key q)) \<noteq> bit_side (key p) (length (key q))" if "key q \<noteq> key p"
  proof -
    have "prefixlen q \<noteq> prefixlen p" using that kp length_key [OF p] by auto
    then have l: "prefixlen q < prefixlen p" using q(2) by simp
    then show ?thesis
      using q(6) [OF l] lt by (simp add: length_key [OF w] bit_side_def key_def [of n] key_def [of p])
  qed
qed

subsection \<open>Insertion\<close>

text \<open>The nodes of \<open>T\<close> are still there in \<open>T'\<close>, with the same prefix, lock count and info, and no child
  pointer of theirs became NULL.\<close>

definition extends :: "'v route_table \<Rightarrow> 'v route_table \<Rightarrow> bool" where
  "extends T T' \<longleftrightarrow> live T \<subseteq> live T' \<and> tcount T' = tcount T \<and>
     (\<forall>b \<in> live T. npfx T' b = npfx T b \<and> nlock T' b = nlock T b \<and> ninfo T' b = ninfo T b \<and>
        (\<forall>i. nchild T b i \<noteq> None \<longrightarrow> nchild T' b i \<noteq> None))"

lemma extends_trans: "extends T1 T2 \<Longrightarrow> extends T2 T3 \<Longrightarrow> extends T1 T3"
  by (auto simp: extends_def)

lemma extends_nkey: "extends T T' \<Longrightarrow> b \<in> live T \<Longrightarrow> nkey T' b = nkey T b"
  by (simp add: extends_def nkey_def)

lemma insert_leaf:
  assumes wf: "wf_tree T" and p: "wf_prefix p" and a: "a \<notin> live T" and m: "below T p m None"
  shows "\<exists>T'. (do { T \<leftarrow> route_node_set T a p; link_or_top T m a }) = Some T' \<and> wf_tree T' \<and> extends T T' \<and>
    live T' = insert a (live T) \<and> nkey T' a = key p \<and> nlock T' a = 0 \<and> ninfo T' a = None \<and>
    (\<forall>b. m = Some b \<longrightarrow> nchild T' b (bit_side (key p) (length (nkey T b))) = Some a)"
proof -
  note W = wf_tree_radix [OF wf]
  obtain T1 q where T1: "route_node_set T a p = Some T1" "live T1 = insert a (live T)"
      "npfx T1 = (npfx T)(a := q)" "wf_prefix q" "key q = key p" "npar T1 = (npar T)(a := None)"
      "nchild T1 = (nchild T)(a := (\<lambda>_. None))" "nlock T1 = (nlock T)(a := 0)"
      "ninfo T1 = (ninfo T)(a := None)" "ttop T1 = ttop T" "tcount T1 = tcount T"
    using node_set_effect [OF p] by blast
  have k1: "nkey T1 = (nkey T)(a := key p)" using T1(3,5) by (auto simp: nkey_def fun_eq_iff)
  have w1: "\<forall>b \<in> insert a (live T). wf_prefix (npfx T1 b)"
    using wf T1(3,4) by (auto simp: wf_tree_def)
  show ?thesis
  proof (cases m)
    case None
    have "wf_radix (insert a (live T)) (nkey T1) (npar T1) (nchild T1) (Some a)"
      using wf_radix_root [of "live T" "nkey T" "npar T" "nchild T" a "key p"] W m None a
      by (simp add: k1 T1 below_def)
    then show ?thesis
      using T1 w1 k1 None a by (auto simp: link_or_top_def wf_tree_def extends_def nkey_fun)
  next
    case (Some b)
    then have b: "b \<in> live T" "strict_prefix (nkey T b) (key p)"
        "nchild T b (bit_side (key p) (length (nkey T b))) = None" "b \<noteq> a"
      using m a by (auto simp: below_def)
    have "wf_prefix (npfx T1 a)" "wf_prefix (npfx T1 b)" using w1 b(1) by blast+
    with b obtain T2 where T2: "set_link T1 b a = Some T2" "live T2 = live T1" "npfx T2 = npfx T1"
        "npar T2 = (npar T1)(a := Some b)"
        "nchild T2 = set_child (nchild T1) b (bit_side (key p) (length (nkey T b))) (Some a)"
        "nlock T2 = nlock T1" "ninfo T2 = ninfo T1" "ttop T2 = ttop T1" "tcount T2 = tcount T1"
      using set_link_effect [of b T1 a] by (auto simp: T1(2,10) k1)
    have k2: "nkey T2 = (nkey T)(a := key p)" using nkey_frame [OF T2(3)] k1 by simp
    have "wf_radix (live T2) (nkey T2) (npar T2) (nchild T2) (ttop T2)"
      using wf_radix_leaf [OF W a b(1-3)] unfolding T2(2,4,5,8) T1(2,6,7,10) k2 by simp
    then have "wf_tree T2" using w1 by (simp add: wf_tree_def T2 T1)
    moreover have "extends T T2" using a b(1) by (auto simp: extends_def T2 T1)
    ultimately show ?thesis using T1 T2 k2 Some by (simp add: link_or_top_def)
  qed
qed

end
