(* ===== verification/Ztable_Laws.thy ===== *)
theory Ztable_Laws
  imports Ztable
begin

text \<open>
  What the operations of the routing table do on well-formed tables: insertion, locking, unlocking
  with deletion, exact lookup and longest match, each with the invariant it keeps.
\<close>

subsection \<open>Insertion\<close>

lemma create_effect:
  "\<exists>T'. upd_node a (\<lambda>m. m\<lparr>pfx := f (pfx m)\<rparr>) (route_node_create T a) = Some T' \<and>
    live T' = insert a (live T) \<and> npfx T' = (npfx T)(a := f prefix_new) \<and> npar T' = (npar T)(a := None) \<and>
    nchild T' = (nchild T)(a := (\<lambda>_. None)) \<and> nlock T' = (nlock T)(a := 0) \<and> ninfo T' = (ninfo T)(a := None) \<and>
    ttop T' = ttop T \<and> tcount T' = tcount T"
  by (auto simp: route_node_create_def upd_node_def node_defs fun_eq_iff split: side.split)

text \<open>A new node with the prefix \<open>q\<close> is put between the node \<open>c\<close> and the pointer to it.\<close>

lemma insert_above:
  assumes wf: "wf_tree T" and q: "wf_prefix q" "f prefix_new = q" and a: "a \<notin> live T"
    and c: "c \<in> live T" "strict_prefix (key q) (nkey T c)"
    and m: "npar T c = m" "\<And>b. m = Some b \<Longrightarrow> strict_prefix (nkey T b) (key q)"
  shows "\<exists>T'. (do { T \<leftarrow> upd_node a (\<lambda>m. m\<lparr>pfx := f (pfx m)\<rparr>) (route_node_create T a);
                   T \<leftarrow> set_link T a c; link_or_top T m a }) = Some T' \<and>
    wf_tree T' \<and> extends T T' \<and> live T' = insert a (live T) \<and> npfx T' a = q \<and> nlock T' a = 0 \<and>
    ninfo T' a = None \<and> nchild T' a = (\<lambda>_. None)(bit_side (nkey T c) (length (key q)) := Some c)"
proof -
  note W = wf_tree_radix [OF wf]
  let ?s = "bit_side (nkey T c) (length (key q))"
  have ac: "a \<noteq> c" using a c(1) by blast
  obtain T1 where T1: "upd_node a (\<lambda>m. m\<lparr>pfx := f (pfx m)\<rparr>) (route_node_create T a) = Some T1"
      "live T1 = insert a (live T)" "npfx T1 = (npfx T)(a := q)" "npar T1 = (npar T)(a := None)"
      "nchild T1 = (nchild T)(a := (\<lambda>_. None))" "nlock T1 = (nlock T)(a := 0)"
      "ninfo T1 = (ninfo T)(a := None)" "ttop T1 = ttop T" "tcount T1 = tcount T"
    using create_effect [of a f T] q(2) by blast
  have k1: "nkey T1 = (nkey T)(a := key q)" using T1(3) by (auto simp: nkey_def fun_eq_iff)
  have w1: "\<forall>b \<in> insert a (live T). wf_prefix (npfx T1 b)" using wf T1(3) q(1) by (auto simp: wf_tree_def)
  then have "wf_prefix (npfx T1 a)" "wf_prefix (npfx T1 c)" using c(1) by blast+
  then obtain T2 where T2: "set_link T1 a c = Some T2" "live T2 = live T1" "npfx T2 = npfx T1"
      "npar T2 = (npar T1)(c := Some a)" "nchild T2 = set_child (nchild T1) a ?s (Some c)"
      "nlock T2 = nlock T1" "ninfo T2 = ninfo T1" "ttop T2 = ttop T1" "tcount T2 = tcount T1"
    using set_link_effect [of a T1 c] ac c by (auto simp: T1(2,8) k1)
  have k2: "nkey T2 = (nkey T)(a := key q)" using nkey_frame [OF T2(3)] k1 by simp
  have ch: "nchild T2 = (nchild T)(a := (\<lambda>_. None)(?s := Some c))"
    unfolding T2(5) T1(5) by (auto simp: fun_eq_iff)
  show ?thesis
  proof (cases m)
    case None
    define T3 where "T3 = T2\<lparr>ttop := Some a\<rparr>"
    have k3: "nkey T3 = (nkey T)(a := key q)" using k2 by (simp add: T3_def nkey_fun)
    have "wf_radix (live T3) (nkey T3) (npar T3) (nchild T3) (ttop T3)"
      unfolding k3 using wf_radix_above_top [OF W a c] m(1) None
      by (simp add: T3_def T2(2,4) T1(2,4) ch)
    then have "wf_tree T3" using w1 by (simp add: wf_tree_def T3_def T2 T1)
    moreover have "extends T T3" using a by (auto simp: extends_def T3_def T2(2,3,6,7,9) T1 ch)
    ultimately show ?thesis
      using T1(1-4,6-9) T2(1-4,6-9) ch None by (simp add: link_or_top_def T3_def)
  next
    case (Some b)
    have b: "b \<in> live T" "strict_prefix (nkey T b) (key q)" "b \<noteq> a"
      using wf_radixD(5) [OF W c(1)] m Some a by auto
    have "wf_prefix (npfx T2 a)" "wf_prefix (npfx T2 b)" using w1 b(1) by (simp_all add: T2(3))
    then obtain T3 where T3: "set_link T2 b a = Some T3" "live T3 = live T2" "npfx T3 = npfx T2"
        "npar T3 = (npar T2)(a := Some b)"
        "nchild T3 = set_child (nchild T2) b (bit_side (key q) (length (nkey T b))) (Some a)"
        "nlock T3 = nlock T2" "ninfo T3 = ninfo T2" "ttop T3 = ttop T2" "tcount T3 = tcount T2"
      using set_link_effect [of b T2 a] b by (auto simp: T2(2) T1(2) k2)
    have k3: "nkey T3 = (nkey T)(a := key q)" using nkey_frame [OF T3(3)] k2 by simp
    have par: "npar T3 = (npar T)(a := Some b, c := Some a)" using ac by (auto simp: T3(4) T2(4) T1(4))
    have "wf_radix (live T3) (nkey T3) (npar T3) (nchild T3) (ttop T3)"
      using wf_radix_above [OF W a c, of b] m(1) Some b(2)
      unfolding T3(2,5,8) T2(2,8) T1(2,8) k3 par ch by simp
    then have "wf_tree T3" using w1 by (simp add: wf_tree_def T3(2,3) T2(2,3) T1(2))
    moreover have "extends T T3" using a by (auto simp: extends_def T3 T2(2,3,6,7,9) T1 ch)
    moreover have "nchild T3 a = (\<lambda>_. None)(?s := Some c)" using b(3) by (auto simp: T3(5) ch fun_eq_iff)
    ultimately show ?thesis
      using T1(1-4,6-9) T2(1-4,6-9) T3(1-4,6-9) Some by (simp add: link_or_top_def)
  qed
qed

text \<open>The result of an insertion: the node \<open>a\<close> has the prefix's key and is held, every older node is kept
  with its prefix and info, and new nodes have no info.\<close>

definition got :: "'v route_table \<Rightarrow> prefix \<Rightarrow> addr \<Rightarrow> 'v route_table \<Rightarrow> bool" where
  "got T p a T' \<longleftrightarrow> wf_table T' \<and> live T \<subseteq> live T' \<and> a \<in> live T' \<and> nkey T' a = key p \<and> 0 < nlock T' a \<and>
     (\<forall>b \<in> live T. npfx T' b = npfx T b \<and> ninfo T' b = ninfo T b) \<and>
     (\<forall>b \<in> live T' - live T. ninfo T' b = None)"

lemma lock_new_node:
  assumes wf: "wf_table T" and T1: "wf_tree T1" "extends T T1" "a \<in> live T1" "nkey T1 a = key p"
    and new: "\<And>b. b \<in> live T1 - live T \<Longrightarrow> ninfo T1 b = None"
      "\<And>b. b \<in> live T1 - live T \<Longrightarrow> b \<noteq> a \<Longrightarrow> \<forall>i. nchild T1 b i \<noteq> None"
    and cnt: "c = card (live T1)"
  shows "\<exists>T2. route_lock_node (T1\<lparr>tcount := c\<rparr>) a = Some T2 \<and> got T p a T2 \<and> live T2 = live T1"
proof -
  obtain T2 where T2: "route_lock_node (T1\<lparr>tcount := c\<rparr>) a = Some T2" "live T2 = live T1"
      "npfx T2 = npfx T1" "npar T2 = npar T1" "nchild T2 = nchild T1"
      "nlock T2 = (nlock T1)(a := nlock T1 a + 1)" "ninfo T2 = ninfo T1" "ttop T2 = ttop T1" "tcount T2 = c"
    using lock_effect [of a "T1\<lparr>tcount := c\<rparr>"] T1(3) by auto
  have k: "nkey T2 = nkey T1" by (rule nkey_frame [OF T2(3)])
  have "wf_tree T2" using T1(1) by (simp add: wf_tree_def k T2)
  moreover have "no_stubs T2"
    unfolding no_stubs_def
  proof (intro ballI impI)
    fix b assume b: "b \<in> live T2" "nlock T2 b = 0"
    then have ba: "b \<noteq> a" and b0: "nlock T1 b = 0" by (auto simp: T2(6) split: if_splits)
    show "(\<forall>i. nchild T2 b i \<noteq> None) \<and> ninfo T2 b = None"
    proof (cases "b \<in> live T")
      case True
      then have "nlock T b = 0" using b0 T1(2) by (simp add: extends_def)
      then have "\<forall>i. nchild T b i \<noteq> None" "ninfo T b = None"
        using wf True by (auto simp: wf_table_def no_stubs_def)
      then show ?thesis using T1(2) True by (auto simp: extends_def T2(5,7))
    next
      case False
      then show ?thesis using new ba b(1) by (simp add: T2(2,5,7))
    qed
  qed
  ultimately have "wf_table T2" using cnt by (simp add: wf_table_def T2(2,9))
  then show ?thesis
    using T1(2-4) new(1) T2 k by (auto simp: got_def extends_def)
qed

lemma below_parent:
  assumes wf: "wf_tree T" and b: "below T p m (Some c)"
  shows "c \<in> live T" "npar T c = m"
    "m = Some q \<Longrightarrow> strict_prefix (nkey T q) (nkey T c) \<and>
       bit_side (nkey T c) (length (nkey T q)) = bit_side (key p) (length (nkey T q))"
proof -
  note W = wf_tree_radix [OF wf]
  show c: "c \<in> live T" "npar T c = m"
    using b wf_radixD(2,3,8,9) [OF W] by (auto simp: below_def split: option.splits)
  show "strict_prefix (nkey T q) (nkey T c) \<and>
       bit_side (nkey T c) (length (nkey T q)) = bit_side (key p) (length (nkey T q))" if "m = Some q"
    using wf_radixD(6) [OF W c(1)] wf_radixD(10) [OF W] c(2) that b by (auto simp: below_def)
qed

lemma common_above_parent:
  assumes wf: "wf_tree T" and p: "wf_prefix p" and b: "below T p m (Some c)" and no: "\<not> prefix (nkey T c) (key p)"
  defines "q \<equiv> (route_common (npfx T c) p prefix_new)\<lparr>family := family p\<rparr>"
  assumes m: "m = Some b"
  shows "strict_prefix (nkey T b) (key q)"
proof -
  have wc: "wf_prefix (npfx T c)" using wf below_parent(1) [OF wf b] by (simp add: wf_tree_def)
  note q = route_common_key [OF wc p, folded q_def nkey_def, OF no]
  have b1: "strict_prefix (nkey T b) (nkey T c)" "strict_prefix (nkey T b) (key p)"
      "bit_side (nkey T c) (length (nkey T b)) = bit_side (key p) (length (nkey T b))"
    using below_parent(3) [OF wf b m] b m by (auto simp: below_def)
  show ?thesis
  proof (cases "key q = key p")
    case False
    have "length (nkey T b) < length (key q)"
    proof (rule ccontr)
      assume "\<not> length (nkey T b) < length (key q)"
      then consider "length (nkey T b) = length (key q)" | "length (key q) < length (nkey T b)" by linarith
      then show False
      proof cases
        case 1
        then show False using q(4) [OF False] b1(3) by simp
      next
        case 2
        then show False
          using q(4) [OF False] bit_side_prefix [of "nkey T b" "nkey T c"] bit_side_prefix [of "nkey T b" "key p"] b1(1,2)
          by auto
      qed
    qed
    moreover have "prefix (nkey T b) (key q)"
      by (rule prefix_length_prefix [OF _ q(3)]) (use b1(2) calculation in auto)
    ultimately show ?thesis by (auto simp: strict_prefix_def)
  qed (use b1(2) in simp)
qed

text \<open>When the common prefix is shorter than the prefix, the glue node \<open>a1\<close> gets the new leaf \<open>a2\<close> on its free
  side.\<close>

lemma leaf_under_glue:
  assumes wf: "wf_table T" and p: "wf_prefix p" and a: "a1 \<notin> live T" "a2 \<notin> live T" "a1 \<noteq> a2"
    and T1: "wf_tree T1" "extends T T1" "live T1 = insert a1 (live T)" "ninfo T1 a1 = None"
      "nchild T1 a1 = (\<lambda>_. None)(s := Some c)"
    and k: "strict_prefix (nkey T1 a1) (key p)" "s \<noteq> bit_side (key p) (length (nkey T1 a1))"
  shows "\<exists>T2 T3. (do { T \<leftarrow> route_node_set T1 a2 p; link_or_top T (Some a1) a2 }) = Some T2 \<and>
    route_lock_node (T2\<lparr>tcount := tcount T2 + 1 + 1\<rparr>) a2 = Some T3 \<and> got T p a2 T3"
proof -
  have "below T1 p (Some a1) None" using k by (simp add: below_def T1(3,5))
  then obtain T2 where T2: "(do { T \<leftarrow> route_node_set T1 a2 p; link_or_top T (Some a1) a2 }) = Some T2"
      "wf_tree T2" "extends T1 T2" "live T2 = insert a2 (live T1)" "nkey T2 a2 = key p" "ninfo T2 a2 = None"
      "nchild T2 a1 (bit_side (key p) (length (nkey T1 a1))) = Some a2"
    using insert_leaf [OF T1(1) p, of a2 "Some a1"] a T1(3) by auto
  have e: "extends T T2" by (rule extends_trans [OF T1(2) T2(3)])
  have c2: "tcount T2 + 1 + 1 = card (live T2)"
    using e T2(4) T1(3) wf wf_radixD(1) [OF wf_tree_radix [OF wf_table_tree [OF wf]]] a
    by (simp add: extends_def wf_table_def)
  have ch: "nchild T2 a1 i \<noteq> None" for i
  proof (cases "i = bit_side (key p) (length (nkey T1 a1))")
    case True
    then show ?thesis using T2(7) by simp
  next
    case False
    then have "i = s" using k(2) by (cases i; cases s) (auto simp: bit_side_def split: if_splits)
    then show ?thesis using T2(3) T1(3,5) by (simp add: extends_def)
  qed
  have n2: "a2 \<in> live T2" "\<And>b. b \<in> live T2 - live T \<Longrightarrow> ninfo T2 b = None"
      "\<And>b. b \<in> live T2 - live T \<Longrightarrow> b \<noteq> a2 \<Longrightarrow> \<forall>i. nchild T2 b i \<noteq> None"
    using T2(3,4,6) T1(3,4) ch by (auto simp: extends_def)
  then obtain T3 where "route_lock_node (T2\<lparr>tcount := tcount T2 + 1 + 1\<rparr>) a2 = Some T3" "got T p a2 T3"
    using lock_new_node [OF wf T2(2) e n2(1) T2(5) _ _ c2] by blast
  then show ?thesis using T2(1) by blast
qed

text \<open>The glue node for a prefix that the node \<open>c\<close> does not contain: the common prefix, put above \<open>c\<close>.\<close>

lemma glue_above:
  assumes t: "wf_tree T" and p: "wf_prefix p" and a: "a1 \<notin> live T"
    and b: "below T p m (Some c)" and no: "\<not> prefix (nkey T c) (key p)"
  shows "\<exists>y z T1. upd_node a1 (\<lambda>m. m\<lparr>pfx := (route_common (npfx T c) p (pfx m))\<lparr>family := family p\<rparr>\<rparr>)
        (route_node_create T a1) = Some y \<and> set_link y a1 c = Some z \<and> link_or_top z m a1 = Some T1 \<and>
      wf_tree T1 \<and> extends T T1 \<and> live T1 = insert a1 (live T) \<and> ninfo T1 a1 = None \<and>
      wf_prefix (npfx T1 a1) \<and> prefix (nkey T1 a1) (key p) \<and>
      (\<exists>s. nchild T1 a1 = (\<lambda>_. None)(s := Some c) \<and>
        (nkey T1 a1 \<noteq> key p \<longrightarrow> s \<noteq> bit_side (key p) (length (nkey T1 a1))))"
proof -
  have cl: "c \<in> live T" "npar T c = m" by (rule below_parent [OF t b])+
  have wc: "wf_prefix (npfx T c)" using t cl(1) by (simp add: wf_tree_def)
  define f where "f = (\<lambda>x. (route_common (npfx T c) p x)\<lparr>family := family p\<rparr>)"
  define q where "q = f prefix_new"
  have q: "(route_common (npfx T c) p prefix_new)\<lparr>family := family p\<rparr> = q" by (simp add: q_def f_def)
  note kq = route_common_key [OF wc p, folded nkey_def, OF no, unfolded q]
  have up: "strict_prefix (nkey T x) (key q)" if "m = Some x" for x
    using common_above_parent [OF t p b no that] by (simp add: q_def f_def)
  obtain T1 where T1: "(do { T \<leftarrow> upd_node a1 (\<lambda>m. m\<lparr>pfx := f (pfx m)\<rparr>) (route_node_create T a1);
        T \<leftarrow> set_link T a1 c; link_or_top T m a1 }) = Some T1" "wf_tree T1" "extends T T1"
      "live T1 = insert a1 (live T)" "npfx T1 a1 = q" "ninfo T1 a1 = None"
      "nchild T1 a1 = (\<lambda>_. None)(bit_side (nkey T c) (length (key q)) := Some c)"
    using insert_above [where f = f, OF t kq(1) q_def [symmetric] a(1) cl(1) kq(2) cl(2) up] by blast
  have k1: "nkey T1 a1 = key q" by (simp add: nkey_def T1(5))
  obtain y z where steps: "upd_node a1 (\<lambda>m. m\<lparr>pfx := (route_common (npfx T c) p (pfx m))\<lparr>family := family p\<rparr>\<rparr>)
        (route_node_create T a1) = Some y" "set_link y a1 c = Some z" "link_or_top z m a1 = Some T1"
    using T1(1) by (auto simp: bind_eq_Some_conv f_def)
  have s: "key q \<noteq> key p \<longrightarrow> bit_side (nkey T c) (length (key q)) \<noteq> bit_side (key p) (length (key q))"
    using kq(4) by auto
  show ?thesis
    by (rule exI [of _ y], rule exI [of _ z], rule exI [of _ T1],
        intro conjI exI [of _ "bit_side (nkey T c) (length (key q))"], unfold k1 T1(5))
      (fact steps T1(2-4,6,7) kq(1,3) s)+
qed

text \<open>The last case of \<^verbatim>\<open>route_node_get\<close>: the walk stopped at a node that does not contain the prefix.\<close>

lemma route_node_get_split:
  assumes wf: "wf_table T" and p: "wf_prefix p" and a: "a1 \<notin> live T" "a2 \<notin> live T" "a1 \<noteq> a2"
    and b: "below T p m (Some c)" and no: "\<not> prefix (nkey T c) (key p)"
    and r: "get_walk T p None (ttop T) = Some (Stopped m (Some c))"
  shows "\<exists>a T'. route_node_get T p a1 a2 = Some (a, T') \<and> got T p a T' \<and> a \<notin> live T"
proof -
  have t: "wf_tree T" using wf by simp
  obtain n where n: "nodes T c = Some n" using below_parent(1) [OF t b] by (auto simp: live_def)
  obtain y z T1 s where steps: "upd_node a1 (\<lambda>m. m\<lparr>pfx := (route_common (npfx T c) p (pfx m))\<lparr>family := family p\<rparr>\<rparr>)
        (route_node_create T a1) = Some y" "set_link y a1 c = Some z" "link_or_top z m a1 = Some T1"
    and T1: "wf_tree T1" "extends T T1" "live T1 = insert a1 (live T)" "ninfo T1 a1 = None"
      "nchild T1 a1 = (\<lambda>_. None)(s := Some c)"
    and k: "wf_prefix (npfx T1 a1)" "prefix (nkey T1 a1) (key p)"
      "nkey T1 a1 \<noteq> key p \<Longrightarrow> s \<noteq> bit_side (key p) (length (nkey T1 a1))"
    using glue_above [OF t p a(1) b no] by blast
  obtain n1 where n1: "nodes T1 a1 = Some n1" "pfx n1 = npfx T1 a1"
    using T1(3) by (auto simp: live_def npfx_def)
  have len: "prefixlen (npfx T1 a1) = length (nkey T1 a1)" "prefixlen p = length (key p)"
    using length_key [OF k(1)] length_key [OF p] by (simp_all add: nkey_def)
  show ?thesis
  proof (cases "nkey T1 a1 = key p")
    case True
    have "tcount T1 + 1 = card (live T1)"
      using T1(2,3) wf wf_radixD(1) [OF wf_tree_radix [OF t]] a(1) by (simp add: extends_def wf_table_def)
    then obtain T2 where T2: "route_lock_node (T1\<lparr>tcount := tcount T1 + 1\<rparr>) a1 = Some T2" "got T p a1 T2"
      using lock_new_node [OF wf T1(1,2), of a1 p "tcount T1 + 1"] T1(3,4) True by auto
    have "route_node_get T p a1 a2 = Some (a1, T2)"
      using r n n1 steps T2(1) proj_node(1) [OF n] len True by (simp add: route_node_get_def)
    then show ?thesis using T2(2) a(1) by blast
  next
    case False
    have sp: "strict_prefix (nkey T1 a1) (key p)" using False k(2) by (simp add: strict_prefix_def)
    then obtain T2 T3 where T2: "(do { T \<leftarrow> route_node_set T1 a2 p; link_or_top T (Some a1) a2 }) = Some T2"
        and T3: "route_lock_node (T2\<lparr>tcount := tcount T2 + 1 + 1\<rparr>) a2 = Some T3" "got T p a2 T3"
      using leaf_under_glue [OF wf p a T1 _ k(3) [OF False]] by blast
    have "prefixlen (npfx T1 a1) \<noteq> prefixlen p" using prefix_length_less [OF sp] len by simp
    moreover obtain w where "route_node_set T1 a2 p = Some w" "set_link w a1 a2 = Some T2"
      using T2 by (auto simp: bind_eq_Some_conv link_or_top_def)
    ultimately have "route_node_get T p a1 a2 = Some (a2, T3)"
      using r n n1 steps T3(1) proj_node(1) [OF n] by (simp add: route_node_get_def)
    then show ?thesis using T3(2) a(2) by blast
  qed
qed

lemma route_node_get_got:
  assumes wf: "wf_table T" and p: "wf_prefix p" and a: "a1 \<notin> live T" "a2 \<notin> live T" "a1 \<noteq> a2"
  shows "\<exists>a T'. route_node_get T p a1 a2 = Some (a, T') \<and> got T p a T' \<and>
    (if \<exists>b \<in> live T. nkey T b = key p then live T' = live T else a \<notin> live T)"
proof -
  have t: "wf_tree T" using wf by simp
  note W = wf_tree_radix [OF t]
  have fin: "finite (live T)" and cnt: "tcount T = card (live T)"
    using wf_radixD(1) [OF W] wf by (auto simp: wf_table_def)
  obtain r where r: "get_walk T p None (ttop T) = Some r" "get_spec T p r"
    using get_walk_spec [OF t p at_walk_top [OF t], of None] by (auto simp: below_def)
  show ?thesis
  proof (cases r)
    case (Found a)
    then have f: "a \<in> live T" "nkey T a = key p" using r(2) by (auto simp: get_spec_def)
    have "extends T T" by (simp add: extends_def)
    then obtain T2 where "route_lock_node (T\<lparr>tcount := tcount T\<rparr>) a = Some T2" "got T p a T2" "live T2 = live T"
      using lock_new_node [OF wf t _ f, of "tcount T"] cnt by auto
    then show ?thesis using r(1) Found f by (auto simp: route_node_get_def)
  next
    case (Stopped m x)
    then have s: "below T p m x" "\<forall>b \<in> live T. nkey T b \<noteq> key p"
        "\<And>c. x = Some c \<Longrightarrow> \<not> prefix (nkey T c) (key p)"
      using r(2) by (auto simp: get_spec_def)
    show ?thesis
    proof (cases x)
      case None
      obtain T1 where T1: "(do { T \<leftarrow> route_node_set T a1 p; link_or_top T m a1 }) = Some T1" "wf_tree T1"
          "extends T T1" "live T1 = insert a1 (live T)" "nkey T1 a1 = key p" "ninfo T1 a1 = None"
        using insert_leaf [OF t p a(1)] s(1) None by blast
      have "tcount T1 + 1 = card (live T1)"
        using T1(3,4) cnt fin a(1) by (simp add: extends_def)
      then obtain T2 where "route_lock_node (T1\<lparr>tcount := tcount T1 + 1\<rparr>) a1 = Some T2" "got T p a1 T2"
        using lock_new_node [OF wf T1(2,3) _ T1(5), of "tcount T1 + 1"] T1(4,6) by auto
      then show ?thesis
        using r(1) Stopped None s(2) T1(1) a(1)
        by (auto simp: route_node_get_def bind_eq_Some_conv)
    next
      case (Some c)
      have none: "(\<exists>b \<in> live T. nkey T b = key p) = False" using s(2) by auto
      show ?thesis
        unfolding none if_False
        by (rule route_node_get_split [OF wf p a s(1) [unfolded Some] s(3) [OF Some]]) (use r(1) Stopped Some in simp)
    qed
  qed
qed

subsection \<open>Deletion\<close>

lemma wf_radix_cong:
  assumes "wf_radix D K P C t" "\<And>a. a \<in> D \<Longrightarrow> K' a = K a \<and> P' a = P a \<and> C' a = C a"
  shows "wf_radix D K' P' C' t"
proof (rule wf_radixI)
  note D = wf_radixD [OF assms(1)]
  show "finite D" by (rule D(1))
  show "a \<in> D \<and> P' a = None" if "t = Some a" for a using D(2,3) [OF that] assms(2) by simp
  show "t = Some a" if "a \<in> D" "P' a = None" for a using D(4) [of a] assms(2) that by simp
  show "b \<in> D \<and> strict_prefix (K' b) (K' a) \<and> C' b (bit_side (K' a) (length (K' b))) = Some a"
    if "a \<in> D" "P' a = Some b" for a b
    using D(5-7) [of a b] assms(2) [of a] assms(2) [of b] that by simp
  show "a \<in> D \<and> P' a = Some b \<and> bit_side (K' a) (length (K' b)) = i" if "b \<in> D" "C' b i = Some a" for a b i
    using D(8-10) [of b i a] assms(2) [of a] assms(2) [of b] that by simp
qed

text \<open>The part of \<^verbatim>\<open>route_node_delete\<close> before its recursive call: the node is taken out of the tree, its
  child \<open>x\<close>, if any, takes its place.\<close>

definition unlink :: "'v route_table \<Rightarrow> addr \<Rightarrow> 'v route_node \<Rightarrow> addr option \<Rightarrow> 'v route_table option" where
  "unlink T a n child = do {
     T \<leftarrow> (case child of Some c \<Rightarrow> upd_node c (\<lambda>m. m\<lparr>parent := parent n\<rparr>) T | None \<Rightarrow> Some T);
     T \<leftarrow> (case parent n of
         Some q \<Rightarrow> upd_node q (\<lambda>m. if l_left m = Some a then m\<lparr>l_left := child\<rparr> else m\<lparr>l_right := child\<rparr>) T
       | None \<Rightarrow> Some (T\<lparr>ttop := child\<rparr>));
     Some (T\<lparr>tcount := tcount T - 1, nodes := (nodes T)(a := None)\<rparr>) }"

lemma delete_unfold:
  assumes "nodes T a = Some n" "lock n = 0" "info n = None"
  shows "route_node_delete T a =
    (if l_left n \<noteq> None \<and> l_right n \<noteq> None then Some T
     else do {
       T \<leftarrow> unlink T a n (if l_left n \<noteq> None then l_left n else l_right n);
       case parent n of
         Some q \<Rightarrow> do { m \<leftarrow> nodes T q; if lock m = 0 then route_node_delete T q else Some T }
       | None \<Rightarrow> Some T })"
  using assms by (subst route_node_delete.simps) (cases "l_left n"; simp add: unlink_def Let_def)

lemma set_parent_effect:
  assumes "\<And>c. x = Some c \<Longrightarrow> c \<in> live T"
  shows "\<exists>T'. (case x of Some c \<Rightarrow> upd_node c (\<lambda>m. m\<lparr>parent := q\<rparr>) T | None \<Rightarrow> Some T) = Some T' \<and>
    live T' = live T \<and> npfx T' = npfx T \<and> npar T' = (\<lambda>b. if x = Some b then q else npar T b) \<and>
    nchild T' = nchild T \<and> nlock T' = nlock T \<and> ninfo T' = ninfo T \<and> ttop T' = ttop T \<and> tcount T' = tcount T"
proof (cases x)
  case (Some c)
  then obtain n where n: "nodes T c = Some n" using assms by (auto simp: live_def)
  show ?thesis
    using n Some assms by (auto simp: upd_node_def proj_node [OF n] fun_eq_iff split: side.split)
qed simp

lemma set_side_effect:
  assumes q: "q \<in> live T" and a: "nchild T q s = Some a" "\<And>i. nchild T q i = Some a \<Longrightarrow> i = s"
  shows "\<exists>T'. upd_node q (\<lambda>m. if l_left m = Some a then m\<lparr>l_left := x\<rparr> else m\<lparr>l_right := x\<rparr>) T = Some T' \<and>
    live T' = live T \<and> npfx T' = npfx T \<and> npar T' = npar T \<and> nchild T' = set_child (nchild T) q s x \<and>
    nlock T' = nlock T \<and> ninfo T' = ninfo T \<and> ttop T' = ttop T \<and> tcount T' = tcount T"
proof -
  obtain n where n: "nodes T q = Some n" using q by (auto simp: live_def)
  have s: "l_left n = Some a \<longleftrightarrow> s = Left_side"
    using a(1) a(2) [of Left_side] by (auto simp: proj_node [OF n])
  then show ?thesis
    using n q
    by (cases s) (auto simp: upd_node_def set_child_def proj_node [OF n] fun_eq_iff split: side.split)
qed

lemma remove_effect:
  fixes T a
  defines "T' \<equiv> T\<lparr>tcount := tcount T - 1, nodes := (nodes T)(a := None)\<rparr>"
  shows "live T' = live T - {a}" "ttop T' = ttop T" "tcount T' = tcount T - 1"
    "b \<noteq> a \<Longrightarrow> npfx T' b = npfx T b \<and> npar T' b = npar T b \<and> nchild T' b = nchild T b \<and>
       nlock T' b = nlock T b \<and> ninfo T' b = ninfo T b"
  by (auto simp: T'_def node_defs fun_eq_iff split: side.split)

lemma unlink_effect:
  assumes wf: "wf_tree T" and a: "nodes T a = Some n" and x: "l_left n = None \<or> l_right n = None"
  defines "x \<equiv> (if l_left n \<noteq> None then l_left n else l_right n)"
  shows "\<exists>T'. unlink T a n x = Some T' \<and> wf_tree T' \<and> live T' = live T - {a} \<and> tcount T' = tcount T - 1 \<and>
    (\<forall>b \<in> live T'. npfx T' b = npfx T b \<and> nlock T' b = nlock T b \<and> ninfo T' b = ninfo T b \<and>
       (npar T a \<noteq> Some b \<longrightarrow> nchild T' b = nchild T b) \<and>
       (\<forall>i. x \<noteq> None \<longrightarrow> nchild T b i \<noteq> None \<longrightarrow> nchild T' b i \<noteq> None))"
proof -
  note W = wf_tree_radix [OF wf]
  have al: "a \<in> live T" and par: "parent n = npar T a" using proj_node [OF a] by auto
  have x1: "x = Some b" if "nchild T a i = Some b" for i b
    using that x by (cases i) (auto simp: x_def proj_node [OF a])
  have x2: "\<exists>i. nchild T a i = Some b" if "x = Some b" for b
    using that by (auto simp: x_def proj_node [OF a] split: if_splits)
  have xl: "c \<in> live T" if "x = Some c" for c using x2 [OF that] wf_radixD(8) [OF W al] by blast
  obtain T1 where T1: "(case x of Some c \<Rightarrow> upd_node c (\<lambda>m. m\<lparr>parent := parent n\<rparr>) T | None \<Rightarrow> Some T) = Some T1"
      "live T1 = live T" "npfx T1 = npfx T" "npar T1 = (\<lambda>b. if x = Some b then npar T a else npar T b)"
      "nchild T1 = nchild T" "nlock T1 = nlock T" "ninfo T1 = ninfo T" "ttop T1 = ttop T" "tcount T1 = tcount T"
    using set_parent_effect [where x = x and T = T and q = "npar T a", OF xl] unfolding par by blast
  let ?s = "\<lambda>q. bit_side (nkey T a) (length (nkey T q))"
  let ?C = "case npar T a of Some q \<Rightarrow> set_child (nchild T) q (?s q) x | None \<Rightarrow> nchild T"
  obtain T2 where T2: "(case parent n of
         Some q \<Rightarrow> upd_node q (\<lambda>m. if l_left m = Some a then m\<lparr>l_left := x\<rparr> else m\<lparr>l_right := x\<rparr>) T1
       | None \<Rightarrow> Some (T1\<lparr>ttop := x\<rparr>)) = Some T2"
      "live T2 = live T" "npfx T2 = npfx T" "npar T2 = npar T1" "nchild T2 = ?C" "nlock T2 = nlock T"
      "ninfo T2 = ninfo T" "ttop T2 = (case npar T a of Some q \<Rightarrow> ttop T | None \<Rightarrow> x)" "tcount T2 = tcount T"
  proof (cases "npar T a")
    case None
    then show ?thesis using that [of "T1\<lparr>ttop := x\<rparr>"] T1 par by simp
  next
    case (Some q)
    have q: "q \<in> live T" "nchild T q (?s q) = Some a" "\<And>i. nchild T q i = Some a \<Longrightarrow> i = ?s q"
      using wf_radixD(5,7) [OF W al Some] wf_radixD(10) [OF W] by blast+
    have "q \<in> live T1" "nchild T1 q (?s q) = Some a" "\<And>i. nchild T1 q i = Some a \<Longrightarrow> i = ?s q"
      using q unfolding T1(2,5) by blast+
    from set_side_effect [OF this, where x = x] obtain T2 where T2:
        "upd_node q (\<lambda>m. if l_left m = Some a then m\<lparr>l_left := x\<rparr> else m\<lparr>l_right := x\<rparr>) T1 = Some T2"
        "live T2 = live T1" "npfx T2 = npfx T1" "npar T2 = npar T1"
        "nchild T2 = set_child (nchild T1) q (?s q) x" "nlock T2 = nlock T1" "ninfo T2 = ninfo T1"
        "ttop T2 = ttop T1" "tcount T2 = tcount T1"
      by blast
    show ?thesis by (rule that [of T2]) (simp_all add: T2 T1 par Some)
  qed
  define T3 where "T3 = T2\<lparr>tcount := tcount T2 - 1, nodes := (nodes T2)(a := None)\<rparr>"
  note r = remove_effect [where T = T2 and a = a, folded T3_def]
  have u: "unlink T a n x = Some T3" using T1(1) T2(1) by (simp add: unlink_def T3_def)
  have k: "nkey T3 b = nkey T b" if "b \<noteq> a" for b using r(4) [OF that] T2(3) by (simp add: nkey_def)
  have "wf_radix (live T - {a}) (nkey T3) (npar T3) (nchild T3) (ttop T3)"
    unfolding r(2) T2(8)
    by (rule wf_radix_cong [OF wf_radix_remove [OF W al x1 x2]]) (use k r(4) T1(4) T2(4,5) in auto)
  moreover have "\<forall>b \<in> live T - {a}. wf_prefix (npfx T3 b)" using wf r(4) T2(3) by (auto simp: wf_tree_def)
  ultimately have "wf_tree T3" by (simp add: wf_tree_def r(1) T2(2))
  then show ?thesis
    using u r T2 by (auto split: option.splits)
qed

text \<open>The result of giving a node up: what is left has kept prefixes, infos and locks, and only nodes
  nobody held are gone.\<close>

definition shrunk :: "'v route_table \<Rightarrow> 'v route_table \<Rightarrow> bool" where
  "shrunk T T' \<longleftrightarrow> wf_table T' \<and> live T' \<subseteq> live T \<and>
     (\<forall>b \<in> live T'. npfx T' b = npfx T b \<and> nlock T' b = nlock T b \<and> ninfo T' b = ninfo T b) \<and>
     (\<forall>b \<in> live T - live T'. nlock T b = 0 \<and> ninfo T b = None)"

definition stub_at :: "'v route_table \<Rightarrow> addr \<Rightarrow> bool" where
  "stub_at T a \<longleftrightarrow> a \<in> live T \<and> nlock T a = 0 \<and> ninfo T a = None \<and>
     (\<forall>b \<in> live T - {a}. nlock T b = 0 \<longrightarrow> (\<forall>i. nchild T b i \<noteq> None) \<and> ninfo T b = None)"

lemma side_all: "(\<forall>i. C i \<noteq> None) \<longleftrightarrow> C Left_side \<noteq> None \<and> C Right_side \<noteq> None"
  by (metis side.exhaust)

lemma shrunk_refl: "wf_tree T \<Longrightarrow> no_stubs T \<Longrightarrow> tcount T = card (live T) \<Longrightarrow> shrunk T T"
  by (simp add: shrunk_def wf_table_def)

lemma shrunk_trans:
  assumes "shrunk T1 T2" "live T1 \<subseteq> live T"
    "\<And>b. b \<in> live T1 \<Longrightarrow> npfx T1 b = npfx T b \<and> nlock T1 b = nlock T b \<and> ninfo T1 b = ninfo T b"
    "\<And>b. b \<in> live T - live T1 \<Longrightarrow> nlock T b = 0 \<and> ninfo T b = None"
  shows "shrunk T T2"
proof -
  have "nlock T b = 0 \<and> ninfo T b = None" if "b \<in> live T - live T2" for b
    using that assms(1,3,4) by (cases "b \<in> live T1") (auto simp: shrunk_def)
  moreover have "npfx T2 b = npfx T b \<and> nlock T2 b = nlock T b \<and> ninfo T2 b = ninfo T b" if "b \<in> live T2" for b
    using that assms(1) assms(3) [of b] by (auto simp: shrunk_def)
  ultimately show ?thesis using assms(1,2) by (auto simp: shrunk_def)
qed

text \<open>After the unlinking only the parent can have become a node without purpose.\<close>

lemma unlink_stub:
  assumes wf: "wf_tree T" and cnt: "tcount T = card (live T)" and st: "stub_at T a" and n: "nodes T a = Some n"
    and x: "\<not> (l_left n \<noteq> None \<and> l_right n \<noteq> None)"
  shows "\<exists>T1. unlink T a n (if l_left n \<noteq> None then l_left n else l_right n) = Some T1 \<and> wf_tree T1 \<and>
    tcount T1 = card (live T1) \<and> (\<forall>T2. shrunk T1 T2 \<longrightarrow> shrunk T T2) \<and> live T1 = live T - {a} \<and>
    (\<forall>b \<in> live T1. nkey T1 b = nkey T b) \<and>
    (\<forall>b \<in> live T1. nlock T1 b = 0 \<longrightarrow> npar T a \<noteq> Some b \<longrightarrow> (\<forall>i. nchild T1 b i \<noteq> None) \<and> ninfo T1 b = None) \<and>
    (\<forall>b \<in> live T1. nlock T1 b = 0 \<longrightarrow> ninfo T1 b = None)"
proof -
  let ?x = "if l_left n \<noteq> None then l_left n else l_right n"
  obtain T1 where T1: "unlink T a n ?x = Some T1" "wf_tree T1" "live T1 = live T - {a}" "tcount T1 = tcount T - 1"
      "\<And>b. b \<in> live T1 \<Longrightarrow> npfx T1 b = npfx T b \<and> nlock T1 b = nlock T b \<and> ninfo T1 b = ninfo T b"
      "\<And>b. b \<in> live T1 \<Longrightarrow> npar T a \<noteq> Some b \<Longrightarrow> nchild T1 b = nchild T b"
    using unlink_effect [OF wf n] x by blast
  have "tcount T1 = card (live T1)"
    using T1(3,4) cnt wf_radixD(1) [OF wf_tree_radix [OF wf]] proj_node(7) [OF n] by simp
  moreover have "shrunk T T2" if "shrunk T1 T2" for T2
    by (rule shrunk_trans [OF that _ T1(5)]) (use T1(3) st in \<open>auto simp: stub_at_def\<close>)
  moreover have "(\<forall>i. nchild T1 b i \<noteq> None) \<and> ninfo T1 b = None"
    if "b \<in> live T1" "nlock T1 b = 0" "npar T a \<noteq> Some b" for b
    using that T1(5,6) [OF that(1)] T1(3) st by (auto simp: stub_at_def)
  moreover have "ninfo T1 b = None" if "b \<in> live T1" "nlock T1 b = 0" for b
    using that T1(5) [OF that(1)] T1(3) st by (auto simp: stub_at_def)
  ultimately show ?thesis using T1(1-3,5) by (auto simp: nkey_def)
qed

lemma route_node_delete_ok:
  "wf_tree T \<Longrightarrow> tcount T = card (live T) \<Longrightarrow> stub_at T a \<Longrightarrow>
    \<exists>T'. route_node_delete T a = Some T' \<and> shrunk T T'"
proof (induction "length (nkey T a)" arbitrary: T a rule: less_induct)
  case less
  note wf = less.prems(1) and cnt = less.prems(2) and st = less.prems(3)
  note W = wf_tree_radix [OF wf]
  obtain n where n: "nodes T a = Some n" using st by (auto simp: stub_at_def live_def)
  note pn = proj_node [OF n]
  have z: "lock n = 0" "info n = None" using st by (simp_all add: stub_at_def pn)
  show ?case
  proof (cases "l_left n \<noteq> None \<and> l_right n \<noteq> None")
    case True
    then have "\<forall>i. nchild T a i \<noteq> None" using side_all [of "nchild T a"] by (simp add: pn)
    then have "no_stubs T" using st by (auto simp: stub_at_def no_stubs_def)
    then show ?thesis using delete_unfold [OF n z] True shrunk_refl [OF wf _ cnt] by simp
  next
    case False
    obtain T1 where T1: "unlink T a n (if l_left n \<noteq> None then l_left n else l_right n) = Some T1" "wf_tree T1"
        "tcount T1 = card (live T1)" "\<And>T2. shrunk T1 T2 \<Longrightarrow> shrunk T T2" "live T1 = live T - {a}"
        "\<And>b. b \<in> live T1 \<Longrightarrow> nkey T1 b = nkey T b"
        "\<And>b. b \<in> live T1 \<Longrightarrow> nlock T1 b = 0 \<Longrightarrow> npar T a \<noteq> Some b \<Longrightarrow> (\<forall>i. nchild T1 b i \<noteq> None) \<and> ninfo T1 b = None"
        "\<And>b. b \<in> live T1 \<Longrightarrow> nlock T1 b = 0 \<Longrightarrow> ninfo T1 b = None"
      using unlink_stub [OF wf cnt st n False] by blast
    have "\<exists>T'. (case parent n of
           Some q \<Rightarrow> do { m \<leftarrow> nodes T1 q; if lock m = 0 then route_node_delete T1 q else Some T1 }
         | None \<Rightarrow> Some T1) = Some T' \<and> shrunk T1 T'"
    proof (cases "parent n")
      case None
      then have "no_stubs T1" unfolding no_stubs_def using T1(7) by (simp add: pn)
      then show ?thesis using None shrunk_refl [OF T1(2) _ T1(3)] by simp
    next
      case (Some q)
      then have sp: "q \<in> live T" "strict_prefix (nkey T q) (nkey T a)"
        using wf_radixD(5,6) [OF W pn(7), of q] by (auto simp: pn)
      then have ql: "q \<in> live T1" by (auto simp: T1(5))
      then have q: "q \<in> live T1" "length (nkey T1 q) < length (nkey T a)"
        using T1(6) prefix_length_less [OF sp(2)] by simp_all
      then obtain m where m: "nodes T1 q = Some m" "lock m = nlock T1 q" by (auto simp: live_def nlock_def)
      show ?thesis
      proof (cases "nlock T1 q = 0")
        case True
        have "stub_at T1 q" unfolding stub_at_def using q(1) True T1(7,8) Some by (simp add: pn)
        then show ?thesis using less.hyps [OF q(2) T1(2,3)] m True Some by simp
      next
        case False
        then have "no_stubs T1" unfolding no_stubs_def using T1(7) Some by (metis pn(2) option.inject)
        then show ?thesis using m False Some shrunk_refl [OF T1(2) _ T1(3)] by simp
      qed
    qed
    then show ?thesis unfolding delete_unfold [OF n z] if_not_P [OF False] using T1(1,4) by auto
  qed
qed

lemma route_unlock_node_ok:
  assumes wf: "wf_table T" and a: "a \<in> live T" "0 < nlock T a" "1 < nlock T a \<or> ninfo T a = None"
  shows "\<exists>T'. route_unlock_node T a = Some T' \<and> wf_table T' \<and> live T' \<subseteq> live T \<and>
    (\<forall>b \<in> live T'. npfx T' b = npfx T b \<and> ninfo T' b = ninfo T b) \<and>
    (\<forall>b \<in> live T - live T'. ninfo T b = None) \<and> (1 < nlock T a \<longrightarrow> live T' = live T)"
proof -
  obtain n where n: "nodes T a = Some n" using a(1) by (auto simp: live_def)
  define T1 where "T1 = T\<lparr>nodes := (nodes T)(a \<mapsto> n\<lparr>lock := lock n - 1\<rparr>)\<rparr>"
  have p: "live T1 = live T" "npfx T1 = npfx T" "npar T1 = npar T" "nchild T1 = nchild T" "ninfo T1 = ninfo T"
      "nlock T1 = (nlock T)(a := nlock T a - 1)" "ttop T1 = ttop T" "tcount T1 = tcount T"
    using a(1) by (auto simp: T1_def proj_node [OF n] fun_eq_iff split: side.split)
  have t1: "wf_tree T1" using wf by (simp add: wf_table_def wf_tree_def nkey_fun p)
  have c1: "tcount T1 = card (live T1)" using wf by (simp add: wf_table_def p)
  have u: "route_unlock_node T a = (if nlock T a = 1 then route_node_delete T1 a else Some T1)"
    using n a(2) by (simp add: route_unlock_node_def upd_node_def T1_def proj_node [OF n])
  show ?thesis
  proof (cases "nlock T a = 1")
    case True
    have "stub_at T1 a" using wf a True by (auto simp: stub_at_def p wf_table_def no_stubs_def)
    then obtain T' where "route_node_delete T1 a = Some T'" "shrunk T1 T'"
      using route_node_delete_ok [OF t1 c1] by blast
    then show ?thesis using u True by (auto simp: shrunk_def p)
  next
    case False
    then have "no_stubs T1" using wf a(2) by (auto simp: no_stubs_def wf_table_def p)
    then show ?thesis using u False t1 c1 by (simp add: wf_table_def p)
  qed
qed

subsection \<open>Lookup and longest match\<close>

lemma lock_keeps_wf:
  assumes wf: "wf_table T" and a: "a \<in> live T"
  shows "\<exists>T'. route_lock_node T a = Some T' \<and> wf_table T' \<and> live T' = live T \<and> npfx T' = npfx T \<and>
    ninfo T' = ninfo T \<and> nlock T' = (nlock T)(a := nlock T a + 1)"
proof -
  obtain T' where T': "route_lock_node T a = Some T'" "live T' = live T" "npfx T' = npfx T" "npar T' = npar T"
      "nchild T' = nchild T" "nlock T' = (nlock T)(a := nlock T a + 1)" "ninfo T' = ninfo T"
      "ttop T' = ttop T" "tcount T' = tcount T"
    using lock_effect [OF a] by blast
  have "wf_tree T'" using wf by (simp add: wf_table_def wf_tree_def nkey_fun T')
  moreover have "no_stubs T'" using wf by (auto simp: wf_table_def no_stubs_def T' split: if_splits)
  ultimately show ?thesis using wf T' by (simp add: wf_table_def)
qed

lemma walk_live_iff:
  "wf_tree T \<Longrightarrow> (\<exists>j. walk_for T p j = Some a) \<longleftrightarrow> a \<in> live T \<and> prefix (nkey T a) (key p)"
  using rwalk_sound [OF wf_tree_radix] rwalk_complete [OF wf_tree_radix] by blast

lemma route_node_lookup_ok:
  assumes wf: "wf_table T" and p: "wf_prefix p"
  shows "\<exists>r T'. route_node_lookup T p = Some (r, T') \<and> wf_table T' \<and> live T' = live T \<and> npfx T' = npfx T \<and>
    ninfo T' = ninfo T \<and> (\<forall>a. r = Some a \<longleftrightarrow> a \<in> live T \<and> nkey T a = key p \<and> ninfo T a \<noteq> None)"
proof -
  have t: "wf_tree T" using wf by simp
  obtain r where r: "lookup_walk T p (ttop T) = Some r"
      "\<And>a. r = Some a \<longleftrightarrow> (\<exists>j \<ge> 0. walk_for T p j = Some a \<and> nkey T a = key p \<and> ninfo T a \<noteq> None)"
    using lookup_walk_spec [OF t p at_walk_top [OF t]] by blast
  have r': "r = Some a \<longleftrightarrow> a \<in> live T \<and> nkey T a = key p \<and> ninfo T a \<noteq> None" for a
    using r(2) walk_live_iff [OF t, of p a] by auto
  show ?thesis
  proof (cases r)
    case None
    then show ?thesis using r(1) r' wf by (auto simp: route_node_lookup_def)
  next
    case (Some a)
    then obtain T' where "route_lock_node T a = Some T'" "wf_table T'" "live T' = live T" "npfx T' = npfx T" "ninfo T' = ninfo T"
      using lock_keeps_wf [OF wf] r' by blast
    then show ?thesis using r(1) r' Some by (auto simp: route_node_lookup_def)
  qed
qed

lemma route_node_match_ok:
  assumes wf: "wf_table T" and p: "wf_prefix p"
  shows "\<exists>r T'. route_node_match T p = Some (r, T') \<and> wf_table T' \<and> live T' = live T \<and> npfx T' = npfx T \<and>
    ninfo T' = ninfo T \<and>
    (case r of
       None \<Rightarrow> \<forall>b \<in> live T. prefix (nkey T b) (key p) \<longrightarrow> ninfo T b = None
     | Some a \<Rightarrow> a \<in> live T \<and> prefix (nkey T a) (key p) \<and> ninfo T a \<noteq> None \<and>
         (\<forall>b \<in> live T. prefix (nkey T b) (key p) \<longrightarrow> ninfo T b \<noteq> None \<longrightarrow> length (nkey T b) \<le> length (nkey T a)))"
proof -
  have t: "wf_tree T" using wf by simp
  note W = wf_tree_radix [OF t]
  obtain r where r: "match_walk T p (ttop T) None = Some r" "last_info T p 0 None r"
    using match_walk_spec [OF t p at_walk_top [OF t]] by blast
  show ?thesis
  proof (cases r)
    case None
    then have "ninfo T b = None" if "b \<in> live T" "prefix (nkey T b) (key p)" for b
      using r(2) that walk_live_iff [OF t, of p b] by (auto simp: last_info_def)
    then show ?thesis using r(1) None wf by (auto simp: route_node_match_def)
  next
    case (Some a)
    then obtain j where j: "walk_for T p j = Some a" "ninfo T a \<noteq> None"
        "\<forall>j' > j. \<forall>b. walk_for T p j' = Some b \<longrightarrow> ninfo T b = None"
      using r(2) by (auto simp: last_info_def)
    have al: "a \<in> live T" "prefix (nkey T a) (key p)" using rwalk_sound [OF W j(1)] by auto
    have "length (nkey T b) \<le> length (nkey T a)" if b: "b \<in> live T" "prefix (nkey T b) (key p)" "ninfo T b \<noteq> None" for b
    proof -
      obtain i where i: "walk_for T p i = Some b" using walk_live_iff [OF t, of p b] b(1,2) by blast
      then have "i \<le> j" using j(3) b(3) by (metis linorder_not_le)
      then show ?thesis using rwalk_longer [OF W _ i j(1)] i j(1) by (cases "i = j") auto
    qed
    moreover obtain T' where "route_lock_node T a = Some T'" "wf_table T'" "live T' = live T" "npfx T' = npfx T" "ninfo T' = ninfo T"
      using lock_keeps_wf [OF wf al(1)] by blast
    ultimately show ?thesis using r(1) Some al j(2) by (auto simp: route_node_match_def)
  qed
qed

subsection \<open>The table as a map on keys\<close>

text \<open>A client stores a value by assigning the info of a node it holds.\<close>

definition set_info :: "'v route_table \<Rightarrow> addr \<Rightarrow> 'v option \<Rightarrow> 'v route_table option" where
  "set_info T a v = upd_node a (\<lambda>n. n\<lparr>info := v\<rparr>) T"

definition contents :: "'v route_table \<Rightarrow> bool list \<Rightarrow> 'v option" where
  "contents T k = (if \<exists>a \<in> live T. nkey T a = k then ninfo T (THE a. a \<in> live T \<and> nkey T a = k) else None)"

lemma contents_live:
  assumes "wf_tree T" "a \<in> live T"
  shows "contents T (nkey T a) = ninfo T a"
proof -
  have "(THE b. b \<in> live T \<and> nkey T b = nkey T a) = a"
    using assms(2) radix_unique [OF wf_tree_radix [OF assms(1)]] by (intro the_equality) auto
  then show ?thesis using assms(2) by (auto simp: contents_def)
qed

lemma contents_Some:
  assumes "wf_tree T"
  shows "contents T k = Some v \<longleftrightarrow> (\<exists>a \<in> live T. nkey T a = k \<and> ninfo T a = Some v)"
proof (cases "\<exists>a \<in> live T. nkey T a = k")
  case True
  then obtain a where a: "a \<in> live T" "nkey T a = k" by blast
  have "contents T k = ninfo T a" using contents_live [OF assms a(1)] a(2) by simp
  moreover have "b = a" if "b \<in> live T" "nkey T b = k" for b
    using radix_unique [OF wf_tree_radix [OF assms] that(1) a(1)] that(2) a(2) by simp
  ultimately show ?thesis using a by metis
qed (auto simp: contents_def)

lemma map_eqI: "(\<And>k v. f k = Some v \<longleftrightarrow> g k = Some v) \<Longrightarrow> f = g"
  by (rule ext) (metis not_None_eq)

lemma contents_kept:
  assumes "wf_tree T" "wf_tree T'" "live T \<subseteq> live T'"
    "\<And>b. b \<in> live T \<Longrightarrow> npfx T' b = npfx T b \<and> ninfo T' b = ninfo T b"
    "\<And>b. b \<in> live T' - live T \<Longrightarrow> ninfo T' b = None"
  shows "contents T' = contents T"
proof (rule map_eqI)
  fix k v
  have "a \<in> live T" if "a \<in> live T'" "ninfo T' a = Some v" for a
    using that assms(5) [of a] by (cases "a \<in> live T") auto
  then show "contents T' k = Some v \<longleftrightarrow> contents T k = Some v"
    unfolding contents_Some [OF assms(1)] contents_Some [OF assms(2)] nkey_def
    using assms(3,4) by (metis subsetD)
qed

lemma contents_frame: "live T' = live T \<Longrightarrow> npfx T' = npfx T \<Longrightarrow> ninfo T' = ninfo T \<Longrightarrow> contents T' = contents T"
  by (simp add: contents_def nkey_fun fun_eq_iff)

lemma got_contents: "wf_table T \<Longrightarrow> got T p a T' \<Longrightarrow> contents T' = contents T"
  by (rule contents_kept) (auto simp: got_def)

lemma set_info_ok:
  assumes wf: "wf_table T" and a: "a \<in> live T" "0 < nlock T a"
  shows "\<exists>T'. set_info T a v = Some T' \<and> wf_table T' \<and> live T' = live T \<and> npfx T' = npfx T \<and>
    nlock T' = nlock T \<and> contents T' = (contents T)(nkey T a := v)"
proof -
  obtain n where n: "nodes T a = Some n" using a(1) by (auto simp: live_def)
  define T' where "T' = T\<lparr>nodes := (nodes T)(a \<mapsto> n\<lparr>info := v\<rparr>)\<rparr>"
  have p: "live T' = live T" "npfx T' = npfx T" "npar T' = npar T" "nchild T' = nchild T"
      "ninfo T' = (ninfo T)(a := v)" "nlock T' = nlock T" "ttop T' = ttop T" "tcount T' = tcount T"
    using a(1) by (auto simp: T'_def proj_node [OF n] fun_eq_iff split: side.split)
  have k: "nkey T' = nkey T" by (rule nkey_frame [OF p(2)])
  have t: "wf_tree T" "wf_tree T'" using wf by (simp_all add: wf_table_def wf_tree_def k p)
  have "no_stubs T'" unfolding no_stubs_def p using wf a(2) by (auto simp: wf_table_def no_stubs_def)
  then have w: "wf_table T'" using wf t(2) by (simp add: wf_table_def p)
  have "contents T' = (contents T)(nkey T a := v)"
  proof (rule map_eqI)
    fix k w
    have "(\<exists>b \<in> live T. nkey T b = k \<and> ((ninfo T)(a := v)) b = Some w) \<longleftrightarrow>
        (if k = nkey T a then v = Some w else \<exists>b \<in> live T. nkey T b = k \<and> ninfo T b = Some w)"
    proof (cases "k = nkey T a")
      case True
      then show ?thesis using a(1) radix_unique [OF wf_tree_radix [OF t(1)] _ a(1)] by (metis fun_upd_same)
    next
      case False
      then show ?thesis by (metis fun_upd_other)
    qed
    then show "contents T' k = Some w \<longleftrightarrow> ((contents T)(nkey T a := v)) k = Some w"
      using contents_Some [OF t(1), of k w] by (simp add: contents_Some [OF t(2)] k p)
  qed
  then show ?thesis using n w p by (auto simp: set_info_def upd_node_def T'_def)
qed

subsection \<open>The interface of a prefix table\<close>

text \<open>What the routing daemons use the table for: exact lookup and longest match over a map from keys to
  values, and storing a value under a prefix.  \<open>None\<close> as a result is an abort.\<close>

locale prefix_map =
  fixes inv :: "'t \<Rightarrow> bool" and content :: "'t \<Rightarrow> bool list \<Rightarrow> 'v option"
    and exact :: "'t \<Rightarrow> prefix \<Rightarrow> 'v option option"
    and best :: "'t \<Rightarrow> prefix \<Rightarrow> (bool list \<times> 'v) option option"
  assumes exact_law: "inv t \<Longrightarrow> wf_prefix p \<Longrightarrow> exact t p = Some (content t (key p))"
    and best_total: "inv t \<Longrightarrow> wf_prefix p \<Longrightarrow> best t p \<noteq> None"
    and best_none: "inv t \<Longrightarrow> wf_prefix p \<Longrightarrow> best t p = Some None \<Longrightarrow> prefix k (key p) \<Longrightarrow> content t k = None"
    and best_some: "inv t \<Longrightarrow> wf_prefix p \<Longrightarrow> best t p = Some (Some (k, v)) \<Longrightarrow> prefix k (key p) \<and> content t k = Some v"
    and best_longest: "inv t \<Longrightarrow> wf_prefix p \<Longrightarrow> best t p = Some (Some (k, v)) \<Longrightarrow> prefix k' (key p) \<Longrightarrow>
      content t k' \<noteq> None \<Longrightarrow> length k' \<le> length k"
begin

lemma exact_is_best:
  assumes "inv t" "wf_prefix p" "exact t p = Some (Some v)"
  shows "best t p = Some (Some (key p, v))"
proof -
  have c: "content t (key p) = Some v" using exact_law [OF assms(1,2)] assms(3) by simp
  obtain k w where b: "best t p = Some (Some (k, w))"
    using best_total [OF assms(1,2)] best_none [OF assms(1,2), of "key p"] c by fastforce
  then have k: "prefix k (key p)" "content t k = Some w" "length (key p) \<le> length k"
    using best_some [OF assms(1,2) b] best_longest [OF assms(1,2) b, of "key p"] c by auto
  then have "k = key p" by (auto simp: prefix_def)
  then show ?thesis using b k(2) c by simp
qed

lemma default_route:
  assumes "inv t" "wf_prefix p" "content t [] = Some v"
  shows "\<exists>k w. best t p = Some (Some (k, w))"
  using best_total [OF assms(1,2)] best_none [OF assms(1,2), of "[]"] assms(3) by fastforce

end

locale prefix_store = prefix_map inv content exact best
  for inv :: "'t \<Rightarrow> bool" and content :: "'t \<Rightarrow> bool list \<Rightarrow> 'v option" and exact best +
  fixes store :: "'t \<Rightarrow> prefix \<Rightarrow> 'v \<Rightarrow> 't \<Rightarrow> bool"
  assumes store_law: "inv t \<Longrightarrow> wf_prefix p \<Longrightarrow> store t p v t' \<Longrightarrow>
      inv t' \<and> content t' = (content t)(key p \<mapsto> v)"
begin

lemma exact_after_store:
  assumes "inv t" "wf_prefix p" "wf_prefix q" "store t p v t'"
  shows "exact t' q = (if key q = key p then Some (Some v) else exact t q)"
  using store_law [OF assms(1,2,4)] exact_law assms(1,3) by simp

lemma best_after_store:
  assumes "inv t" "wf_prefix p" "wf_prefix q" "store t p v t'" "prefix (key p) (key q)"
    "\<And>k. prefix k (key q) \<Longrightarrow> content t k \<noteq> None \<Longrightarrow> length k \<le> length (key p)"
  shows "best t' q = Some (Some (key p, v))"
proof -
  have t': "inv t'" "content t' = (content t)(key p \<mapsto> v)" using store_law [OF assms(1,2,4)] by auto
  obtain k w where b: "best t' q = Some (Some (k, w))"
    using best_total [OF t'(1) assms(3)] best_none [OF t'(1) assms(3), of "key p"] assms(5) t'(2) by fastforce
  have k: "prefix k (key q)" "content t' k = Some w" "length (key p) \<le> length k"
    using best_some [OF t'(1) assms(3) b] best_longest [OF t'(1) assms(3) b assms(5)] t'(2) by auto
  have "k = key p"
  proof (rule ccontr)
    assume ne: "k \<noteq> key p"
    then have "length k \<le> length (key p)" using assms(6) [OF k(1)] k(2) t'(2) by simp
    then show False using ne k(1,3) assms(5) by (auto simp: prefix_def append_eq_append_conv)
  qed
  then show ?thesis using b k(2) t'(2) by simp
qed

end

text \<open>The routing table as a provider of the interface.\<close>

definition lookup_info :: "'v route_table \<Rightarrow> prefix \<Rightarrow> 'v option option" where
  "lookup_info T p = do {
     (r, T) \<leftarrow> route_node_lookup T p;
     Some (case r of None \<Rightarrow> None | Some a \<Rightarrow> ninfo T a) }"

definition match_info :: "'v route_table \<Rightarrow> prefix \<Rightarrow> (bool list \<times> 'v) option option" where
  "match_info T p = do {
     (r, T) \<leftarrow> route_node_match T p;
     Some (case r of None \<Rightarrow> None | Some a \<Rightarrow> map_option (Pair (nkey T a)) (ninfo T a)) }"

definition store_info :: "'v route_table \<Rightarrow> prefix \<Rightarrow> 'v \<Rightarrow> 'v route_table \<Rightarrow> bool" where
  "store_info T p v T' \<longleftrightarrow> (\<exists>a1 a2 a T1. a1 \<notin> live T \<and> a2 \<notin> live T \<and> a1 \<noteq> a2 \<and>
     route_node_get T p a1 a2 = Some (a, T1) \<and> set_info T1 a (Some v) = Some T')"

lemma lookup_info_contents:
  assumes wf: "wf_table T" and p: "wf_prefix p"
  shows "lookup_info T p = Some (contents T (key p))"
proof -
  obtain r T' where r: "route_node_lookup T p = Some (r, T')" "ninfo T' = ninfo T"
      "\<And>a. r = Some a \<longleftrightarrow> a \<in> live T \<and> nkey T a = key p \<and> ninfo T a \<noteq> None"
    using route_node_lookup_ok [OF assms] by blast
  have t: "wf_tree T" using wf by simp
  show ?thesis
  proof (cases r)
    case None
    then have "contents T (key p) \<noteq> Some v" for v using r(3) contents_Some [OF t, of "key p" v] by auto
    then show ?thesis using r(1) None by (cases "contents T (key p)") (auto simp: lookup_info_def)
  next
    case (Some a)
    then have "contents T (key p) = ninfo T a" using contents_live [OF t, of a] r(3) [of a] by simp
    then show ?thesis using r(1,2) Some by (simp add: lookup_info_def)
  qed
qed

lemma match_info_spec:
  assumes wf: "wf_table T" and p: "wf_prefix p"
  shows "\<exists>x. match_info T p = Some x \<and> (case x of
      None \<Rightarrow> \<forall>k. prefix k (key p) \<longrightarrow> contents T k = None
    | Some (k, v) \<Rightarrow> prefix k (key p) \<and> contents T k = Some v \<and>
        (\<forall>k'. prefix k' (key p) \<longrightarrow> contents T k' \<noteq> None \<longrightarrow> length k' \<le> length k))"
proof -
  obtain r T' where r: "route_node_match T p = Some (r, T')" "npfx T' = npfx T" "ninfo T' = ninfo T"
    "case r of
       None \<Rightarrow> \<forall>b \<in> live T. prefix (nkey T b) (key p) \<longrightarrow> ninfo T b = None
     | Some a \<Rightarrow> a \<in> live T \<and> prefix (nkey T a) (key p) \<and> ninfo T a \<noteq> None \<and>
         (\<forall>b \<in> live T. prefix (nkey T b) (key p) \<longrightarrow> ninfo T b \<noteq> None \<longrightarrow> length (nkey T b) \<le> length (nkey T a))"
    using route_node_match_ok [OF assms] by blast
  have t: "wf_tree T" using wf by simp
  have c: "\<exists>b \<in> live T. nkey T b = k \<and> ninfo T b \<noteq> None" if "contents T k \<noteq> None" for k
    using that contents_Some [OF t, of k] by auto
  show ?thesis
  proof (cases r)
    case None
    then show ?thesis using r(1,4) c by (fastforce simp: match_info_def)
  next
    case (Some a)
    then obtain v where v: "ninfo T a = Some v" using r(4) by auto
    have "contents T (nkey T a) = Some v" using contents_live [OF t, of a] r(4) Some v by simp
    then show ?thesis
      using r(1,3,4) Some v c nkey_frame [OF r(2)] by (fastforce simp: match_info_def)
  qed
qed

lemma store_info_contents:
  assumes wf: "wf_table T" and p: "wf_prefix p" and s: "store_info T p v T'"
  shows "wf_table T' \<and> contents T' = (contents T)(key p \<mapsto> v)"
proof -
  obtain a1 a2 a T1 where g: "a1 \<notin> live T" "a2 \<notin> live T" "a1 \<noteq> a2" "route_node_get T p a1 a2 = Some (a, T1)"
      "set_info T1 a (Some v) = Some T'"
    using s by (auto simp: store_info_def)
  have "got T p a T1" using route_node_get_got [OF wf p g(1-3)] g(4) by auto
  then have T1: "wf_table T1" "a \<in> live T1" "0 < nlock T1 a" "nkey T1 a = key p" "contents T1 = contents T"
    using got_contents [OF wf] by (auto simp: got_def)
  show ?thesis using set_info_ok [OF T1(1-3), of "Some v"] g(5) T1(4,5) by auto
qed

interpretation rt: prefix_store wf_table contents lookup_info match_info store_info
proof
  fix T :: "'a route_table" and p
  assume wf: "wf_table T" and p: "wf_prefix p"
  show "lookup_info T p = Some (contents T (key p))" by (rule lookup_info_contents [OF wf p])
  note m = match_info_spec [OF wf p]
  show "match_info T p \<noteq> None" using m by auto
  show "contents T k = None" if "match_info T p = Some None" "prefix k (key p)" for k
    using m that by auto
  show "prefix k (key p) \<and> contents T k = Some v" if "match_info T p = Some (Some (k, v))" for k v
    using m that by auto
  show "length k' \<le> length k"
    if "match_info T p = Some (Some (k, v))" "prefix k' (key p)" "contents T k' \<noteq> None" for k v k'
    using m that by fastforce
  show "wf_table T' \<and> contents T' = (contents T)(key p \<mapsto> v)" if "store_info T p v T'" for v T'
    by (rule store_info_contents [OF wf p that])
qed

subsection \<open>Iteration order\<close>

text \<open>The order of \<^verbatim>\<open>route_table_prefix_iter_cmp\<close> on keys: lexicographic, a prefix before what extends it.\<close>

abbreviation key_less :: "(bool list \<times> bool list) set" where
  "key_less \<equiv> lexord {(False, True)}"

lemma key_less_asym: "(a, b) \<in> key_less \<Longrightarrow> (b, a) \<notin> key_less"
  by (rule lexord_asymmetric) (auto intro!: asymI)

lemma key_less_prefix: "strict_prefix a b \<Longrightarrow> (a, b) \<in> key_less"
  by (auto simp: strict_prefix_def prefix_def lexord_def neq_Nil_conv)

lemma key_less_bit:
  assumes "take n a = take n b" "n < length a" "n < length b" "\<not> a ! n" "b ! n"
  shows "(a, b) \<in> key_less"
proof -
  have "a = take n a @ False # drop (Suc n) a" using id_take_nth_drop [OF assms(2)] assms(4) by simp
  moreover have "b = take n a @ True # drop (Suc n) b" using id_take_nth_drop [OF assms(3)] assms(1,5) by simp
  ultimately show ?thesis unfolding lexord_def by blast
qed

lemma iter_cmp_apart:
  assumes p: "wf_prefix p1" "wf_prefix p2" and no: "\<not> prefix (key p1) (key p2)" "\<not> prefix (key p2) (key p1)"
  shows "route_table_prefix_iter_cmp p1 p2 = Some (if (key p1, key p2) \<in> key_less then - 1 else 1)"
proof -
  let ?k = "prefixlen (route_common p1 p2 prefix_new)"
  have "length (u prefix_new) = 16" by (simp add: prefix_new_def)
  note r = route_common_bits [OF wf_prefix_length [OF p(1)] wf_prefix_length [OF p(2)] this wf_prefix_len [OF p(2)]]
  have eq: "take ?k (bytes_bits (u p1)) = take ?k (bytes_bits (u p2))" using r by metis
  have k2: "?k < prefixlen p2"
  proof (rule ccontr)
    assume "\<not> ?k < prefixlen p2"
    then have k: "?k = prefixlen p2" using r by simp
    show False
    proof (cases "prefixlen p1 \<le> ?k")
      case True
      then have "key p1 = take (prefixlen p1) (key p2)"
        using arg_cong [OF eq, of "take (prefixlen p1)"] k by (simp add: key_def min_def)
      then show False using no(1) by (metis take_is_prefix)
    next
      case False
      then have "key p2 = take ?k (key p1)" using eq k by (simp add: key_def min_def)
      then show False using no(2) by (metis take_is_prefix)
    qed
  qed
  have k1: "?k < prefixlen p1"
  proof (rule ccontr)
    assume "\<not> ?k < prefixlen p1"
    then have "key p1 = take (prefixlen p1) (key p2)"
      using arg_cong [OF eq, of "take (prefixlen p1)"] k2 by (simp add: key_def min_def)
    then show False using no(1) by (metis take_is_prefix)
  qed
  have d: "key p1 ! ?k = (\<not> key p2 ! ?k)" using r k1 k2 by (simp add: key_def)
  have t: "take ?k (key p1) = take ?k (key p2)" using eq k1 k2 by (simp add: key_def min_def)
  note l = length_key [OF p(1)] length_key [OF p(2)]
  have "(key p1, key p2) \<in> key_less \<longleftrightarrow> \<not> key p1 ! ?k"
    using key_less_bit [OF t] key_less_bit [OF t [symmetric]] d k1 k2 l key_less_asym by metis
  moreover have "\<not> prefix_match p1 p2" "\<not> prefix_match p2 p1" using prefix_match_key p no by auto
  ultimately show ?thesis
    using d k1 k2 by (simp add: route_table_prefix_iter_cmp_def Let_def prefix_bit_key [OF p(1) k1] prefix_bit_key [OF p(2) k2])
qed

lemma iter_cmp_key:
  assumes p: "wf_prefix p1" "wf_prefix p2"
  shows "route_table_prefix_iter_cmp p1 p2 =
    Some (if key p1 = key p2 then 0 else if (key p1, key p2) \<in> key_less then - 1 else 1)"
proof -
  note l = length_key [OF p(1)] length_key [OF p(2)]
  note m = prefix_match_key [OF p] prefix_match_key [OF p(2,1)]
  consider "key p1 = key p2" | "strict_prefix (key p1) (key p2)" | "strict_prefix (key p2) (key p1)"
    | "\<not> prefix (key p1) (key p2)" "\<not> prefix (key p2) (key p1)"
    unfolding strict_prefix_def by metis
  then show ?thesis
  proof cases
    case 1
    then have "prefixlen p1 = prefixlen p2" "prefix_match p1 p2" using l m by auto
    then show ?thesis using 1 by (simp add: route_table_prefix_iter_cmp_def)
  next
    case 2
    then have "prefixlen p1 < prefixlen p2" "prefix_match p1 p2" "key p1 \<noteq> key p2"
      using l m prefix_length_less [OF 2] by auto
    then show ?thesis using key_less_prefix [OF 2] by (simp add: route_table_prefix_iter_cmp_def)
  next
    case 3
    then have "prefixlen p2 < prefixlen p1" "prefix_match p2 p1" "key p1 \<noteq> key p2"
      using l m prefix_length_less [OF 3] by auto
    then show ?thesis
      using key_less_asym [OF key_less_prefix [OF 3]] by (simp add: route_table_prefix_iter_cmp_def)
  next
    case 4
    then show ?thesis using iter_cmp_apart [OF p 4] by auto
  qed
qed

subsection \<open>Reachable tables\<close>

text \<open>The operations of a client that gives a node up only when it has taken its info away or another
  holder is left.  The new nodes' addresses are any that are not live.\<close>

definition may_release :: "'v route_table \<Rightarrow> addr \<Rightarrow> bool" where
  "may_release T a \<longleftrightarrow> a \<in> live T \<and> 0 < nlock T a \<and> (1 < nlock T a \<or> ninfo T a = None)"

inductive table_step :: "'v route_table \<Rightarrow> 'v route_table \<Rightarrow> bool" where
  get: "wf_prefix p \<Longrightarrow> a1 \<notin> live T \<Longrightarrow> a2 \<notin> live T \<Longrightarrow> a1 \<noteq> a2 \<Longrightarrow>
    route_node_get T p a1 a2 = Some (a, T') \<Longrightarrow> table_step T T'"
| look_up: "wf_prefix p \<Longrightarrow> route_node_lookup T p = Some (r, T') \<Longrightarrow> table_step T T'"
| longest: "wf_prefix p \<Longrightarrow> route_node_match T p = Some (r, T') \<Longrightarrow> table_step T T'"
| lock: "route_lock_node T a = Some T' \<Longrightarrow> table_step T T'"
| unlock: "may_release T a \<Longrightarrow> route_unlock_node T a = Some T' \<Longrightarrow> table_step T T'"
| set_info: "a \<in> live T \<Longrightarrow> 0 < nlock T a \<Longrightarrow> set_info T a v = Some T' \<Longrightarrow> table_step T T'"
| first: "route_top T = Some (r, T') \<Longrightarrow> table_step T T'"
| iterate: "may_release T a \<Longrightarrow> route_next_until T a limit = Some (r, T') \<Longrightarrow> table_step T T'"

inductive table_reachable :: "'v route_table \<Rightarrow> bool" where
  init: "table_reachable route_table_init"
| step: "table_reachable T \<Longrightarrow> table_step T T' \<Longrightarrow> table_reachable T'"

lemma lock_live: "route_lock_node T a = Some T' \<Longrightarrow> a \<in> live T"
  by (auto simp: route_lock_node_def upd_node_def bind_eq_Some_conv live_def)

lemma lock_wf: "wf_table T \<Longrightarrow> route_lock_node T a = Some T' \<Longrightarrow> wf_table T'"
  using lock_keeps_wf [of T a] lock_live by fastforce

lemma wf_table_step: "table_step T T' \<Longrightarrow> wf_table T \<Longrightarrow> wf_table T'"
proof (induction rule: table_step.induct)
  case (get p a1 T a2 a T')
  then show ?case using route_node_get_got [of T p a1 a2] by (auto simp: got_def)
next
  case (look_up p T r T')
  then show ?case using route_node_lookup_ok [of T p] by auto
next
  case (longest p T r T')
  then show ?case using route_node_match_ok [of T p] by auto
next
  case (lock T a T')
  then show ?case using lock_wf by blast
next
  case (unlock T a T')
  then show ?case using route_unlock_node_ok [of T a] by (auto simp: may_release_def)
next
  case (set_info a T v T')
  then show ?case using set_info_ok [of T a v] by auto
next
  case (first T r T')
  then show ?case using lock_wf by (auto simp: route_top_def bind_eq_Some_conv split: option.splits)
next
  case (iterate T a limit r T')
  then obtain T1 where T1: "(case r of Some c \<Rightarrow> route_lock_node T c | None \<Rightarrow> Some T) = Some T1"
      "route_unlock_node T1 a = Some T'"
    by (auto simp: route_next_until_def bind_eq_Some_conv)
  have "wf_table T1 \<and> may_release T1 a"
  proof (cases r)
    case None
    then show ?thesis using T1(1) iterate by simp
  next
    case (Some c)
    then have c: "route_lock_node T c = Some T1" using T1(1) by simp
    then have "c \<in> live T" by (rule lock_live)
    then show ?thesis
      using lock_keeps_wf [OF iterate.prems, of c] c iterate.hyps(1) by (auto simp: may_release_def)
  qed
  then show ?case using route_unlock_node_ok [of T1 a] T1(2) by (auto simp: may_release_def)
qed

lemma wf_table_reachable: "table_reachable T \<Longrightarrow> wf_table T"
  by (induction rule: table_reachable.induct) (simp_all add: wf_table_empty wf_table_step)

subsection \<open>Properties\<close>

text \<open>C5.  Invariant of the routing table: after any sequence of client operations the node count is the
  number of live nodes, no two live nodes have the same key, a parent's key is a proper prefix of its
  child's, and a node nobody holds has two children and no info.\<close>

theorem route_table_invariant:
  assumes "table_reachable T"
  shows "tcount T = card (live T) \<and>
    (\<forall>a \<in> live T. \<forall>b \<in> live T. nkey T a = nkey T b \<longrightarrow> a = b) \<and>
    (\<forall>a \<in> live T. \<forall>b. npar T a = Some b \<longrightarrow> b \<in> live T \<and> strict_prefix (nkey T b) (nkey T a)) \<and>
    (\<forall>a \<in> live T. nlock T a = 0 \<longrightarrow> (\<forall>i. nchild T a i \<noteq> None) \<and> ninfo T a = None)"
proof -
  have wf: "wf_table T" by (rule wf_table_reachable [OF assms])
  note W = wf_tree_radix [OF wf_table_tree [OF wf]]
  have "tcount T = card (live T)" "no_stubs T" using wf by (simp_all add: wf_table_def)
  then show ?thesis
    using radix_unique [OF W] wf_radixD(5,6) [OF W] unfolding no_stubs_def by blast
qed

lemma table_example:
  "\<exists>a T. table_reachable T \<and> route_node_get (route_table_init :: nat route_table) net10 1 2 = Some (a, T) \<and> a \<in> live T"
proof -
  obtain a T where g: "route_node_get (route_table_init :: nat route_table) net10 1 2 = Some (a, T)"
      "got route_table_init net10 a T"
    using route_node_get_got [OF wf_table_empty wf_examples(1), of 1 2] by (auto simp: live_def route_table_init_def)
  have "table_step route_table_init T"
    by (rule table_step.get [OF wf_examples(1) _ _ _ g(1)]) (simp_all add: live_def route_table_init_def)
  then show ?thesis using g table_reachable.step [OF table_reachable.init] by (auto simp: got_def)
qed

theorem route_table_invariant_witness:
  "\<exists>T :: nat route_table. table_reachable T \<and> live T \<noteq> {} \<and> tcount T = card (live T)"
  using table_example route_table_invariant by blast

text \<open>\<^verbatim>\<open>route_node_get\<close> on a well-formed table, with fresh addresses for the nodes it may allocate,
  returns a held node with the key of the prefix; the node is new exactly when the table had none with
  that key; all older nodes, prefixes and infos are kept, and the table stays well-formed.\<close>

lemma route_node_get_adds:
  assumes "wf_table T" "wf_prefix p" "a1 \<notin> live T" "a2 \<notin> live T" "a1 \<noteq> a2"
  shows "\<exists>a T'. route_node_get T p a1 a2 = Some (a, T') \<and> wf_table T' \<and> a \<in> live T' \<and> nkey T' a = key p \<and>
    0 < nlock T' a \<and> live T \<subseteq> live T' \<and> (a \<in> live T \<longleftrightarrow> (\<exists>b \<in> live T. nkey T b = key p)) \<and>
    (\<forall>b \<in> live T. npfx T' b = npfx T b \<and> ninfo T' b = ninfo T b) \<and> contents T' = contents T"
proof -
  obtain a T' where g: "route_node_get T p a1 a2 = Some (a, T')" "got T p a T'"
      "if \<exists>b \<in> live T. nkey T b = key p then live T' = live T else a \<notin> live T"
    using route_node_get_got [OF assms] by blast
  then show ?thesis
    using got_contents [OF assms(1) g(2)] by (intro exI [of _ a] exI [of _ T']) (auto simp: got_def split: if_splits)
qed

text \<open>C4.  Insert and lookup: after a value has been stored under a prefix, exact lookup of a prefix with
  the same key finds it, and every other exact lookup gives what it gave before.\<close>

theorem stored_route_is_found:
  assumes "wf_table T" "wf_prefix p" "wf_prefix q" "store_info T p v T'"
  shows "lookup_info T' q = (if key q = key p then Some (Some v) else lookup_info T q)"
  using assms by (rule rt.exact_after_store)

lemma store_example: "\<exists>T'. store_info (route_table_init :: nat route_table) net10 7 T'"
proof -
  obtain a T where g: "route_node_get (route_table_init :: nat route_table) net10 1 2 = Some (a, T)"
      "got route_table_init net10 a T"
    using route_node_get_got [OF wf_table_empty wf_examples(1), of 1 2] by (auto simp: live_def route_table_init_def)
  then obtain T' where "set_info T a (Some 7) = Some T'" using set_info_ok [of T a "Some 7"] by (auto simp: got_def)
  then show ?thesis
    using g(1) unfolding store_info_def
    by (intro exI [of _ T'] exI [of _ 1] exI [of _ 2] exI [of _ a] exI [of _ T])
      (simp add: live_def route_table_init_def)
qed

theorem stored_route_is_found_witness:
  "\<exists>T'. store_info (route_table_init :: nat route_table) net10 7 T' \<and> lookup_info T' net10 = Some (Some 7)"
proof -
  obtain T' where s: "store_info (route_table_init :: nat route_table) net10 7 T'" using store_example by blast
  show ?thesis using s stored_route_is_found [OF wf_table_empty wf_examples(1) wf_examples(1) s] by auto
qed

text \<open>C3.  Longest match: \<^verbatim>\<open>route_node_match\<close> returns a node whose key the prefix extends and that has
  info, no other such node is longer, and it returns none only when there is no such node.\<close>

theorem route_node_match_longest:
  assumes "wf_table T" "wf_prefix p"
  shows "\<exists>r T'. route_node_match T p = Some (r, T') \<and> wf_table T' \<and>
    (case r of
       None \<Rightarrow> \<forall>b \<in> live T. prefix (nkey T b) (key p) \<longrightarrow> ninfo T b = None
     | Some a \<Rightarrow> a \<in> live T \<and> prefix (nkey T a) (key p) \<and> ninfo T a \<noteq> None \<and>
         (\<forall>b \<in> live T. prefix (nkey T b) (key p) \<longrightarrow> ninfo T b \<noteq> None \<longrightarrow> length (nkey T b) \<le> length (nkey T a)))"
  using route_node_match_ok [OF assms] by blast

theorem route_node_match_longest_witness:
  "\<exists>T' :: nat route_table. store_info route_table_init net10 7 T' \<and>
    (\<exists>a T''. route_node_match T' host10 = Some (Some a, T'') \<and> ninfo T' a \<noteq> None)"
proof -
  obtain T' where s: "store_info (route_table_init :: nat route_table) net10 7 T'" using store_example by blast
  then have w: "wf_table T'" "contents T' (key net10) = Some 7"
    using store_info_contents [OF wf_table_empty wf_examples(1) s] by auto
  then obtain b where b: "b \<in> live T'" "nkey T' b = key net10" "ninfo T' b = Some 7"
    using contents_Some [OF wf_table_tree [OF w(1)]] by blast
  have m: "prefix (key net10) (key host10)"
    using prefix_match_key [OF wf_examples] by (simp add: prefix_match_def Let_def)
  obtain r T'' where r: "route_node_match T' host10 = Some (r, T'')" "(case r of
       None \<Rightarrow> \<forall>b \<in> live T'. prefix (nkey T' b) (key host10) \<longrightarrow> ninfo T' b = None
     | Some a \<Rightarrow> a \<in> live T' \<and> prefix (nkey T' a) (key host10) \<and> ninfo T' a \<noteq> None \<and>
         (\<forall>b \<in> live T'. prefix (nkey T' b) (key host10) \<longrightarrow> ninfo T' b \<noteq> None \<longrightarrow> length (nkey T' b) \<le> length (nkey T' a)))"
    using route_node_match_longest [OF w(1) wf_examples(2)] by blast
  then show ?thesis using s b m by (cases r) auto
qed

text \<open>C24.  Giving a node up: \<^verbatim>\<open>route_unlock_node\<close> by a client that may release the node never fails an
  assertion; what it frees has no info, everything else keeps prefix and info, so the stored routes are
  the same, and the table stays well-formed.\<close>

theorem route_unlock_node_releases:
  assumes "wf_table T" "may_release T a"
  shows "\<exists>T'. route_unlock_node T a = Some T' \<and> wf_table T' \<and> live T' \<subseteq> live T \<and>
    (\<forall>b \<in> live T'. npfx T' b = npfx T b \<and> ninfo T' b = ninfo T b) \<and> contents T' = contents T"
proof -
  have m: "a \<in> live T" "0 < nlock T a" "1 < nlock T a \<or> ninfo T a = None"
    using assms(2) by (simp_all add: may_release_def)
  obtain T' where T': "route_unlock_node T a = Some T'" "wf_table T'" "live T' \<subseteq> live T"
      "\<forall>b \<in> live T'. npfx T' b = npfx T b \<and> ninfo T' b = ninfo T b" "\<forall>b \<in> live T - live T'. ninfo T b = None"
    using route_unlock_node_ok [OF assms(1) m] by blast
  have "contents T = contents T'"
    by (rule contents_kept [OF wf_table_tree [OF T'(2)] wf_table_tree [OF assms(1)] T'(3)]) (use T'(4,5) in simp_all)
  then show ?thesis using T'(1-4) by simp
qed

theorem route_unlock_node_releases_witness:
  "\<exists>(T :: nat route_table) a T'. table_reachable T \<and> may_release T a \<and> route_unlock_node T a = Some T' \<and> wf_table T'"
proof -
  obtain a T where T: "route_node_get (route_table_init :: nat route_table) net10 1 2 = Some (a, T)" "table_reachable T"
    using table_example by blast
  obtain b T2 where g: "route_node_get (route_table_init :: nat route_table) net10 1 2 = Some (b, T2)"
      "got route_table_init net10 b T2"
    using route_node_get_got [OF wf_table_empty wf_examples(1), of 1 2] by (auto simp: live_def route_table_init_def)
  have "may_release T a"
    using g T(1) by (auto simp: got_def may_release_def live_def route_table_init_def)
  then show ?thesis using route_unlock_node_releases [OF wf_table_reachable [OF T(2)]] T(2) by blast
qed

text \<open>C25.  \<^verbatim>\<open>route_table_prefix_iter_cmp\<close> on well-formed prefixes fails none of its four assertions and
  compares the keys lexicographically, a prefix before what it contains.\<close>

theorem iter_cmp_is_key_order:
  assumes "wf_prefix p1" "wf_prefix p2"
  shows "route_table_prefix_iter_cmp p1 p2 =
    Some (if key p1 = key p2 then 0 else if (key p1, key p2) \<in> lexord {(False, True)} then - 1 else 1)"
  using assms by (rule iter_cmp_key)

theorem iter_cmp_is_key_order_witness:
  "route_table_prefix_iter_cmp net10 host10 = Some (- 1) \<and> (key net10, key host10) \<in> lexord {(False, True)}"
proof -
  have "prefix_match net10 host10" by (simp add: prefix_match_def Let_def)
  then have c: "route_table_prefix_iter_cmp net10 host10 = Some (- 1)" by (simp add: route_table_prefix_iter_cmp_def)
  then show ?thesis using iter_cmp_is_key_order [OF wf_examples] by (auto split: if_splits)
qed

end
