(* ===== verification/Aspath.thy ===== *)
theory Aspath
  imports Zstream
begin

text \<open>
  AS paths: \<^verbatim>\<open>bgpd/bgp_aspath.c\<close>.

  A path is a chain of segments, each a type octet and an array of 32-bit AS numbers.  The chain is a
  list and the array the list of its first \<open>length\<close> entries; the length is a C \<open>u_short\<close>, so an
  operation that adds to it keeps only as many entries as the 16-bit sum says.  Counters of type
  \<open>int\<close> and \<open>size_t\<close> are numbers.  \<open>None\<close> as the result of an operation is a failed assertion, the use of
  a null or freed pointer, or an access outside an array.  The intern table of paths is in another
  theory.
\<close>

subsection \<open>Data\<close>

abbreviation AS_SET :: u8 where "AS_SET \<equiv> 1"
abbreviation AS_SEQUENCE :: u8 where "AS_SEQUENCE \<equiv> 2"
abbreviation AS_CONFED_SEQUENCE :: u8 where "AS_CONFED_SEQUENCE \<equiv> 3"
abbreviation AS_CONFED_SET :: u8 where "AS_CONFED_SET \<equiv> 4"

abbreviation AS_HEADER_SIZE :: nat where "AS_HEADER_SIZE \<equiv> 2"
abbreviation AS_SEGMENT_MAX :: nat where "AS_SEGMENT_MAX \<equiv> 255"
abbreviation BGP_AS_MAX :: u32 where "BGP_AS_MAX \<equiv> 65535"
abbreviation BGP_AS_TRANS :: u16 where "BGP_AS_TRANS \<equiv> 23456"
abbreviation BGP_PRIVATE_AS_MIN :: u32 where "BGP_PRIVATE_AS_MIN \<equiv> 64512"
abbreviation BGP_PRIVATE_AS_MAX :: u32 where "BGP_PRIVATE_AS_MAX \<equiv> 65535"

record assegment =
  seg_type :: u8
  seg_as :: "u32 list"

record aspath =
  refcnt :: nat
  segments :: "assegment list"
  as_str :: "string option"
  as_str_len :: nat

abbreviation seg_length :: "assegment \<Rightarrow> nat" where
  "seg_length seg \<equiv> length (seg_as seg)"

definition ASSEGMENT_SIZE :: "nat \<Rightarrow> bool \<Rightarrow> nat" where
  "ASSEGMENT_SIZE n use32bit = AS_HEADER_SIZE + n * (if use32bit then 4 else 2)"

definition ASSEGMENT_TYPES_PACKABLE :: "assegment \<Rightarrow> assegment \<Rightarrow> bool" where
  "ASSEGMENT_TYPES_PACKABLE x y \<longleftrightarrow> seg_type x = seg_type y \<and> seg_type x = AS_SEQUENCE"

definition ASSEGMENTS_PACKABLE :: "assegment \<Rightarrow> assegment \<Rightarrow> bool" where
  "ASSEGMENTS_PACKABLE x y \<longleftrightarrow> ASSEGMENT_TYPES_PACKABLE x y \<and> seg_length x + seg_length y \<le> AS_SEGMENT_MAX"

text \<open>An access \<open>seg->as[i]\<close>.\<close>

definition as_at :: "assegment \<Rightarrow> nat \<Rightarrow> u32 option" where
  "as_at seg i = (if i < seg_length seg then Some (seg_as seg ! i) else None)"

subsection \<open>Segments\<close>

text \<open>A new segment with the AS numbers its caller stores in it.\<close>

definition assegment_new :: "u8 \<Rightarrow> u32 list \<Rightarrow> assegment" where
  "assegment_new ty as = \<lparr>seg_type = ty, seg_as = as\<rparr>"

definition assegment_dup :: "assegment \<Rightarrow> assegment" where
  "assegment_dup seg = assegment_new (seg_type seg) (seg_as seg)"

definition assegment_dup_all :: "assegment list \<Rightarrow> assegment list" where
  "assegment_dup_all segs = map assegment_dup segs"

definition assegment_prepend_asns :: "assegment \<Rightarrow> u32 \<Rightarrow> nat \<Rightarrow> assegment" where
  "assegment_prepend_asns seg asnum num =
     (if num = 0 then seg
      else if num \<ge> AS_SEGMENT_MAX then seg
      else seg\<lparr>seg_as := take ((seg_length seg + num) mod 2 ^ 16) (replicate num asnum @ seg_as seg)\<rparr>)"

definition assegment_append_asns :: "assegment \<Rightarrow> u32 list \<Rightarrow> assegment" where
  "assegment_append_asns seg asnos =
     seg\<lparr>seg_as := take ((seg_length seg + length asnos) mod 2 ^ 16) (seg_as seg @ asnos)\<rparr>"

text \<open>The loop that weeds out duplicates of the sorted array, in place.\<close>

function weed_dupes :: "u32 list \<Rightarrow> nat \<Rightarrow> nat \<Rightarrow> nat \<times> u32 list" where
  "weed_dupes as t i =
     (if i < length as then
        if as ! t = as ! i then weed_dupes as t (i + 1)
        else weed_dupes (if t + 1 < i then as[t + 1 := as ! i] else as) (t + 1) (i + 1)
      else (t, as))"
  by pat_completeness auto
termination by (relation "measure (\<lambda>(as, _, i). length as - i)") auto

declare weed_dupes.simps [simp del]

definition sort_set :: "assegment \<Rightarrow> assegment" where
  "sort_set seg =
     (if seg_type seg = AS_SET \<or> seg_type seg = AS_CONFED_SET then
        let as = sort (seg_as seg); (t, as') = weed_dupes as 0 1
        in seg\<lparr>seg_as := if as = [] then as' else take (t + 1) as'\<rparr>
      else seg)"

fun pack_following :: "assegment \<Rightarrow> assegment list \<Rightarrow> assegment \<times> assegment list" where
  "pack_following pin [] = (pin, [])"
| "pack_following pin (seg # segs) =
     (if ASSEGMENT_TYPES_PACKABLE pin seg then pack_following (assegment_append_asns pin (seg_as seg)) segs
      else (pin, seg # segs))"

lemma pack_following_shorter: "length (snd (pack_following pin segs)) \<le> length segs"
  by (induction pin segs rule: pack_following.induct) auto

function assegment_normalise :: "assegment list \<Rightarrow> assegment list" where
  "assegment_normalise [] = []"
| "assegment_normalise (seg # segs) =
     (let p = pack_following (sort_set seg) segs in fst p # assegment_normalise (snd p))"
  by pat_completeness auto
termination by (relation "measure length") (auto simp: less_Suc_eq_le pack_following_shorter)

subsection \<open>Counting\<close>

fun assegment_count_asns :: "assegment list \<Rightarrow> int \<Rightarrow> int" where
  "assegment_count_asns [] from = 0"
| "assegment_count_asns (seg # segs) from =
     (if from = 0 then int (seg_length seg) else int (seg_length seg) - from) + assegment_count_asns segs 0"

definition aspath_count_confeds :: "aspath \<Rightarrow> nat" where
  "aspath_count_confeds as = sum_list (map (\<lambda>seg.
     if seg_type seg = AS_CONFED_SEQUENCE then seg_length seg
     else if seg_type seg = AS_CONFED_SET then 1 else 0) (segments as))"

definition aspath_count_hops :: "aspath \<Rightarrow> nat" where
  "aspath_count_hops as = sum_list (map (\<lambda>seg.
     if seg_type seg = AS_SEQUENCE then seg_length seg
     else if seg_type seg = AS_SET then 1 else 0) (segments as))"

definition aspath_size :: "aspath \<Rightarrow> nat" where
  "aspath_size as = sum_list (map (\<lambda>seg. ASSEGMENT_SIZE (seg_length seg) True) (segments as))"

definition aspath_highest :: "aspath \<Rightarrow> u32" where
  "aspath_highest as = fold (\<lambda>seg h. fold (\<lambda>a h.
     if a > h \<and> (a < BGP_PRIVATE_AS_MIN \<or> a > BGP_PRIVATE_AS_MAX) then a else h) (seg_as seg) h) (segments as) 0"

definition aspath_leftmost :: "aspath \<Rightarrow> u32" where
  "aspath_leftmost as = (case segments as of
     seg # _ \<Rightarrow> if seg_length seg \<noteq> 0 \<and> seg_type seg = AS_SEQUENCE then seg_as seg ! 0 else 0
   | [] \<Rightarrow> 0)"

definition aspath_has_as4 :: "aspath \<Rightarrow> bool" where
  "aspath_has_as4 as = list_ex (\<lambda>seg. list_ex (\<lambda>a. a > BGP_AS_MAX) (seg_as seg)) (segments as)"

subsection \<open>The string of a path\<close>

definition aspath_delimiter_char :: "u8 \<Rightarrow> nat \<Rightarrow> char" where
  "aspath_delimiter_char ty which =
     (if ty = AS_SET \<and> which = 0 then CHR ''{''
      else if ty = AS_SET \<and> which = 1 then CHR ''}''
      else if ty = AS_CONFED_SET \<and> which = 0 then CHR ''[''
      else if ty = AS_CONFED_SET \<and> which = 1 then CHR '']''
      else if ty = AS_CONFED_SEQUENCE \<and> which = 0 then CHR ''(''
      else if ty = AS_CONFED_SEQUENCE \<and> which = 1 then CHR '')''
      else CHR '' '')"

text \<open>The output buffer: what is in it, the running \<open>len\<close>, and its size.  \<open>snprintf\<close> stores at most the
  room minus one characters and returns the untruncated length; a negative room would be converted to
  a huge \<open>size_t\<close>.\<close>

type_synonym sbuf = "string \<times> nat \<times> nat"

fun snprintf_at :: "sbuf \<Rightarrow> string \<Rightarrow> sbuf option" where
  "snprintf_at (buf, len, sz) s = do {
     zassert (len \<le> sz);
     Some (take len buf @ take (sz - len - 1) s, len + length s, sz) }"

definition seperator :: "u8 \<Rightarrow> char option" where
  "seperator ty =
     (if ty = AS_SET \<or> ty = AS_CONFED_SET then Some CHR '',''
      else if ty = AS_SEQUENCE \<or> ty = AS_CONFED_SEQUENCE then Some CHR '' ''
      else None)"

definition SEGMENT_STR_LEN :: "assegment \<Rightarrow> nat" where
  "SEGMENT_STR_LEN seg = seg_length seg * (10 + 1) + 2 + 1 + 1"

fun put_asns :: "char \<Rightarrow> u32 list \<Rightarrow> sbuf \<Rightarrow> sbuf option" where
  "put_asns sep [] b = Some b"
| "put_asns sep [a] b = snprintf_at b (dec_str (unat a))"
| "put_asns sep (a # as) b = do {
     b \<leftarrow> snprintf_at b (dec_str (unat a));
     b \<leftarrow> snprintf_at b [sep];
     put_asns sep as b }"

text \<open>\<open>Some None\<close> is the early return for a segment of unknown type.\<close>

fun put_segments :: "assegment list \<Rightarrow> sbuf \<Rightarrow> sbuf option option" where
  "put_segments [] b = Some (Some b)"
| "put_segments (seg # segs) (buf, len, sz) = (case seperator (seg_type seg) of
     None \<Rightarrow> Some None
   | Some sep \<Rightarrow>
       let sz = (if len + SEGMENT_STR_LEN seg > sz then len + SEGMENT_STR_LEN seg else sz) in do {
         b \<leftarrow> (if seg_type seg \<noteq> AS_SEQUENCE then snprintf_at (buf, len, sz) [aspath_delimiter_char (seg_type seg) 0]
               else Some (buf, len, sz));
         b \<leftarrow> put_asns sep (seg_as seg) b;
         b \<leftarrow> (if seg_type seg \<noteq> AS_SEQUENCE then snprintf_at b [aspath_delimiter_char (seg_type seg) 1] else Some b);
         b \<leftarrow> (if segs \<noteq> [] then snprintf_at b '' '' else Some b);
         put_segments segs b })"

definition aspath_make_str_count :: "aspath \<Rightarrow> aspath option" where
  "aspath_make_str_count as =
     (if segments as = [] then Some (as\<lparr>as_str := Some '''', as_str_len := 0\<rparr>)
      else do {
        r \<leftarrow> put_segments (segments as)
          ('''', 0, max (nat (assegment_count_asns (segments as) 0) * (10 + 1) + 2 + 1) 32);
        case r of
          None \<Rightarrow> Some (as\<lparr>as_str := None, as_str_len := 0\<rparr>)
        | Some (buf, len, sz) \<Rightarrow> do {
            zassert (len < sz);
            Some (as\<lparr>as_str := Some (take len buf), as_str_len := len mod 2 ^ 16\<rparr>) } })"

definition aspath_str_update :: "aspath \<Rightarrow> aspath option" where
  "aspath_str_update as = aspath_make_str_count (as\<lparr>as_str := None\<rparr>)"

definition aspath_new :: aspath where
  "aspath_new = \<lparr>refcnt = 0, segments = [], as_str = None, as_str_len = 0\<rparr>"

text \<open>The copy of the string is \<open>str_len + 1\<close> bytes, a 16-bit sum.\<close>

definition aspath_dup :: "aspath \<Rightarrow> aspath" where
  "aspath_dup as =
     (let buflen = (as_str_len as + 1) mod 2 ^ 16;
          new = aspath_new\<lparr>segments := assegment_dup_all (segments as)\<rparr>
      in case as_str as of
           None \<Rightarrow> new
         | Some s \<Rightarrow> new\<lparr>as_str := Some (if as_str_len as > 0 then take buflen s else ''''),
                         as_str_len := as_str_len as\<rparr>)"

subsection \<open>The wire format\<close>

definition get_asns :: "bool \<Rightarrow> nat \<Rightarrow> stream \<Rightarrow> (u32 list \<times> stream) option" where
  "get_asns use32bit n s = get_n (if use32bit then stream_getl
     else (\<lambda>s. do { (w, s) \<leftarrow> stream_getw s; Some (ucast w, s) })) n s"

text \<open>The segment loop of \<^verbatim>\<open>assegments_parse\<close>.  The outer option is the abort of the stream functions, the
  inner one the result \<open>-1\<close>.\<close>

function parse_loop ::
  "stream \<Rightarrow> nat \<Rightarrow> bool \<Rightarrow> nat \<Rightarrow> assegment list \<Rightarrow> (assegment list option \<times> stream) option" where
  "parse_loop s len use32bit bytes segs =
     (if bytes < len then
        if len - bytes \<le> AS_HEADER_SIZE then Some (None, s)
        else do {
          (ty, s) \<leftarrow> stream_getc s;
          (n, s) \<leftarrow> stream_getc s;
          if bytes + ASSEGMENT_SIZE (unat n) use32bit > len \<or> n = 0 then Some (None, s)
          else if ty \<notin> {AS_SEQUENCE, AS_SET, AS_CONFED_SEQUENCE, AS_CONFED_SET} then Some (None, s)
          else do {
            (as, s) \<leftarrow> get_asns use32bit (unat n) s;
            parse_loop s len use32bit (bytes + ASSEGMENT_SIZE (unat n) use32bit) (segs @ [assegment_new ty as]) } }
      else Some (Some segs, s))"
  by pat_completeness auto
termination by (relation "measure (\<lambda>(_, len, _, bytes, _). len - bytes)") (auto simp: ASSEGMENT_SIZE_def)

declare parse_loop.simps [simp del]

definition assegments_parse :: "stream \<Rightarrow> nat \<Rightarrow> bool \<Rightarrow> (assegment list option \<times> stream) option" where
  "assegments_parse s len use32bit =
     (if len = 0 then Some (Some [], s)
      else if STREAM_READABLE s < len \<or> STREAM_READABLE s < AS_HEADER_SIZE \<or> len mod 2 \<noteq> 0 then Some (None, s)
      else do {
        (r, s) \<leftarrow> parse_loop s len use32bit 0 [];
        Some (map_option assegment_normalise r, s) })"

definition put_asn :: "bool \<Rightarrow> stream \<Rightarrow> u32 \<Rightarrow> (nat \<times> stream) option" where
  "put_asn use32bit s a =
     (if use32bit then stream_putl s a
      else if a \<le> BGP_AS_MAX then stream_putw s (ucast a)
      else stream_putw s BGP_AS_TRANS)"

text \<open>\<open>as\<close> is the part of the array that the caller names by its start and \<open>num\<close>.\<close>

definition assegment_data_put :: "stream \<Rightarrow> u32 list \<Rightarrow> bool \<Rightarrow> stream option" where
  "assegment_data_put s as use32bit = do {
     zassert (length as \<le> AS_SEGMENT_MAX);
     put_all (put_asn use32bit) s as }"

definition assegment_header_put :: "stream \<Rightarrow> u8 \<Rightarrow> nat \<Rightarrow> (nat \<times> stream) option" where
  "assegment_header_put s ty len = do {
     zassert (len \<le> AS_SEGMENT_MAX);
     (_, s) \<leftarrow> stream_putc s ty;
     lenp \<leftarrow> stream_get_endp s;
     (_, s) \<leftarrow> stream_putc s (of_nat len);
     Some (lenp, s) }"

text \<open>The three loops of \<^verbatim>\<open>aspath_put\<close>: an overlength segment is split, following sequences are packed
  into the segment just written, and the segments are written while there is room.\<close>

function put_split :: "stream \<Rightarrow> assegment \<Rightarrow> bool \<Rightarrow> nat \<Rightarrow> nat \<Rightarrow> (stream \<times> nat \<times> nat) option" where
  "put_split s seg use32bit wr bytes =
     (if seg_length seg - wr > AS_SEGMENT_MAX then do {
        (_, s) \<leftarrow> assegment_header_put s (seg_type seg) AS_SEGMENT_MAX;
        s \<leftarrow> assegment_data_put s (take AS_SEGMENT_MAX (seg_as seg)) use32bit;
        put_split s seg use32bit (wr + AS_SEGMENT_MAX) (bytes + ASSEGMENT_SIZE (wr + AS_SEGMENT_MAX) use32bit) }
      else Some (s, wr, bytes))"
  by pat_completeness auto
termination by (relation "measure (\<lambda>(_, seg, _, wr, _). seg_length seg - wr)") auto

declare put_split.simps [simp del]

fun put_packed ::
  "stream \<Rightarrow> assegment \<Rightarrow> bool \<Rightarrow> nat \<Rightarrow> nat \<Rightarrow> assegment list \<Rightarrow> nat \<Rightarrow> (stream \<times> assegment list \<times> nat) option" where
  "put_packed s seg use32bit lenp wr [] packed = Some (s, [], packed)"
| "put_packed s seg use32bit lenp wr (nxt # rest) packed =
     (if ASSEGMENTS_PACKABLE seg nxt then do {
        s \<leftarrow> assegment_data_put s (seg_as nxt) use32bit;
        (_, s) \<leftarrow> stream_putc_at s lenp (of_nat (seg_length seg - wr + seg_length nxt));
        put_packed s seg use32bit lenp wr rest (packed + seg_length nxt) }
      else Some (s, nxt # rest, packed))"

lemma put_packed_shorter: "put_packed s seg u32 lenp wr segs p = Some (s', segs', p') \<Longrightarrow> length segs' \<le> length segs"
  by (induction s seg u32 lenp wr segs p rule: put_packed.induct)
    (auto simp: bind_eq_Some_conv split: if_splits, fastforce)

function put_path :: "stream \<Rightarrow> bool \<Rightarrow> assegment list \<Rightarrow> nat \<Rightarrow> (nat \<times> stream) option" where
  "put_path s use32bit [] bytes = Some (bytes, s)"
| "put_path s use32bit (seg # segs) bytes =
     (if ASSEGMENT_SIZE (seg_length seg) use32bit \<le> STREAM_WRITEABLE s then do {
        (s, wr, bytes) \<leftarrow> put_split s seg use32bit 0 bytes;
        (lenp, s) \<leftarrow> assegment_header_put s (seg_type seg) (seg_length seg - wr);
        s \<leftarrow> assegment_data_put s (drop wr (seg_as seg)) use32bit;
        (s, segs, packed) \<leftarrow> put_packed s seg use32bit lenp wr segs 0;
        put_path s use32bit segs (bytes + ASSEGMENT_SIZE (seg_length seg - wr + packed) use32bit) }
      else Some (bytes, s))"
  by pat_completeness auto
termination by (relation "measure (\<lambda>(_, _, segs, _). length segs)") (auto simp: less_Suc_eq_le put_packed_shorter)

definition aspath_put :: "stream \<Rightarrow> aspath \<Rightarrow> bool \<Rightarrow> (nat \<times> stream) option" where
  "aspath_put s as use32bit =
     (case segments as of
        [] \<Rightarrow> Some (0, s)
      | seg # _ \<Rightarrow> if seg_length seg = 0 then Some (0, s) else put_path s use32bit (segments as) 0)"

text \<open>\<open>snmp\<close> is the static stream of the wrapper, \<open>fill\<close> the content of a new one.\<close>

definition aspath_snmp_pathseg ::
  "(nat \<Rightarrow> u8) \<Rightarrow> stream option \<Rightarrow> aspath option \<Rightarrow> (u8 list option \<times> nat \<times> stream) option" where
  "aspath_snmp_pathseg fill snmp as = do {
     st \<leftarrow> (case snmp of None \<Rightarrow> stream_new fill 1024 | Some st \<Rightarrow> stream_reset st);
     case as of
       None \<Rightarrow> Some (None, 0, st)
     | Some as \<Rightarrow> do {
         (_, st) \<leftarrow> aspath_put st as False;
         varlen \<leftarrow> stream_get_endp st;
         p \<leftarrow> stream_pnt st;
         Some (Some p, varlen, st) } }"

subsection \<open>Aggregation\<close>

text \<open>The AS set under construction is the last segment of the path; its 16-bit length would wrap to zero
  and the store \<open>as[length - 1]\<close> go out of bounds.\<close>

definition aspath_aggregate_as_set_add :: "assegment option \<Rightarrow> u32 \<Rightarrow> assegment option option" where
  "aspath_aggregate_as_set_add asset as = (case asset of
     None \<Rightarrow> Some (Some (assegment_new AS_SET [as]))
   | Some seg \<Rightarrow>
       if as \<in> set (seg_as seg) then Some (Some seg)
       else do {
         zassert (seg_length seg + 1 < 2 ^ 16);
         Some (Some (seg\<lparr>seg_as := seg_as seg @ [as]\<rparr>)) })"

fun as_set_add_all :: "assegment option \<Rightarrow> u32 list \<Rightarrow> assegment option option" where
  "as_set_add_all asset [] = Some asset"
| "as_set_add_all asset (a # as) = do {
     asset \<leftarrow> aspath_aggregate_as_set_add asset a;
     as_set_add_all asset as }"

text \<open>The loops over the remaining segments: the first one from \<open>from\<close> on, the others from 0.\<close>

fun as_set_add_segs :: "assegment option \<Rightarrow> nat \<Rightarrow> assegment list \<Rightarrow> assegment option option" where
  "as_set_add_segs asset from [] = Some asset"
| "as_set_add_segs asset from (seg # segs) = do {
     asset \<leftarrow> as_set_add_all asset (drop from (seg_as seg));
     as_set_add_segs asset 0 segs }"

fun match_len :: "u32 list \<Rightarrow> u32 list \<Rightarrow> nat" where
  "match_len (a # as) (b # bs) = (if a = b then Suc (match_len as bs) else 0)"
| "match_len as bs = 0"

text \<open>The search of the common leading segments: the segments built, the last value of \<open>match\<close> and the
  remaining segments.\<close>

fun lead_segs ::
  "assegment list \<Rightarrow> assegment list \<Rightarrow> nat \<Rightarrow> assegment list \<Rightarrow> assegment list \<times> nat \<times> assegment list \<times> assegment list" where
  "lead_segs (seg1 # segs1) (seg2 # segs2) match acc =
     (if seg_type seg1 \<noteq> seg_type seg2 then (acc, match, seg1 # segs1, seg2 # segs2)
      else let minlen = min (seg_length seg1) (seg_length seg2);
               match = match_len (seg_as seg1) (seg_as seg2);
               acc = (if match \<noteq> 0
                      then acc @ [assegment_append_asns (assegment_new (seg_type seg1) []) (take match (seg_as seg1))]
                      else acc)
           in if match \<noteq> minlen \<or> match \<noteq> seg_length seg1 \<or> seg_length seg1 \<noteq> seg_length seg2
              then (acc, match, seg1 # segs1, seg2 # segs2)
              else lead_segs segs1 segs2 match acc)"
| "lead_segs segs1 segs2 match acc = (acc, match, segs1, segs2)"

definition aspath_aggregate :: "aspath \<Rightarrow> aspath \<Rightarrow> aspath option" where
  "aspath_aggregate as1 as2 =
     (let (acc, match, segs1, segs2) = lead_segs (segments as1) (segments as2) 0 [] in do {
        asset \<leftarrow> as_set_add_segs None match segs1;
        asset \<leftarrow> as_set_add_segs asset match segs2;
        aspath_str_update (aspath_new\<lparr>segments :=
          assegment_normalise (acc @ (case asset of None \<Rightarrow> [] | Some seg \<Rightarrow> [seg]))\<rparr>) })"

subsection \<open>Checks\<close>

text \<open>A null path pointer is \<open>None\<close>.\<close>

definition aspath_firstas_check :: "aspath option \<Rightarrow> u32 \<Rightarrow> bool option" where
  "aspath_firstas_check as asno = (case as of
     None \<Rightarrow> Some False
   | Some as \<Rightarrow> (case segments as of
       [] \<Rightarrow> Some False
     | seg # _ \<Rightarrow> if seg_type seg = AS_SEQUENCE then do { a \<leftarrow> as_at seg 0; Some (a = asno) } else Some False))"

definition aspath_loop_check :: "aspath option \<Rightarrow> u32 \<Rightarrow> nat" where
  "aspath_loop_check as asno = (case as of
     None \<Rightarrow> 0
   | Some as \<Rightarrow> fold (\<lambda>seg count. fold (\<lambda>a count. if a = asno then count + 1 else count) (seg_as seg) count)
       (segments as) 0)"

definition aspath_private_as_check :: "aspath option \<Rightarrow> bool" where
  "aspath_private_as_check as = (case as of
     None \<Rightarrow> False
   | Some as \<Rightarrow> segments as \<noteq> [] \<and>
       \<not> list_ex (\<lambda>seg. list_ex (\<lambda>a. a < BGP_PRIVATE_AS_MIN \<or> a > BGP_PRIVATE_AS_MAX) (seg_as seg)) (segments as))"

definition aspath_confed_check :: "aspath option \<Rightarrow> bool" where
  "aspath_confed_check as = (case as of
     None \<Rightarrow> False
   | Some as \<Rightarrow> list_ex (\<lambda>seg. seg_type seg = AS_CONFED_SET \<or> seg_type seg = AS_CONFED_SEQUENCE) (segments as))"

definition aspath_left_confed_check :: "aspath option \<Rightarrow> bool" where
  "aspath_left_confed_check as = (case as of
     None \<Rightarrow> False
   | Some as \<Rightarrow> (case segments as of
       [] \<Rightarrow> False
     | seg # _ \<Rightarrow> seg_type seg = AS_CONFED_SEQUENCE \<or> seg_type seg = AS_CONFED_SET))"

subsection \<open>Building paths\<close>

text \<open>\<open>last->next\<close> is written through a null pointer when the first path is empty.\<close>

definition aspath_merge :: "aspath option \<Rightarrow> aspath option \<Rightarrow> aspath option option" where
  "aspath_merge as1 as2 = (case (as1, as2) of
     (Some as1, Some as2) \<Rightarrow> do {
       zassert (segments as1 \<noteq> []);
       as2 \<leftarrow> aspath_str_update (as2\<lparr>segments := assegment_dup_all (segments as1) @ segments as2\<rparr>);
       Some (Some as2) }
   | _ \<Rightarrow> Some None)"

text \<open>When the last segment of the first path is a sequence and the second path starts with a confederation
  sequence, \<^verbatim>\<open>aspath_delete_confed_seq\<close> frees \<open>seg2\<close>, whose type is read next.\<close>

definition aspath_prepend :: "aspath option \<Rightarrow> aspath option \<Rightarrow> aspath option option" where
  "aspath_prepend as1 as2 = (case (as1, as2) of
     (Some as1, Some as2) \<Rightarrow>
       (case segments as2 of
          [] \<Rightarrow> do {
            as2 \<leftarrow> aspath_str_update (as2\<lparr>segments := assegment_dup_all (segments as1)\<rparr>);
            Some (Some as2) }
        | seg2 # segs2 \<Rightarrow>
            if segments as1 = [] then Some (Some as2)
            else let seg1 = last (segments as1) in
              if seg_type seg1 = AS_SEQUENCE \<and> seg_type seg2 = AS_CONFED_SEQUENCE then None
              else if seg_type seg1 \<noteq> seg_type seg2 then aspath_merge (Some as1) (Some as2)
              else if seg_type seg1 = AS_SEQUENCE then
                let new = assegment_dup_all (segments as1) in do {
                  as2 \<leftarrow> aspath_str_update (as2\<lparr>segments :=
                    butlast new @ assegment_append_asns (last new) (seg_as seg2) # segs2\<rparr>);
                  Some (Some as2) }
              else aspath_merge (Some as1) (Some as2))
   | _ \<Rightarrow> Some None)"

definition excluded :: "assegment list \<Rightarrow> u32 \<Rightarrow> bool" where
  "excluded excl a = list_ex (\<lambda>seg. list_ex (\<lambda>b. a = b) (seg_as seg)) excl"

fun filter_segs :: "assegment list \<Rightarrow> assegment list \<Rightarrow> assegment list" where
  "filter_segs excl [] = []"
| "filter_segs excl (seg # segs) =
     (let newas = filter (\<lambda>a. \<not> excluded excl a) (seg_as seg) in
      if length newas = 0 then filter_segs excl segs
      else assegment_new (seg_type seg) newas # filter_segs excl segs)"

definition aspath_filter_exclude :: "aspath \<Rightarrow> aspath \<Rightarrow> aspath option" where
  "aspath_filter_exclude source exclude_list =
     aspath_str_update (aspath_new\<lparr>segments := filter_segs (segments exclude_list) (segments source)\<rparr>)"

text \<open>A new segment has a 16-bit length, and \<open>num\<close> entries are stored in it.\<close>

definition aspath_add_asns :: "aspath \<Rightarrow> u32 \<Rightarrow> u8 \<Rightarrow> nat \<Rightarrow> aspath option" where
  "aspath_add_asns as asno ty num = do {
     segs \<leftarrow> (case segments as of
        [] \<Rightarrow> do {
          zassert (num < 2 ^ 16);
          Some [assegment_new ty (replicate num asno)] }
      | seg # segs \<Rightarrow>
          if seg_type seg = ty then Some (assegment_prepend_asns seg asno num # segs)
          else do {
            zassert (num < 2 ^ 16);
            Some (assegment_new ty (replicate num asno) # (if seg_length seg = 0 then segs else seg # segs)) });
     aspath_str_update (as\<lparr>segments := segs\<rparr>) }"

definition aspath_add_seq_n :: "aspath \<Rightarrow> u32 \<Rightarrow> nat \<Rightarrow> aspath option" where
  "aspath_add_seq_n as asno num = aspath_add_asns as asno AS_SEQUENCE num"

definition aspath_add_seq :: "aspath \<Rightarrow> u32 \<Rightarrow> aspath option" where
  "aspath_add_seq as asno = aspath_add_asns as asno AS_SEQUENCE 1"

definition aspath_add_confed_seq :: "aspath \<Rightarrow> u32 \<Rightarrow> aspath option" where
  "aspath_add_confed_seq as asno = aspath_add_asns as asno AS_CONFED_SEQUENCE 1"

abbreviation is_confed :: "assegment \<Rightarrow> bool" where
  "is_confed seg \<equiv> seg_type seg = AS_CONFED_SEQUENCE \<or> seg_type seg = AS_CONFED_SET"

definition aspath_cmp_left :: "aspath option \<Rightarrow> aspath option \<Rightarrow> bool option" where
  "aspath_cmp_left aspath1 aspath2 = (case (aspath1, aspath2) of
     (Some as1, Some as2) \<Rightarrow>
       (case (dropWhile is_confed (segments as1), dropWhile is_confed (segments as2)) of
          (seg1 # _, seg2 # _) \<Rightarrow>
            if seg_type seg1 = AS_SEQUENCE \<and> seg_type seg2 = AS_SEQUENCE then do {
              a \<leftarrow> as_at seg1 0;
              b \<leftarrow> as_at seg2 0;
              Some (a = b) }
            else Some False
        | _ \<Rightarrow> Some False)
   | _ \<Rightarrow> Some False)"

definition aspath_cmp_left_confed :: "aspath option \<Rightarrow> aspath option \<Rightarrow> bool option" where
  "aspath_cmp_left_confed aspath1 aspath2 = (case (aspath1, aspath2) of
     (Some as1, Some as2) \<Rightarrow>
       (case (segments as1, segments as2) of
          (seg1 # _, seg2 # _) \<Rightarrow>
            if seg_type seg1 \<noteq> AS_CONFED_SEQUENCE \<or> seg_type seg2 \<noteq> AS_CONFED_SEQUENCE then Some False
            else do {
              a \<leftarrow> as_at seg1 0;
              b \<leftarrow> as_at seg2 0;
              Some (a = b) }
        | _ \<Rightarrow> Some False)
   | _ \<Rightarrow> Some False)"

definition aspath_delete_confed_seq :: "aspath \<Rightarrow> aspath option" where
  "aspath_delete_confed_seq as = (case segments as of
     [] \<Rightarrow> Some as
   | seg # _ \<Rightarrow>
       if seg_type seg \<noteq> AS_CONFED_SEQUENCE then Some as
       else aspath_str_update (as\<lparr>segments := dropWhile is_confed (segments as)\<rparr>))"

text \<open>The loop of \<^verbatim>\<open>aspath_reconcile_as4\<close>: \<open>cpasns\<close> keeps its value for a segment of unknown type.\<close>

fun reconcile_segs :: "assegment list \<Rightarrow> int \<Rightarrow> int \<Rightarrow> assegment list option" where
  "reconcile_segs [] hops cpasns = Some []"
| "reconcile_segs (seg # segs) hops cpasns =
     (if hops > 0 then
        let len = int (seg_length seg);
            (hops, cpasns) =
              (if seg_type seg = AS_SET \<or> seg_type seg = AS_CONFED_SET then (hops - 1, len)
               else if seg_type seg = AS_CONFED_SEQUENCE then
                 (let hops = (if hops < len then len else hops) in (hops - len, min len hops))
               else if seg_type seg = AS_SEQUENCE then (hops - len, min len hops)
               else (hops, cpasns))
        in do {
          zassert (cpasns \<le> len);
          newsegs \<leftarrow> reconcile_segs segs hops cpasns;
          Some (assegment_append_asns (assegment_new (seg_type seg) []) (take (nat cpasns) (seg_as seg)) # newsegs) }
      else Some [])"

definition aspath_reconcile_as4 :: "aspath option \<Rightarrow> aspath \<Rightarrow> aspath option option" where
  "aspath_reconcile_as4 as as4path = (case as of
     None \<Rightarrow> Some None
   | Some as \<Rightarrow>
       let hops = int (aspath_count_hops as) + int (aspath_count_confeds as) - int (aspath_count_hops as4path);
           hops = (if hops < 0 then int (aspath_count_hops as) else hops)
       in if hops = 0 then Some (Some (aspath_dup as4path))
          else do {
            newsegs \<leftarrow> reconcile_segs (segments as) hops 0;
            merged \<leftarrow> aspath_merge (if newsegs = [] then None else Some (aspath_new\<lparr>segments := newsegs\<rparr>))
              (Some (aspath_dup as4path));
            mergedpath \<leftarrow> merged;
            mergedpath \<leftarrow> aspath_str_update (mergedpath\<lparr>segments := assegment_normalise (segments mergedpath)\<rparr>);
            Some (Some mergedpath) })"

definition aspath_as_add :: "aspath \<Rightarrow> u32 \<Rightarrow> aspath" where
  "aspath_as_add as asno =
     (if segments as = [] then as
      else as\<lparr>segments := butlast (segments as) @ [assegment_append_asns (last (segments as)) [asno]]\<rparr>)"

definition aspath_segment_add :: "aspath \<Rightarrow> u8 \<Rightarrow> aspath" where
  "aspath_segment_add as ty = as\<lparr>segments := segments as @ [assegment_new ty []]\<rparr>"

definition aspath_empty_get :: "aspath option" where
  "aspath_empty_get = aspath_make_str_count aspath_new"

subsection \<open>The string parser\<close>

datatype as_token =
  as_token_asval u32 | as_token_set_start | as_token_set_end | as_token_confed_seq_start | as_token_confed_seq_end
| as_token_confed_set_start | as_token_confed_set_end | as_token_unknown

text \<open>A C string is the list of its characters before the terminator.  The AS number of a value token is
  accumulated in 32 bits.\<close>

definition aspath_gettoken :: "string \<Rightarrow> (as_token \<times> string) option" where
  "aspath_gettoken buf = (case dropWhile (\<lambda>c. isspace c \<or> c = CHR '','') buf of
     [] \<Rightarrow> None
   | c # p \<Rightarrow>
       if c = CHR ''{'' then Some (as_token_set_start, p)
       else if c = CHR ''}'' then Some (as_token_set_end, p)
       else if c = CHR ''('' then Some (as_token_confed_seq_start, p)
       else if c = CHR '')'' then Some (as_token_confed_seq_end, p)
       else if c = CHR ''['' then Some (as_token_confed_set_start, p)
       else if c = CHR '']'' then Some (as_token_confed_set_end, p)
       else if isdigit c then
         Some (as_token_asval (foldl (\<lambda>v d. v * 10 + of_nat (digit_val d)) (of_nat (digit_val c)) (takeWhile isdigit p)),
               dropWhile isdigit p)
       else Some (as_token_unknown, c # p))"

lemma gettoken_shorter:
  "aspath_gettoken buf = Some (tok, p) \<Longrightarrow> tok \<noteq> as_token_unknown \<Longrightarrow> length p < length buf"
  using length_dropWhile_le [of "\<lambda>c. isspace c \<or> c = CHR '',''" buf]
  by (auto simp: aspath_gettoken_def less_Suc_eq_le split: list.splits if_splits
      intro: order.strict_trans1 [OF length_dropWhile_le])

function str2aspath_loop :: "string \<Rightarrow> aspath \<Rightarrow> u8 \<Rightarrow> bool \<Rightarrow> aspath option" where
  "str2aspath_loop str as as_type needtype = (case aspath_gettoken str of
     None \<Rightarrow> Some as
   | Some (as_token_asval asno, str) \<Rightarrow>
       str2aspath_loop str (aspath_as_add (if needtype then aspath_segment_add as as_type else as) asno) as_type False
   | Some (as_token_set_start, str) \<Rightarrow> str2aspath_loop str (aspath_segment_add as AS_SET) AS_SET False
   | Some (as_token_set_end, str) \<Rightarrow> str2aspath_loop str as AS_SEQUENCE True
   | Some (as_token_confed_seq_start, str) \<Rightarrow>
       str2aspath_loop str (aspath_segment_add as AS_CONFED_SEQUENCE) AS_CONFED_SEQUENCE False
   | Some (as_token_confed_seq_end, str) \<Rightarrow> str2aspath_loop str as AS_SEQUENCE True
   | Some (as_token_confed_set_start, str) \<Rightarrow>
       str2aspath_loop str (aspath_segment_add as AS_CONFED_SET) AS_CONFED_SET False
   | Some (as_token_confed_set_end, str) \<Rightarrow> str2aspath_loop str as AS_SEQUENCE True
   | Some (as_token_unknown, str) \<Rightarrow> None)"
  by pat_completeness auto
termination by (relation "measure (\<lambda>(str, _). length str)") (auto dest: gettoken_shorter)

declare str2aspath_loop.simps [simp del]

text \<open>The inner option is the null result for a string with an unknown token.\<close>

definition aspath_str2aspath :: "string \<Rightarrow> aspath option option" where
  "aspath_str2aspath str = (case str2aspath_loop str aspath_new AS_SEQUENCE True of
     None \<Rightarrow> Some None
   | Some as \<Rightarrow> do { as \<leftarrow> aspath_make_str_count as; Some (Some as) })"

fun cmp_segs :: "assegment list \<Rightarrow> assegment list \<Rightarrow> bool" where
  "cmp_segs [] [] = True"
| "cmp_segs (seg1 # segs1) (seg2 # segs2) =
     (seg_type seg1 = seg_type seg2 \<and> seg_length seg1 = seg_length seg2 \<and>
      list_all (\<lambda>(a, b). a = b) (zip (seg_as seg1) (seg_as seg2)) \<and> cmp_segs segs1 segs2)"
| "cmp_segs _ _ = False"

definition aspath_cmp :: "aspath \<Rightarrow> aspath \<Rightarrow> bool" where
  "aspath_cmp as1 as2 = cmp_segs (segments as1) (segments as2)"

definition aspath_print :: "aspath option \<Rightarrow> string option" where
  "aspath_print as = (case as of Some as \<Rightarrow> as_str as | None \<Rightarrow> None)"

end
