(* ===== verification/Aspath_Laws.thy ===== *)
theory Aspath_Laws
  imports Aspath
begin

text \<open>
  What the AS path operations do: the canonical form that the intern table of paths rests on, the
  string of a path and its parser, the wire format, the hop count and loop information that merging
  and filtering keep.
\<close>

subsection \<open>The canonical form\<close>

lemma weed_dupes_remdups:
  assumes "t < i" "i \<le> length as"
  shows "case weed_dupes as t i of (t', as') \<Rightarrow>
    t' < length as' \<and> take (t' + 1) as' = take t as @ remdups_adj (as ! t # drop i as)"
  using assms
proof (induction as t i rule: weed_dupes.induct)
  case (1 as t i)
  show ?case
  proof (cases "i < length as")
    case True
    then have d: "drop i as = as ! i # drop (i + 1) as" by (simp add: Cons_nth_drop_Suc)
    show ?thesis
    proof (cases "as ! t = as ! i")
      case True
      with \<open>i < length as\<close> show ?thesis using "1.IH"(1) "1.prems" d by (simp add: weed_dupes.simps [of as t i])
    next
      case False
      let ?as = "if t + 1 < i then as[t + 1 := as ! i] else as"
      have "take (t + 1) ?as = take t as @ [as ! t]" "?as ! (t + 1) = as ! i" "drop (i + 1) ?as = drop (i + 1) as"
        using "1.prems" True by (auto simp: take_Suc_conv_app_nth not_less le_Suc_eq)
      then show ?thesis
        using "1.IH"(2) [OF True False] "1.prems" True False d by (simp add: weed_dupes.simps [of as t i])
    qed
  qed (use "1.prems" in \<open>simp add: weed_dupes.simps [of as t "length as"] take_Suc_conv_app_nth\<close>)
qed

lemma sorted_remdups_adj_strict: "sorted xs \<Longrightarrow> sorted_wrt (<) (remdups_adj (xs :: 'a :: linorder list))"
  by (induction xs rule: remdups_adj.induct) (auto simp: order_less_le)

lemma strict_sorted_list_of_set: "sorted_wrt (<) xs \<Longrightarrow> sorted_list_of_set (set xs) = xs"
  by (simp add: strict_sorted_iff sorted_list_of_set.idem_if_sorted_distinct)

abbreviation is_set :: "assegment \<Rightarrow> bool" where
  "is_set seg \<equiv> seg_type seg = AS_SET \<or> seg_type seg = AS_CONFED_SET"

text \<open>Sorting and weeding out duplicates gives the sorted list of the set.\<close>

lemma sort_set_eq:
  "sort_set seg = (if is_set seg then seg\<lparr>seg_as := sorted_list_of_set (set (seg_as seg))\<rparr> else seg)"
proof -
  let ?as = "sort (seg_as seg)"
  have "take (fst (weed_dupes ?as 0 1) + 1) (snd (weed_dupes ?as 0 1)) = remdups_adj ?as" if "?as \<noteq> []"
    using weed_dupes_remdups [of 0 1 ?as] that by (cases ?as) (auto simp: Suc_le_eq split: prod.splits)
  moreover have "remdups_adj ?as = sorted_list_of_set (set (seg_as seg))"
    using strict_sorted_list_of_set [OF sorted_remdups_adj_strict [OF sorted_sort], of "seg_as seg"] by simp
  ultimately show ?thesis
    by (cases "?as = []") (auto simp: sort_set_def Let_def weed_dupes.simps [of "[]"] split: prod.splits)
qed

lemma sort_set_simps [simp]:
  "seg_type (sort_set seg) = seg_type seg" "set (seg_as (sort_set seg)) = set (seg_as seg)"
  "seg_length (sort_set seg) \<le> seg_length seg" "seg_type seg = AS_SEQUENCE \<Longrightarrow> sort_set seg = seg"
  by (auto simp: sort_set_eq length_sorted_list_of_set card_length)

text \<open>What a path says: a hop for each entry of a sequence, a group for each other segment, sets without
  order or repetition.\<close>

datatype hop = As u32 | Group u8 "u32 list"

definition seg_hops :: "assegment \<Rightarrow> hop list" where
  "seg_hops seg =
     (if seg_type seg = AS_SEQUENCE then map As (seg_as seg)
      else if is_set seg then [Group (seg_type seg) (sorted_list_of_set (set (seg_as seg)))]
      else [Group (seg_type seg) (seg_as seg)])"

definition path_hops :: "assegment list \<Rightarrow> hop list" where
  "path_hops segs = concat (map seg_hops segs)"

abbreviation total_length :: "assegment list \<Rightarrow> nat" where
  "total_length segs \<equiv> sum_list (map seg_length segs)"

text \<open>The canonical form: sets strictly sorted, no two adjacent sequences.\<close>

definition normalised :: "assegment list \<Rightarrow> bool" where
  "normalised segs \<longleftrightarrow> (\<forall>seg \<in> set segs. is_set seg \<longrightarrow> sorted_wrt (<) (seg_as seg)) \<and>
     successively (\<lambda>x y. \<not> ASSEGMENT_TYPES_PACKABLE x y) segs"

definition seqs_nonempty :: "assegment list \<Rightarrow> bool" where
  "seqs_nonempty segs \<longleftrightarrow> (\<forall>seg \<in> set segs. seg_type seg = AS_SEQUENCE \<longrightarrow> seg_as seg \<noteq> [])"

lemma append_asns_simps [simp]:
  "seg_type (assegment_append_asns seg as) = seg_type seg"
  "seg_length seg + length as < 2 ^ 16 \<Longrightarrow> seg_as (assegment_append_asns seg as) = seg_as seg @ as"
  by (simp_all add: assegment_append_asns_def)

lemma seg_hops_sort_set [simp]: "seg_hops (sort_set seg) = seg_hops seg"
  by (auto simp: seg_hops_def sort_set_eq)

lemma pack_following_pin: "seg_type (fst (pack_following pin segs)) = seg_type pin"
  by (induction pin segs rule: pack_following.induct) auto

lemma pack_following_rest:
  "set (snd (pack_following pin segs)) \<subseteq> set segs"
  "snd (pack_following pin segs) \<noteq> [] \<Longrightarrow>
    \<not> ASSEGMENT_TYPES_PACKABLE (fst (pack_following pin segs)) (hd (snd (pack_following pin segs)))"
  by (induction pin segs rule: pack_following.induct) auto

lemma pack_following_other: "seg_type pin \<noteq> AS_SEQUENCE \<Longrightarrow> pack_following pin segs = (pin, segs)"
  by (cases segs) (auto simp: ASSEGMENT_TYPES_PACKABLE_def)

lemma pack_following_keeps:
  assumes "total_length (pin # segs) < 2 ^ 16"
  shows "seg_hops (fst (pack_following pin segs)) @ path_hops (snd (pack_following pin segs)) =
      path_hops (pin # segs) \<and>
    total_length (fst (pack_following pin segs) # snd (pack_following pin segs)) = total_length (pin # segs) \<and>
    (seg_as pin \<noteq> [] \<longrightarrow> seg_as (fst (pack_following pin segs)) \<noteq> [])"
  using assms
proof (induction pin segs rule: pack_following.induct)
  case (2 pin seg segs)
  then show ?case
    by (cases "ASSEGMENT_TYPES_PACKABLE pin seg") (auto simp: path_hops_def seg_hops_def ASSEGMENT_TYPES_PACKABLE_def)
qed (simp add: path_hops_def)

lemma normalised_Cons:
  "normalised (seg # segs) \<longleftrightarrow> (is_set seg \<longrightarrow> sorted_wrt (<) (seg_as seg)) \<and> normalised segs \<and>
    (segs \<noteq> [] \<longrightarrow> \<not> ASSEGMENT_TYPES_PACKABLE seg (hd segs))"
  by (auto simp: normalised_def successively_Cons)

lemma hd_normalise_type: "segs \<noteq> [] \<Longrightarrow> seg_type (hd (assegment_normalise segs)) = seg_type (hd segs)"
  by (cases segs) (auto simp: Let_def pack_following_pin)

lemma normalise_Nil [simp]: "assegment_normalise segs = [] \<longleftrightarrow> segs = []"
  by (cases segs) (auto simp: Let_def)

lemma normalise_normalised: "normalised (assegment_normalise segs)"
proof (induction segs rule: assegment_normalise.induct)
  case (2 seg segs)
  let ?p = "pack_following (sort_set seg) segs"
  have "\<not> ASSEGMENT_TYPES_PACKABLE (fst ?p) (hd (assegment_normalise (snd ?p)))" if "snd ?p \<noteq> []"
    using pack_following_rest(2) [OF that] hd_normalise_type [OF that] by (simp add: ASSEGMENT_TYPES_PACKABLE_def)
  moreover have "sorted_wrt (<) (seg_as (fst ?p))" if "is_set (fst ?p)"
  proof -
    have "is_set seg" using that by (simp add: pack_following_pin)
    then show ?thesis by (auto simp: pack_following_other sort_set_eq strict_sorted_list_of_set)
  qed
  ultimately show ?case using "2" by (simp add: Let_def normalised_Cons)
qed (simp add: normalised_def)

lemma normalise_id: "normalised segs \<Longrightarrow> assegment_normalise segs = segs"
proof (induction segs)
  case (Cons seg segs)
  then have "sort_set seg = seg" by (auto simp: normalised_Cons sort_set_eq strict_sorted_list_of_set)
  moreover have "pack_following seg segs = (seg, segs)" using Cons.prems by (cases segs) (auto simp: normalised_Cons)
  ultimately show ?case using Cons by (simp add: normalised_Cons)
qed simp

lemma normalise_keeps:
  assumes "total_length segs < 2 ^ 16"
  shows "path_hops (assegment_normalise segs) = path_hops segs \<and>
    (seqs_nonempty segs \<longrightarrow> seqs_nonempty (assegment_normalise segs))"
  using assms
proof (induction segs rule: assegment_normalise.induct)
  case (2 seg segs)
  let ?p = "pack_following (sort_set seg) segs"
  have l: "total_length (sort_set seg # segs) < 2 ^ 16"
    by (rule le_less_trans [OF _ "2.prems"]) simp
  note k = pack_following_keeps [OF l]
  have "total_length (snd ?p) < 2 ^ 16" using k l by simp
  with "2.IH" [OF refl] have r: "path_hops (assegment_normalise (snd ?p)) = path_hops (snd ?p)"
      "seqs_nonempty (snd ?p) \<Longrightarrow> seqs_nonempty (assegment_normalise (snd ?p))" by blast+
  have "seqs_nonempty (fst ?p # assegment_normalise (snd ?p))" if ne: "seqs_nonempty (seg # segs)"
  proof -
    have "seqs_nonempty (snd ?p)" using ne pack_following_rest(1) [of "sort_set seg" segs] by (auto simp: seqs_nonempty_def)
    moreover have "seg_type (fst ?p) = AS_SEQUENCE \<longrightarrow> seg_as (fst ?p) \<noteq> []"
      using ne k by (auto simp: pack_following_pin seqs_nonempty_def)
    ultimately show ?thesis using r(2) by (simp add: seqs_nonempty_def)
  qed
  moreover have "path_hops (fst ?p # assegment_normalise (snd ?p)) = path_hops (seg # segs)"
    using r(1) k by (simp add: path_hops_def)
  ultimately show ?case by (simp add: Let_def)
qed (simp add: seqs_nonempty_def)

text \<open>A normalised path is determined by what it says.\<close>

fun of_hops :: "hop list \<Rightarrow> assegment list" where
  "of_hops [] = []"
| "of_hops (Group ty as # hs) = assegment_new ty as # of_hops hs"
| "of_hops (As a # hs) = (case of_hops hs of
     seg # segs \<Rightarrow> if seg_type seg = AS_SEQUENCE then seg\<lparr>seg_as := a # seg_as seg\<rparr> # segs
                   else assegment_new AS_SEQUENCE [a] # seg # segs
   | [] \<Rightarrow> [assegment_new AS_SEQUENCE [a]])"

lemma of_hops_seq:
  assumes "as \<noteq> []" "of_hops hs = segs" "segs \<noteq> [] \<Longrightarrow> seg_type (hd segs) \<noteq> AS_SEQUENCE"
  shows "of_hops (map As as @ hs) = assegment_new AS_SEQUENCE as # segs"
  using assms
proof (induction as)
  case (Cons a as)
  then show ?case by (cases as) (auto simp: assegment_new_def split: list.splits)
qed simp

lemma of_path_hops: "normalised segs \<Longrightarrow> seqs_nonempty segs \<Longrightarrow> of_hops (path_hops segs) = segs"
proof (induction segs)
  case (Cons seg segs)
  then have IH: "of_hops (path_hops segs) = segs" by (simp add: normalised_Cons seqs_nonempty_def)
  have new: "assegment_new (seg_type seg) (seg_as seg) = seg" by (simp add: assegment_new_def)
  show ?case
  proof (cases "seg_type seg = AS_SEQUENCE")
    case True
    with Cons.prems have "of_hops (map As (seg_as seg) @ path_hops segs) = assegment_new AS_SEQUENCE (seg_as seg) # segs"
      by (intro of_hops_seq IH) (auto simp: normalised_Cons seqs_nonempty_def ASSEGMENT_TYPES_PACKABLE_def)
    with True new show ?thesis by (simp add: path_hops_def seg_hops_def)
  next
    case False
    with Cons.prems new IH show ?thesis
      by (auto simp: path_hops_def seg_hops_def normalised_Cons strict_sorted_list_of_set)
  qed
qed (simp add: path_hops_def)

subsection \<open>The string of a path\<close>

definition asns_text :: "char \<Rightarrow> u32 list \<Rightarrow> string" where
  "asns_text sep as = sep_by sep (map (\<lambda>a. dec_str (unat a)) as)"

definition seg_text :: "assegment \<Rightarrow> string" where
  "seg_text seg =
     (let body = asns_text (the (seperator (seg_type seg))) (seg_as seg) in
      if seg_type seg = AS_SEQUENCE then body
      else aspath_delimiter_char (seg_type seg) 0 # body @ [aspath_delimiter_char (seg_type seg) 1])"

definition path_text :: "assegment list \<Rightarrow> string" where
  "path_text segs = sep_by CHR '' '' (map seg_text segs)"

definition types_known :: "assegment list \<Rightarrow> bool" where
  "types_known segs \<longleftrightarrow> (\<forall>seg \<in> set segs. seperator (seg_type seg) \<noteq> None)"

lemma asns_text_Cons:
  "asns_text sep (a # as) = (if as = [] then dec_str (unat a) else dec_str (unat a) @ sep # asns_text sep as)"
  by (simp add: asns_text_def sep_by_Cons)

lemma path_text_Cons:
  "path_text (seg # segs) = (if segs = [] then seg_text seg else seg_text seg @ CHR '' '' # path_text segs)"
  by (simp add: path_text_def sep_by_Cons)

lemma length_asn_str: "length (dec_str (unat (a :: u32))) \<le> 10"
  using unsigned_less [of a, where 'a = nat] by (intro length_dec_str) auto

lemma length_asns_text: "length (asns_text sep as) \<le> length as * 11"
proof (induction as)
  case (Cons a as)
  then show ?case using length_asn_str [of a] by (simp add: asns_text_Cons)
qed (simp add: asns_text_def)

lemma snprintf_ok:
  "length buf + length s < sz \<Longrightarrow>
    snprintf_at (buf, length buf, sz) s = Some (buf @ s, length (buf @ s), sz)"
  by simp

lemma put_asns_ok:
  "length buf + length (asns_text sep as) < sz \<Longrightarrow>
    put_asns sep as (buf, length buf, sz) = Some (buf @ asns_text sep as, length (buf @ asns_text sep as), sz)"
proof (induction as arbitrary: buf)
  case (Cons a as)
  show ?case
  proof (cases as)
    case (Cons b bs)
    then show ?thesis
      using Cons.IH [of "buf @ dec_str (unat a) @ [sep]"] Cons.prems snprintf_ok [of buf "dec_str (unat a)" sz]
        snprintf_ok [of "buf @ dec_str (unat a)" "[sep]" sz]
      by (simp del: snprintf_at.simps add: asns_text_Cons [of _ a])
  qed (use Cons.prems in \<open>simp add: asns_text_def\<close>)
qed (simp add: asns_text_def)

lemma put_segments_step:
  assumes "seperator (seg_type seg) \<noteq> None"
  shows "\<exists>sz'. put_segments (seg # segs) (buf, length buf, sz) =
      put_segments segs (buf @ seg_text seg @ (if segs = [] then '''' else '' ''),
        length (buf @ seg_text seg @ (if segs = [] then '''' else '' '')), sz') \<and>
    length (buf @ seg_text seg @ (if segs = [] then '''' else '' '')) < sz'"
proof -
  define sz1 where "sz1 = (if length buf + SEGMENT_STR_LEN seg > sz then length buf + SEGMENT_STR_LEN seg else sz)"
  define body where "body = asns_text (the (seperator (seg_type seg))) (seg_as seg)"
  obtain sep where sep: "seperator (seg_type seg) = Some sep" using assms by blast
  have room: "length buf + length body + 3 < sz1"
    using length_asns_text [of sep "seg_as seg"] by (simp add: body_def sep sz1_def SEGMENT_STR_LEN_def)
  let ?d = "\<lambda>i. aspath_delimiter_char (seg_type seg) i"
  define b1 where "b1 = (if seg_type seg = AS_SEQUENCE then buf else buf @ [?d 0])"
  define b2 where "b2 = b1 @ body"
  define b3 where "b3 = (if seg_type seg = AS_SEQUENCE then b2 else b2 @ [?d 1])"
  define b4 where "b4 = (if segs = [] then b3 else b3 @ '' '')"
  note bs = b1_def b2_def b3_def b4_def
  have b3: "b3 = buf @ seg_text seg" by (simp add: bs seg_text_def body_def Let_def)
  have s1: "(if seg_type seg \<noteq> AS_SEQUENCE then snprintf_at (buf, length buf, sz1) [?d 0] else Some (buf, length buf, sz1)) =
      Some (b1, length b1, sz1)" using room by (simp add: bs)
  have s2: "put_asns sep (seg_as seg) (b1, length b1, sz1) = Some (b2, length b2, sz1)"
    using put_asns_ok [of b1 sep "seg_as seg" sz1] room by (simp add: b2_def) (simp add: b1_def body_def sep)
  have s3: "(if seg_type seg \<noteq> AS_SEQUENCE then snprintf_at (b2, length b2, sz1) [?d 1] else Some (b2, length b2, sz1)) =
      Some (b3, length b3, sz1)" using room by (simp add: bs)
  have s4: "(if segs \<noteq> [] then snprintf_at (b3, length b3, sz1) '' '' else Some (b3, length b3, sz1)) =
      Some (b4, length b4, sz1)" using room by (auto simp: bs)
  have step: "put_segments (seg # segs) (buf, length buf, sz) = put_segments segs (b4, length b4, sz1)"
    unfolding put_segments.simps sep option.case Let_def sz1_def [symmetric] s1 s2 s3 s4 Option.bind.simps ..
  have "b4 = buf @ seg_text seg @ (if segs = [] then '''' else '' '')" by (simp add: b4_def b3)
  moreover have "length b4 < sz1" using room by (auto simp: bs)
  ultimately show ?thesis using step by (intro exI [of _ sz1]) simp
qed

lemma put_segments_ok:
  assumes "types_known segs" "length buf < sz"
  shows "\<exists>sz'. put_segments segs (buf, length buf, sz) = Some (Some (buf @ path_text segs, length (buf @ path_text segs), sz'))
    \<and> length (buf @ path_text segs) < sz'"
  using assms
proof (induction segs arbitrary: buf sz)
  case (Cons seg segs)
  let ?buf = "buf @ seg_text seg @ (if segs = [] then '''' else '' '')"
  obtain sz1 where s: "put_segments (seg # segs) (buf, length buf, sz) = put_segments segs (?buf, length ?buf, sz1)"
      "length ?buf < sz1"
    using put_segments_step [of seg segs buf sz] Cons.prems(1) by (auto simp: types_known_def)
  have "?buf @ path_text segs = buf @ path_text (seg # segs)" by (simp add: path_text_Cons) (simp add: path_text_def)
  moreover have "types_known segs" using Cons.prems(1) by (simp add: types_known_def)
  ultimately show ?case using Cons.IH [OF _ s(2)] unfolding s(1) by simp
qed (simp add: path_text_def)

lemma put_segments_unknown:
  assumes "\<not> types_known segs"
  shows "put_segments segs (buf, length buf, sz) = Some None"
  using assms
proof (induction segs arbitrary: buf sz)
  case (Cons seg segs)
  show ?case
  proof (cases "seperator (seg_type seg)")
    case (Some sep)
    then have "\<not> types_known segs" using Cons.prems by (simp add: types_known_def)
    moreover obtain buf' sz' where "put_segments (seg # segs) (buf, length buf, sz) = put_segments segs (buf', length buf', sz')"
      using put_segments_step [of seg segs buf sz] Some by blast
    ultimately show ?thesis using Cons.IH by simp
  qed simp
qed (simp add: types_known_def)

text \<open>The buffer is always large enough: no truncation, and the final assertion holds.\<close>

definition with_str :: "aspath \<Rightarrow> aspath" where
  "with_str as =
     (if types_known (segments as)
      then as\<lparr>as_str := Some (path_text (segments as)), as_str_len := length (path_text (segments as)) mod 2 ^ 16\<rparr>
      else as\<lparr>as_str := None, as_str_len := 0\<rparr>)"

lemma make_str_count_eq: "aspath_make_str_count as = Some (with_str as)"
proof (cases "segments as = []")
  case False
  let ?sz = "max (nat (assegment_count_asns (segments as) 0) * (10 + 1) + 2 + 1) 32"
  have "length ('''' :: string) < ?sz" by simp
  then show ?thesis
    using False put_segments_ok [of "segments as" "''''" ?sz] put_segments_unknown [of "segments as" "''''" ?sz]
    by (cases "types_known (segments as)") (auto simp: aspath_make_str_count_def with_str_def)
qed (simp add: aspath_make_str_count_def with_str_def types_known_def path_text_def)

lemma str_update_eq [simp]: "aspath_str_update as = Some (with_str as)"
  by (simp add: aspath_str_update_def make_str_count_eq with_str_def)

lemma with_str_simps [simp]:
  "segments (with_str as) = segments as" "refcnt (with_str as) = refcnt as"
  by (simp_all add: with_str_def)

subsection \<open>The parser reads the string back\<close>

lemma gettoken_sep: "isspace c \<or> c = CHR '','' \<Longrightarrow> aspath_gettoken (c # s) = aspath_gettoken s"
  by (simp add: aspath_gettoken_def)

lemma sep_not_digit: "isspace c \<or> c = CHR '','' \<Longrightarrow> \<not> isdigit c"
  by (auto simp: isspace_def isdigit_def)

lemma delimiters_not_digit:
  "\<not> isdigit CHR ''{''" "\<not> isdigit CHR ''}''" "\<not> isdigit CHR ''(''" "\<not> isdigit CHR '')''"
  "\<not> isdigit CHR ''[''" "\<not> isdigit CHR '']''"
  by (simp_all add: isdigit_def)

lemma gettoken_dec:
  assumes "rest = [] \<or> \<not> isdigit (hd rest)"
  shows "aspath_gettoken (dec_str n @ rest) = Some (as_token_asval (of_nat n), rest)"
proof -
  obtain c ds where n: "dec_str n = c # ds" by (cases "dec_str n") auto
  have c: "isdigit c" using dec_str_digits [of c n] n by simp
  then have "\<not> (isspace c \<or> c = CHR '','')" "c \<noteq> CHR ''{''" "c \<noteq> CHR ''}''" "c \<noteq> CHR ''(''" "c \<noteq> CHR '')''"
      "c \<noteq> CHR ''[''" "c \<noteq> CHR '']''"
    using sep_not_digit delimiters_not_digit by blast+
  moreover have "takeWhile isdigit (ds @ rest) = ds" "dropWhile isdigit (ds @ rest) = rest"
    using takeWhile_dec_str [OF assms, of n] c by (simp_all add: n)
  moreover have "foldl (\<lambda>v d. v * 10 + of_nat (digit_val d)) (of_nat (digit_val c)) ds = (of_nat n :: u32)"
    using dec_val_dec_str [of n] by (simp add: foldl_dec_of_nat n dec_val_def)
  ultimately show ?thesis using c by (simp add: aspath_gettoken_def n)
qed

lemma loop_token:
  "aspath_gettoken str = Some (as_token_asval a, p) \<Longrightarrow>
    str2aspath_loop str as ty need = str2aspath_loop p (aspath_as_add (if need then aspath_segment_add as ty else as) a) ty False"
  by (subst str2aspath_loop.simps) simp

lemma loop_sep: "isspace c \<or> c = CHR '','' \<Longrightarrow> str2aspath_loop (c # s) as ty need = str2aspath_loop s as ty need"
  by (subst (1 2) str2aspath_loop.simps) (simp add: gettoken_sep)

lemma loop_end: "str2aspath_loop [] as ty need = Some as"
  by (subst str2aspath_loop.simps) (simp add: aspath_gettoken_def)

abbreviation add_segs :: "aspath \<Rightarrow> assegment list \<Rightarrow> aspath" where
  "add_segs as segs \<equiv> as\<lparr>segments := segments as @ segs\<rparr>"

text \<open>A run of AS numbers goes to the last segment.\<close>

lemma as_add_last:
  "seg_length seg + 1 < 2 ^ 16 \<Longrightarrow>
    aspath_as_add (add_segs as [seg]) a = add_segs as [seg\<lparr>seg_as := seg_as seg @ [a]\<rparr>]"
  by (simp add: aspath_as_add_def assegment_append_asns_def)

lemma assegment_eta [simp]: "\<lparr>seg_type = seg_type seg, seg_as = seg_as seg\<rparr> = seg"
  by (cases seg) simp

lemma loop_asns:
  assumes "isspace sep \<or> sep = CHR '',''" "rest = [] \<or> \<not> isdigit (hd rest)"
    "seg_length seg + length asns < 2 ^ 16"
  shows "str2aspath_loop (asns_text sep asns @ rest) (add_segs as [seg]) ty False =
    str2aspath_loop rest (add_segs as [seg\<lparr>seg_as := seg_as seg @ asns\<rparr>]) ty False"
  using assms(3)
proof (induction asns arbitrary: seg)
  case (Cons a asns)
  let ?seg = "seg\<lparr>seg_as := seg_as seg @ [a]\<rparr>" and ?rest = "if asns = [] then rest else sep # asns_text sep asns @ rest"
  have "?rest = [] \<or> \<not> isdigit (hd ?rest)" using assms sep_not_digit by auto
  from loop_token [OF gettoken_dec [OF this]] Cons.prems
  have "str2aspath_loop (dec_str (unat a) @ ?rest) (add_segs as [seg]) ty False = str2aspath_loop ?rest (add_segs as [?seg]) ty False"
    by (simp add: as_add_last)
  moreover have "asns_text sep (a # asns) @ rest = dec_str (unat a) @ ?rest" by (simp add: asns_text_Cons)
  moreover have "str2aspath_loop ?rest (add_segs as [?seg]) ty False = str2aspath_loop (asns_text sep asns @ rest) (add_segs as [?seg]) ty False"
    using loop_sep [OF assms(1)] by (simp add: asns_text_def)
  ultimately show ?case using Cons.IH [of ?seg] Cons.prems by simp
qed (simp add: asns_text_def)

text \<open>A sequence is opened by its first AS number, the other types by their delimiter.\<close>

lemma loop_open_seq:
  assumes "asns \<noteq> []" "rest = [] \<or> \<not> isdigit (hd rest)" "isspace sep \<or> sep = CHR '',''"
  shows "str2aspath_loop (asns_text sep asns @ rest) as ty True =
    str2aspath_loop (asns_text sep asns @ rest) (aspath_segment_add as ty) ty False"
proof -
  obtain a as' where a: "asns = a # as'" using assms(1) by (cases asns) auto
  let ?rest = "if as' = [] then rest else sep # asns_text sep as' @ rest"
  have "?rest = [] \<or> \<not> isdigit (hd ?rest)" using assms sep_not_digit by auto
  from gettoken_dec [OF this, of "unat a"]
  have "aspath_gettoken (asns_text sep asns @ rest) = Some (as_token_asval a, ?rest)"
    by (cases "as' = []") (simp_all add: a asns_text_Cons)
  from loop_token [OF this] show ?thesis by simp
qed

lemma gettoken_delim:
  assumes "ty \<in> {AS_SET, AS_CONFED_SEQUENCE, AS_CONFED_SET}"
  shows "str2aspath_loop (aspath_delimiter_char ty 0 # s) as ty' need = str2aspath_loop s (aspath_segment_add as ty) ty False"
    "str2aspath_loop (aspath_delimiter_char ty 1 # s) as ty' need = str2aspath_loop s as AS_SEQUENCE True"
  using assms
  by (subst str2aspath_loop.simps, fastforce simp: aspath_gettoken_def aspath_delimiter_char_def isspace_def)+

lemma delim_end_not_digit: "ty \<in> {AS_SET, AS_CONFED_SEQUENCE, AS_CONFED_SET} \<Longrightarrow> \<not> isdigit (aspath_delimiter_char ty 1)"
  using delimiters_not_digit by (auto simp: aspath_delimiter_char_def)

lemma segment_add_eq: "aspath_segment_add as ty = add_segs as [assegment_new ty []]"
  by (simp add: aspath_segment_add_def)

text \<open>One segment: it may be a sequence only where the parser is about to open one.\<close>

lemma loop_seg:
  assumes "seperator (seg_type seg) \<noteq> None" "seg_length seg < 2 ^ 16" "rest = [] \<or> \<not> isdigit (hd rest)"
    "seg_type seg = AS_SEQUENCE \<Longrightarrow> seg_as seg \<noteq> [] \<and> need \<and> ty = AS_SEQUENCE"
  shows "\<exists>need' ty'. str2aspath_loop (seg_text seg @ rest) as ty need = str2aspath_loop rest (add_segs as [seg]) ty' need' \<and>
    (seg_type seg \<noteq> AS_SEQUENCE \<longrightarrow> need' \<and> ty' = AS_SEQUENCE)"
proof -
  obtain sep where sep: "seperator (seg_type seg) = Some sep" "isspace sep \<or> sep = CHR '',''"
    using assms(1) by (auto simp: seperator_def isspace_def split: if_splits)
  let ?new = "assegment_new (seg_type seg) []"
  have asns: "str2aspath_loop (asns_text sep (seg_as seg) @ r) (add_segs as [?new]) ty' False =
      str2aspath_loop r (add_segs as [seg]) ty' False" if "r = [] \<or> \<not> isdigit (hd r)" for r ty'
    using loop_asns [OF sep(2) that, of ?new "seg_as seg"] assms(2) by (simp add: assegment_new_def)
  show ?thesis
  proof (cases "seg_type seg = AS_SEQUENCE")
    case True
    then show ?thesis
      using loop_open_seq [OF _ assms(3) sep(2), of "seg_as seg" as ty] asns [OF assms(3)] assms(4) [OF True] sep(1)
      by (auto simp: seg_text_def segment_add_eq)
  next
    case False
    then have ty: "seg_type seg \<in> {AS_SET, AS_CONFED_SEQUENCE, AS_CONFED_SET}"
      using assms(1) by (auto simp: seperator_def split: if_splits)
    let ?r = "aspath_delimiter_char (seg_type seg) 1 # rest"
    have "str2aspath_loop (seg_text seg @ rest) as ty need =
        str2aspath_loop (asns_text sep (seg_as seg) @ ?r) (add_segs as [?new]) (seg_type seg) False"
      using gettoken_delim(1) [OF ty] False sep(1) by (simp add: seg_text_def segment_add_eq)
    also have "\<dots> = str2aspath_loop ?r (add_segs as [seg]) (seg_type seg) False"
      by (rule asns) (use delim_end_not_digit [OF ty] in simp)
    also have "\<dots> = str2aspath_loop rest (add_segs as [seg]) AS_SEQUENCE True"
      by (rule gettoken_delim(2) [OF ty])
    finally show ?thesis by blast
  qed
qed

lemma loop_path:
  assumes "types_known segs" "seqs_nonempty segs" "normalised segs" "\<forall>seg \<in> set segs. seg_length seg < 2 ^ 16"
    "need \<and> ty = AS_SEQUENCE \<or> segs = [] \<or> seg_type (hd segs) \<noteq> AS_SEQUENCE"
  shows "str2aspath_loop (path_text segs) as ty need = Some (add_segs as segs)"
  using assms
proof (induction segs arbitrary: as ty need)
  case (Cons seg segs)
  let ?rest = "if segs = [] then '''' else CHR '' '' # path_text segs"
  have "?rest = [] \<or> \<not> isdigit (hd ?rest)" by (simp add: isdigit_def)
  from loop_seg [OF _ _ this, of seg need ty as] Cons.prems obtain need' ty' where
    1: "str2aspath_loop (seg_text seg @ ?rest) as ty need = str2aspath_loop ?rest (add_segs as [seg]) ty' need'"
      "seg_type seg \<noteq> AS_SEQUENCE \<Longrightarrow> need' \<and> ty' = AS_SEQUENCE"
    by (fastforce simp: types_known_def seqs_nonempty_def)
  have "path_text (seg # segs) = seg_text seg @ ?rest" by (simp add: path_text_Cons)
  moreover have "str2aspath_loop ?rest (add_segs as [seg]) ty' need' = str2aspath_loop (path_text segs) (add_segs as [seg]) ty' need'"
    using loop_sep [of "CHR '' ''"] by (auto simp: isspace_def path_text_def)
  moreover have "str2aspath_loop (path_text segs) (add_segs as [seg]) ty' need' = Some (add_segs (add_segs as [seg]) segs)"
  proof (rule Cons.IH)
    show "need' \<and> ty' = AS_SEQUENCE \<or> segs = [] \<or> seg_type (hd segs) \<noteq> AS_SEQUENCE"
      using 1(2) Cons.prems(3) by (auto simp: normalised_Cons ASSEGMENT_TYPES_PACKABLE_def)
  qed (use Cons.prems in \<open>auto simp: types_known_def seqs_nonempty_def normalised_Cons\<close>)
  ultimately show ?case using 1(1) by simp
qed (simp add: loop_end path_text_def)

subsection \<open>The wire format\<close>

definition wire_asn :: "bool \<Rightarrow> u32 \<Rightarrow> u32" where
  "wire_asn use32bit a = (if use32bit \<or> a \<le> BGP_AS_MAX then a else ucast BGP_AS_TRANS)"

definition enc_asn :: "bool \<Rightarrow> u32 \<Rightarrow> u8 list" where
  "enc_asn use32bit a = (if use32bit then put32 a else put16 (ucast (wire_asn False a)))"

definition seg_wire :: "bool \<Rightarrow> assegment \<Rightarrow> u8 list" where
  "seg_wire use32bit seg = seg_type seg # of_nat (seg_length seg) # concat (map (enc_asn use32bit) (seg_as seg))"

definition path_wire :: "bool \<Rightarrow> assegment list \<Rightarrow> u8 list" where
  "path_wire use32bit segs = concat (map (seg_wire use32bit) segs)"

definition wire_seg :: "bool \<Rightarrow> assegment \<Rightarrow> assegment" where
  "wire_seg use32bit seg = seg\<lparr>seg_as := map (wire_asn use32bit) (seg_as seg)\<rparr>"

text \<open>Segments the format can carry: known type, between one and 255 AS numbers.\<close>

definition carriable :: "assegment \<Rightarrow> bool" where
  "carriable seg \<longleftrightarrow> seperator (seg_type seg) \<noteq> None \<and> 0 < seg_length seg \<and> seg_length seg \<le> AS_SEGMENT_MAX"

lemma wire_seg_True: "wire_seg True seg = seg"
proof -
  have "wire_asn True = id" by (simp add: fun_eq_iff wire_asn_def)
  then show ?thesis by (simp add: wire_seg_def)
qed

lemma enc_asn_False: "enc_asn False = (\<lambda>a. put16 (ucast (wire_asn False a)))"
  by (simp add: fun_eq_iff enc_asn_def)

lemma length_enc_asns: "length (concat (map (enc_asn b) as)) = length as * (if b then 4 else 2)"
  by (induction as) (auto simp: enc_asn_def)

lemma length_seg_wire: "length (seg_wire b seg) = ASSEGMENT_SIZE (seg_length seg) b"
  by (simp add: seg_wire_def ASSEGMENT_SIZE_def length_enc_asns)

lemma even_path_wire: "length (path_wire b segs) mod 2 = 0"
  by (induction segs) (auto simp: path_wire_def length_seg_wire ASSEGMENT_SIZE_def mod_simps)

lemma put_all_map: "put_all (\<lambda>s a. put s (f a)) s as = put_all put s (map f as)"
  by (induction as arbitrary: s) auto

lemma get_n_map:
  "get_n (\<lambda>s. do { (x, s) \<leftarrow> get s; Some (f x, s) }) n s = do { (xs, s) \<leftarrow> get_n get n s; Some (map f xs, s) }"
proof (induction n arbitrary: s)
  case (Suc n)
  show ?case
  proof (cases "get s")
    case (Some p)
    then show ?thesis using Suc by (cases p; cases "get_n get n (snd p)") auto
  qed simp
qed simp

lemma put_asns_wire:
  assumes "sane s" "length as \<le> AS_SEGMENT_MAX" "length as * (if b then 4 else 2) \<le> STREAM_WRITEABLE s"
  shows "assegment_data_put s as b = Some (append_bytes s (concat (map (enc_asn b) as)))"
proof (cases b)
  case True
  then have "put_asn b = stream_putl" "enc_asn b = put32" by (auto simp: fun_eq_iff put_asn_def enc_asn_def)
  then show ?thesis using assms True field_l.put_all_ok [OF assms(1), of as] by (simp add: assegment_data_put_def)
next
  case False
  have "put_asn b = (\<lambda>s a. stream_putw s (ucast (wire_asn False a)))"
    using False by (auto simp: fun_eq_iff put_asn_def wire_asn_def)
  then show ?thesis
    using assms False field_w.put_all_ok [OF assms(1), of "map (\<lambda>a. ucast (wire_asn False a)) as"]
    by (simp add: assegment_data_put_def put_all_map [where put = stream_putw and f = "\<lambda>a. ucast (wire_asn False a)"]
        comp_def enc_asn_False)
qed

lemma ucast16_id: "a \<le> BGP_AS_MAX \<Longrightarrow> ucast (ucast a :: u16) = a"
  by (rule word_unat_eq_iff [THEN iffD2]) (simp add: unsigned_ucast_eq unsigned_take_bit_eq word_le_nat_alt take_bit_nat_eq_self_iff)

lemma get_asns_wire:
  assumes "sane s" "unread s = concat (map (enc_asn b) as) @ rest"
  shows "get_asns b (length as) s = Some (map (wire_asn b) as, advance s (length as * (if b then 4 else 2)))"
proof (cases b)
  case True
  then have "enc_asn b = put32" "wire_asn b = id" by (auto simp: fun_eq_iff wire_asn_def enc_asn_def)
  then show ?thesis
    using field_l.get_n_ok [OF assms(1), of as rest] assms(2) True
    by (simp add: get_asns_def)
next
  case False
  have "ucast (ucast (wire_asn False a) :: u16) = wire_asn False a" for a by (simp add: wire_asn_def ucast16_id)
  then show ?thesis
    using field_w.get_n_ok [OF assms(1), of "map (\<lambda>a. ucast (wire_asn False a)) as" rest] assms(2) False
    by (simp add: get_asns_def get_n_map [where get = stream_getw and f = ucast] enc_asn_False comp_def)
qed

lemma header_put_wire:
  assumes "sane s" "n \<le> AS_SEGMENT_MAX" "2 \<le> STREAM_WRITEABLE s"
  shows "assegment_header_put s ty n = Some (endp s + 1, append_bytes s [ty, of_nat n])"
  using assms field_c.put_ok [OF assms(1), of ty] field_c.put_ok [of "append_bytes s [ty]" "of_nat n"]
  by (simp add: assegment_header_put_def stream_get_endp_def append_bytes_append)

lemma put_path_wire:
  assumes "sane s" "normalised segs" "\<forall>seg \<in> set segs. carriable seg" "length (path_wire b segs) \<le> STREAM_WRITEABLE s"
  shows "put_path s b segs bytes = Some (bytes + length (path_wire b segs), append_bytes s (path_wire b segs))"
  using assms
proof (induction segs arbitrary: s bytes)
  case (Cons seg segs)
  let ?n = "seg_length seg" and ?w = "if b then 4 else 2 :: nat"
  have n: "?n \<le> AS_SEGMENT_MAX" and room: "2 + ?n * ?w + length (path_wire b segs) \<le> STREAM_WRITEABLE s"
    using Cons.prems(3,4) by (simp_all add: carriable_def path_wire_def length_seg_wire ASSEGMENT_SIZE_def)
  have "\<not> ASSEGMENTS_PACKABLE seg nxt" if "segs = nxt # rest" for nxt rest
    using Cons.prems(2) that by (simp add: normalised_Cons ASSEGMENTS_PACKABLE_def)
  then have pk: "put_packed t seg b lenp wr segs 0 = Some (t, segs, 0)" for t lenp wr
    by (cases segs) auto
  let ?s = "append_bytes s [seg_type seg, of_nat ?n]"
  have hd: "assegment_header_put s (seg_type seg) ?n = Some (endp s + 1, ?s)"
    using header_put_wire [OF Cons.prems(1) n] room by simp
  have "assegment_data_put ?s (seg_as seg) b = Some (append_bytes ?s (concat (map (enc_asn b) (seg_as seg))))"
    by (rule put_asns_wire) (use Cons.prems(1) n room in simp_all)
  then have dt: "assegment_data_put ?s (seg_as seg) b = Some (append_bytes s (seg_wire b seg))"
    using Cons.prems(1) room by (simp add: append_bytes_append length_enc_asns seg_wire_def)
  have split: "put_split s seg b 0 bytes = Some (s, 0, bytes)" using n by (simp add: put_split.simps)
  let ?s' = "append_bytes s (seg_wire b seg)" and ?bytes = "bytes + ASSEGMENT_SIZE ?n b"
  have rest: "put_path ?s' b segs ?bytes = Some (?bytes + length (path_wire b segs), append_bytes ?s' (path_wire b segs))"
    by (rule Cons.IH) (use Cons.prems room in \<open>auto simp: normalised_Cons length_seg_wire ASSEGMENT_SIZE_def\<close>)
  have "append_bytes ?s' (path_wire b segs) = append_bytes s (path_wire b (seg # segs))"
    using Cons.prems(1) room by (simp add: append_bytes_append length_seg_wire ASSEGMENT_SIZE_def path_wire_def)
  then show ?case
    using room rest by (simp add: ASSEGMENT_SIZE_def split hd dt pk path_wire_def length_seg_wire)
qed (simp add: path_wire_def)

lemma parse_loop_wire:
  assumes "sane s" "unread s = path_wire b segs @ rest" "\<forall>seg \<in> set segs. carriable seg"
  shows "parse_loop s (bytes + length (path_wire b segs)) b bytes acc =
    Some (Some (acc @ map (wire_seg b) segs), advance s (length (path_wire b segs)))"
  using assms
proof (induction segs arbitrary: s bytes acc)
  case Nil
  then show ?case by (simp add: path_wire_def parse_loop.simps)
next
  case (Cons seg segs)
  let ?n = "seg_length seg" and ?len = "bytes + length (path_wire b (seg # segs))"
  have n: "0 < ?n" "?n < 256" "seperator (seg_type seg) \<noteq> None" using Cons.prems(3) by (auto simp: carriable_def)
  have un: "unat (of_nat ?n :: u8) = ?n" using n(2) by (simp add: unsigned_of_nat take_bit_nat_eq_self_iff)
  have nz: "(of_nat ?n :: u8) \<noteq> 0" using un n(1) by auto
  have size: "length (path_wire b (seg # segs)) = ASSEGMENT_SIZE ?n b + length (path_wire b segs)"
    by (simp add: path_wire_def length_seg_wire)
  let ?more = "concat (map (enc_asn b) (seg_as seg)) @ path_wire b segs @ rest"
  have u0: "unread s = [seg_type seg] @ [of_nat ?n] @ ?more" using Cons.prems(2) by (simp add: path_wire_def seg_wire_def)
  note a1 = unread_advance_append [OF Cons.prems(1) u0]
  have s1: "sane (advance s 1)" "unread (advance s 1) = [of_nat ?n] @ ?more" using a1 Cons.prems(1) by simp_all
  note a2 = unread_advance_append [OF s1]
  have s2: "sane (advance s 2)" "unread (advance s 2) = ?more" using a2 s1(1) sane_advance [OF s1(1), of 1] by (simp_all add: numeral_2_eq_2)
  note a3 = unread_advance_append [OF s2]
  let ?k = "length (concat (map (enc_asn b) (seg_as seg)))"
  have s3: "sane (advance (advance s 2) ?k)" "unread (advance (advance s 2) ?k) = path_wire b segs @ rest"
    by (rule sane_advance [OF s2(1) a3(1)], rule a3(2))
  have k: "2 + ?k = ASSEGMENT_SIZE ?n b" by (simp add: length_enc_asns ASSEGMENT_SIZE_def)
  have as: "get_asns b ?n (advance s 2) = Some (map (wire_asn b) (seg_as seg), advance (advance s 2) ?k)"
    using get_asns_wire [OF s2] by (simp add: length_enc_asns)
  have ty: "seg_type seg \<in> {AS_SEQUENCE, AS_SET, AS_CONFED_SEQUENCE, AS_CONFED_SET}"
    using n(3) by (auto simp: seperator_def split: if_splits)
  have new: "assegment_new (seg_type seg) (map (wire_asn b) (seg_as seg)) = wire_seg b seg"
    by (simp add: assegment_new_def wire_seg_def)
  define sz where "sz = ASSEGMENT_SIZE ?n b"
  have len: "?len = bytes + sz + length (path_wire b segs)" "2 < sz"
    using n(1) by (simp_all add: size sz_def ASSEGMENT_SIZE_def)
  have c: "stream_getc s = Some (seg_type seg, advance s 1)" "stream_getc (advance s 1) = Some (of_nat ?n, advance s 2)"
    using field_c.get_ok [OF Cons.prems(1) u0] field_c.get_ok [OF s1] by (simp_all add: numeral_2_eq_2)
  have "parse_loop s ?len b bytes acc =
      parse_loop (advance (advance s 2) ?k) ?len b (bytes + sz) (acc @ [wire_seg b seg])"
    unfolding len(1) using len(2) ty by (subst parse_loop.simps) (simp add: c un nz as new sz_def [symmetric] del: advance_simps One_nat_def)
  also have "\<dots> = Some (Some ((acc @ [wire_seg b seg]) @ map (wire_seg b) segs),
      advance (advance (advance s 2) ?k) (length (path_wire b segs)))"
    unfolding len(1) by (rule Cons.IH [OF s3]) (use Cons.prems(3) in simp)
  also have "advance (advance (advance s 2) ?k) (length (path_wire b segs)) = advance s (length (path_wire b (seg # segs)))"
    by (simp add: size k [symmetric])
  finally show ?case by simp
qed

subsection \<open>Hop counts and loop information\<close>

abbreviation all_asns :: "assegment list \<Rightarrow> u32 list" where
  "all_asns segs \<equiv> concat (map seg_as segs)"

lemma loop_check_eq: "aspath_loop_check (Some as) n = count_list (all_asns (segments as)) n"
proof -
  let ?f = "\<lambda>a count. if a = n then count + 1 else count"
  have "fold ?f xs k = k + count_list xs n" for xs k
    by (induction xs arbitrary: k) auto
  then have "fold (\<lambda>seg. fold ?f (seg_as seg)) segs k = k + count_list (all_asns segs) n" for segs k
    by (induction segs arbitrary: k) auto
  then show ?thesis by (simp add: aspath_loop_check_def)
qed

lemma count_list_filter: "count_list (filter P xs) x = (if P x then count_list xs x else 0)"
  by (induction xs) auto

lemma filter_segs_asns: "all_asns (filter_segs ex segs) = filter (\<lambda>a. \<not> excluded ex a) (all_asns segs)"
  by (induction segs) (auto simp: Let_def assegment_new_def)

lemma excluded_iff: "excluded ex a \<longleftrightarrow> a \<in> set (all_asns ex)"
  by (auto simp: excluded_def list_ex_iff)

text \<open>Hop count and AS numbers of a path are those of what it says, so normalising keeps both.\<close>

definition hop_weight :: "hop \<Rightarrow> nat" where
  "hop_weight h = (case h of As _ \<Rightarrow> 1 | Group ty _ \<Rightarrow> if ty = AS_SET then 1 else 0)"

definition hop_asns :: "hop \<Rightarrow> u32 set" where
  "hop_asns h = (case h of As a \<Rightarrow> {a} | Group _ as \<Rightarrow> set as)"

abbreviation hop_count :: "assegment list \<Rightarrow> nat" where
  "hop_count segs \<equiv> sum_list (map (\<lambda>seg. if seg_type seg = AS_SEQUENCE then seg_length seg
     else if seg_type seg = AS_SET then 1 else 0) segs)"

lemma hop_count_hops: "hop_count segs = sum_list (map hop_weight (path_hops segs))"
  by (induction segs) (auto simp: path_hops_def seg_hops_def hop_weight_def comp_def sum_list_triv)

lemma all_asns_hops: "set (all_asns segs) = (\<Union>h \<in> set (path_hops segs). hop_asns h)"
  by (induction segs) (auto simp: path_hops_def seg_hops_def hop_asns_def)

lemma normalise_hop_count: "total_length segs < 2 ^ 16 \<Longrightarrow> hop_count (assegment_normalise segs) = hop_count segs"
  using normalise_keeps [of segs] by (simp only: hop_count_hops)

lemma normalise_asns: "total_length segs < 2 ^ 16 \<Longrightarrow> set (all_asns (assegment_normalise segs)) = set (all_asns segs)"
  using normalise_keeps [of segs] by (simp only: all_asns_hops)

lemma reconcile_segs_ok:
  assumes "\<forall>seg \<in> set segs. seg_type seg = AS_SEQUENCE \<or> seg_type seg = AS_SET" "hops \<le> int (hop_count segs)" "0 < hops"
    "total_length segs < 2 ^ 16"
  shows "\<exists>new. reconcile_segs segs hops cp = Some new \<and> new \<noteq> [] \<and> int (hop_count new) = hops \<and>
    total_length new \<le> total_length segs"
  using assms
proof (induction segs arbitrary: hops cp)
  case (Cons seg segs)
  let ?set = "seg_type seg = AS_SET"
  define h cp' where "h = hops - (if ?set then 1 else int (seg_length seg))"
    and "cp' = (if ?set then int (seg_length seg) else min (int (seg_length seg)) hops)"
  define new where "new = assegment_append_asns (assegment_new (seg_type seg) []) (take (nat cp') (seg_as seg))"
  have new: "seg_type new = seg_type seg" "seg_as new = take (nat cp') (seg_as seg)"
    using Cons.prems(4) by (auto simp: new_def assegment_append_asns_def assegment_new_def min_def)
  obtain rest where rest: "reconcile_segs segs h cp' = Some rest" "int (hop_count rest) = max 0 h"
      "total_length rest \<le> total_length segs"
  proof (cases "0 < h")
    case True
    then show ?thesis using Cons.IH [of h cp'] Cons.prems that by (auto simp: h_def split: if_splits)
  next
    case False
    then have "reconcile_segs segs h cp' = Some []" by (cases segs) auto
    then show ?thesis using that False by simp
  qed
  have "reconcile_segs (seg # segs) hops cp = Some (new # rest)"
    using Cons.prems rest(1) by (auto simp: Let_def h_def cp'_def new_def)
  moreover have "int (hop_count (new # rest)) = hops"
    using Cons.prems rest(2) new by (auto simp: h_def cp'_def min_def max_def)
  moreover have "total_length (new # rest) \<le> total_length (seg # segs)"
    using rest(3) new by simp
  ultimately show ?case by blast
qed simp

subsection \<open>Properties\<close>

abbreviation seq :: "u32 list \<Rightarrow> assegment" where
  "seq as \<equiv> \<lparr>seg_type = AS_SEQUENCE, seg_as = as\<rparr>"

abbreviation path_of :: "assegment list \<Rightarrow> aspath" where
  "path_of segs \<equiv> aspath_new\<lparr>segments := segs\<rparr>"

text \<open>C15.  Canonical form.  \<^verbatim>\<open>assegment_normalise\<close> gives a path with sorted duplicate-free sets and no two
  adjacent sequences, running it again changes nothing, and two paths get the same representation
  exactly when they say the same: the same hops, sets taken as sets.\<close>

theorem assegment_normalise_canonical:
  assumes "total_length segs1 < 2 ^ 16" "total_length segs2 < 2 ^ 16" "seqs_nonempty segs1" "seqs_nonempty segs2"
  shows "normalised (assegment_normalise segs1) \<and>
    assegment_normalise (assegment_normalise segs1) = assegment_normalise segs1 \<and>
    (assegment_normalise segs1 = assegment_normalise segs2 \<longleftrightarrow> path_hops segs1 = path_hops segs2)"
proof -
  have "path_hops (assegment_normalise segs) = path_hops segs"
      "of_hops (path_hops (assegment_normalise segs)) = assegment_normalise segs"
    if "total_length segs < 2 ^ 16" "seqs_nonempty segs" for segs
    using normalise_keeps [OF that(1)] that(2) of_path_hops [OF normalise_normalised] by blast+
  then have "assegment_normalise segs1 = assegment_normalise segs2 \<longleftrightarrow> path_hops segs1 = path_hops segs2"
    using assms by metis
  then show ?thesis using normalise_normalised normalise_id by blast
qed

theorem assegment_normalise_canonical_witness:
  "assegment_normalise [seq [1, 2], seq [3], \<lparr>seg_type = AS_SET, seg_as = [7, 5, 7]\<rparr>] =
    assegment_normalise [seq [1], seq [2, 3], \<lparr>seg_type = AS_SET, seg_as = [5, 7]\<rparr>]"
  using assegment_normalise_canonical [of "[seq [1, 2], seq [3], \<lparr>seg_type = AS_SET, seg_as = [7, 5, 7]\<rparr>]"
      "[seq [1], seq [2, 3], \<lparr>seg_type = AS_SET, seg_as = [5, 7]\<rparr>]"]
  by (simp add: seqs_nonempty_def path_hops_def seg_hops_def insert_commute)

text \<open>C26.  The string of a path.  For every path the buffer that \<^verbatim>\<open>aspath_make_str_count\<close> sizes is large
  enough: nothing is truncated, the final assertion holds, and the string is the text of the segments;
  a path with a segment of unknown type gets no string.\<close>

theorem aspath_make_str_count_fits:
  "aspath_make_str_count as = Some (if types_known (segments as)
     then as\<lparr>as_str := Some (path_text (segments as)), as_str_len := length (path_text (segments as)) mod 2 ^ 16\<rparr>
     else as\<lparr>as_str := None, as_str_len := 0\<rparr>)"
  using make_str_count_eq [of as] by (simp only: with_str_def)

text \<open>C27.  Print and parse.  \<^verbatim>\<open>aspath_str2aspath\<close> reads the string of a normalised path back: the same
  segments and the same string.\<close>

theorem aspath_str2aspath_roundtrip:
  assumes "types_known segs" "seqs_nonempty segs" "normalised segs" "\<forall>seg \<in> set segs. seg_length seg < 2 ^ 16"
  shows "\<exists>as. aspath_str2aspath (path_text segs) = Some (Some as) \<and> segments as = segs \<and> as_str as = Some (path_text segs)"
  using loop_path [OF assms, of True AS_SEQUENCE aspath_new] assms(1)
  by (simp add: aspath_str2aspath_def make_str_count_eq aspath_new_def with_str_def)

theorem aspath_str2aspath_roundtrip_witness:
  "\<exists>as. aspath_str2aspath (path_text [seq [701, 65536], \<lparr>seg_type = AS_SET, seg_as = [5, 7]\<rparr>]) = Some (Some as) \<and>
    segments as = [seq [701, 65536], \<lparr>seg_type = AS_SET, seg_as = [5, 7]\<rparr>]"
  using aspath_str2aspath_roundtrip [of "[seq [701, 65536], \<lparr>seg_type = AS_SET, seg_as = [5, 7]\<rparr>]"]
  by (auto simp: types_known_def seqs_nonempty_def normalised_def seperator_def ASSEGMENT_TYPES_PACKABLE_def)

text \<open>C16.  Wire format.  A normalised non-empty path of carriable segments that fits in the stream is
  written without an abort, \<^verbatim>\<open>aspath_put\<close> returns the number of bytes it appended, and parsing them gives
  the path back; with two-octet AS numbers each number that does not fit arrives as AS_TRANS.\<close>

theorem aspath_put_parse_roundtrip:
  assumes "sane s" "unread s = []" "segments as \<noteq> []" "normalised (segments as)" "\<forall>seg \<in> set (segments as). carriable seg"
    "length (path_wire b (segments as)) \<le> STREAM_WRITEABLE s"
  shows "\<exists>n s' s''. aspath_put s as b = Some (n, s') \<and> sane s' \<and> n = length (unread s') \<and>
    assegments_parse s' n b = Some (Some (assegment_normalise (map (wire_seg b) (segments as))), s'') \<and> unread s'' = [] \<and>
    (b \<longrightarrow> map (wire_seg b) (segments as) = segments as)"
proof -
  let ?segs = "segments as" and ?s = "append_bytes s (path_wire b (segments as))"
  obtain seg segs where segs: "?segs = seg # segs" using assms(3) by (cases ?segs) auto
  have s: "sane ?s" "unread ?s = path_wire b ?segs @ []"
    using assms(1,2,6) by (simp_all add: unread_append_bytes)
  have len: "STREAM_READABLE ?s = length (path_wire b ?segs)" using length_unread [OF s(1)] s(2) by simp
  have even: "length (path_wire b ?segs) mod 2 = 0" "2 \<le> length (path_wire b ?segs)"
    using even_path_wire [of b ?segs] by (simp_all add: segs path_wire_def length_seg_wire ASSEGMENT_SIZE_def)
  have "aspath_put s as b = Some (length (path_wire b ?segs), ?s)"
    using put_path_wire [OF assms(1,4-6), of 0] assms(5) by (simp add: aspath_put_def segs carriable_def)
  moreover have "assegments_parse ?s (length (path_wire b ?segs)) b =
      Some (Some (assegment_normalise (map (wire_seg b) ?segs)), advance ?s (length (path_wire b ?segs)))"
    using parse_loop_wire [OF s assms(5), of 0 "[]"] len even by (auto simp: assegments_parse_def)
  moreover have "unread (advance ?s (length (path_wire b ?segs))) = []"
    by (rule unread_advance_append(2) [OF s])
  moreover have "b \<longrightarrow> map (wire_seg b) ?segs = ?segs"
    by (auto simp: wire_seg_True intro!: map_idI)
  ultimately show ?thesis using s by auto
qed

theorem aspath_put_parse_roundtrip_witness:
  "\<exists>n s' s''. aspath_put \<lparr>getp = 0, endp = 0, ssize = 64, data = replicate 64 0\<rparr> (path_of [seq [701, 65536]]) True =
      Some (n, s') \<and> assegments_parse s' n True = Some (Some [seq [701, 65536]], s'')"
proof -
  let ?s = "\<lparr>getp = 0, endp = 0, ssize = 64, data = replicate 64 0\<rparr>" and ?as = "path_of [seq [701, 65536]]"
  have "sane ?s" "unread ?s = []" by (simp_all add: sane_def unread_def)
  moreover have n: "normalised (segments ?as)" by (simp add: normalised_def)
  moreover have "\<forall>seg \<in> set (segments ?as). carriable seg" by (simp add: carriable_def seperator_def)
  moreover have "length (path_wire True (segments ?as)) \<le> STREAM_WRITEABLE ?s"
    by (simp add: path_wire_def length_seg_wire ASSEGMENT_SIZE_def STREAM_WRITEABLE_def)
  ultimately obtain n s' s'' where "aspath_put ?s ?as True = Some (n, s')"
      "assegments_parse s' n True = Some (Some (assegment_normalise (map (wire_seg True) (segments ?as))), s'')"
      "map (wire_seg True) (segments ?as) = segments ?as"
    using aspath_put_parse_roundtrip [of ?s ?as True] by auto
  then show ?thesis using normalise_id [OF n] by auto
qed

text \<open>Reconciling AS_PATH and AS4_PATH.  For a path of sequences and sets with at least as many hops as
  the AS4_PATH, the result exists, has the hop count of the AS_PATH, and contains every AS number of the
  AS4_PATH, so path length comparison and loop detection see what they should.\<close>

lemma aspath_reconcile_as4_keeps_length:
  assumes "\<forall>seg \<in> set (segments as). seg_type seg = AS_SEQUENCE \<or> seg_type seg = AS_SET"
    "aspath_count_hops as4path \<le> aspath_count_hops as"
    "total_length (segments as) + total_length (segments as4path) < 2 ^ 16"
  shows "\<exists>r. aspath_reconcile_as4 (Some as) as4path = Some (Some r) \<and> aspath_count_hops r = aspath_count_hops as \<and>
    set (all_asns (segments as4path)) \<subseteq> set (all_asns (segments r))"
proof -
  let ?hops = "int (aspath_count_hops as) - int (aspath_count_hops as4path)"
  have confeds: "aspath_count_confeds as = 0"
    using assms(1) by (auto simp: aspath_count_confeds_def)
  have dup: "segments (aspath_dup as4path) = segments as4path"
    by (auto simp: aspath_dup_def Let_def assegment_dup_all_def assegment_dup_def assegment_new_def intro!: map_idI
        split: option.split)
  show ?thesis
  proof (cases "?hops = 0")
    case True
    then show ?thesis by (simp add: aspath_reconcile_as4_def confeds aspath_count_hops_def dup)
  next
    case False
    then obtain new where new: "reconcile_segs (segments as) ?hops 0 = Some new" "new \<noteq> []" "int (hop_count new) = ?hops"
        "total_length new \<le> total_length (segments as)"
      using reconcile_segs_ok [of "segments as" ?hops 0] assms by (auto simp: aspath_count_hops_def)
    let ?segs = "new @ segments as4path"
    have dup_new: "assegment_dup_all new = new"
      by (auto simp: assegment_dup_all_def assegment_dup_def assegment_new_def intro!: map_idI)
    have "\<exists>r. aspath_reconcile_as4 (Some as) as4path = Some (Some r) \<and> segments r = assegment_normalise ?segs"
      using False assms(2) new(1,2) by (simp add: aspath_reconcile_as4_def confeds aspath_merge_def dup dup_new)
    moreover have "hop_count (assegment_normalise ?segs) = hop_count ?segs"
        "set (all_asns (assegment_normalise ?segs)) = set (all_asns ?segs)"
      using new(4) assms(3) by (intro normalise_hop_count normalise_asns; simp)+
    moreover have "hop_count ?segs = aspath_count_hops as"
      using new(3) assms(2) by (simp add: aspath_count_hops_def)
    ultimately show ?thesis by (auto simp: aspath_count_hops_def)
  qed
qed

text \<open>Excluding AS numbers.  \<^verbatim>\<open>aspath_filter_exclude\<close> returns a path whose AS numbers are those of the
  source, in order, without the listed ones.\<close>

lemma aspath_filter_exclude_removes:
  "\<exists>r. aspath_filter_exclude source excl = Some r \<and>
    all_asns (segments r) = filter (\<lambda>a. a \<notin> set (all_asns (segments excl))) (all_asns (segments source)) \<and>
    (\<forall>a. aspath_loop_check (Some r) a =
      (if aspath_loop_check (Some excl) a = 0 then aspath_loop_check (Some source) a else 0))"
  by (auto simp: aspath_filter_exclude_def filter_segs_asns excluded_iff loop_check_eq count_list_filter
      count_list_0_iff)


end
