(* ===== verification/Community.thy ===== *)
theory Community
  imports Quagga_Prelude
begin

text \<open>
  The communities attribute: \<^verbatim>\<open>bgpd/bgp_community.c\<close>.

  A community structure has a list of 32-bit values.  The C array keeps them in network byte order
  and every access converts; the model keeps the converted values, so that the \<open>memcmp\<close> of two
  entries is equality.  A null structure pointer is \<open>None\<close>.  The intern table of communities is in
  another theory.
\<close>

subsection \<open>Data\<close>

record community =
  com_refcnt :: nat
  com_val :: "u32 list"
  com_str :: "string option"

abbreviation com_size :: "community \<Rightarrow> nat" where
  "com_size com \<equiv> length (com_val com)"

abbreviation COMMUNITY_INTERNET :: u32 where "COMMUNITY_INTERNET \<equiv> 0"
abbreviation COMMUNITY_NO_EXPORT :: u32 where "COMMUNITY_NO_EXPORT \<equiv> 0xFFFFFF01"
abbreviation COMMUNITY_NO_ADVERTISE :: u32 where "COMMUNITY_NO_ADVERTISE \<equiv> 0xFFFFFF02"
abbreviation COMMUNITY_LOCAL_AS :: u32 where "COMMUNITY_LOCAL_AS \<equiv> 0xFFFFFF03"

subsection \<open>Values\<close>

definition community_new :: community where
  "community_new = \<lparr>com_refcnt = 0, com_val = [], com_str = None\<rparr>"

definition community_add_val :: "community \<Rightarrow> u32 \<Rightarrow> community" where
  "community_add_val com val = com\<lparr>com_val := com_val com @ [val]\<rparr>"

text \<open>The loop removes the first entry equal to the value and returns.\<close>

fun del_first :: "u32 list \<Rightarrow> u32 \<Rightarrow> u32 list" where
  "del_first [] val = []"
| "del_first (v # vs) val = (if v = val then vs else v # del_first vs val)"

definition community_del_val :: "community \<Rightarrow> u32 \<Rightarrow> community" where
  "community_del_val com val = com\<lparr>com_val := del_first (com_val com) val\<rparr>"

definition community_delete :: "community \<Rightarrow> community \<Rightarrow> community" where
  "community_delete com1 com2 = fold (\<lambda>val com. community_del_val com val) (com_val com2) com1"

definition community_include :: "community \<Rightarrow> u32 \<Rightarrow> bool" where
  "community_include com val = list_ex (\<lambda>v. val = v) (com_val com)"

text \<open>\<^verbatim>\<open>qsort\<close> with \<^verbatim>\<open>community_compare\<close>, the order of the converted values.\<close>

definition community_uniq_sort :: "community option \<Rightarrow> community option" where
  "community_uniq_sort com = (case com of
     None \<Rightarrow> None
   | Some com \<Rightarrow>
       let new = fold (\<lambda>val new. if \<not> community_include new val then community_add_val new val else new)
                   (com_val com) community_new
       in Some (new\<lparr>com_val := sort (com_val new)\<rparr>))"

definition community_dup :: "community \<Rightarrow> community" where
  "community_dup com = community_new\<lparr>com_val := com_val com\<rparr>"

text \<open>The sum of the bytes of the values.\<close>

definition community_hash_make :: "community \<Rightarrow> u32" where
  "community_hash_make com = fold (\<lambda>val key. fold (\<lambda>b key. key + ucast b) (put32 val) key) (com_val com) 0"

text \<open>The two indices of \<^verbatim>\<open>community_match\<close> are the positions in the two lists.\<close>

fun match_vals :: "u32 list \<Rightarrow> u32 list \<Rightarrow> bool" where
  "match_vals _ [] = True"
| "match_vals [] (_ # _) = False"
| "match_vals (v # vs) (w # ws) = (if v = w then match_vals vs ws else match_vals vs (w # ws))"

definition community_match :: "community option \<Rightarrow> community option \<Rightarrow> bool" where
  "community_match com1 com2 = (case (com1, com2) of
     (None, None) \<Rightarrow> True
   | (Some com1, Some com2) \<Rightarrow>
       if com_size com1 < com_size com2 then False else match_vals (com_val com1) (com_val com2)
   | _ \<Rightarrow> False)"

definition community_cmp :: "community option \<Rightarrow> community option \<Rightarrow> bool" where
  "community_cmp com1 com2 = (case (com1, com2) of
     (None, None) \<Rightarrow> True
   | (Some com1, Some com2) \<Rightarrow> com_size com1 = com_size com2 \<and> com_val com1 = com_val com2
   | _ \<Rightarrow> False)"

definition community_merge :: "community \<Rightarrow> community \<Rightarrow> community" where
  "community_merge com1 com2 = com1\<lparr>com_val := com_val com1 @ com_val com2\<rparr>"

subsection \<open>Strings\<close>

text \<open>The length that the first loop of \<^verbatim>\<open>community_com2str\<close> reserves for a value, and the text the second
  loop writes.\<close>

definition reserved_len :: "u32 \<Rightarrow> nat" where
  "reserved_len comval =
     (if comval = COMMUNITY_INTERNET then length '' internet''
      else if comval = COMMUNITY_NO_EXPORT then length '' no-export''
      else if comval = COMMUNITY_NO_ADVERTISE then length '' no-advertise''
      else if comval = COMMUNITY_LOCAL_AS then length '' local-AS''
      else length '' 65536:65535'')"

definition val_text :: "u32 \<Rightarrow> string" where
  "val_text comval =
     (if comval = COMMUNITY_INTERNET then ''internet''
      else if comval = COMMUNITY_NO_EXPORT then ''no-export''
      else if comval = COMMUNITY_NO_ADVERTISE then ''no-advertise''
      else if comval = COMMUNITY_LOCAL_AS then ''local-AS''
      else dec_str (unat (drop_bit 16 comval AND 0xFFFF)) @ '':'' @ dec_str (unat (comval AND 0xFFFF)))"

text \<open>\<open>buf\<close> is what has been written into the allocated \<open>len\<close> bytes; a store beyond them is an overrun.  Each
  \<open>strcpy\<close> and \<open>sprintf\<close> also stores a terminator after the text.\<close>

definition store_str :: "nat \<Rightarrow> string \<Rightarrow> string \<Rightarrow> string option" where
  "store_str len buf s = do {
     zassert (length buf + length s + 1 \<le> len);
     Some (buf @ s) }"

fun fill_str :: "nat \<Rightarrow> u32 list \<Rightarrow> bool \<Rightarrow> string \<Rightarrow> string option" where
  "fill_str len [] first buf = do {
     zassert (length buf < len);
     Some buf }"
| "fill_str len (comval # vals) first buf = do {
     buf \<leftarrow> (if first then Some buf else do { zassert (length buf < len); Some (buf @ '' '') });
     buf \<leftarrow> store_str len buf (val_text comval);
     fill_str len vals False buf }"

definition community_com2str :: "community option \<Rightarrow> string option option" where
  "community_com2str com = (case com of
     None \<Rightarrow> Some None
   | Some com \<Rightarrow>
       if com_size com = 0 then Some (Some '''')
       else do {
         str \<leftarrow> fill_str (sum_list (map reserved_len (com_val com))) (com_val com) True '''';
         Some (Some str) })"

definition community_str :: "community \<Rightarrow> (string option \<times> community) option" where
  "community_str com = (case com_str com of
     Some s \<Rightarrow> Some (Some s, com)
   | None \<Rightarrow> do {
       s \<leftarrow> community_com2str (Some com);
       Some (s, com\<lparr>com_str := s\<rparr>) })"

datatype community_token =
  community_token_val | community_token_no_export | community_token_no_advertise | community_token_local_as
| community_token_unknown

definition isalpha :: "char \<Rightarrow> bool" where
  "isalpha c \<longleftrightarrow> (of_char c :: nat) \<in> {65..90} \<union> {97..122}"

text \<open>The digits-and-colon loop: the rest of the string, the two halves, and whether the last item had a
  digit; \<open>None\<close> is a second colon.\<close>

fun value_loop :: "string \<Rightarrow> bool \<Rightarrow> bool \<Rightarrow> u32 \<Rightarrow> u32 \<Rightarrow> (string \<times> bool \<times> u32 \<times> u32) option" where
  "value_loop [] sep digit low high = Some ([], digit, low, high)"
| "value_loop (c # p) sep digit low high =
     (if c = CHR '':'' then
        if sep then None else value_loop p True False 0 (push_bit 16 low)
      else if isdigit c then value_loop p sep True (low * 10 + of_nat (digit_val c)) high
      else Some (c # p, digit, low, high))"

text \<open>The result: the new position (\<open>None\<close> is NULL), the token and the value.  At the end of the string
  neither token nor value is assigned.\<close>

definition community_gettoken ::
  "string \<Rightarrow> community_token \<Rightarrow> u32 \<Rightarrow> string option \<times> community_token \<times> u32" where
  "community_gettoken buf token val =
     (let p = dropWhile isspace buf in
      if p = [] then (None, token, val)
      else if isalpha (hd p) then
        if take 8 p = ''internet'' then (Some (drop 8 p), community_token_no_export, COMMUNITY_INTERNET)
        else if take 9 p = ''no-export'' then (Some (drop 9 p), community_token_no_export, COMMUNITY_NO_EXPORT)
        else if take 12 p = ''no-advertise'' then (Some (drop 12 p), community_token_no_advertise, COMMUNITY_NO_ADVERTISE)
        else if take 8 p = ''local-AS'' then (Some (drop 8 p), community_token_local_as, COMMUNITY_LOCAL_AS)
        else (None, community_token_unknown, val)
      else if isdigit (hd p) then
        (case value_loop p False False 0 0 of
           None \<Rightarrow> (None, community_token_unknown, val)
         | Some (p, digit, low, high) \<Rightarrow>
             if \<not> digit then (None, community_token_unknown, val)
             else (Some p, community_token_val, high + low))
      else (None, community_token_unknown, val))"

lemma value_loop_shorter: "value_loop p sep digit low high = Some (p', r) \<Longrightarrow> length p' \<le> length p"
  by (induction p sep digit low high rule: value_loop.induct) (auto split: if_splits)

lemma value_loop_progress: "isdigit (hd p) \<Longrightarrow> p \<noteq> [] \<Longrightarrow> value_loop p False False 0 0 = Some (p', r) \<Longrightarrow> length p' < length p"
  by (cases p) (auto simp: isdigit_def less_Suc_eq_le dest!: value_loop_shorter split: if_splits)

lemma com_gettoken_shorter:
  assumes "community_gettoken buf token val = (Some p, r)"
  shows "length p < length buf"
proof -
  define q where "q = dropWhile isspace buf"
  have "length q \<le> length buf" unfolding q_def by (rule length_dropWhile_le)
  moreover have "length p < length q"
    using assms value_loop_progress [of q] unfolding community_gettoken_def Let_def q_def [symmetric]
    by (cases q) (auto split: if_splits option.splits prod.splits)
  ultimately show ?thesis by simp
qed

function str2com_loop :: "string \<Rightarrow> community_token \<Rightarrow> u32 \<Rightarrow> community option \<Rightarrow> community option" where
  "str2com_loop str token val com =
     (let (str', token, val) = community_gettoken str token val in
      if token = community_token_unknown then None
      else
        let com = community_add_val (case com of None \<Rightarrow> community_new | Some c \<Rightarrow> c) val
        in case str' of
             None \<Rightarrow> Some com
           | Some str' \<Rightarrow> str2com_loop str' token val (Some com))"
  by pat_completeness auto
termination by (relation "measure (\<lambda>(str, _). length str)") (auto dest!: sym [of _ "community_gettoken _ _ _"] com_gettoken_shorter)

declare str2com_loop.simps [simp del]

definition community_str2com :: "string \<Rightarrow> community option" where
  "community_str2com str = community_uniq_sort (str2com_loop str community_token_unknown 0 None)"

subsection \<open>Sorted without duplicates\<close>

lemma community_include_iff: "community_include com val \<longleftrightarrow> val \<in> set (com_val com)"
  by (auto simp: community_include_def list_ex_iff)

lemma uniq_loop:
  "distinct (com_val new) \<Longrightarrow>
    (let new' = fold (\<lambda>val new. if \<not> community_include new val then community_add_val new val else new) vals new
     in distinct (com_val new') \<and> set (com_val new') = set (com_val new) \<union> set vals \<and>
       com_refcnt new' = com_refcnt new \<and> com_str new' = com_str new)"
proof (induction vals arbitrary: new)
  case (Cons v vals)
  then show ?case
    using Cons.IH [of new] Cons.IH [of "community_add_val new v"]
    by (auto simp: community_include_iff community_add_val_def Let_def)
qed (simp add: Let_def)

lemma uniq_sort_eq:
  "community_uniq_sort (Some com) = Some (community_new\<lparr>com_val := sorted_list_of_set (set (com_val com))\<rparr>)"
proof -
  define new where
    "new = fold (\<lambda>val new. if \<not> community_include new val then community_add_val new val else new) (com_val com) community_new"
  have n: "distinct (com_val new)" "set (com_val new) = set (com_val com)" "com_refcnt new = 0" "com_str new = None"
    using uniq_loop [of community_new "com_val com"] unfolding new_def [symmetric] by (simp_all add: community_new_def Let_def)
  have "sort (com_val new) = sorted_list_of_set (set (com_val com))"
    using sort_distinct [OF n(1)] by (simp only: n(2))
  then have "new\<lparr>com_val := sort (com_val new)\<rparr> = community_new\<lparr>com_val := sorted_list_of_set (set (com_val com))\<rparr>"
    using n(3,4) by (simp add: community_new_def)
  then show ?thesis by (simp add: community_uniq_sort_def Let_def new_def)
qed

lemma match_vals_subset:
  "sorted_wrt (<) vs \<Longrightarrow> sorted_wrt (<) ws \<Longrightarrow> match_vals vs ws \<longleftrightarrow> set ws \<subseteq> set vs"
proof (induction vs ws rule: match_vals.induct)
  case (3 v vs w ws)
  show ?case
  proof (cases "v = w")
    case True
    then have "v \<notin> set ws" using "3.prems" by auto
    then show ?thesis using "3.IH"(1) [OF True] "3.prems" True by auto
  next
    case False
    have "w \<notin> set vs" if "w < v" using that "3.prems" by auto
    moreover have "v \<notin> set ws" if "v < w" using that "3.prems" by auto
    ultimately show ?thesis using "3.IH"(2) [OF False] "3.prems" False by (auto simp: neq_iff)
  qed
qed auto

subsection \<open>Strings\<close>

lemma val_text_fits: "length (val_text comval) + 1 \<le> reserved_len comval"
proof -
  have "length (dec_str (unat w)) \<le> 5" if "w \<le> 0xFFFF" for w :: u32
    using that by (intro length_dec_str) (auto simp: word_le_nat_alt)
  from this [of "drop_bit 16 comval AND 0xFFFF"] this [of "comval AND 0xFFFF"]
  show ?thesis by (simp add: val_text_def reserved_len_def word_and_le1)
qed

definition vals_text :: "u32 list \<Rightarrow> string" where
  "vals_text vals = sep_by CHR '' '' (map val_text vals)"

lemma fill_str_ok:
  assumes "length buf + sum_list (map reserved_len vals) + (if first then 0 else 1) \<le> len" "length buf < len"
  shows "fill_str len vals first buf =
    Some (if vals = [] then buf else buf @ (if first then '''' else '' '') @ vals_text vals)"
  using assms
proof (induction vals arbitrary: buf first)
  case (Cons v vals)
  let ?buf = "buf @ (if first then '''' else '' '') @ val_text v"
  have "fill_str len (v # vals) first buf = fill_str len vals False ?buf"
    using Cons.prems val_text_fits [of v] by (auto simp: store_str_def)
  also have "\<dots> = Some (if vals = [] then ?buf else ?buf @ '' '' @ vals_text vals)"
    using Cons.IH [of ?buf False] Cons.prems val_text_fits [of v] by auto
  finally show ?case by (simp add: vals_text_def sep_by_Cons)
qed simp

lemma halves_ident: "push_bit 16 (drop_bit 16 w AND 0xFFFF) + (w AND 0xFFFF) = (w :: u32)"
proof -
  have "(0xFFFF :: u32) = mask 16" by (simp add: mask_eq_exp_minus_1)
  then have "w AND 0xFFFF = take_bit 16 w" "drop_bit 16 w AND 0xFFFF = take_bit 16 (drop_bit 16 w)"
    by (simp_all add: take_bit_eq_mask)
  moreover have "take_bit 16 (drop_bit 16 w) = drop_bit 16 w"
    by (rule bit_word_eqI) (auto simp: bit_simps dest: bit_imp_le_length)
  ultimately show ?thesis using bits_ident [of 16 w] by simp
qed

lemma value_loop_digits:
  assumes "\<forall>c \<in> set ds. isdigit c"
  shows "value_loop (ds @ rest) sep dig low high =
    value_loop rest sep (dig \<or> ds \<noteq> []) (foldl (\<lambda>v d. v * 10 + of_nat (digit_val d)) low ds) high"
  using assms
proof (induction ds arbitrary: dig low)
  case (Cons d ds)
  then have "d \<noteq> CHR '':''" by (auto simp: isdigit_def)
  then show ?case using Cons by simp
qed simp

lemma value_loop_dec:
  "value_loop (dec_str n @ rest) sep dig 0 high = value_loop rest sep True (of_nat n) high"
  using value_loop_digits [of "dec_str n" rest sep dig 0 high] dec_str_digits [of _ n]
    foldl_dec_of_nat [of 0 "dec_str n", where 'a = u32] dec_val_dec_str [of n]
  by (auto simp: dec_val_def)

lemma digit_not_space: "isdigit c \<Longrightarrow> \<not> isspace c" "isdigit c \<Longrightarrow> \<not> isalpha c"
  by (auto simp: isdigit_def isspace_def isalpha_def)

text \<open>The text of a value, followed by the end of the string or a space, is read back as that value.\<close>

lemma gettoken_val_text:
  assumes "rest = [] \<or> hd rest = CHR '' ''"
  shows "\<exists>tok'. community_gettoken (val_text v @ rest) tok val = (Some rest, tok', v) \<and> tok' \<noteq> community_token_unknown"
proof (cases "v = COMMUNITY_INTERNET \<or> v = COMMUNITY_NO_EXPORT \<or> v = COMMUNITY_NO_ADVERTISE \<or> v = COMMUNITY_LOCAL_AS")
  case True
  then show ?thesis
    by (elim disjE) (simp_all add: val_text_def community_gettoken_def isspace_def isalpha_def)
next
  case False
  let ?hi = "unat (drop_bit 16 v AND 0xFFFF)" and ?lo = "unat (v AND 0xFFFF)"
  have t: "val_text v @ rest = dec_str ?hi @ CHR '':'' # dec_str ?lo @ rest" using False by (simp add: val_text_def)
  obtain c ds where c: "dec_str ?hi = c # ds" "isdigit c"
    using dec_str_digits [of _ ?hi] by (cases "dec_str ?hi") auto
  have "value_loop rest True True low high = Some (rest, True, low, high)" for low high
    using assms by (cases rest) (auto simp: isdigit_def)
  then have "value_loop (val_text v @ rest) False False 0 0 =
      Some (rest, True, v AND 0xFFFF, push_bit 16 (drop_bit 16 v AND 0xFFFF))"
    by (simp add: t value_loop_dec)
  moreover have "dropWhile isspace (val_text v @ rest) = val_text v @ rest" "hd (val_text v @ rest) = c"
    using c digit_not_space by (simp_all add: t)
  ultimately show ?thesis
    using c(2) digit_not_space halves_ident [of v] by (simp add: community_gettoken_def t)
qed

lemma com_gettoken_space: "community_gettoken (CHR '' '' # s) tok val = community_gettoken s tok val"
  by (simp add: community_gettoken_def isspace_def)

text \<open>At the end of the string the loop runs once more with the old token and value.\<close>

lemma str2com_end:
  "tok \<noteq> community_token_unknown \<Longrightarrow>
    str2com_loop [] tok val (Some com) = Some (community_add_val com val)"
  by (subst str2com_loop.simps) (simp add: community_gettoken_def)

lemma str2com_vals:
  assumes "vals \<noteq> []"
  shows "\<exists>c. str2com_loop (vals_text vals) tok val com = Some c \<and>
    com_val c = (case com of None \<Rightarrow> [] | Some c \<Rightarrow> com_val c) @ vals @ [last vals]"
  using assms
proof (induction vals arbitrary: tok val com)
  case (Cons v vals)
  let ?rest = "if vals = [] then '''' else CHR '' '' # vals_text vals"
  let ?com = "community_add_val (case com of None \<Rightarrow> community_new | Some c \<Rightarrow> c) v"
  have t: "vals_text (v # vals) = val_text v @ ?rest" by (simp add: vals_text_def sep_by_Cons)
  have r: "?rest = [] \<or> hd ?rest = CHR '' ''" by simp
  obtain tok' where g: "community_gettoken (val_text v @ ?rest) tok val = (Some ?rest, tok', v)" "tok' \<noteq> community_token_unknown"
    using gettoken_val_text [OF r, of v tok val] by blast
  have step: "str2com_loop (vals_text (v # vals)) tok val com = str2com_loop ?rest tok' v (Some ?com)"
    unfolding t by (subst str2com_loop.simps) (simp add: g)
  have cv: "com_val ?com = (case com of None \<Rightarrow> [] | Some c \<Rightarrow> com_val c) @ [v]"
    by (simp add: community_add_val_def community_new_def split: option.split)
  show ?case
  proof (cases "vals = []")
    case True
    then show ?thesis using step str2com_end [OF g(2), of v ?com] cv by (simp add: community_add_val_def)
  next
    case False
    have "str2com_loop ?rest tok' v (Some ?com) = str2com_loop (vals_text vals) tok' v (Some ?com)"
      using False by (subst (1 2) str2com_loop.simps) (simp add: com_gettoken_space)
    then show ?thesis using step Cons.IH [OF False, of tok' v "Some ?com"] False cv by simp
  qed
qed simp

subsection \<open>Properties\<close>

text \<open>C29.  Sort and uniq: the result has the same values as the argument, each once, in ascending order; and on
  such communities \<^verbatim>\<open>community_match\<close> is inclusion and \<^verbatim>\<open>community_cmp\<close> equality of the value sets.\<close>

theorem community_uniq_sort_match:
  "\<exists>c1 c2. community_uniq_sort (Some com1) = Some c1 \<and> community_uniq_sort (Some com2) = Some c2 \<and>
    sorted_wrt (<) (com_val c1) \<and> set (com_val c1) = set (com_val com1) \<and>
    (community_match (Some c1) (Some c2) \<longleftrightarrow> set (com_val com2) \<subseteq> set (com_val com1)) \<and>
    (community_cmp (Some c1) (Some c2) \<longleftrightarrow> set (com_val com2) = set (com_val com1))"
proof -
  let ?l = "\<lambda>com. sorted_list_of_set (set (com_val com))"
  have l: "sorted_wrt (<) (?l com)" "set (?l com) = set (com_val com)" for com by simp_all
  let ?c = "\<lambda>com. community_new\<lparr>com_val := ?l com\<rparr>"
  have "match_vals (?l com1) (?l com2) \<longleftrightarrow> set (com_val com2) \<subseteq> set (com_val com1)"
    using match_vals_subset [OF l(1) l(1), of com1 com2] by simp
  moreover have "\<not> length (?l com1) < length (?l com2)" if "set (com_val com2) \<subseteq> set (com_val com1)"
    using that by (simp add: length_sorted_list_of_set card_mono not_less)
  ultimately have m: "community_match (Some (?c com1)) (Some (?c com2)) \<longleftrightarrow> set (com_val com2) \<subseteq> set (com_val com1)"
    by (cases "set (com_val com2) \<subseteq> set (com_val com1)") (simp_all add: community_match_def)
  have "?l com1 = ?l com2 \<longleftrightarrow> set (com_val com2) = set (com_val com1)"
    using l(2) by metis
  then have c: "community_cmp (Some (?c com1)) (Some (?c com2)) \<longleftrightarrow> set (com_val com2) = set (com_val com1)"
    by (cases "?l com1 = ?l com2") (simp_all add: community_cmp_def)
  show ?thesis
    by (rule exI [of _ "?c com1"], rule exI [of _ "?c com2"], intro conjI uniq_sort_eq m c) simp_all
qed

text \<open>C30.  Print and parse: the buffer that \<^verbatim>\<open>community_com2str\<close> allocates is never overrun, and
  \<^verbatim>\<open>community_str2com\<close> reads the string of a sorted duplicate-free community back, although its loop adds
  the last value twice.\<close>

theorem community_str_roundtrip:
  assumes "com_val com \<noteq> []"
  shows "\<exists>s c. community_com2str (Some com) = Some (Some s) \<and> length s < sum_list (map reserved_len (com_val com)) \<and>
    community_str2com s = Some c \<and> com_val c = sorted_list_of_set (set (com_val com)) \<and>
    (sorted_wrt (<) (com_val com) \<longrightarrow> com_val c = com_val com)"
proof -
  let ?len = "sum_list (map reserved_len (com_val com))"
  obtain v vs where v: "com_val com = v # vs" using assms by (cases "com_val com") auto
  have "0 < ?len" using val_text_fits [of v] by (simp add: v)
  then have f: "fill_str ?len (com_val com) True '''' = Some (vals_text (com_val com))"
    using fill_str_ok [of "''''" "com_val com" True ?len] assms by simp
  have len: "length (vals_text vals) < sum_list (map reserved_len vals)" if "vals \<noteq> []" for vals
    using that
  proof (induction vals)
    case (Cons v vals)
    then show ?case using val_text_fits [of v] by (cases "vals = []") (auto simp: vals_text_def sep_by_Cons)
  qed simp
  obtain c where c: "str2com_loop (vals_text (com_val com)) community_token_unknown 0 None = Some c"
      "com_val c = com_val com @ [last (com_val com)]"
    using str2com_vals [OF assms, of community_token_unknown 0 None] by auto
  have "set (com_val c) = set (com_val com)" using c(2) assms by auto
  then show ?thesis
    using f assms len [OF assms] c(1)
    by (simp add: community_com2str_def community_str2com_def uniq_sort_eq community_new_def strict_sorted_iff
        sorted_list_of_set.idem_if_sorted_distinct)
qed

theorem community_str_roundtrip_witness:
  "\<exists>s c. community_com2str (Some (community_new\<lparr>com_val := [0x10001, COMMUNITY_NO_EXPORT]\<rparr>)) = Some (Some s) \<and>
    community_str2com s = Some c \<and> com_val c = [0x10001, COMMUNITY_NO_EXPORT]"
  using community_str_roundtrip [of "community_new\<lparr>com_val := [0x10001, COMMUNITY_NO_EXPORT]\<rparr>"]
  by (auto simp: word_less_nat_alt)

end
