(* ===== verification/Zhash.thy ===== *)
theory Zhash
  imports Quagga_Prelude
begin

text \<open>
  The hash table of the suite, \<^verbatim>\<open>lib/hash.c\<close>, and the hash functions of \<^verbatim>\<open>lib/jhash.c\<close>.

  A table is an array of chains of backets; a chain is the list of its backets, first one first, and a
  backet its key and data.  The two function pointers of the C structure, \<open>hash_key\<close> and \<open>hash_cmp\<close>, are
  arguments of the operations that call them.  Sizes and counts are natural numbers; a table of \<open>2 ^ 31\<close>
  chains, whose doubling would not fit in an \<open>unsigned int\<close>, is out of reach.
\<close>

subsection \<open>Hash functions\<close>

definition jhash_mix :: "u32 \<times> u32 \<times> u32 \<Rightarrow> u32 \<times> u32 \<times> u32" where
  "jhash_mix abc =
     (let (a, b, c) = abc;
          a = (a - b - c) XOR drop_bit 13 c;
          b = (b - c - a) XOR push_bit 8 a;
          c = (c - a - b) XOR drop_bit 13 b;
          a = (a - b - c) XOR drop_bit 12 c;
          b = (b - c - a) XOR push_bit 16 a;
          c = (c - a - b) XOR drop_bit 5 b;
          a = (a - b - c) XOR drop_bit 3 c;
          b = (b - c - a) XOR push_bit 10 a;
          c = (c - a - b) XOR drop_bit 15 b
      in (a, b, c))"

definition JHASH_GOLDEN_RATIO :: u32 where
  "JHASH_GOLDEN_RATIO = 0x9e3779b9"

text \<open>Four bytes, least significant first.\<close>

definition le32 :: "u8 list \<Rightarrow> nat \<Rightarrow> u32" where
  "le32 k i = ucast (k ! i) + push_bit 8 (ucast (k ! (i + 1))) + push_bit 16 (ucast (k ! (i + 2))) +
     push_bit 24 (ucast (k ! (i + 3)))"

function jhash_loop :: "u8 list \<Rightarrow> u32 \<times> u32 \<times> u32 \<Rightarrow> u8 list \<times> u32 \<times> u32 \<times> u32" where
  "jhash_loop k abc =
     (if length k \<ge> 12 then
        let (a, b, c) = abc
        in jhash_loop (drop 12 k) (jhash_mix (a + le32 k 0, b + le32 k 4, c + le32 k 8))
      else (k, abc))"
  by pat_completeness auto
termination by (relation "measure (\<lambda>(k, _). length k)") auto

declare jhash_loop.simps [simp del]

definition tail_byte :: "u8 list \<Rightarrow> nat \<Rightarrow> nat \<Rightarrow> u32" where
  "tail_byte k i sh = (if i < length k then push_bit sh (ucast (k ! i)) else 0)"

text \<open>The \<open>switch\<close> falls through from the number of bytes left: each remaining byte is added.\<close>

definition jhash :: "u8 list \<Rightarrow> u32 \<Rightarrow> u32" where
  "jhash key initval =
     (let (k, a, b, c) = jhash_loop key (JHASH_GOLDEN_RATIO, JHASH_GOLDEN_RATIO, initval);
          c = c + of_nat (length key) + tail_byte k 10 24 + tail_byte k 9 16 + tail_byte k 8 8;
          b = b + tail_byte k 7 24 + tail_byte k 6 16 + tail_byte k 5 8 + tail_byte k 4 0;
          a = a + tail_byte k 3 24 + tail_byte k 2 16 + tail_byte k 1 8 + tail_byte k 0 0;
          (a, b, c) = jhash_mix (a, b, c)
      in c)"

fun jhash2_loop :: "u32 list \<Rightarrow> u32 \<times> u32 \<times> u32 \<Rightarrow> u32 list \<times> u32 \<times> u32 \<times> u32" where
  "jhash2_loop (x # y # z # k) (a, b, c) = jhash2_loop k (jhash_mix (a + x, b + y, c + z))"
| "jhash2_loop k abc = (k, abc)"

definition jhash2 :: "u32 list \<Rightarrow> u32 \<Rightarrow> u32" where
  "jhash2 key initval =
     (let (k, a, b, c) = jhash2_loop key (JHASH_GOLDEN_RATIO, JHASH_GOLDEN_RATIO, initval);
          c = c + of_nat (length key) * 4;
          b = (if length k \<ge> 2 then b + k ! 1 else b);
          a = (if length k \<ge> 1 then a + k ! 0 else a);
          (a, b, c) = jhash_mix (a, b, c)
      in c)"

text \<open>\<open>char\<close> is signed on the hosts the suite runs on: the conversion to \<open>unsigned int\<close> extends the sign.\<close>

definition string_hash_make :: "u8 list \<Rightarrow> u32" where
  "string_hash_make str = foldl (\<lambda>hash ch. (hash * 33) XOR scast ch) 0 (takeWhile (\<lambda>ch. ch \<noteq> 0) str)"

subsection \<open>The table\<close>

abbreviation HASH_INITIAL_SIZE :: nat where "HASH_INITIAL_SIZE \<equiv> 256"
abbreviation HASH_THRESHOLD :: nat where "HASH_THRESHOLD \<equiv> 10"

record 'd hash_backet =
  bkey :: u32
  bdata :: 'd

record 'd hash =
  hindex :: "'d hash_backet list list"
  hsize :: nat
  no_expand :: bool
  hcount :: nat

definition slot :: "u32 \<Rightarrow> nat \<Rightarrow> nat" where
  "slot key sz = unat key AND (sz - 1)"

definition hash_create_size :: "nat \<Rightarrow> 'd hash option" where
  "hash_create_size sz = do {
     zassert (sz AND (sz - 1) = 0);
     Some \<lparr>hindex = replicate sz [], hsize = sz, no_expand = False, hcount = 0\<rparr> }"

definition hash_create :: "'d hash option" where
  "hash_create = hash_create_size HASH_INITIAL_SIZE"

definition hash_alloc_intern :: "'d \<Rightarrow> 'd option" where
  "hash_alloc_intern arg = Some arg"

definition move_backet :: "nat \<Rightarrow> 'd hash_backet \<Rightarrow> 'd hash_backet list list \<Rightarrow> 'd hash_backet list list" where
  "move_backet new_size hb new_index =
     (let h = slot (bkey hb) new_size in new_index[h := hb # new_index ! h])"

text \<open>In a chain of length n the loop sees the lengths 1 to n: those above half of the threshold count as
  losers, and one that reaches the threshold stops further expansion.\<close>

definition chain_losers :: "'d hash_backet list \<Rightarrow> nat" where
  "chain_losers ch = length ch - HASH_THRESHOLD div 2"

definition hash_expand :: "'d hash \<Rightarrow> 'd hash" where
  "hash_expand hash =
     (let new_size = hsize hash * 2;
          new_index = fold (fold (move_backet new_size)) (hindex hash) (replicate new_size []);
          losers = sum_list (map chain_losers new_index)
      in hash\<lparr>hindex := new_index, hsize := new_size,
           no_expand := no_expand hash \<or> list_ex (\<lambda>ch. length ch \<ge> HASH_THRESHOLD) new_index \<or> losers > hcount hash div 2\<rparr>)"

definition backet_is :: "('d \<Rightarrow> 'd \<Rightarrow> bool) \<Rightarrow> u32 \<Rightarrow> 'd \<Rightarrow> 'd hash_backet \<Rightarrow> bool" where
  "backet_is cmp key d b \<longleftrightarrow> bkey b = key \<and> cmp (bdata b) d"

definition hash_get ::
  "('d \<Rightarrow> u32) \<Rightarrow> ('d \<Rightarrow> 'd \<Rightarrow> bool) \<Rightarrow> 'd hash \<Rightarrow> 'd \<Rightarrow> ('d \<Rightarrow> 'd option) option \<Rightarrow> 'd option \<times> 'd hash" where
  "hash_get hash_key cmp hash d alloc_func =
     (let key = hash_key d; index = slot key (hsize hash); ch = hindex hash ! index
      in case find (backet_is cmp key d) ch of
           Some b \<Rightarrow> (Some (bdata b), hash)
         | None \<Rightarrow>
             (case alloc_func of
                None \<Rightarrow> (None, hash)
              | Some alloc \<Rightarrow>
                  (case alloc d of
                     None \<Rightarrow> (None, hash)
                   | Some newdata \<Rightarrow>
                       let hash = (if length ch > HASH_THRESHOLD \<and> \<not> no_expand hash then hash_expand hash else hash);
                           index = slot key (hsize hash)
                       in (Some newdata,
                           hash\<lparr>hindex := (hindex hash)[index := \<lparr>bkey = key, bdata = newdata\<rparr> # hindex hash ! index],
                                hcount := hcount hash + 1\<rparr>))))"

definition hash_lookup :: "('d \<Rightarrow> u32) \<Rightarrow> ('d \<Rightarrow> 'd \<Rightarrow> bool) \<Rightarrow> 'd hash \<Rightarrow> 'd \<Rightarrow> 'd option" where
  "hash_lookup hash_key cmp hash d = fst (hash_get hash_key cmp hash d None)"

text \<open>The removal of the first backet that matches.\<close>

fun unchain :: "('b \<Rightarrow> bool) \<Rightarrow> 'b list \<Rightarrow> ('b \<times> 'b list) option" where
  "unchain P [] = None"
| "unchain P (b # bs) =
     (if P b then Some (b, bs) else do { (r, bs') \<leftarrow> unchain P bs; Some (r, b # bs') })"

definition hash_release :: "('d \<Rightarrow> u32) \<Rightarrow> ('d \<Rightarrow> 'd \<Rightarrow> bool) \<Rightarrow> 'd hash \<Rightarrow> 'd \<Rightarrow> 'd option \<times> 'd hash" where
  "hash_release hash_key cmp hash d =
     (let key = hash_key d; index = slot key (hsize hash)
      in case unchain (backet_is cmp key d) (hindex hash ! index) of
           Some (b, ch) \<Rightarrow> (Some (bdata b), hash\<lparr>hindex := (hindex hash)[index := ch], hcount := hcount hash - 1\<rparr>)
         | None \<Rightarrow> (None, hash))"

definition hash_iterate :: "'d hash \<Rightarrow> ('d hash_backet \<Rightarrow> 's \<Rightarrow> 's) \<Rightarrow> 's \<Rightarrow> 's" where
  "hash_iterate hash func arg = fold (fold func) (hindex hash) arg"

text \<open>The result lists the data that \<open>free_func\<close> is called with.\<close>

definition hash_clean :: "'d hash \<Rightarrow> 'd list \<times> 'd hash" where
  "hash_clean hash =
     (map bdata (concat (hindex hash)),
      hash\<lparr>hindex := map (\<lambda>_. []) (hindex hash), hcount := hcount hash - length (concat (hindex hash))\<rparr>)"

subsection \<open>The table as a set\<close>

definition backets :: "'d hash \<Rightarrow> 'd hash_backet list" where
  "backets H = concat (hindex H)"

definition hset :: "'d hash \<Rightarrow> 'd set" where
  "hset H = bdata ` set (backets H)"

text \<open>Every backet is in the chain of its key, and the count is the number of backets.\<close>

definition wf_index :: "'d hash \<Rightarrow> bool" where
  "wf_index H \<longleftrightarrow> length (hindex H) = hsize H \<and> (\<exists>k. hsize H = 2 ^ k) \<and>
     (\<forall>i < hsize H. \<forall>b \<in> set (hindex H ! i). slot (bkey b) (hsize H) = i) \<and> hcount H = length (backets H)"

lemma slot_mod: "slot key (2 ^ k) = unat key mod 2 ^ k"
  unfolding slot_def by (simp add: take_bit_eq_mask take_bit_eq_mod [symmetric] mask_eq_exp_minus_1)

lemma slot_less: "wf_index H \<Longrightarrow> slot key (hsize H) < length (hindex H)"
  by (auto simp: wf_index_def slot_mod)

lemma backet_in_chain:
  assumes "wf_index H"
  shows "b \<in> set (backets H) \<longleftrightarrow> b \<in> set (hindex H ! slot (bkey b) (hsize H))"
proof
  assume "b \<in> set (backets H)"
  then obtain i where "i < length (hindex H)" "b \<in> set (hindex H ! i)"
    by (auto simp: backets_def in_set_conv_nth [of _ "hindex H"])
  then show "b \<in> set (hindex H ! slot (bkey b) (hsize H))" using assms by (auto simp: wf_index_def)
next
  assume "b \<in> set (hindex H ! slot (bkey b) (hsize H))"
  then show "b \<in> set (backets H)"
    using slot_less [OF assms, of "bkey b"] nth_mem by (fastforce simp: backets_def)
qed

lemma mset_concat_update:
  assumes "i < length xss"
  shows "mset (concat (xss[i := ys])) = mset ys + mset (concat (xss[i := []]))"
    "mset (concat xss) = mset (xss ! i) + mset (concat (xss[i := []]))"
proof -
  show *: "mset (concat (xss[i := ys])) = mset ys + mset (concat (xss[i := []]))" for ys
    using assms by (simp add: upd_conv_take_nth_drop)
  show "mset (concat xss) = mset (xss ! i) + mset (concat (xss[i := []]))"
    using * [of "xss ! i"] by simp
qed

text \<open>A chain of a well-formed index replaced by one whose backets belong there.\<close>

lemma wf_index_update:
  assumes "wf_index H" "i < hsize H" "\<forall>b \<in> set ch. slot (bkey b) (hsize H) = i"
    "n = length (concat ((hindex H)[i := ch]))"
  shows "wf_index (H\<lparr>hindex := (hindex H)[i := ch], hcount := n\<rparr>)"
  using assms by (auto simp: wf_index_def backets_def nth_list_update)

lemma move_backet_ok:
  assumes "length idx = sz" "sz = 2 ^ k"
  shows "length (move_backet sz hb idx) = sz" "mset (concat (move_backet sz hb idx)) = add_mset hb (mset (concat idx))"
    "(\<forall>i < sz. \<forall>b \<in> set (idx ! i). slot (bkey b) sz = i) \<Longrightarrow>
      (\<forall>i < sz. \<forall>b \<in> set (move_backet sz hb idx ! i). slot (bkey b) sz = i)"
proof -
  let ?h = "slot (bkey hb) sz"
  have h: "?h < length idx" using assms by (simp add: slot_mod)
  show "length (move_backet sz hb idx) = sz" using assms by (simp add: move_backet_def Let_def)
  show "mset (concat (move_backet sz hb idx)) = add_mset hb (mset (concat idx))"
    using mset_concat_update(1) [OF h, of "hb # idx ! ?h"] mset_concat_update(2) [OF h] by (simp add: move_backet_def Let_def)
  show "(\<forall>i < sz. \<forall>b \<in> set (idx ! i). slot (bkey b) sz = i) \<Longrightarrow>
      (\<forall>i < sz. \<forall>b \<in> set (move_backet sz hb idx ! i). slot (bkey b) sz = i)"
    using h assms by (auto simp: move_backet_def Let_def nth_list_update split: if_splits)
qed

lemma move_chain_ok:
  assumes "length idx = sz" "sz = 2 ^ k" "\<forall>i < sz. \<forall>b \<in> set (idx ! i). slot (bkey b) sz = i"
  shows "length (fold (move_backet sz) ch idx) = sz \<and>
    mset (concat (fold (move_backet sz) ch idx)) = mset ch + mset (concat idx) \<and>
    (\<forall>i < sz. \<forall>b \<in> set (fold (move_backet sz) ch idx ! i). slot (bkey b) sz = i)"
  using assms
proof (induction ch arbitrary: idx)
  case (Cons hb ch)
  note m = move_backet_ok [OF Cons.prems(1,2), of hb]
  show ?case using Cons.IH [OF m(1) Cons.prems(2) m(3) [OF Cons.prems(3)]] m(2) by simp
qed simp

lemma move_chains_ok:
  assumes "length idx = sz" "sz = 2 ^ k" "\<forall>i < sz. \<forall>b \<in> set (idx ! i). slot (bkey b) sz = i"
  shows "length (fold (fold (move_backet sz)) chs idx) = sz \<and>
    mset (concat (fold (fold (move_backet sz)) chs idx)) = mset (concat chs) + mset (concat idx) \<and>
    (\<forall>i < sz. \<forall>b \<in> set (fold (fold (move_backet sz)) chs idx ! i). slot (bkey b) sz = i)"
  using assms
proof (induction chs arbitrary: idx)
  case (Cons ch chs)
  have m: "length (fold (move_backet sz) ch idx) = sz" "\<forall>i < sz. \<forall>b \<in> set (fold (move_backet sz) ch idx ! i). slot (bkey b) sz = i"
    "mset (concat (fold (move_backet sz) ch idx)) = mset ch + mset (concat idx)"
    using move_chain_ok [OF Cons.prems, of ch] by auto
  show ?case using Cons.IH [OF m(1) Cons.prems(2) m(2)] m(3) by simp
qed simp

text \<open>Expansion doubles the index and keeps the backets.\<close>

lemma hash_expand_ok:
  assumes "wf_index H"
  shows "wf_index (hash_expand H)" "mset (backets (hash_expand H)) = mset (backets H)" "hcount (hash_expand H) = hcount H"
proof -
  obtain k where k: "hsize H = 2 ^ k" using assms by (auto simp: wf_index_def)
  let ?sz = "hsize H * 2"
  have m: "length (hindex (hash_expand H)) = ?sz" "mset (backets (hash_expand H)) = mset (backets H)"
      "\<forall>i < ?sz. \<forall>b \<in> set (hindex (hash_expand H) ! i). slot (bkey b) ?sz = i" "hsize (hash_expand H) = ?sz"
      "hcount (hash_expand H) = hcount H"
    using move_chains_ok [of "replicate ?sz []" ?sz "Suc k" "hindex H"] k
    by (simp_all add: hash_expand_def Let_def backets_def)
  have "length (backets (hash_expand H)) = length (backets H)" using m(2) by (rule mset_eq_length)
  moreover have "?sz = 2 ^ Suc k" using k by simp
  ultimately show "wf_index (hash_expand H)" using assms m(1,3-5) unfolding wf_index_def by metis
  show "mset (backets (hash_expand H)) = mset (backets H)" "hcount (hash_expand H) = hcount H" by fact+
qed

subsection \<open>What a client relies on\<close>

text \<open>The stored keys are the keys of the data, and no two entries are equal in the sense of \<open>cmp\<close>.\<close>

definition wf_hash :: "('d \<Rightarrow> bool) \<Rightarrow> ('d \<Rightarrow> u32) \<Rightarrow> ('d \<Rightarrow> 'd \<Rightarrow> bool) \<Rightarrow> 'd hash \<Rightarrow> bool" where
  "wf_hash valid key cmp H \<longleftrightarrow> wf_index H \<and> (\<forall>x \<in> hset H. valid x) \<and> (\<forall>b \<in> set (backets H). bkey b = key (bdata b)) \<and>
     distinct (map bdata (backets H)) \<and> (\<forall>x \<in> hset H. \<forall>y \<in> hset H. cmp x y \<longrightarrow> x = y)"

lemma find_Some_in: "find P xs = Some x \<Longrightarrow> x \<in> set xs \<and> P x"
  by (auto simp: find_Some_iff)

lemma unchain_None: "unchain P xs = None \<longleftrightarrow> (\<forall>x \<in> set xs. \<not> P x)"
  by (induction xs) auto

lemma unchain_Some: "unchain P xs = Some (x, ys) \<Longrightarrow> P x \<and> mset xs = add_mset x (mset ys)"
  by (induction xs arbitrary: ys) (auto split: if_splits option.splits simp: bind_eq_Some_conv)

text \<open>Any pair of key and comparison functions such that, on valid data, comparison is symmetric and transitive
  and equal data have equal keys.\<close>

locale hash_client =
  fixes valid :: "'d \<Rightarrow> bool" and key :: "'d \<Rightarrow> u32" and cmp :: "'d \<Rightarrow> 'd \<Rightarrow> bool"
  assumes cmp_key: "valid x \<Longrightarrow> valid y \<Longrightarrow> cmp x y \<Longrightarrow> key x = key y"
    and cmp_sym: "valid x \<Longrightarrow> valid y \<Longrightarrow> cmp x y \<Longrightarrow> cmp y x"
    and cmp_trans: "valid x \<Longrightarrow> valid y \<Longrightarrow> valid z \<Longrightarrow> cmp x y \<Longrightarrow> cmp y z \<Longrightarrow> cmp x z"
begin

lemma matching_backet:
  assumes "wf_hash valid key cmp H" "x \<in> hset H" "cmp x d" "valid d"
  shows "\<exists>b \<in> set (hindex H ! slot (key d) (hsize H)). backet_is cmp (key d) d b \<and> bdata b = x"
proof -
  obtain b where b: "b \<in> set (backets H)" "bdata b = x" using assms(2) by (auto simp: hset_def)
  then have "bkey b = key d" using assms cmp_key by (auto simp: wf_hash_def)
  then show ?thesis
    using b assms backet_in_chain [of H b] by (intro bexI [of _ b]) (auto simp: wf_hash_def backet_is_def)
qed

lemma matching_backet_unique:
  assumes "wf_hash valid key cmp H" "x \<in> hset H" "cmp x d" "valid d"
    "b \<in> set (hindex H ! slot (key d) (hsize H))" "backet_is cmp (key d) d b"
  shows "bdata b = x"
proof -
  have "b \<in> set (backets H)"
    using assms(1,5,6) backet_in_chain [of H b] by (auto simp: wf_hash_def backet_is_def)
  then have "bdata b \<in> hset H" by (auto simp: hset_def)
  moreover from this have "cmp (bdata b) x"
    using assms cmp_trans [of "bdata b" d x] cmp_sym [of x d] by (auto simp: backet_is_def wf_hash_def)
  ultimately show ?thesis using assms(1,2) by (auto simp: wf_hash_def)
qed

lemma get_found:
  assumes "wf_hash valid key cmp H" "x \<in> hset H" "cmp x d" "valid d"
  shows "hash_get key cmp H d alloc = (Some x, H)"
proof -
  let ?ch = "hindex H ! slot (key d) (hsize H)"
  obtain b where "find (backet_is cmp (key d) d) ?ch = Some b"
    using matching_backet [OF assms] by (cases "find (backet_is cmp (key d) d) ?ch") (auto simp: find_None_iff)
  moreover from this have "bdata b = x"
    using find_Some_in matching_backet_unique [OF assms] by fast
  ultimately show ?thesis by (simp add: hash_get_def Let_def)
qed

lemma find_none:
  assumes "wf_hash valid key cmp H" "\<forall>x \<in> hset H. \<not> cmp x d"
  shows "find (backet_is cmp (key d) d) (hindex H ! slot (key d) (hsize H)) = None"
proof (rule ccontr)
  assume "\<not> ?thesis"
  then obtain b where "b \<in> set (hindex H ! slot (key d) (hsize H))" "backet_is cmp (key d) d b"
    using find_Some_in by fastforce
  then show False
    using assms backet_in_chain [of H b] by (auto simp: wf_hash_def backet_is_def hset_def)
qed

lemma get_absent:
  assumes "wf_hash valid key cmp H" "\<forall>x \<in> hset H. \<not> cmp x d"
  shows "hash_get key cmp H d None = (None, H)"
  using find_none [OF assms] by (simp add: hash_get_def Let_def)

lemma get_inserts:
  assumes H: "wf_hash valid key cmp H" and absent: "\<forall>x \<in> hset H. \<not> cmp x d" and new: "alloc d = Some n" "n \<notin> hset H" "key n = key d" "cmp n d"
    "valid n" "valid d"
  shows "\<exists>H'. hash_get key cmp H d (Some alloc) = (Some n, H') \<and> wf_hash valid key cmp H' \<and> hset H' = insert n (hset H) \<and>
    hcount H' = hcount H + 1"
proof -
  let ?ch = "hindex H ! slot (key d) (hsize H)" and ?b = "\<lparr>bkey = key d, bdata = n\<rparr>"
  define H1 where "H1 = (if length ?ch > HASH_THRESHOLD \<and> \<not> no_expand H then hash_expand H else H)"
  have wfi: "wf_index H" using H by (simp add: wf_hash_def)
  have H1: "wf_index H1" "mset (backets H1) = mset (backets H)" "hcount H1 = hcount H"
    using hash_expand_ok [OF wfi] wfi by (auto simp: H1_def)
  let ?i = "slot (key d) (hsize H1)"
  define H2 where "H2 = H1\<lparr>hindex := (hindex H1)[?i := ?b # hindex H1 ! ?i], hcount := hcount H1 + 1\<rparr>"
  have i: "?i < length (hindex H1)" by (rule slot_less [OF H1(1)])
  have m: "mset (backets H2) = add_mset ?b (mset (backets H1))"
    using mset_concat_update(1) [OF i, of "?b # hindex H1 ! ?i"] mset_concat_update(2) [OF i] by (simp add: H2_def backets_def)
  have len: "hcount H1 + 1 = length (concat ((hindex H1)[?i := ?b # hindex H1 ! ?i]))"
    using arg_cong [OF m, of size] H1(1) by (simp add: H2_def backets_def wf_index_def)
  have "wf_index H2"
    unfolding H2_def by (rule wf_index_update [OF H1(1) _ _ len]) (use i H1(1) in \<open>auto simp: wf_index_def\<close>)
  moreover have s: "set (backets H2) = insert ?b (set (backets H))"
    using m H1(2) by (metis set_mset_add_mset_insert set_mset_mset)
  moreover have hs: "hset H2 = insert n (hset H)" by (simp add: hset_def s)
  moreover have "distinct (map bdata (backets H2))"
  proof -
    have "mset (map bdata (backets H2)) = add_mset n (mset (map bdata (backets H)))" using m H1(2) by simp
    then have "mset (map bdata (backets H2)) = mset (n # map bdata (backets H))" by simp
    moreover have "distinct (n # map bdata (backets H))" using H new(2) by (auto simp: wf_hash_def hset_def)
    ultimately show ?thesis using mset_eq_imp_distinct_iff by blast
  qed
  moreover have "\<forall>x \<in> insert n (hset H). \<forall>y \<in> insert n (hset H). cmp x y \<longrightarrow> x = y"
    using H absent new cmp_trans cmp_sym unfolding wf_hash_def by blast
  ultimately have "wf_hash valid key cmp H2" using H new(3,5) by (auto simp: wf_hash_def)
  moreover have "hash_get key cmp H d (Some alloc) = (Some n, H2)"
    using find_none [OF H absent] new(1) by (simp add: hash_get_def Let_def H1_def H2_def)
  ultimately show ?thesis using hs H1(3) by (auto simp: H2_def)
qed

lemma release_found:
  assumes H: "wf_hash valid key cmp H" and x: "x \<in> hset H" "cmp x d" "valid d"
  shows "\<exists>H'. hash_release key cmp H d = (Some x, H') \<and> wf_hash valid key cmp H' \<and> hset H' = hset H - {x} \<and>
    hcount H' = hcount H - 1"
proof -
  let ?i = "slot (key d) (hsize H)"
  have wfi: "wf_index H" using H by (simp add: wf_hash_def)
  have i: "?i < length (hindex H)" by (rule slot_less [OF wfi])
  obtain b ch where u: "unchain (backet_is cmp (key d) d) (hindex H ! ?i) = Some (b, ch)"
    using matching_backet [OF H x] unchain_None [of "backet_is cmp (key d) d" "hindex H ! ?i"]
    by (cases "unchain (backet_is cmp (key d) d) (hindex H ! ?i)") auto
  have b: "backet_is cmp (key d) d b" "mset (hindex H ! ?i) = add_mset b (mset ch)" using unchain_Some [OF u] by auto
  have sub: "insert b (set ch) = set (hindex H ! ?i)" using b(2) by (metis set_mset_add_mset_insert set_mset_mset)
  have bx: "bdata b = x" by (rule matching_backet_unique [OF H x]) (use sub b(1) in auto)
  define H2 where "H2 = H\<lparr>hindex := (hindex H)[?i := ch], hcount := hcount H - 1\<rparr>"
  have m: "add_mset b (mset (backets H2)) = mset (backets H)"
    using mset_concat_update(1) [OF i, of ch] mset_concat_update(2) [OF i] b(2) by (simp add: H2_def backets_def)
  have len: "hcount H - 1 = length (concat ((hindex H)[?i := ch]))"
    using arg_cong [OF m, of size] wfi by (simp add: H2_def backets_def wf_index_def)
  have "wf_index H2"
    unfolding H2_def by (rule wf_index_update [OF wfi _ _ len]) (use i wfi sub in \<open>auto simp: wf_index_def\<close>)
  moreover have s: "set (backets H) = insert b (set (backets H2))" using m by (metis set_mset_add_mset_insert set_mset_mset)
  moreover have d: "distinct (x # map bdata (backets H2))"
  proof -
    have "mset (map bdata (backets H)) = mset (x # map bdata (backets H2))"
      using bx by (simp flip: m add: mset_map)
    from mset_eq_imp_distinct_iff [OF this] show ?thesis using H by (simp add: wf_hash_def)
  qed
  moreover have hs: "hset H2 = hset H - {x}" using s d bx by (auto simp: hset_def)
  ultimately have "wf_hash valid key cmp H2" using H by (auto simp: wf_hash_def)
  moreover have "hash_release key cmp H d = (Some x, H2)" using u bx by (simp add: hash_release_def Let_def H2_def)
  ultimately show ?thesis using hs by (auto simp: H2_def)
qed

end

lemma hash_create_size_ok:
  "\<exists>H. hash_create_size (2 ^ k) = Some H \<and> wf_hash valid key cmp H \<and> hset H = {} \<and> hcount H = 0"
proof -
  have "2 ^ k AND (2 ^ k - 1) = take_bit k (2 ^ k :: nat)" by (simp only: take_bit_eq_mask mask_eq_exp_minus_1)
  then show ?thesis
    by (simp add: hash_create_size_def wf_hash_def wf_index_def backets_def hset_def take_bit_eq_mod)
qed

end
