(* ===== verification/Attr_Intern.thy ===== *)
theory Attr_Intern
  imports Aspath_Laws Community Zhash
begin

text \<open>
  The intern tables of AS paths and communities: \<^verbatim>\<open>aspath_intern\<close>, \<^verbatim>\<open>aspath_unintern\<close>, \<^verbatim>\<open>aspath_parse\<close>,
  \<^verbatim>\<open>community_intern\<close>, \<^verbatim>\<open>community_unintern\<close> and \<^verbatim>\<open>community_parse\<close>.

  The objects live in a store of addresses; the hash table holds addresses and compares what they point
  to.  Both pairs of functions have the same core, \<open>intern_obj\<close> and \<open>release_obj\<close>.  The abstract
  specification is a reference count per value: interning adds one, uninterning takes one away, and two
  interned objects have the same value only when they are the same object.
\<close>

subsection \<open>Objects, keys and comparison\<close>

record 'o ostore =
  objs :: "addr \<Rightarrow> 'o option"
  otable :: "addr hash"

definition okey :: "('o \<Rightarrow> u32) \<Rightarrow> (addr \<Rightarrow> 'o option) \<Rightarrow> addr \<Rightarrow> u32" where
  "okey key h a = (case h a of Some x \<Rightarrow> key x | None \<Rightarrow> 0)"

definition ocmp :: "('o \<Rightarrow> 'o \<Rightarrow> bool) \<Rightarrow> (addr \<Rightarrow> 'o option) \<Rightarrow> addr \<Rightarrow> addr \<Rightarrow> bool" where
  "ocmp cmp h a b = (case (h a, h b) of (Some x, Some y) \<Rightarrow> cmp x y | _ \<Rightarrow> False)"

text \<open>The common part of the intern functions: look the object up or enter it, free it when another one was
  found, and count the reference.\<close>

definition intern_obj ::
  "('o \<Rightarrow> u32) \<Rightarrow> ('o \<Rightarrow> 'o \<Rightarrow> bool) \<Rightarrow> ('o \<Rightarrow> nat) \<Rightarrow> (nat \<Rightarrow> 'o \<Rightarrow> 'o) \<Rightarrow> 'o ostore \<Rightarrow> addr \<Rightarrow> (addr \<times> 'o ostore) option" where
  "intern_obj key cmp refc set_refc st a =
     (let (found, H) = hash_get (okey key (objs st)) (ocmp cmp (objs st)) (otable st) a (Some hash_alloc_intern) in do {
        b \<leftarrow> found;
        let h = (if b \<noteq> a then (objs st)(a := None) else objs st) in do {
          x \<leftarrow> h b;
          Some (b, st\<lparr>objs := h(b \<mapsto> set_refc (refc x + 1) x), otable := H\<rparr>) } })"

text \<open>The common part of the unintern functions; the result is the pointer afterwards.\<close>

definition release_obj ::
  "('o \<Rightarrow> u32) \<Rightarrow> ('o \<Rightarrow> 'o \<Rightarrow> bool) \<Rightarrow> ('o \<Rightarrow> nat) \<Rightarrow> (nat \<Rightarrow> 'o \<Rightarrow> 'o) \<Rightarrow> 'o ostore \<Rightarrow> addr \<Rightarrow>
   (addr option \<times> 'o ostore) option" where
  "release_obj key cmp refc set_refc st a = do {
     x \<leftarrow> objs st a;
     let x = (if refc x \<noteq> 0 then set_refc (refc x - 1) x else x); h = (objs st)(a \<mapsto> x) in
     if refc x = 0 then
       let (ret, H) = hash_release (okey key h) (ocmp cmp h) (otable st) a in do {
         zassert (ret \<noteq> None);
         Some (None, st\<lparr>objs := h(a := None), otable := H\<rparr>) }
     else Some (Some a, st\<lparr>objs := h\<rparr>) }"

subsection \<open>AS paths\<close>

definition path_key :: "aspath \<Rightarrow> u32" where
  "path_key as = jhash (map of_char (case as_str as of Some s \<Rightarrow> take (as_str_len as) s | None \<Rightarrow> '''')) 2334325"

text \<open>The key function makes the string first when the path has none.\<close>

definition aspath_key_make :: "aspath \<Rightarrow> (u32 \<times> aspath) option" where
  "aspath_key_make as = do {
     as \<leftarrow> (if as_str as = None then aspath_str_update as else Some as);
     Some (path_key as, as) }"

definition aspath_init :: "aspath ostore option" where
  "aspath_init = do {
     H \<leftarrow> hash_create_size 32768;
     Some \<lparr>objs = Map.empty, otable = H\<rparr> }"

definition aspath_intern :: "aspath ostore \<Rightarrow> addr \<Rightarrow> (addr \<times> aspath ostore) option" where
  "aspath_intern st a = do {
     as \<leftarrow> objs st a;
     zassert (refcnt as = 0);
     zassert (as_str as \<noteq> None);
     intern_obj path_key aspath_cmp refcnt (\<lambda>n as. as\<lparr>refcnt := n\<rparr>) st a }"

definition aspath_unintern :: "aspath ostore \<Rightarrow> addr \<Rightarrow> (addr option \<times> aspath ostore) option" where
  "aspath_unintern st a = release_obj path_key aspath_cmp refcnt (\<lambda>n as. as\<lparr>refcnt := n\<rparr>) st a"

text \<open>\<open>tmp\<close> is the address of the structure on the stack, \<open>new\<close> the one that \<^verbatim>\<open>aspath_hash_alloc\<close> gets for a
  path that is not in the table: a copy that takes over segments and string.\<close>

definition aspath_hash_alloc :: "aspath \<Rightarrow> aspath option" where
  "aspath_hash_alloc as = do {
     zassert (as_str as \<noteq> None);
     Some (as\<lparr>refcnt := 0\<rparr>) }"

definition aspath_parse ::
  "aspath ostore \<Rightarrow> stream \<Rightarrow> nat \<Rightarrow> bool \<Rightarrow> addr \<Rightarrow> addr \<Rightarrow> (addr option \<times> stream \<times> aspath ostore) option" where
  "aspath_parse st s len use32bit tmp new =
     (if len mod 2 \<noteq> 0 then Some (None, s, st)
      else do {
        (r, s) \<leftarrow> assegments_parse s len use32bit;
        case r of
          None \<Rightarrow> Some (None, s, st)
        | Some segs \<Rightarrow> do {
            (_, as) \<leftarrow> aspath_key_make (aspath_new\<lparr>segments := segs\<rparr>);
            let h = (objs st)(tmp \<mapsto> as);
                (found, H) = hash_get (okey path_key h) (ocmp aspath_cmp h) (otable st) tmp (Some (\<lambda>_. Some new)) in do {
              b \<leftarrow> found;
              x \<leftarrow> (if b = new then aspath_hash_alloc as else objs st b);
              Some (Some b, s, st\<lparr>objs := (objs st)(b \<mapsto> x\<lparr>refcnt := refcnt x + 1\<rparr>), otable := H\<rparr>) } } })"

definition aspath_empty :: "aspath ostore \<Rightarrow> addr \<Rightarrow> addr \<Rightarrow> stream \<Rightarrow> (addr option \<times> stream \<times> aspath ostore) option" where
  "aspath_empty st tmp new s = aspath_parse st s 0 True tmp new"

definition aspath_count :: "aspath ostore \<Rightarrow> nat" where
  "aspath_count st = hcount (otable st)"

subsection \<open>Communities\<close>

definition community_init :: "community ostore option" where
  "community_init = do {
     H \<leftarrow> hash_create;
     Some \<lparr>objs = Map.empty, otable = H\<rparr> }"

abbreviation com_same :: "community \<Rightarrow> community \<Rightarrow> bool" where
  "com_same c1 c2 \<equiv> community_cmp (Some c1) (Some c2)"

definition community_intern :: "community ostore \<Rightarrow> addr \<Rightarrow> (addr \<times> community ostore) option" where
  "community_intern st a = do {
     com \<leftarrow> objs st a;
     zassert (com_refcnt com = 0);
     (b, st) \<leftarrow> intern_obj community_hash_make com_same com_refcnt (\<lambda>n com. com\<lparr>com_refcnt := n\<rparr>) st a;
     found \<leftarrow> objs st b;
     if com_str found = None then do {
       s \<leftarrow> community_com2str (Some found);
       Some (b, st\<lparr>objs := (objs st)(b \<mapsto> found\<lparr>com_str := s\<rparr>)\<rparr>) }
     else Some (b, st) }"

definition community_unintern :: "community ostore \<Rightarrow> addr \<Rightarrow> (addr option \<times> community ostore) option" where
  "community_unintern st a =
     release_obj community_hash_make com_same com_refcnt (\<lambda>n com. com\<lparr>com_refcnt := n\<rparr>) st a"

text \<open>\<open>vals\<close> are the values at \<open>pnt\<close>, \<open>new\<close> the address of the structure that the sort allocates.\<close>

definition community_parse ::
  "community ostore \<Rightarrow> u32 list \<Rightarrow> nat \<Rightarrow> addr \<Rightarrow> (addr option \<times> community ostore) option" where
  "community_parse st vals len new =
     (if len mod 4 \<noteq> 0 then Some (None, st)
      else do {
        com \<leftarrow> community_uniq_sort (Some (community_new\<lparr>com_val := take (len div 4) vals\<rparr>));
        (b, st) \<leftarrow> community_intern (st\<lparr>objs := (objs st)(new \<mapsto> com)\<rparr>) new;
        Some (Some b, st) })"

definition community_count :: "community ostore \<Rightarrow> nat" where
  "community_count st = hcount (otable st)"

subsection \<open>Reference counts per value\<close>

definition ovalid :: "('o \<Rightarrow> bool) \<Rightarrow> (addr \<Rightarrow> 'o option) \<Rightarrow> addr \<Rightarrow> bool" where
  "ovalid ok h a \<longleftrightarrow> (\<exists>x. h a = Some x \<and> ok x)"

text \<open>The invariant of a store: a well-formed table of valid objects that all have references.\<close>

definition store_ok :: "('o \<Rightarrow> bool) \<Rightarrow> ('o \<Rightarrow> u32) \<Rightarrow> ('o \<Rightarrow> 'o \<Rightarrow> bool) \<Rightarrow> ('o \<Rightarrow> nat) \<Rightarrow> 'o ostore \<Rightarrow> bool" where
  "store_ok ok key cmp refc st \<longleftrightarrow>
     wf_hash (ovalid ok (objs st)) (okey key (objs st)) (ocmp cmp (objs st)) (otable st) \<and>
     (\<forall>a \<in> hset (otable st). 0 < refc (the (objs st a)))"

abbreviation interned :: "'o ostore \<Rightarrow> addr set" where
  "interned st \<equiv> hset (otable st)"

text \<open>The abstraction: how many references a value has.\<close>

definition refs :: "('o \<Rightarrow> 'v) \<Rightarrow> ('o \<Rightarrow> nat) \<Rightarrow> 'o ostore \<Rightarrow> 'v \<Rightarrow> nat" where
  "refs val refc st v = (\<Sum>a | a \<in> interned st \<and> val (the (objs st a)) = v. refc (the (objs st a)))"

lemma wf_hash_cong:
  assumes "wf_hash valid key cmp H" "\<And>x. x \<in> hset H \<Longrightarrow> valid' x \<and> key' x = key x"
    "\<And>x y. x \<in> hset H \<Longrightarrow> y \<in> hset H \<Longrightarrow> cmp' x y \<longleftrightarrow> cmp x y"
  shows "wf_hash valid' key' cmp' H"
  using assms unfolding wf_hash_def hset_def by auto

text \<open>Objects with a value that decides comparison and key, and a reference count that can be set.\<close>

locale counted_objects =
  fixes ok :: "'o \<Rightarrow> bool" and key :: "'o \<Rightarrow> u32" and cmp :: "'o \<Rightarrow> 'o \<Rightarrow> bool" and val :: "'o \<Rightarrow> 'v"
    and refc :: "'o \<Rightarrow> nat" and set_refc :: "nat \<Rightarrow> 'o \<Rightarrow> 'o"
  assumes cmp_val: "ok x \<Longrightarrow> ok y \<Longrightarrow> cmp x y \<longleftrightarrow> val x = val y"
    and key_val: "ok x \<Longrightarrow> ok y \<Longrightarrow> val x = val y \<Longrightarrow> key x = key y"
    and set_refc [simp]: "refc (set_refc n x) = n" "val (set_refc n x) = val x" "ok (set_refc n x) = ok x"

sublocale counted_objects \<subseteq> hc: hash_client "ovalid ok h" "okey key h" "ocmp cmp h" for h
  by unfold_locales (auto simp: ovalid_def okey_def ocmp_def cmp_val intro: key_val)

context counted_objects
begin

abbreviation sok :: "'o ostore \<Rightarrow> bool" where
  "sok \<equiv> store_ok ok key cmp refc"

lemma interned_obj:
  assumes "sok st" "a \<in> interned st"
  obtains x where "objs st a = Some x" "ok x" "0 < refc x"
  using assms that unfolding store_ok_def wf_hash_def ovalid_def by (metis option.sel)

lemma same_value_same_object:
  assumes "sok st" "a \<in> interned st" "b \<in> interned st" "val (the (objs st a)) = val (the (objs st b))"
  shows "a = b"
proof -
  obtain x y where "objs st a = Some x" "objs st b = Some y" "ok x" "ok y"
    using interned_obj [OF assms(1,2)] interned_obj [OF assms(1,3)] by metis
  then have "ocmp cmp (objs st) a b" using assms(4) by (simp add: ocmp_def cmp_val)
  then show ?thesis using assms(1-3) unfolding store_ok_def wf_hash_def by blast
qed

lemma refs_interned: "sok st \<Longrightarrow> a \<in> interned st \<Longrightarrow> refs val refc st (val (the (objs st a))) = refc (the (objs st a))"
proof -
  assume "sok st" "a \<in> interned st"
  then have "{b. b \<in> interned st \<and> val (the (objs st b)) = val (the (objs st a))} = {a}"
    using same_value_same_object by blast
  then show ?thesis by (simp add: refs_def)
qed

lemma refs_none: "\<forall>a \<in> interned st. val (the (objs st a)) \<noteq> v \<Longrightarrow> refs val refc st v = 0"
  by (auto simp: refs_def intro: sum.neutral)

text \<open>A change at one address leaves the counts of the other values alone.\<close>

lemma refs_upd:
  assumes "\<forall>b. b \<noteq> a \<longrightarrow> (b \<in> interned st' \<longleftrightarrow> b \<in> interned st) \<and> (b \<in> interned st \<longrightarrow> objs st' b = objs st b)"
    "a \<in> interned st \<longrightarrow> val (the (objs st a)) = v" "a \<in> interned st' \<longrightarrow> val (the (objs st' a)) = v"
    "refs val refc st' v = n"
  shows "refs val refc st' = (refs val refc st)(v := n)"
proof
  fix w
  have "{b. b \<in> interned st' \<and> val (the (objs st' b)) = w} = {b. b \<in> interned st \<and> val (the (objs st b)) = w}" if "w \<noteq> v"
    using assms(1-3) that by (metis (no_types, opaque_lifting))
  moreover have "objs st' b = objs st b" if "w \<noteq> v" "b \<in> interned st \<and> val (the (objs st b)) = w" for b
    using assms(1-3) that by metis
  ultimately show "refs val refc st' w = ((refs val refc st)(v := n)) w"
    using assms(4) by (auto simp: refs_def intro!: sum.cong)
qed

text \<open>Well-formedness of a table depends on the values of its objects only.\<close>

lemma wf_heap:
  assumes "wf_hash (ovalid ok h) (okey key h) (ocmp cmp h) H"
    "\<forall>b \<in> hset H. \<exists>x y. h b = Some x \<and> h' b = Some y \<and> ok y \<and> val y = val x"
  shows "wf_hash (ovalid ok h') (okey key h') (ocmp cmp h') H"
proof (rule wf_hash_cong [OF assms(1)])
  have ok: "\<exists>x y. h b = Some x \<and> h' b = Some y \<and> ok x \<and> ok y \<and> val y = val x" if "b \<in> hset H" for b
    using assms that unfolding wf_hash_def ovalid_def by (metis option.inject)
  show "ovalid ok h' b \<and> okey key h' b = okey key h b" if "b \<in> hset H" for b
    using ok [OF that] by (auto simp: ovalid_def okey_def intro: key_val)
  show "ocmp cmp h' b c \<longleftrightarrow> ocmp cmp h b c" if "b \<in> hset H" "c \<in> hset H" for b c
    using ok [OF that(1)] ok [OF that(2)] by (auto simp: ocmp_def cmp_val)
qed

text \<open>A heap with the same values and counts at the entries.\<close>

lemma same_entries:
  assumes "sok st" "\<forall>b \<in> interned st. \<exists>x y. objs st b = Some x \<and> h b = Some y \<and> ok y \<and> val y = val x \<and> refc y = refc x"
  shows "sok (st\<lparr>objs := h\<rparr>)" "refs val refc (st\<lparr>objs := h\<rparr>) = refs val refc st"
proof -
  have "wf_hash (ovalid ok (objs st)) (okey key (objs st)) (ocmp cmp (objs st)) (otable st)"
    using assms(1) by (simp add: store_ok_def)
  from wf_heap [OF this, of h] have "wf_hash (ovalid ok h) (okey key h) (ocmp cmp h) (otable st)"
    using assms(2) by blast
  then show "sok (st\<lparr>objs := h\<rparr>)" using assms by (fastforce simp: store_ok_def)
  have v: "val (the (h b)) = val (the (objs st b))" "refc (the (h b)) = refc (the (objs st b))" if "b \<in> interned st" for b
    using assms(2) that by (metis option.sel)+
  have "{b. b \<in> interned st \<and> val (the (h b)) = w} = {b. b \<in> interned st \<and> val (the (objs st b)) = w}" for w
    using v(1) by auto
  then show "refs val refc (st\<lparr>objs := h\<rparr>) = refs val refc st"
    using v(2) by (auto simp: refs_def fun_eq_iff intro!: sum.cong)
qed

lemma update_entry:
  assumes "sok st" "objs st b = Some x" "ok y" "val y = val x" "refc y = refc x"
  shows "sok (st\<lparr>objs := (objs st)(b \<mapsto> y)\<rparr>)" "refs val refc (st\<lparr>objs := (objs st)(b \<mapsto> y)\<rparr>) = refs val refc st"
proof -
  have "\<exists>x' y'. objs st a = Some x' \<and> ((objs st)(b \<mapsto> y)) a = Some y' \<and> ok y' \<and> val y' = val x' \<and> refc y' = refc x'"
    if a: "a \<in> interned st" for a
  proof -
    obtain x' where "objs st a = Some x'" "ok x'" by (rule interned_obj [OF assms(1) a])
    then show ?thesis using assms(2-5) by (cases "a = b") auto
  qed
  then show "sok (st\<lparr>objs := (objs st)(b \<mapsto> y)\<rparr>)" "refs val refc (st\<lparr>objs := (objs st)(b \<mapsto> y)\<rparr>) = refs val refc st"
    using same_entries [OF assms(1), of "(objs st)(b \<mapsto> y)"] by blast+
qed

lemma new_object:
  assumes "sok st" "new \<notin> interned st"
  shows "sok (st\<lparr>objs := (objs st)(new \<mapsto> x)\<rparr>)" "refs val refc (st\<lparr>objs := (objs st)(new \<mapsto> x)\<rparr>) = refs val refc st"
proof -
  have "\<exists>x' y'. objs st a = Some x' \<and> ((objs st)(new \<mapsto> x)) a = Some y' \<and> ok y' \<and> val y' = val x' \<and> refc y' = refc x'"
    if "a \<in> interned st" for a
    using interned_obj [OF assms(1) that] assms(2) that by (metis fun_upd_other)
  then show "sok (st\<lparr>objs := (objs st)(new \<mapsto> x)\<rparr>)" "refs val refc (st\<lparr>objs := (objs st)(new \<mapsto> x)\<rparr>) = refs val refc st"
    using same_entries [OF assms(1), of "(objs st)(new \<mapsto> x)"] by blast+
qed

lemma set_count_ok:
  assumes "wf_hash (ovalid ok (objs st)) (okey key (objs st)) (ocmp cmp (objs st)) H" "objs st a = Some x" "0 < n"
    "\<forall>b \<in> hset H. b \<noteq> a \<longrightarrow> h b = objs st b \<and> 0 < refc (the (objs st b))"
  shows "sok (st\<lparr>objs := h(a \<mapsto> set_refc n x), otable := H\<rparr>)"
proof -
  have v: "ovalid ok (objs st) b" if "b \<in> hset H" for b using assms(1) that by (simp add: wf_hash_def)
  have "wf_hash (ovalid ok (h(a \<mapsto> set_refc n x))) (okey key (h(a \<mapsto> set_refc n x))) (ocmp cmp (h(a \<mapsto> set_refc n x))) H"
    using v assms(2,4) by (intro wf_heap [OF assms(1)]) (fastforce simp: ovalid_def)
  then show ?thesis using assms(3,4) by (auto simp: store_ok_def)
qed

lemma intern_obj_ok:
  assumes "sok st" "objs st a = Some x" "ok x" "refc x = 0" "a \<notin> interned st"
  shows "\<exists>b st'. intern_obj key cmp refc set_refc st a = Some (b, st') \<and> sok st' \<and> b \<in> interned st' \<and>
    val (the (objs st' b)) = val x \<and> refs val refc st' = (refs val refc st)(val x := refs val refc st (val x) + 1) \<and>
    (b \<noteq> a \<longrightarrow> objs st' a = None)"
proof (cases "\<exists>b \<in> interned st. val (the (objs st b)) = val x")
  case True
  then obtain b where b: "b \<in> interned st" "val (the (objs st b)) = val x" by blast
  obtain y where y: "objs st b = Some y" "ok y" using interned_obj [OF assms(1) b(1)] by blast
  define st' where "st' = st\<lparr>objs := ((objs st)(a := None))(b \<mapsto> set_refc (refc y + 1) y), otable := otable st\<rparr>"
  have ba: "b \<noteq> a" using b(1) assms(5) by blast
  have "hash_get (okey key (objs st)) (ocmp cmp (objs st)) (otable st) a (Some hash_alloc_intern) = (Some b, otable st)"
    using assms b y by (intro hc.get_found) (auto simp: store_ok_def ovalid_def ocmp_def cmp_val)
  then have "intern_obj key cmp refc set_refc st a = Some (b, st')"
    using y ba by (simp add: intern_obj_def st'_def)
  moreover have "sok st'"
    unfolding st'_def using assms(1,5) y by (intro set_count_ok) (auto simp: store_ok_def)
  moreover from this have "refs val refc st' (val x) = refs val refc st (val x) + 1"
    using refs_interned [of st' b] refs_interned [OF assms(1) b(1)] b y by (simp add: st'_def)
  moreover from this have "refs val refc st' = (refs val refc st)(val x := refs val refc st (val x) + 1)"
    using assms(5) b y by (intro refs_upd [of b]) (auto simp: st'_def)
  ultimately show ?thesis using b y ba by (intro exI [of _ b] exI [of _ st']) (simp add: st'_def)
next
  case False
  have new: "\<forall>b \<in> interned st. \<not> ocmp cmp (objs st) b a"
  proof
    fix b
    assume b: "b \<in> interned st"
    then obtain y where "objs st b = Some y" "ok y" using interned_obj [OF assms(1)] by blast
    then show "\<not> ocmp cmp (objs st) b a" using False b assms(2,3) by (auto simp: ocmp_def cmp_val)
  qed
  obtain H where H: "hash_get (okey key (objs st)) (ocmp cmp (objs st)) (otable st) a (Some hash_alloc_intern) = (Some a, H)"
      "wf_hash (ovalid ok (objs st)) (okey key (objs st)) (ocmp cmp (objs st)) H" "hset H = insert a (interned st)"
    using hc.get_inserts [of "objs st" "otable st" a hash_alloc_intern a, OF _ new] assms
    by (auto simp: store_ok_def ovalid_def hash_alloc_intern_def ocmp_def cmp_val)
  define st' where "st' = st\<lparr>objs := (objs st)(a \<mapsto> set_refc 1 x), otable := H\<rparr>"
  have "intern_obj key cmp refc set_refc st a = Some (a, st')"
    using H(1) assms(2,4) by (simp add: intern_obj_def st'_def)
  moreover have "sok st'"
    unfolding st'_def using assms(1,2) H by (intro set_count_ok) (auto simp: store_ok_def)
  moreover from this have "refs val refc st' (val x) = 1"
    using refs_interned [of st' a] H(3) by (simp add: st'_def)
  moreover have "refs val refc st (val x) = 0" using False by (intro refs_none) blast
  moreover have "refs val refc st' = (refs val refc st)(val x := 1)"
    using calculation(3) assms(5) H(3) by (intro refs_upd [of a]) (auto simp: st'_def)
  ultimately show ?thesis using H(3) by (intro exI [of _ a] exI [of _ st']) (simp add: st'_def)
qed

lemma release_obj_ok:
  assumes "sok st" "a \<in> interned st" "objs st a = Some x"
  shows "\<exists>p st'. release_obj key cmp refc set_refc st a = Some (p, st') \<and> sok st' \<and>
    p = (if refc x = 1 then None else Some a) \<and>
    refs val refc st' = (refs val refc st)(val x := refs val refc st (val x) - 1) \<and>
    (refc x = 1 \<longrightarrow> objs st' a = None \<and> a \<notin> interned st')"
proof -
  have x: "ok x" "0 < refc x" "refs val refc st (val x) = refc x"
    using interned_obj [OF assms(1,2)] refs_interned [OF assms(1,2)] assms(3) by auto
  let ?x = "set_refc (refc x - 1) x" and ?h = "(objs st)(a \<mapsto> set_refc (refc x - 1) x)"
  show ?thesis
  proof (cases "refc x = 1")
    case False
    define st' where "st' = st\<lparr>objs := ?h, otable := otable st\<rparr>"
    have "release_obj key cmp refc set_refc st a = Some (Some a, st')"
      using False x assms(3) by (simp add: release_obj_def st'_def Let_def)
    moreover have "sok st'"
      unfolding st'_def using assms x(2) False by (intro set_count_ok) (auto simp: store_ok_def)
    moreover from this have "refs val refc st' (val x) = refc x - 1"
      using refs_interned [of st' a] assms(2) by (simp add: st'_def)
    moreover from this have "refs val refc st' = (refs val refc st)(val x := refc x - 1)"
      using assms by (intro refs_upd [of a]) (auto simp: st'_def)
    ultimately show ?thesis using False x by (intro exI [of _ "Some a"] exI [of _ st']) simp
  next
    case True
    have wf: "wf_hash (ovalid ok (objs st)) (okey key (objs st)) (ocmp cmp (objs st)) (otable st)"
      using assms(1) by (simp add: store_ok_def)
    have "wf_hash (ovalid ok ?h) (okey key ?h) (ocmp cmp ?h) (otable st)"
    proof (rule wf_heap [OF wf], rule ballI)
      fix b
      assume "b \<in> interned st"
      then obtain y where "objs st b = Some y" "ok y" using interned_obj [OF assms(1)] by blast
      then show "\<exists>y z. objs st b = Some y \<and> ?h b = Some z \<and> ok z \<and> val z = val y" using assms(3) by auto
    qed
    then obtain H where H: "hash_release (okey key ?h) (ocmp cmp ?h) (otable st) a = (Some a, H)"
        "wf_hash (ovalid ok ?h) (okey key ?h) (ocmp cmp ?h) H" "hset H = interned st - {a}"
      using hc.release_found [of ?h "otable st" a a] assms(2,3) x(1) by (auto simp: ovalid_def ocmp_def cmp_val)
    define st' where "st' = st\<lparr>objs := ?h(a := None), otable := H\<rparr>"
    have "release_obj key cmp refc set_refc st a = Some (None, st')"
      using True assms(3) H(1) by (simp add: release_obj_def st'_def Let_def zassert_def)
    moreover have "wf_hash (ovalid ok (objs st')) (okey key (objs st')) (ocmp cmp (objs st')) H"
    proof (intro wf_heap [OF H(2)] ballI)
      fix b
      assume b: "b \<in> hset H"
      then obtain y where "objs st b = Some y" "ok y" using interned_obj [OF assms(1)] H(3) by blast
      then show "\<exists>y z. ?h b = Some y \<and> objs st' b = Some z \<and> ok z \<and> val z = val y"
        using b H(3) by (auto simp: st'_def)
    qed
    then have "sok st'" using assms(1) H(3) by (auto simp: store_ok_def st'_def)
    moreover have "\<forall>b \<in> interned st - {a}. val (the (objs st b)) \<noteq> val x"
      using same_value_same_object [OF assms(1) _ assms(2)] assms(3) by fastforce
    then have "refs val refc st' (val x) = 0" using H(3) by (intro refs_none) (auto simp: st'_def)
    moreover from this have "refs val refc st' = (refs val refc st)(val x := 0)"
      using assms H(3) by (intro refs_upd [of a]) (auto simp: st'_def)
    ultimately show ?thesis using True x H(3) by (intro exI [of _ None] exI [of _ st']) (simp add: st'_def)
  qed
qed

end

subsection \<open>The two instances\<close>

definition path_ok :: "aspath \<Rightarrow> bool" where
  "path_ok as \<longleftrightarrow> types_known (segments as) \<and> as_str as = Some (path_text (segments as)) \<and>
     as_str_len as = length (path_text (segments as)) mod 2 ^ 16"

lemma with_str_ok: "types_known (segments as) \<Longrightarrow> path_ok (with_str as)" "path_ok as \<Longrightarrow> as_str as \<noteq> None"
  by (simp_all add: path_ok_def with_str_def)

lemma list_all_zip_eq: "length xs = length ys \<Longrightarrow> list_all (\<lambda>(a, b). a = b) (zip xs ys) \<longleftrightarrow> xs = ys"
  by (induction xs ys rule: list_induct2) auto

lemma cmp_segs_eq: "cmp_segs xs ys \<longleftrightarrow> xs = ys"
  by (induction xs ys rule: cmp_segs.induct) (auto simp: list_all_zip_eq)

interpretation path_objects: counted_objects path_ok path_key aspath_cmp segments refcnt "\<lambda>n as. as\<lparr>refcnt := n\<rparr>"
proof unfold_locales
  fix x y :: aspath and n
  show "path_ok x \<Longrightarrow> path_ok y \<Longrightarrow> aspath_cmp x y \<longleftrightarrow> segments x = segments y"
    by (simp add: aspath_cmp_def cmp_segs_eq)
  show "path_ok x \<Longrightarrow> path_ok y \<Longrightarrow> segments x = segments y \<Longrightarrow> path_key x = path_key y"
    by (cases x, cases y) (auto simp: path_key_def path_ok_def with_str_def)
  show "path_ok (x\<lparr>refcnt := n\<rparr>) = path_ok x"
    by (cases x) (auto simp: path_ok_def with_str_def)
qed simp_all

text \<open>The communities in the table are sorted and free of duplicates.\<close>

definition com_ok :: "community \<Rightarrow> bool" where
  "com_ok com \<longleftrightarrow> sorted_wrt (<) (com_val com)"

interpretation com_objects: counted_objects com_ok community_hash_make com_same com_val com_refcnt "\<lambda>n com. com\<lparr>com_refcnt := n\<rparr>"
  by unfold_locales (auto simp: community_cmp_def community_hash_make_def com_ok_def)

abbreviation paths_ok :: "aspath ostore \<Rightarrow> bool" where
  "paths_ok \<equiv> store_ok path_ok path_key aspath_cmp refcnt"

abbreviation path_refs :: "aspath ostore \<Rightarrow> assegment list \<Rightarrow> nat" where
  "path_refs \<equiv> refs segments refcnt"

abbreviation coms_ok :: "community ostore \<Rightarrow> bool" where
  "coms_ok \<equiv> store_ok com_ok community_hash_make com_same com_refcnt"

abbreviation com_refs :: "community ostore \<Rightarrow> u32 list \<Rightarrow> nat" where
  "com_refs \<equiv> refs com_val com_refcnt"

lemma empty_store_ok:
  "\<exists>H. hash_create_size (2 ^ k) = Some H \<and> hset H = {} \<and> store_ok ok key cmp refc \<lparr>objs = h, otable = H\<rparr>"
proof -
  obtain H where "hash_create_size (2 ^ k) = Some H" "wf_hash (ovalid ok h) (okey key h) (ocmp cmp h) H" "hset H = {}"
    using hash_create_size_ok [of k "ovalid ok h" "okey key h" "ocmp cmp h"] by blast
  then show ?thesis by (intro exI [of _ H]) (simp add: store_ok_def)
qed

lemma aspath_init_ok:
  "\<exists>st. aspath_init = Some st \<and> paths_ok (st\<lparr>objs := h\<rparr>) \<and> interned st = {} \<and> objs st = Map.empty"
proof -
  obtain H where "hash_create_size (2 ^ 15) = Some H" "hset H = {}" "paths_ok \<lparr>objs = h, otable = H\<rparr>"
    using empty_store_ok [of 15 path_ok path_key aspath_cmp refcnt h] by blast
  then show ?thesis by (intro exI [of _ "\<lparr>objs = Map.empty, otable = H\<rparr>"]) (simp add: aspath_init_def)
qed

lemma community_init_ok:
  "\<exists>st. community_init = Some st \<and> coms_ok (st\<lparr>objs := h\<rparr>) \<and> interned st = {} \<and> objs st = Map.empty"
proof -
  obtain H where "hash_create_size (2 ^ 8) = Some H" "hset H = {}" "coms_ok \<lparr>objs = h, otable = H\<rparr>"
    using empty_store_ok [of 8 com_ok community_hash_make com_same com_refcnt h] by blast
  then show ?thesis
    by (intro exI [of _ "\<lparr>objs = Map.empty, otable = H\<rparr>"]) (simp add: community_init_def hash_create_def)
qed

lemma com2str_total: "\<exists>s. community_com2str (Some com) = Some s"
proof (cases "com_val com")
  case (Cons v vs)
  then have "0 < sum_list (map reserved_len (com_val com))" using val_text_fits [of v] by simp
  then show ?thesis
    using fill_str_ok [of "''''" "com_val com" True "sum_list (map reserved_len (com_val com))"]
    by (simp add: community_com2str_def)
qed (simp add: community_com2str_def)

text \<open>Filling in the string of an entry changes neither the invariant nor the counts.\<close>

lemma store_com_str:
  assumes "coms_ok st" "b \<in> interned st" "objs st b = Some com"
  shows "coms_ok (st\<lparr>objs := (objs st)(b \<mapsto> com\<lparr>com_str := s\<rparr>)\<rparr>)"
    "com_refs (st\<lparr>objs := (objs st)(b \<mapsto> com\<lparr>com_str := s\<rparr>)\<rparr>) = com_refs st"
proof -
  have "com_ok com" using com_objects.interned_obj [OF assms(1,2)] assms(3) by auto
  then have "com_ok (com\<lparr>com_str := s\<rparr>)" by (simp add: com_ok_def)
  from com_objects.update_entry [OF assms(1,3) this]
  show "coms_ok (st\<lparr>objs := (objs st)(b \<mapsto> com\<lparr>com_str := s\<rparr>)\<rparr>)"
    "com_refs (st\<lparr>objs := (objs st)(b \<mapsto> com\<lparr>com_str := s\<rparr>)\<rparr>) = com_refs st" by simp_all
qed

lemma community_intern_ok:
  assumes "coms_ok st" "objs st a = Some com" "com_ok com" "com_refcnt com = 0" "a \<notin> interned st"
  shows "\<exists>b st'. community_intern st a = Some (b, st') \<and> coms_ok st' \<and> b \<in> interned st' \<and>
    com_val (the (objs st' b)) = com_val com \<and> com_refs st' = (com_refs st)(com_val com := com_refs st (com_val com) + 1)"
proof -
  obtain b st1 where 1: "intern_obj community_hash_make com_same com_refcnt (\<lambda>n com. com\<lparr>com_refcnt := n\<rparr>) st a = Some (b, st1)"
      "coms_ok st1" "b \<in> interned st1" "com_val (the (objs st1 b)) = com_val com"
      "com_refs st1 = (com_refs st)(com_val com := com_refs st (com_val com) + 1)"
    using com_objects.intern_obj_ok [OF assms] by blast
  obtain x where x: "objs st1 b = Some x" using com_objects.interned_obj [OF 1(2,3)] by blast
  obtain s where s: "community_com2str (Some x) = Some s" using com2str_total by blast
  show ?thesis
  proof (cases "com_str x")
    case None
    then show ?thesis
      using 1 x s assms(2,4) store_com_str [OF 1(2,3) x, of s] by (simp add: community_intern_def zassert_def)
  next
    case (Some t)
    then show ?thesis using 1 x assms(2,4) by (simp add: community_intern_def zassert_def)
  qed
qed

subsection \<open>Properties\<close>

text \<open>C14.  Interning AS paths refines a counter per path.  Interning a path that has its string, no reference and is
  not in the table yields the one table entry with its segments and adds one to the count of this path, the argument
  being freed when another entry was there; releasing an entry subtracts one and frees the entry exactly when that was
  the last reference.  Both keep the invariant (at most one entry per path, every entry referenced, the hash chains
  consistent), and none of the assertions of the code fails.\<close>

theorem aspath_intern_refines_counts:
  assumes "paths_ok st"
  shows "(\<forall>a as. objs st a = Some as \<and> path_ok as \<and> refcnt as = 0 \<and> a \<notin> interned st \<longrightarrow>
      (\<exists>b st'. aspath_intern st a = Some (b, st') \<and> paths_ok st' \<and> b \<in> interned st' \<and>
        segments (the (objs st' b)) = segments as \<and> (b \<noteq> a \<longrightarrow> objs st' a = None) \<and>
        path_refs st' = (path_refs st)(segments as := path_refs st (segments as) + 1))) \<and>
    (\<forall>a as. a \<in> interned st \<and> objs st a = Some as \<longrightarrow>
      (\<exists>p st'. aspath_unintern st a = Some (p, st') \<and> paths_ok st' \<and>
        p = (if path_refs st (segments as) = 1 then None else Some a) \<and>
        (p = None \<longrightarrow> objs st' a = None \<and> a \<notin> interned st') \<and>
        path_refs st' = (path_refs st)(segments as := path_refs st (segments as) - 1)))"
proof (intro conjI allI impI; elim conjE)
  fix a as
  assume a: "objs st a = Some as" "path_ok as" "refcnt as = 0" "a \<notin> interned st"
  then have "aspath_intern st a = intern_obj path_key aspath_cmp refcnt (\<lambda>n as. as\<lparr>refcnt := n\<rparr>) st a"
    using with_str_ok(2) [OF a(2)] by (simp add: aspath_intern_def zassert_def)
  then show "\<exists>b st'. aspath_intern st a = Some (b, st') \<and> paths_ok st' \<and> b \<in> interned st' \<and>
      segments (the (objs st' b)) = segments as \<and> (b \<noteq> a \<longrightarrow> objs st' a = None) \<and>
      path_refs st' = (path_refs st)(segments as := path_refs st (segments as) + 1)"
    using path_objects.intern_obj_ok [OF assms a] by auto
next
  fix a as
  assume a: "a \<in> interned st" "objs st a = Some as"
  have "refcnt as = path_refs st (segments as)"
    using path_objects.refs_interned [OF assms a(1)] a(2) by simp
  then show "\<exists>p st'. aspath_unintern st a = Some (p, st') \<and> paths_ok st' \<and>
      p = (if path_refs st (segments as) = 1 then None else Some a) \<and>
      (p = None \<longrightarrow> objs st' a = None \<and> a \<notin> interned st') \<and>
      path_refs st' = (path_refs st)(segments as := path_refs st (segments as) - 1)"
    using path_objects.release_obj_ok [OF assms a] by (auto simp: aspath_unintern_def split: if_splits)
qed

theorem aspath_intern_refines_counts_witness:
  "\<exists>st0 b st1. aspath_init = Some st0 \<and>
     aspath_intern (st0\<lparr>objs := [1 \<mapsto> with_str (path_of [seq [701]])]\<rparr>) 1 = Some (b, st1) \<and> path_refs st1 [seq [701]] = 1"
proof -
  let ?as = "with_str (path_of [seq [701]])"
  obtain st0 where st0: "aspath_init = Some st0" "paths_ok (st0\<lparr>objs := [1 \<mapsto> ?as]\<rparr>)" "interned st0 = {}"
    using aspath_init_ok by blast
  have "path_ok ?as" by (rule with_str_ok(1)) (simp add: types_known_def seperator_def)
  moreover have "path_refs (st0\<lparr>objs := [1 \<mapsto> ?as]\<rparr>) [seq [701]] = 0" using st0(3) by (simp add: refs_def)
  ultimately obtain b st1 where
      "aspath_intern (st0\<lparr>objs := [1 \<mapsto> ?as]\<rparr>) 1 = Some (b, st1)" "path_refs st1 [seq [701]] = 1"
    using aspath_intern_refines_counts [OF st0(2), THEN conjunct1, rule_format, of 1 ?as] st0(3)
    by (auto simp: aspath_new_def)
  then show ?thesis using st0(1) by blast
qed

text \<open>Parsing a communities attribute.  For a whole number of values, \<^verbatim>\<open>community_parse\<close> returns the one table
  entry whose list is the sorted duplicate-free list of the values and takes a reference on it, so two attributes get
  the same pointer exactly when they carry the same set of communities; the invariant of the table is kept.\<close>

lemma community_parse_interns_set:
  assumes "coms_ok st" "new \<notin> interned st" "len = 4 * length vals"
  shows "\<exists>b st'. community_parse st vals len new = Some (Some b, st') \<and> coms_ok st' \<and> b \<in> interned st' \<and>
    (\<forall>c \<in> interned st'. c = b \<longleftrightarrow> set (com_val (the (objs st' c))) = set vals) \<and>
    com_refs st' = (com_refs st)(sorted_list_of_set (set vals) := com_refs st (sorted_list_of_set (set vals)) + 1)"
proof -
  let ?com = "community_new\<lparr>com_val := sorted_list_of_set (set vals)\<rparr>" and ?l = "sorted_list_of_set (set vals)"
  let ?st = "st\<lparr>objs := (objs st)(new \<mapsto> ?com)\<rparr>"
  note wf = com_objects.new_object [OF assms(1,2), of ?com]
  obtain b st' where b: "community_intern ?st new = Some (b, st')" "coms_ok st'" "b \<in> interned st'"
      "com_val (the (objs st' b)) = ?l" "com_refs st' = (com_refs st)(?l := com_refs st ?l + 1)"
    using community_intern_ok [OF wf(1), of new ?com] assms(2) wf(2) by (auto simp: com_ok_def community_new_def)
  moreover have "c = b \<longleftrightarrow> set (com_val (the (objs st' c))) = set vals" if c: "c \<in> interned st'" for c
  proof -
    obtain x where "objs st' c = Some x" "com_ok x" using com_objects.interned_obj [OF b(2) c] by blast
    then have "com_val (the (objs st' c)) = ?l \<longleftrightarrow> set (com_val (the (objs st' c))) = set vals"
      by (auto simp: com_ok_def strict_sorted_iff dest: sorted_list_of_set.idem_if_sorted_distinct)
    then show ?thesis using com_objects.same_value_same_object [OF b(2) c b(3)] b(4) by metis
  qed
  ultimately show ?thesis using assms(3) by (simp add: community_parse_def uniq_sort_eq)
qed

end
