(* ===== verification/Ecommunity.thy ===== *)
theory Ecommunity
  imports Attr_Intern "HOL-Library.List_Lexorder"
begin

text \<open>
  The extended communities attribute: \<^verbatim>\<open>bgpd/bgp_ecommunity.c\<close>.

  The byte array of an attribute is the list of its values, each a list of eight bytes;
  \<open>memcmp\<close> of two values is the lexicographic order of the lists.  The functions that walk over the
  array with another step than the eight bytes of a value use the concatenation.  \<open>inet_aton\<close> is a
  parameter; an address in memory is the list of its four bytes.
\<close>

unbundle bit_operations_syntax

subsection \<open>Data\<close>

record ecommunity =
  ec_refcnt :: nat
  ec_val :: "u8 list list"
  ec_str :: "string option"

abbreviation ec_size :: "ecommunity \<Rightarrow> nat" where
  "ec_size ecom \<equiv> length (ec_val ecom)"

abbreviation ECOMMUNITY_SIZE :: nat where "ECOMMUNITY_SIZE \<equiv> 8"
abbreviation ECOMMUNITY_ENCODE_AS :: u8 where "ECOMMUNITY_ENCODE_AS \<equiv> 0"
abbreviation ECOMMUNITY_ENCODE_IP :: u8 where "ECOMMUNITY_ENCODE_IP \<equiv> 1"
abbreviation ECOMMUNITY_ENCODE_AS4 :: u8 where "ECOMMUNITY_ENCODE_AS4 \<equiv> 2"
abbreviation ECOMMUNITY_ROUTE_TARGET :: u8 where "ECOMMUNITY_ROUTE_TARGET \<equiv> 2"
abbreviation ECOMMUNITY_SITE_ORIGIN :: u8 where "ECOMMUNITY_SITE_ORIGIN \<equiv> 3"
abbreviation ECOMMUNITY_STR_DEFAULT_LEN :: nat where "ECOMMUNITY_STR_DEFAULT_LEN \<equiv> 27"

datatype ecommunity_format =
  ECOMMUNITY_FORMAT_ROUTE_MAP | ECOMMUNITY_FORMAT_COMMUNITY_LIST | ECOMMUNITY_FORMAT_DISPLAY

definition ecommunity_new :: ecommunity where
  "ecommunity_new = \<lparr>ec_refcnt = 0, ec_val = [], ec_str = None\<rparr>"

subsection \<open>Values\<close>

text \<open>Where the loop of \<^verbatim>\<open>ecommunity_add_val\<close> stops; \<open>None\<close> is a value that is there already.\<close>

fun add_index :: "u8 list list \<Rightarrow> u8 list \<Rightarrow> nat \<Rightarrow> nat option" where
  "add_index [] eval c = Some c"
| "add_index (p # ps) eval c =
     (if p = eval then None
      else if eval < p then Some c
      else add_index ps eval (c + 1))"

definition ecommunity_add_val :: "ecommunity \<Rightarrow> u8 list \<Rightarrow> bool \<times> ecommunity" where
  "ecommunity_add_val ecom eval = (case add_index (ec_val ecom) eval 0 of
     None \<Rightarrow> (False, ecom)
   | Some c \<Rightarrow> (True, ecom\<lparr>ec_val := take c (ec_val ecom) @ eval # drop c (ec_val ecom)\<rparr>))"

definition ecommunity_uniq_sort :: "ecommunity option \<Rightarrow> ecommunity option" where
  "ecommunity_uniq_sort ecom = (case ecom of
     None \<Rightarrow> None
   | Some ecom \<Rightarrow> Some (fold (\<lambda>eval new. snd (ecommunity_add_val new eval)) (ec_val ecom) ecommunity_new))"

definition ecommunity_dup :: "ecommunity \<Rightarrow> ecommunity" where
  "ecommunity_dup ecom = ecommunity_new\<lparr>ec_val := ec_val ecom\<rparr>"

definition ecommunity_merge :: "ecommunity \<Rightarrow> ecommunity \<Rightarrow> ecommunity" where
  "ecommunity_merge ecom1 ecom2 = ecom1\<lparr>ec_val := ec_val ecom1 @ ec_val ecom2\<rparr>"

definition ecommunity_hash_make :: "ecommunity \<Rightarrow> u32" where
  "ecommunity_hash_make ecom =
     fold (\<lambda>pnt key. key + ucast (pnt ! 0) + ucast (pnt ! 1) + ucast (pnt ! 2) + ucast (pnt ! 3) +
             ucast (pnt ! 4) + ucast (pnt ! 5) + ucast (pnt ! 6) + ucast (pnt ! 7)) (ec_val ecom) 0"

definition ecommunity_cmp :: "ecommunity \<Rightarrow> ecommunity \<Rightarrow> bool" where
  "ecommunity_cmp ecom1 ecom2 \<longleftrightarrow>
     ec_size ecom1 = ec_size ecom2 \<and> concat (ec_val ecom1) = concat (ec_val ecom2)"

text \<open>\<^verbatim>\<open>ecommunity_match\<close> adds \<open>i\<close> and \<open>j\<close>, which count values, to byte pointers.\<close>

function ematch_loop :: "ecommunity \<Rightarrow> ecommunity \<Rightarrow> nat \<Rightarrow> nat \<Rightarrow> nat" where
  "ematch_loop ecom1 ecom2 i j =
     (if i < ec_size ecom1 \<and> j < ec_size ecom2 then
        ematch_loop ecom1 ecom2 (i + 1)
          (if take ECOMMUNITY_SIZE (drop i (concat (ec_val ecom1))) = take ECOMMUNITY_SIZE (drop j (concat (ec_val ecom2)))
           then j + 1 else j)
      else j)"
  by pat_completeness auto
termination by (relation "measure (\<lambda>(ecom1, _, i, _). ec_size ecom1 - i)") auto

declare ematch_loop.simps [simp del]

definition ecommunity_match :: "ecommunity option \<Rightarrow> ecommunity option \<Rightarrow> bool" where
  "ecommunity_match ecom1 ecom2 = (case (ecom1, ecom2) of
     (None, None) \<Rightarrow> True
   | (Some ecom1, Some ecom2) \<Rightarrow>
       if ec_size ecom1 < ec_size ecom2 then False
       else ematch_loop ecom1 ecom2 0 0 = ec_size ecom2
   | _ \<Rightarrow> False)"

subsection \<open>Text of an attribute\<close>

text \<open>\<^verbatim>\<open>inet_ntoa\<close> on the four bytes in memory.\<close>

definition inet_ntoa :: "u8 list \<Rightarrow> string" where
  "inet_ntoa ip = sep_by (CHR ''.'') (map (\<lambda>b. dec_str (unat b)) ip)"

definition ecom_prefix :: "ecommunity_format \<Rightarrow> u8 \<Rightarrow> string" where
  "ecom_prefix format type = (case format of
     ECOMMUNITY_FORMAT_COMMUNITY_LIST \<Rightarrow> if type = ECOMMUNITY_ROUTE_TARGET then ''rt '' else ''soo ''
   | ECOMMUNITY_FORMAT_DISPLAY \<Rightarrow> if type = ECOMMUNITY_ROUTE_TARGET then ''RT:'' else ''SoO:''
   | ECOMMUNITY_FORMAT_ROUTE_MAP \<Rightarrow> '''')"

definition ecom_val_text :: "ecommunity_format \<Rightarrow> u8 list \<Rightarrow> string" where
  "ecom_val_text format pnt =
     (let encode = pnt ! 0; type = pnt ! 1 in
      if encode \<noteq> ECOMMUNITY_ENCODE_AS \<and> encode \<noteq> ECOMMUNITY_ENCODE_IP \<and> encode \<noteq> ECOMMUNITY_ENCODE_AS4 then ''?''
      else if type \<noteq> ECOMMUNITY_ROUTE_TARGET \<and> type \<noteq> ECOMMUNITY_SITE_ORIGIN then ''?''
      else if encode = ECOMMUNITY_ENCODE_AS4 then
        let as = push_bit 24 (ucast (pnt ! 2)) OR push_bit 16 (ucast (pnt ! 3)) OR push_bit 8 (ucast (pnt ! 4)) OR
                   (ucast (pnt ! 5) :: u32);
            val = push_bit 8 (ucast (pnt ! 6)) OR (ucast (pnt ! 7) :: u32)
        in ecom_prefix format type @ dec_str (unat as) @ '':'' @ dec_str (unat val)
      else if encode = ECOMMUNITY_ENCODE_AS then
        let as = push_bit 8 (ucast (pnt ! 2)) OR (ucast (pnt ! 3) :: u32);
            val = push_bit 24 (ucast (pnt ! 4)) OR push_bit 16 (ucast (pnt ! 5)) OR push_bit 8 (ucast (pnt ! 6)) OR
                    (ucast (pnt ! 7) :: u32)
        in ecom_prefix format type @ dec_str (unat as) @ '':'' @ dec_str (unat val)
      else
        let val = push_bit 8 (ucast (pnt ! 6)) OR (ucast (pnt ! 7) :: u16)
        in ecom_prefix format type @ inet_ntoa (take 4 (drop 2 pnt)) @ '':'' @ dec_str (unat val))"

text \<open>The buffer is doubled until it has more than 27 free bytes; its size starts at 28, so it is never 0.\<close>

function str_room :: "nat \<Rightarrow> nat \<Rightarrow> nat" where
  "str_room str_pnt str_size =
     (if 0 < str_size \<and> str_size \<le> str_pnt + ECOMMUNITY_STR_DEFAULT_LEN then str_room str_pnt (str_size * 2)
      else str_size)"
  by pat_completeness auto
termination by (relation "measure (\<lambda>(str_pnt, str_size). str_pnt + 28 - str_size)") auto

declare str_room.simps [simp del]

text \<open>\<open>buf\<close> is what has been written so far; \<open>None\<close> is a store beyond the allocated bytes.\<close>

fun ecom2str_loop :: "ecommunity_format \<Rightarrow> u8 list list \<Rightarrow> nat \<Rightarrow> bool \<Rightarrow> string \<Rightarrow> string option" where
  "ecom2str_loop format [] str_size first buf = Some buf"
| "ecom2str_loop format (pnt # vals) str_size first buf =
     (let str_size = str_room (length buf) str_size in do {
        buf \<leftarrow> (if first then Some buf else do { zassert (length buf < str_size); Some (buf @ '' '') });
        buf \<leftarrow> store_str str_size buf (ecom_val_text format pnt);
        ecom2str_loop format vals str_size False buf })"

definition ecommunity_ecom2str :: "ecommunity \<Rightarrow> ecommunity_format \<Rightarrow> string option" where
  "ecommunity_ecom2str ecom format =
     (if ec_size ecom = 0 then Some ''''
      else ecom2str_loop format (ec_val ecom) (ECOMMUNITY_STR_DEFAULT_LEN + 1) True '''')"

definition ecommunity_str :: "ecommunity \<Rightarrow> (string \<times> ecommunity) option" where
  "ecommunity_str ecom = (case ec_str ecom of
     Some s \<Rightarrow> Some (s, ecom)
   | None \<Rightarrow> do {
       s \<leftarrow> ecommunity_ecom2str ecom ECOMMUNITY_FORMAT_DISPLAY;
       Some (s, ecom\<lparr>ec_str := Some s\<rparr>) })"

subsection \<open>Attribute from text\<close>

datatype ecommunity_token =
  ecommunity_token_rt | ecommunity_token_soo | ecommunity_token_val "u8 list" | ecommunity_token_unknown

definition tolower :: "char \<Rightarrow> char" where
  "tolower c = (if (of_char c :: nat) \<in> {65..90} then char_of (of_char c + 32 :: nat) else c)"

definition blank_or_end :: "string \<Rightarrow> bool" where
  "blank_or_end p \<longleftrightarrow> p = [] \<or> isspace (hd p)"

text \<open>The keywords, abbreviated or not; the rest of the string is what follows them.\<close>

definition ecom_keyword :: "string \<Rightarrow> ecommunity_token \<times> string" where
  "ecom_keyword p =
     (if tolower (hd p) = CHR ''r'' then
        let p = tl p in
        if p \<noteq> [] \<and> tolower (hd p) = CHR ''t'' then (ecommunity_token_rt, tl p)
        else if blank_or_end p then (ecommunity_token_rt, p)
        else (ecommunity_token_unknown, p)
      else if tolower (hd p) = CHR ''s'' then
        let p = tl p in
        if p \<noteq> [] \<and> tolower (hd p) = CHR ''o'' then
          let p = tl p in
          if p \<noteq> [] \<and> tolower (hd p) = CHR ''o'' then (ecommunity_token_soo, tl p)
          else if blank_or_end p then (ecommunity_token_soo, p)
          else (ecommunity_token_unknown, p)
        else if blank_or_end p then (ecommunity_token_soo, p)
        else (ecommunity_token_unknown, p)
      else (ecommunity_token_unknown, p))"

text \<open>The local variables of the value loop, and one character of it.  \<open>str\<close> is what the loop has passed; it is
  at most 16 characters when it is copied, so \<open>strtoul\<close> does not saturate, but its result is stored in
  32 bits.  \<open>None\<close> is \<open>goto error\<close>.\<close>

record ecom_scan =
  es_dot :: nat
  es_digit :: bool
  es_separator :: bool
  es_ip :: "u8 list"
  es_as :: u32
  es_val :: u32

definition ecom_scan_char :: "(string \<Rightarrow> u8 list option) \<Rightarrow> string \<Rightarrow> char \<Rightarrow> ecom_scan \<Rightarrow> ecom_scan option" where
  "ecom_scan_char inet_aton str c v =
     (if c = CHR '':'' then
        if es_separator v then None
        else if 16 < length str then None
        else
          let v = v\<lparr>es_separator := True, es_digit := False\<rparr> in
          if es_dot v \<noteq> 0 then map_option (\<lambda>ip. v\<lparr>es_ip := ip\<rparr>) (inet_aton str)
          else let as = of_nat (dec_val str) in if as = 0xFFFFFFFF then None else Some (v\<lparr>es_as := as\<rparr>)
      else if c = CHR ''.'' then
        if es_separator v then None
        else if 4 < es_dot v + 1 then None
        else Some (v\<lparr>es_dot := es_dot v + 1\<rparr>)
      else
        let v = v\<lparr>es_digit := True\<rparr> in
        if es_separator v then Some (v\<lparr>es_val := es_val v * 10 + of_nat (digit_val c)\<rparr>) else Some v)"

fun ecom_scan_loop :: "(string \<Rightarrow> u8 list option) \<Rightarrow> string \<Rightarrow> string \<Rightarrow> ecom_scan \<Rightarrow> ecom_scan option \<times> string" where
  "ecom_scan_loop inet_aton str [] v = (Some v, [])"
| "ecom_scan_loop inet_aton str (c # p) v =
     (if isdigit c \<or> c = CHR '':'' \<or> c = CHR ''.'' then
        (case ecom_scan_char inet_aton str c v of
           None \<Rightarrow> (None, c # p)
         | Some v \<Rightarrow> ecom_scan_loop inet_aton (str @ [c]) p v)
      else (Some v, c # p))"

definition ecom_encode :: "ecom_scan \<Rightarrow> u8 list option" where
  "ecom_encode v =
     (let as = es_as v; val = es_val v in
      if \<not> es_digit v \<or> \<not> es_separator v then None
      else if es_dot v \<noteq> 0 then
        if 0xFFFF < val then None
        else Some ([ECOMMUNITY_ENCODE_IP, 0] @ es_ip v @ [ucast (drop_bit 8 val), ucast val])
      else if 65535 < as then
        if 0xFFFF < val then None
        else Some [ECOMMUNITY_ENCODE_AS4, 0, ucast (drop_bit 24 as), ucast (drop_bit 16 as), ucast (drop_bit 8 as), ucast as,
                   ucast (drop_bit 8 val), ucast val]
      else Some [ECOMMUNITY_ENCODE_AS, 0, ucast (drop_bit 8 as), ucast as,
                 ucast (drop_bit 24 val), ucast (drop_bit 16 val), ucast (drop_bit 8 val), ucast val])"

definition ecommunity_gettoken :: "(string \<Rightarrow> u8 list option) \<Rightarrow> string \<Rightarrow> (ecommunity_token \<times> string) option" where
  "ecommunity_gettoken inet_aton str =
     (let p = dropWhile isspace str in
      if p = [] then None
      else if \<not> isdigit (hd p) then Some (ecom_keyword p)
      else case ecom_scan_loop inet_aton [] p
             \<lparr>es_dot = 0, es_digit = False, es_separator = False, es_ip = [], es_as = 0, es_val = 0\<rparr> of
        (None, p) \<Rightarrow> Some (ecommunity_token_unknown, p)
      | (Some v, p) \<Rightarrow>
          Some (case ecom_encode v of None \<Rightarrow> ecommunity_token_unknown | Some eval \<Rightarrow> ecommunity_token_val eval, p))"

lemma ecom_keyword_shorter:
  assumes "ecom_keyword p = (token, q)" "p \<noteq> []" "token \<noteq> ecommunity_token_unknown"
  shows "length q < length p"
proof (cases p)
  case (Cons c p1)
  then show ?thesis using assms by (cases p1; cases "tl p1") (auto simp: ecom_keyword_def Let_def split: if_splits)
qed (use assms in simp)

lemma ecom_scan_shorter: "ecom_scan_loop inet_aton str p v = (r, q) \<Longrightarrow> length q \<le> length p"
  by (induction inet_aton str p v rule: ecom_scan_loop.induct) (auto split: if_splits option.splits)

lemma ecom_gettoken_shorter:
  assumes "ecommunity_gettoken inet_aton str = Some (token, q)" "token \<noteq> ecommunity_token_unknown"
  shows "length q < length str"
proof -
  define p where "p = dropWhile isspace str"
  have "length p \<le> length str" unfolding p_def by (rule length_dropWhile_le)
  moreover have "length q < length p"
    using assms ecom_keyword_shorter [of p token q]
    unfolding ecommunity_gettoken_def Let_def p_def [symmetric]
    by (cases p) (auto simp: less_Suc_eq_le split: if_splits prod.splits option.splits dest: ecom_scan_shorter)
  ultimately show ?thesis by simp
qed

text \<open>Each turn of the loop consumes a token.  \<open>type\<close> is stored in the second byte of every value.\<close>

function estr2com_loop ::
  "(string \<Rightarrow> u8 list option) \<Rightarrow> bool \<Rightarrow> string \<Rightarrow> u8 \<Rightarrow> bool \<Rightarrow> ecommunity option \<Rightarrow> ecommunity option" where
  "estr2com_loop inet_aton keyword_included str type keyword ecom =
     (case ecommunity_gettoken inet_aton str of
        None \<Rightarrow> ecom
      | Some (ecommunity_token_unknown, str) \<Rightarrow> None
      | Some (ecommunity_token_rt, str) \<Rightarrow>
          if \<not> keyword_included \<or> keyword then None
          else estr2com_loop inet_aton keyword_included str ECOMMUNITY_ROUTE_TARGET True ecom
      | Some (ecommunity_token_soo, str) \<Rightarrow>
          if \<not> keyword_included \<or> keyword then None
          else estr2com_loop inet_aton keyword_included str ECOMMUNITY_SITE_ORIGIN True ecom
      | Some (ecommunity_token_val eval, str) \<Rightarrow>
          if keyword_included \<and> \<not> keyword then None
          else
            let ecom = (case ecom of None \<Rightarrow> ecommunity_new | Some ecom \<Rightarrow> ecom)
            in estr2com_loop inet_aton keyword_included str type False (Some (snd (ecommunity_add_val ecom (eval[1 := type])))))"
  by pat_completeness auto
termination
  by (relation "measure (\<lambda>(_, _, str, _). length str)") (auto dest!: ecom_gettoken_shorter)

declare estr2com_loop.simps [simp del]

definition ecommunity_str2com :: "(string \<Rightarrow> u8 list option) \<Rightarrow> string \<Rightarrow> u8 \<Rightarrow> bool \<Rightarrow> ecommunity option" where
  "ecommunity_str2com inet_aton str type keyword_included =
     estr2com_loop inet_aton keyword_included str type False None"

subsection \<open>Interning\<close>

definition ecommunity_init :: "ecommunity ostore option" where
  "ecommunity_init = do {
     H \<leftarrow> hash_create;
     Some \<lparr>objs = Map.empty, otable = H\<rparr> }"

definition ecommunity_intern :: "ecommunity ostore \<Rightarrow> addr \<Rightarrow> (addr \<times> ecommunity ostore) option" where
  "ecommunity_intern st a = do {
     ecom \<leftarrow> objs st a;
     zassert (ec_refcnt ecom = 0);
     (b, st) \<leftarrow> intern_obj ecommunity_hash_make ecommunity_cmp ec_refcnt (\<lambda>n ecom. ecom\<lparr>ec_refcnt := n\<rparr>) st a;
     found \<leftarrow> objs st b;
     if ec_str found = None then do {
       s \<leftarrow> ecommunity_ecom2str found ECOMMUNITY_FORMAT_DISPLAY;
       Some (b, st\<lparr>objs := (objs st)(b \<mapsto> found\<lparr>ec_str := Some s\<rparr>)\<rparr>) }
     else Some (b, st) }"

definition ecommunity_unintern :: "ecommunity ostore \<Rightarrow> addr \<Rightarrow> (addr option \<times> ecommunity ostore) option" where
  "ecommunity_unintern st a =
     release_obj ecommunity_hash_make ecommunity_cmp ec_refcnt (\<lambda>n ecom. ecom\<lparr>ec_refcnt := n\<rparr>) st a"

text \<open>\<open>bytes\<close> are the bytes at \<open>pnt\<close>, \<open>new\<close> the address of the structure that the sort allocates.\<close>

definition bytes_vals :: "nat \<Rightarrow> u8 list \<Rightarrow> u8 list list" where
  "bytes_vals n bytes = map (\<lambda>i. take ECOMMUNITY_SIZE (drop (i * ECOMMUNITY_SIZE) bytes)) [0..<n]"

definition ecommunity_parse ::
  "ecommunity ostore \<Rightarrow> u8 list \<Rightarrow> nat \<Rightarrow> addr \<Rightarrow> (addr option \<times> ecommunity ostore) option" where
  "ecommunity_parse st bytes len new =
     (if len mod ECOMMUNITY_SIZE \<noteq> 0 then Some (None, st)
      else do {
        zassert (len \<le> length bytes);
        ecom \<leftarrow> ecommunity_uniq_sort (Some (ecommunity_new\<lparr>ec_val := bytes_vals (len div ECOMMUNITY_SIZE) bytes\<rparr>));
        (b, st) \<leftarrow> ecommunity_intern (st\<lparr>objs := (objs st)(new \<mapsto> ecom)\<rparr>) new;
        Some (Some b, st) })"

subsection \<open>Sorted without duplicates\<close>

lemma add_index_sorted:
  "sorted_wrt (<) vals \<Longrightarrow>
    (case add_index vals eval c of
       None \<Rightarrow> eval \<in> set vals
     | Some d \<Rightarrow> c \<le> d \<and> eval \<notin> set vals \<and> sorted_wrt (<) (take (d - c) vals @ eval # drop (d - c) vals))"
proof (induction vals arbitrary: c)
  case (Cons p ps)
  have IH: "case add_index ps eval (c + 1) of
       None \<Rightarrow> eval \<in> set ps
     | Some d \<Rightarrow> c + 1 \<le> d \<and> eval \<notin> set ps \<and> sorted_wrt (<) (take (d - (c + 1)) ps @ eval # drop (d - (c + 1)) ps)"
    using Cons.IH [of "c + 1"] Cons.prems by simp
  show ?case
  proof (cases "p < eval")
    case True
    have "\<forall>x\<in>set (take n ps) \<union> {eval} \<union> set (drop n ps). p < x" for n
      using True Cons.prems by (auto dest: in_set_takeD in_set_dropD)
    moreover have "\<not> eval < p" "p \<noteq> eval" using True by auto
    ultimately show ?thesis
      using IH by (auto simp: Suc_diff_le split: option.splits) (simp_all add: Suc_le_eq Suc_diff_Suc [symmetric])
  next
    case False
    then show ?thesis using Cons.prems less_asym' [of eval p] by (cases "p = eval") (auto dest: less_trans)
  qed
qed simp

lemma add_val_sorted:
  assumes "sorted_wrt (<) (ec_val ecom)"
  shows "ecommunity_add_val ecom eval =
    (eval \<notin> set (ec_val ecom), ecom\<lparr>ec_val := sorted_list_of_set (insert eval (set (ec_val ecom)))\<rparr>)"
proof (cases "add_index (ec_val ecom) eval 0")
  case None
  then have "eval \<in> set (ec_val ecom)" using add_index_sorted [OF assms, of eval 0] by simp
  then show ?thesis
    using None assms by (simp add: ecommunity_add_val_def insert_absorb strict_sorted_iff sorted_list_of_set.idem_if_sorted_distinct)
next
  case (Some d)
  let ?vals = "take d (ec_val ecom) @ eval # drop d (ec_val ecom)"
  have "eval \<notin> set (ec_val ecom)" "sorted_wrt (<) ?vals" using Some add_index_sorted [OF assms, of eval 0] by auto
  moreover have "set ?vals = insert eval (set (ec_val ecom))" by (metis append_take_drop_id list.set(2) set_append Un_insert_right)
  ultimately have "?vals = sorted_list_of_set (insert eval (set (ec_val ecom)))"
    by (metis strict_sorted_iff sorted_list_of_set.idem_if_sorted_distinct)
  then show ?thesis using Some \<open>eval \<notin> _\<close> by (simp only: ecommunity_add_val_def) simp
qed

lemma add_vals_sorted:
  "sorted_wrt (<) (ec_val ecom) \<Longrightarrow>
    fold (\<lambda>eval ecom. snd (ecommunity_add_val ecom eval)) evals ecom =
      ecom\<lparr>ec_val := sorted_list_of_set (set (ec_val ecom) \<union> set evals)\<rparr>"
proof (induction evals arbitrary: ecom)
  case Nil
  then show ?case by (simp add: strict_sorted_iff sorted_list_of_set.idem_if_sorted_distinct)
next
  case (Cons e evals)
  let ?ecom = "ecom\<lparr>ec_val := sorted_list_of_set (insert e (set (ec_val ecom)))\<rparr>"
  have "snd (ecommunity_add_val ecom e) = ?ecom" using add_val_sorted [OF Cons.prems] by simp
  then show ?case using Cons.IH [of ?ecom] by (simp del: sorted_list_of_set_insert_remove)
qed

lemma ecom_uniq_sort_eq:
  "ecommunity_uniq_sort (Some ecom) = Some (ecommunity_new\<lparr>ec_val := sorted_list_of_set (set (ec_val ecom))\<rparr>)"
  using add_vals_sorted [of ecommunity_new "ec_val ecom"] by (simp add: ecommunity_uniq_sort_def ecommunity_new_def)

subsection \<open>Matching\<close>

text \<open>C34. The test that every value of the second attribute is in the first compares byte strings at
  offsets 0, 1, 2, ..., not at the starts of values: two attributes with the same first value match
  exactly when their second values begin with the same byte.  So \<open>rt 100:1 rt 100:9\<close> matches
  \<open>rt 100:1 rt 100:5\<close>, although the value \<open>rt 100:5\<close> is missing in it.\<close>

theorem ecommunity_match_byte_steps:
  assumes "length x = 8" "length y = 8" "length z = 8" "ec_val ecom1 = [x, y]" "ec_val ecom2 = [x, z]"
  shows "ecommunity_match (Some ecom1) (Some ecom2) \<longleftrightarrow> y ! 0 = z ! 0"
proof -
  have nine: "take 8 (drop 1 (x @ v)) = drop 1 x @ [v ! 0]" if "length v = 8" for v :: "u8 list"
    using that assms(1) by (cases v) auto
  have "(take 8 (drop (Suc 0) (x @ y)) = take 8 (drop (Suc 0) (x @ z))) \<longleftrightarrow> y ! 0 = z ! 0"
    using nine [OF assms(2)] nine [OF assms(3)] by simp
  then show ?thesis
    using assms by (simp add: ecommunity_match_def ematch_loop.simps)
qed

theorem ecommunity_match_byte_steps_witness:
  "ecommunity_match
     (Some \<lparr>ec_refcnt = 0, ec_val = [[0, 2, 0, 100, 0, 0, 0, 1], [0, 2, 0, 100, 0, 0, 0, 9]], ec_str = None\<rparr>)
     (Some \<lparr>ec_refcnt = 0, ec_val = [[0, 2, 0, 100, 0, 0, 0, 1], [0, 2, 0, 100, 0, 0, 0, 5]], ec_str = None\<rparr>)"
  by (subst ecommunity_match_byte_steps [where x = "[0, 2, 0, 100, 0, 0, 0, 1]" and
        y = "[0, 2, 0, 100, 0, 0, 0, 9]" and z = "[0, 2, 0, 100, 0, 0, 0, 5]"]) simp_all

subsection \<open>The text fits and reads back\<close>

definition ecom_vals_ok :: "u8 list list \<Rightarrow> bool" where
  "ecom_vals_ok vals \<longleftrightarrow> list_all (\<lambda>v. length v = ECOMMUNITY_SIZE) vals"

lemma str_room_enough: "0 < str_size \<Longrightarrow> str_pnt + ECOMMUNITY_STR_DEFAULT_LEN < str_room str_pnt str_size"
  by (induction str_pnt str_size rule: str_room.induct) (subst str_room.simps, auto)

lemma length_dec_u8: "length (dec_str (unat (b :: u8))) \<le> 3"
  using unsigned_less [of b, where 'a = nat] by (intro length_dec_str) simp_all

lemma length_dec_u16: "length (dec_str (unat (b :: u16))) \<le> 5"
  using unsigned_less [of b, where 'a = nat] by (intro length_dec_str) simp_all

lemma length_dec_u32: "length (dec_str (unat (b :: u32))) \<le> 10"
  using unsigned_less [of b, where 'a = nat] by (intro length_dec_str) simp_all

lemma two_bytes: "push_bit 8 (ucast a) OR ucast b = (ucast (push_bit 8 (ucast a) OR ucast b :: u16) :: u32)"
  for a b :: u8
  by (rule bit_word_eqI) (auto simp: bit_simps dest: bit_imp_le_length)

lemma unat_ucast_16_32: "unat (ucast (w :: u16) :: u32) = unat w"
  by transfer (simp add: take_bit_take_bit)

lemma unat_two_bytes: "unat (push_bit 8 (ucast a) OR ucast b :: u32) = unat (push_bit 8 (ucast a) OR ucast b :: u16)"
  for a b :: u8
  by (subst two_bytes) (simp only: unat_ucast_16_32)

lemma four_bytes_cases:
  assumes "length ip = 4"
  obtains a b c d where "ip = [a, b, c, d]"
  using assms by (auto simp: numeral_eq_Suc length_Suc_conv)

lemma length_inet_ntoa: "length ip = 4 \<Longrightarrow> length (inet_ntoa ip) \<le> 15"
proof (erule four_bytes_cases)
  fix a b c d assume "ip = [a, b, c, d]"
  then show ?thesis
    using length_dec_u8 [of a] length_dec_u8 [of b] length_dec_u8 [of c] length_dec_u8 [of d] by (simp add: inet_ntoa_def)
qed

lemma ecom_val_text_fits:
  assumes "length v = ECOMMUNITY_SIZE"
  shows "length (ecom_val_text format v) \<le> 25"
proof -
  have "length (ecom_prefix format t) \<le> 4" for t by (simp add: ecom_prefix_def split: ecommunity_format.split)
  then have fits: "length a + length b \<le> 20 \<Longrightarrow> length (ecom_prefix format t @ a @ CHR '':'' # b) \<le> 25" for t a b
    using add_mono [of "length (ecom_prefix format t)" 4 "length a + length b" 20] by simp
  have "length (inet_ntoa (take 4 (drop 2 v))) \<le> 15" using assms by (intro length_inet_ntoa) simp
  then have "length (inet_ntoa (take 4 (drop 2 v))) + length (dec_str (unat w)) \<le> 20" for w :: u16
    using length_dec_u16 [of w] by simp
  moreover have "length (dec_str (unat x)) + length (dec_str (unat w)) \<le> 20"
      "length (dec_str (unat w)) + length (dec_str (unat x)) \<le> 20" for w :: u16 and x :: u32
    using length_dec_u16 [of w] length_dec_u32 [of x] by simp_all
  ultimately show ?thesis
    unfolding ecom_val_text_def Let_def unat_two_bytes by (auto simp del: length_append intro!: fits)
qed

lemma ecom2str_loop_ok:
  assumes "ecom_vals_ok vals" "0 < str_size"
  shows "ecom2str_loop format vals str_size first buf =
    Some (if vals = [] then buf else buf @ (if first then '''' else '' '') @ sep_by (CHR '' '') (map (ecom_val_text format) vals))"
  using assms
proof (induction vals arbitrary: str_size first buf)
  case (Cons v vals)
  let ?buf = "buf @ (if first then '''' else '' '') @ ecom_val_text format v" and ?size = "str_room (length buf) str_size"
  have "length buf + 27 < ?size" using str_room_enough Cons.prems(2) by simp
  moreover have "length (ecom_val_text format v) \<le> 25"
    using Cons.prems(1) by (intro ecom_val_text_fits) (simp add: ecom_vals_ok_def)
  ultimately have "ecom2str_loop format (v # vals) str_size first buf = ecom2str_loop format vals ?size False ?buf"
    by (auto simp: store_str_def Let_def)
  also have "\<dots> = Some (if vals = [] then ?buf else ?buf @ '' '' @ sep_by (CHR '' '') (map (ecom_val_text format) vals))"
    using Cons.IH [of ?size False ?buf] Cons.prems \<open>length buf + 27 < ?size\<close> by (simp add: ecom_vals_ok_def)
  finally show ?case by (simp add: sep_by_Cons)
qed simp

lemma ecom2str_total:
  assumes "ecom_vals_ok (ec_val ecom)"
  shows "ecommunity_ecom2str ecom format = Some (sep_by (CHR '' '') (map (ecom_val_text format) (ec_val ecom)))"
  using ecom2str_loop_ok [OF assms, of 28 format True "''''"] by (simp add: ecommunity_ecom2str_def)

lemma isdigit_other: "isdigit c \<Longrightarrow> c \<noteq> CHR '':'' \<and> c \<noteq> CHR ''.'' \<and> \<not> isspace c"
  by (auto simp: isdigit_def isspace_def)

lemma scan_digits:
  "\<forall>c\<in>set ds. isdigit c \<Longrightarrow>
    ecom_scan_loop inet_aton str (ds @ p) v = ecom_scan_loop inet_aton (str @ ds) p
      (if ds = [] then v
       else v\<lparr>es_digit := True,
              es_val := if es_separator v then foldl (\<lambda>v d. v * 10 + of_nat (digit_val d)) (es_val v) ds else es_val v\<rparr>)"
  by (induction ds arbitrary: str v) (auto simp: ecom_scan_char_def Let_def dest: isdigit_other)

lemma scan_number:
  "ecom_scan_loop inet_aton str (dec_str n @ p) v = ecom_scan_loop inet_aton (str @ dec_str n) p
    (v\<lparr>es_digit := True, es_val := if es_separator v then
       foldl (\<lambda>v d. v * 10 + of_nat (digit_val d)) (es_val v) (dec_str n) else es_val v\<rparr>)"
  by (subst scan_digits) (auto dest: dec_str_digits)

lemma foldl_dec_str: "foldl (\<lambda>v d. v * 10 + of_nat (digit_val d)) 0 (dec_str n) = (of_nat n :: u32)"
  using foldl_dec_of_nat [of 0 "dec_str n", where 'a = u32] dec_val_dec_str [of n] by (simp add: dec_val_def)

lemma scan_end: "blank_or_end p \<Longrightarrow> ecom_scan_loop inet_aton str p v = (Some v, p)"
  by (cases p) (auto simp: blank_or_end_def isspace_def isdigit_def)

text \<open>Numbers before and after the colon, and an address before the colon.\<close>

lemma scan_as_value:
  assumes "n < 2 ^ 32 - 1" "blank_or_end p"
  shows "ecom_scan_loop inet_aton [] (dec_str n @ CHR '':'' # dec_str m @ p)
      \<lparr>es_dot = 0, es_digit = False, es_separator = False, es_ip = [], es_as = 0, es_val = 0\<rparr> =
    (Some \<lparr>es_dot = 0, es_digit = True, es_separator = True, es_ip = [], es_as = of_nat n, es_val = of_nat m\<rparr>, p)"
proof -
  have "length (dec_str n) \<le> 10" using assms(1) by (intro length_dec_str) simp_all
  moreover have "of_nat n \<noteq> (0xFFFFFFFF :: u32)"
    using assms(1) by (auto dest!: arg_cong [of _ _ unat] simp: unat_of_nat)
  ultimately show ?thesis
    by (simp add: scan_number ecom_scan_char_def Let_def foldl_dec_str scan_end [OF assms(2)])
qed

lemma scan_ip_value:
  assumes "\<And>bs. length bs = 4 \<Longrightarrow> inet_aton (inet_ntoa bs) = Some bs" "length ip = 4" "blank_or_end p"
  shows "ecom_scan_loop inet_aton [] (inet_ntoa ip @ CHR '':'' # dec_str m @ p)
      \<lparr>es_dot = 0, es_digit = False, es_separator = False, es_ip = [], es_as = 0, es_val = 0\<rparr> =
    (Some \<lparr>es_dot = 3, es_digit = True, es_separator = True, es_ip = ip, es_as = 0, es_val = of_nat m\<rparr>, p)"
  using assms(2)
proof (rule four_bytes_cases)
  fix a b c d assume ip: "ip = [a, b, c, d]"
  have "length (inet_ntoa ip) \<le> 15" using length_inet_ntoa [OF assms(2)] .
  moreover have "inet_aton (inet_ntoa ip) = Some ip" using assms(1,2) by simp
  ultimately show ?thesis
    by (simp add: ip inet_ntoa_def scan_number ecom_scan_char_def Let_def foldl_dec_str scan_end [OF assms(3)])
qed

text \<open>The values that the text can express: an AS number of four bytes is one that needs them, and is not the
  reserved last one.\<close>

definition ecom_expressible :: "u8 list \<Rightarrow> bool" where
  "ecom_expressible v \<longleftrightarrow>
     length v = ECOMMUNITY_SIZE \<and> v ! 0 \<in> {ECOMMUNITY_ENCODE_AS, ECOMMUNITY_ENCODE_IP, ECOMMUNITY_ENCODE_AS4} \<and>
     v ! 1 \<in> {ECOMMUNITY_ROUTE_TARGET, ECOMMUNITY_SITE_ORIGIN} \<and>
     (v ! 0 = ECOMMUNITY_ENCODE_AS4 \<longrightarrow>
        (v ! 2 \<noteq> 0 \<or> v ! 3 \<noteq> 0) \<and> (v ! 2 \<noteq> 0xFF \<or> v ! 3 \<noteq> 0xFF \<or> v ! 4 \<noteq> 0xFF \<or> v ! 5 \<noteq> 0xFF))"

abbreviation word_of_bytes :: "u8 \<Rightarrow> u8 \<Rightarrow> u8 \<Rightarrow> u8 \<Rightarrow> u32" where
  "word_of_bytes a b c d \<equiv> push_bit 24 (ucast a) OR push_bit 16 (ucast b) OR push_bit 8 (ucast c) OR ucast d"

lemma bytes_of_word:
  fixes a b c d :: u8
  shows "ucast (drop_bit 24 (word_of_bytes a b c d)) = a" "ucast (drop_bit 16 (word_of_bytes a b c d)) = b"
    "ucast (drop_bit 8 (word_of_bytes a b c d)) = c" "ucast (word_of_bytes a b c d) = d"
  by (rule bit_word_eqI; auto simp: bit_simps dest: bit_imp_le_length)+

lemma bytes_of_half:
  fixes a b :: u8
  shows "ucast (drop_bit 8 (ucast (push_bit 8 (ucast a) OR ucast b :: u16) :: u32)) = a"
    "ucast (ucast (push_bit 8 (ucast a) OR ucast b :: u16) :: u32) = b"
  by (rule bit_word_eqI; auto simp: bit_simps dest: bit_imp_le_length)+

lemma of_nat_unat_half: "(of_nat (unat (w :: u16)) :: u32) = ucast w" "unat w \<le> 65535"
  using unsigned_less [of w, where 'a = nat] by simp_all

lemma word_of_bytes_bounds:
  "a \<noteq> 0 \<or> b \<noteq> 0 \<Longrightarrow> 65535 < word_of_bytes a b c d"
  "a \<noteq> 0xFF \<or> b \<noteq> 0xFF \<or> c \<noteq> 0xFF \<or> d \<noteq> 0xFF \<Longrightarrow> unat (word_of_bytes a b c d) < 2 ^ 32 - 1"
proof -
  define w where "w = word_of_bytes a b c d"
  have bytes: "ucast (drop_bit 24 w) = a" "ucast (drop_bit 16 w) = b" "ucast (drop_bit 8 w) = c" "ucast w = d"
    unfolding w_def by (fact bytes_of_word)+
  have "a = 0 \<and> b = 0" if "w \<le> 65535"
  proof -
    have "unat (drop_bit n w) = 0" if "16 \<le> n" for n
      using \<open>w \<le> 65535\<close> power_increasing [OF that, of "2 :: nat"]
      by (simp add: unat_drop_bit_eq drop_bit_eq_div [where 'a = nat] word_le_nat_alt)
    from this [of 16] this [of 24] show ?thesis using bytes(1,2) by (simp add: unsigned_eq_0_iff)
  qed
  moreover have "a = 0xFF \<and> b = 0xFF \<and> c = 0xFF \<and> d = 0xFF" if "w = 0xFFFFFFFF"
    using bytes unfolding that by simp
  moreover have "unat w < 2 ^ 32 - 1" if "w \<noteq> 0xFFFFFFFF"
    using that unsigned_less [of w, where 'a = nat] by (auto simp: word_unat_eq_iff)
  ultimately show "a \<noteq> 0 \<or> b \<noteq> 0 \<Longrightarrow> 65535 < word_of_bytes a b c d"
    "a \<noteq> 0xFF \<or> b \<noteq> 0xFF \<or> c \<noteq> 0xFF \<or> d \<noteq> 0xFF \<Longrightarrow> unat (word_of_bytes a b c d) < 2 ^ 32 - 1"
    unfolding w_def by (meson not_less)+
qed

lemma eight_bytes_cases:
  assumes "length v = ECOMMUNITY_SIZE"
  obtains e t a b c d x y where "v = [e, t, a, b, c, d, x, y]"
  using assms by (auto simp: numeral_eq_Suc length_Suc_conv)

lemma dec_str_start: "\<exists>c s. dec_str n @ p = c # s \<and> isdigit c \<and> \<not> isspace c"
  using dec_str_digits [of "hd (dec_str n)" n] isdigit_other by (cases "dec_str n") auto

lemma gettoken_number:
  "ecommunity_gettoken inet_aton (dec_str n @ p) = (case ecom_scan_loop inet_aton [] (dec_str n @ p)
       \<lparr>es_dot = 0, es_digit = False, es_separator = False, es_ip = [], es_as = 0, es_val = 0\<rparr> of
     (None, p) \<Rightarrow> Some (ecommunity_token_unknown, p)
   | (Some v, p) \<Rightarrow>
       Some (case ecom_encode v of None \<Rightarrow> ecommunity_token_unknown | Some eval \<Rightarrow> ecommunity_token_val eval, p))"
proof -
  obtain c s where "dec_str n @ p = c # s" "isdigit c" "\<not> isspace c" using dec_str_start by blast
  then show ?thesis by (simp add: ecommunity_gettoken_def Let_def del: ecom_scan_loop.simps)
qed

lemma gettoken_scan:
  assumes "ecom_scan_loop inet_aton [] (dec_str n @ q)
      \<lparr>es_dot = 0, es_digit = False, es_separator = False, es_ip = [], es_as = 0, es_val = 0\<rparr> = (Some w, p)"
    "ecom_encode w = Some eval"
  shows "ecommunity_gettoken inet_aton (dec_str n @ q) = Some (ecommunity_token_val eval, p)"
  using assms gettoken_number [of inet_aton n q] by simp

lemma encode_cases:
  "as \<le> 65535 \<Longrightarrow>
    ecom_encode \<lparr>es_dot = 0, es_digit = True, es_separator = True, es_ip = [], es_as = as, es_val = val\<rparr> =
      Some [0, 0, ucast (drop_bit 8 as), ucast as, ucast (drop_bit 24 val), ucast (drop_bit 16 val), ucast (drop_bit 8 val), ucast val]"
  "val \<le> 0xFFFF \<Longrightarrow>
    ecom_encode \<lparr>es_dot = 3, es_digit = True, es_separator = True, es_ip = ip, es_as = 0, es_val = val\<rparr> =
      Some ([1, 0] @ ip @ [ucast (drop_bit 8 val), ucast val])"
  "65535 < as \<Longrightarrow> val \<le> 0xFFFF \<Longrightarrow>
    ecom_encode \<lparr>es_dot = 0, es_digit = True, es_separator = True, es_ip = [], es_as = as, es_val = val\<rparr> =
      Some [2, 0, ucast (drop_bit 24 as), ucast (drop_bit 16 as), ucast (drop_bit 8 as), ucast as, ucast (drop_bit 8 val), ucast val]"
  by (simp_all add: ecom_encode_def Let_def not_less)

lemma gettoken_value:
  assumes aton: "\<And>bs. length bs = 4 \<Longrightarrow> inet_aton (inet_ntoa bs) = Some bs"
    and v: "ecom_expressible v" and p: "blank_or_end p"
  shows "ecommunity_gettoken inet_aton (ecom_val_text ECOMMUNITY_FORMAT_ROUTE_MAP v @ p) =
    Some (ecommunity_token_val (v[1 := 0]), p)"
proof -
  have "length v = ECOMMUNITY_SIZE" using v by (simp add: ecom_expressible_def)
  then obtain e t a b c d x y where eq: "v = [e, t, a, b, c, d, x, y]" by (rule eight_bytes_cases)
  let ?low = "push_bit 8 (ucast x) OR ucast y :: u16"
  have half: "unat w < 2 ^ 32 - 1" "ucast w \<le> (65535 :: u32)" for w :: u16
    using of_nat_unat_half(2) [of w] by (simp_all add: word_le_nat_alt unat_ucast_16_32)
  consider "e = ECOMMUNITY_ENCODE_AS" | "e = ECOMMUNITY_ENCODE_IP" | "e = ECOMMUNITY_ENCODE_AS4"
    using v by (auto simp: eq ecom_expressible_def)
  then show ?thesis
  proof cases
    case 1
    let ?as = "push_bit 8 (ucast a) OR ucast b :: u16"
    have "ecom_val_text ECOMMUNITY_FORMAT_ROUTE_MAP v @ p = dec_str (unat ?as) @ CHR '':'' # dec_str (unat (word_of_bytes c d x y)) @ p"
      using 1 v by (auto simp: eq ecom_expressible_def ecom_val_text_def ecom_prefix_def unat_two_bytes Let_def)
    moreover have "ecom_encode \<lparr>es_dot = 0, es_digit = True, es_separator = True, es_ip = [], es_as = ucast ?as,
        es_val = word_of_bytes c d x y\<rparr> = Some (v[1 := 0])"
      by (simp only: 1 eq encode_cases(1) [OF half(2)] bytes_of_word bytes_of_half) simp
    ultimately show ?thesis
      using gettoken_scan [OF scan_as_value [OF half(1) [of ?as] p]] by (simp add: of_nat_unat_half)
  next
    case 2
    have "ecom_val_text ECOMMUNITY_FORMAT_ROUTE_MAP v @ p = inet_ntoa [a, b, c, d] @ CHR '':'' # dec_str (unat ?low) @ p"
      using 2 v by (auto simp: eq ecom_expressible_def ecom_val_text_def ecom_prefix_def Let_def)
    moreover have "ecom_encode \<lparr>es_dot = 3, es_digit = True, es_separator = True, es_ip = [a, b, c, d], es_as = 0,
        es_val = ucast ?low\<rparr> = Some (v[1 := 0])"
      by (simp only: 2 eq encode_cases(2) [OF half(2)] bytes_of_half) simp
    ultimately show ?thesis
      using scan_ip_value [of inet_aton "[a, b, c, d]", OF aton _ p, of "unat ?low"]
        gettoken_scan [of inet_aton "unat a" "CHR ''.'' # dec_str (unat b) @ CHR ''.'' # dec_str (unat c) @ CHR ''.'' # dec_str (unat d) @ CHR '':'' # dec_str (unat ?low) @ p"]
      by (simp add: of_nat_unat_half inet_ntoa_def del: ecom_scan_loop.simps)
  next
    case 3
    let ?as = "word_of_bytes a b c d"
    have bounds: "65535 < ?as" "unat ?as < 2 ^ 32 - 1"
      using 3 v by (intro word_of_bytes_bounds; simp add: eq ecom_expressible_def)+
    have "ecom_val_text ECOMMUNITY_FORMAT_ROUTE_MAP v @ p = dec_str (unat ?as) @ CHR '':'' # dec_str (unat ?low) @ p"
      using 3 v by (auto simp: eq ecom_expressible_def ecom_val_text_def ecom_prefix_def unat_two_bytes Let_def)
    moreover have "ecom_encode \<lparr>es_dot = 0, es_digit = True, es_separator = True, es_ip = [], es_as = ?as,
        es_val = ucast ?low\<rparr> = Some (v[1 := 0])"
      by (simp only: 3 eq encode_cases(3) [OF bounds(1) half(2)] bytes_of_word bytes_of_half) simp
    ultimately show ?thesis
      using gettoken_scan [OF scan_as_value [OF bounds(2) p]] by (simp add: of_nat_unat_half)
  qed
qed

lemma gettoken_space: "ecommunity_gettoken inet_aton (CHR '' '' # s) = ecommunity_gettoken inet_aton s"
  by (simp add: ecommunity_gettoken_def isspace_def)

lemma gettoken_keyword:
  "ecommunity_gettoken inet_aton (''rt '' @ s) = Some (ecommunity_token_rt, '' '' @ s)"
  "ecommunity_gettoken inet_aton (''soo '' @ s) = Some (ecommunity_token_soo, '' '' @ s)"
  by (simp_all add: ecommunity_gettoken_def isspace_def isdigit_def ecom_keyword_def tolower_def)

lemma list_text:
  "ecom_expressible v \<Longrightarrow> ecom_val_text ECOMMUNITY_FORMAT_COMMUNITY_LIST v =
    (if v ! 1 = ECOMMUNITY_ROUTE_TARGET then ''rt '' else ''soo '') @ ecom_val_text ECOMMUNITY_FORMAT_ROUTE_MAP v"
  by (auto simp: ecom_val_text_def ecom_prefix_def ecom_expressible_def Let_def)

lemma estr2com_value:
  assumes aton: "\<And>bs. length bs = 4 \<Longrightarrow> inet_aton (inet_ntoa bs) = Some bs"
    and v: "ecom_expressible v" and p: "blank_or_end p"
  shows "estr2com_loop inet_aton True (ecom_val_text ECOMMUNITY_FORMAT_COMMUNITY_LIST v @ p) type False ecom =
    estr2com_loop inet_aton True p (v ! 1) False
      (Some (snd (ecommunity_add_val (case ecom of None \<Rightarrow> ecommunity_new | Some ecom \<Rightarrow> ecom) v)))"
proof -
  have "estr2com_loop inet_aton True (ecom_val_text ECOMMUNITY_FORMAT_COMMUNITY_LIST v @ p) type False ecom =
    estr2com_loop inet_aton True ('' '' @ ecom_val_text ECOMMUNITY_FORMAT_ROUTE_MAP v @ p) (v ! 1) True ecom"
    using v by (subst estr2com_loop.simps)
      (auto simp: list_text [OF v] gettoken_keyword [simplified] ecom_expressible_def)
  also have "\<dots> = estr2com_loop inet_aton True p (v ! 1) False
      (Some (snd (ecommunity_add_val (case ecom of None \<Rightarrow> ecommunity_new | Some ecom \<Rightarrow> ecom) v)))"
    by (subst estr2com_loop.simps) (simp add: gettoken_space gettoken_value [OF aton v p])
  finally show ?thesis .
qed

lemma estr2com_vals:
  assumes aton: "\<And>bs. length bs = 4 \<Longrightarrow> inet_aton (inet_ntoa bs) = Some bs"
  shows "list_all ecom_expressible vals \<Longrightarrow> vals \<noteq> [] \<Longrightarrow>
    estr2com_loop inet_aton True (sep_by (CHR '' '') (map (ecom_val_text ECOMMUNITY_FORMAT_COMMUNITY_LIST) vals)) type False ecom =
      Some (fold (\<lambda>eval ecom. snd (ecommunity_add_val ecom eval)) vals
        (case ecom of None \<Rightarrow> ecommunity_new | Some ecom \<Rightarrow> ecom))"
proof (induction vals arbitrary: type ecom)
  case (Cons v vals)
  let ?ecom = "snd (ecommunity_add_val (case ecom of None \<Rightarrow> ecommunity_new | Some ecom \<Rightarrow> ecom) v)"
  let ?texts = "\<lambda>vals. sep_by (CHR '' '') (map (ecom_val_text ECOMMUNITY_FORMAT_COMMUNITY_LIST) vals)"
  have skip: "estr2com_loop inet_aton True (CHR '' '' # s) t k e = estr2com_loop inet_aton True s t k e" for s t k e
    by (subst (1 2) estr2com_loop.simps) (simp add: gettoken_space)
  have "estr2com_loop inet_aton True [] t False e = e" for t e
    by (subst estr2com_loop.simps) (simp add: ecommunity_gettoken_def)
  then show ?case
    using Cons.IH [of "v ! 1" "Some ?ecom"] Cons.prems
      estr2com_value [OF aton, of v "[]" type ecom] estr2com_value [OF aton, of v "CHR '' '' # ?texts vals" type ecom]
    by (auto simp: sep_by_Cons skip blank_or_end_def isspace_def)
qed simp

text \<open>C35. An attribute whose values are sorted without duplicates and can be written as text comes
  back from its text: printed in the format of an extended community list it does not
  overrun the buffer, and reading the text with keywords gives an attribute with the same values.
  The \<open>inet_aton\<close> of the C library is assumed to read what \<open>inet_ntoa\<close> writes.\<close>

theorem ecommunity_text_roundtrip:
  assumes "\<And>bs. length bs = 4 \<Longrightarrow> inet_aton (inet_ntoa bs) = Some bs"
    and "list_all ecom_expressible (ec_val ecom)" "sorted_wrt (<) (ec_val ecom)" "ec_val ecom \<noteq> []"
  shows "\<exists>s. ecommunity_ecom2str ecom ECOMMUNITY_FORMAT_COMMUNITY_LIST = Some s \<and>
    ecommunity_str2com inet_aton s 0 True = Some (ecommunity_dup ecom)"
proof -
  have "ecom_vals_ok (ec_val ecom)" using assms(2) by (simp add: list_all_iff ecom_vals_ok_def ecom_expressible_def)
  moreover have "fold (\<lambda>eval ecom. snd (ecommunity_add_val ecom eval)) (ec_val ecom) ecommunity_new = ecommunity_dup ecom"
    using add_vals_sorted [of ecommunity_new "ec_val ecom"] assms(3)
    by (simp add: ecommunity_new_def ecommunity_dup_def strict_sorted_iff sorted_list_of_set.idem_if_sorted_distinct)
  ultimately show ?thesis
    using estr2com_vals [OF assms(1,2,4), of 0 None] by (simp add: ecom2str_total ecommunity_str2com_def)
qed

fun dotted_bytes :: "string \<Rightarrow> string \<Rightarrow> u8 list" where
  "dotted_bytes num [] = [of_nat (dec_val num)]"
| "dotted_bytes num (c # s) =
     (if c = CHR ''.'' then of_nat (dec_val num) # dotted_bytes [] s else dotted_bytes (num @ [c]) s)"

lemma dotted_digits: "\<forall>c\<in>set ds. isdigit c \<Longrightarrow> dotted_bytes num (ds @ s) = dotted_bytes (num @ ds) s"
  by (induction ds arbitrary: num) (auto dest: isdigit_other)

lemma dotted_inet_ntoa: "length bs = 4 \<Longrightarrow> dotted_bytes [] (inet_ntoa bs) = bs"
proof (erule four_bytes_cases)
  have digits: "dotted_bytes num (dec_str n @ s) = dotted_bytes (num @ dec_str n) s" for num n s
    by (rule dotted_digits) (auto dest: dec_str_digits)
  fix a b c d assume "bs = [a, b, c, d]"
  then show ?thesis using digits [of _ _ "[]"] by (simp add: inet_ntoa_def digits)
qed

theorem ecommunity_text_roundtrip_witness:
  "\<exists>s. ecommunity_ecom2str \<lparr>ec_refcnt = 0, ec_val = [[0, 2, 0, 100, 0, 0, 0, 1], [1, 3, 10, 0, 0, 1, 0, 5]], ec_str = None\<rparr>
       ECOMMUNITY_FORMAT_COMMUNITY_LIST = Some s \<and>
     ecommunity_str2com (\<lambda>s. Some (dotted_bytes [] s)) s 0 True =
       Some (ecommunity_dup \<lparr>ec_refcnt = 0, ec_val = [[0, 2, 0, 100, 0, 0, 0, 1], [1, 3, 10, 0, 0, 1, 0, 5]], ec_str = None\<rparr>)"
  by (rule ecommunity_text_roundtrip) (simp_all add: dotted_inet_ntoa ecom_expressible_def)

subsection \<open>The intern table\<close>

definition ecom_ok :: "ecommunity \<Rightarrow> bool" where
  "ecom_ok ecom \<longleftrightarrow> ecom_vals_ok (ec_val ecom) \<and> sorted_wrt (<) (ec_val ecom)"

lemma concat_vals_eq:
  "ecom_vals_ok vs \<Longrightarrow> ecom_vals_ok ws \<Longrightarrow> length vs = length ws \<Longrightarrow> concat vs = concat ws \<Longrightarrow> vs = ws"
  by (rule concat_injective) (auto simp: ecom_vals_ok_def list_all_iff, metis set_zip_leftD set_zip_rightD)

interpretation ecom_objects:
  counted_objects ecom_ok ecommunity_hash_make ecommunity_cmp ec_val ec_refcnt "\<lambda>n ecom. ecom\<lparr>ec_refcnt := n\<rparr>"
  by unfold_locales (auto simp: ecommunity_cmp_def ecommunity_hash_make_def ecom_ok_def intro: concat_vals_eq)

abbreviation ecoms_ok :: "ecommunity ostore \<Rightarrow> bool" where
  "ecoms_ok \<equiv> store_ok ecom_ok ecommunity_hash_make ecommunity_cmp ec_refcnt"

abbreviation ecom_refs :: "ecommunity ostore \<Rightarrow> u8 list list \<Rightarrow> nat" where
  "ecom_refs \<equiv> refs ec_val ec_refcnt"

lemma ecommunity_intern_ok:
  assumes "ecoms_ok st" "objs st a = Some ecom" "ecom_ok ecom" "ec_refcnt ecom = 0" "a \<notin> interned st"
  shows "\<exists>b st'. ecommunity_intern st a = Some (b, st') \<and> ecoms_ok st' \<and> b \<in> interned st' \<and>
    ec_val (the (objs st' b)) = ec_val ecom \<and> ecom_refs st' = (ecom_refs st)(ec_val ecom := ecom_refs st (ec_val ecom) + 1)"
proof -
  obtain b st1 where 1: "intern_obj ecommunity_hash_make ecommunity_cmp ec_refcnt (\<lambda>n ecom. ecom\<lparr>ec_refcnt := n\<rparr>) st a = Some (b, st1)"
      "ecoms_ok st1" "b \<in> interned st1" "ec_val (the (objs st1 b)) = ec_val ecom"
      "ecom_refs st1 = (ecom_refs st)(ec_val ecom := ecom_refs st (ec_val ecom) + 1)"
    using ecom_objects.intern_obj_ok [OF assms] by blast
  obtain x where x: "objs st1 b = Some x" "ecom_ok x" using ecom_objects.interned_obj [OF 1(2,3)] by blast
  then obtain s where s: "ecommunity_ecom2str x ECOMMUNITY_FORMAT_DISPLAY = Some s"
    using ecom2str_total by (auto simp: ecom_ok_def)
  have "ecom_ok (x\<lparr>ec_str := Some s\<rparr>)" using x(2) by (simp add: ecom_ok_def)
  note 2 = ecom_objects.update_entry [OF 1(2) x(1) this, simplified]
  show ?thesis
    using 1 2 x s assms(2,4) by (cases "ec_str x") (simp_all add: ecommunity_intern_def zassert_def)
qed

lemma bytes_vals_ok: "8 * n \<le> length bytes \<Longrightarrow> ecom_vals_ok (bytes_vals n bytes)"
  by (auto simp: ecom_vals_ok_def bytes_vals_def list_all_iff)

text \<open>Parsing an extended communities attribute of whole values returns the one entry of
  the intern table with this set of values and takes a reference on it; the table stays
  well-formed, and no assertion fails.\<close>

lemma ecommunity_parse_interns_set:
  assumes "ecoms_ok st" "new \<notin> interned st" "len = 8 * n" "len \<le> length bytes"
  shows "\<exists>b st'. ecommunity_parse st bytes len new = Some (Some b, st') \<and> ecoms_ok st' \<and> b \<in> interned st' \<and>
    (\<forall>c \<in> interned st'. c = b \<longleftrightarrow> set (ec_val (the (objs st' c))) = set (bytes_vals n bytes)) \<and>
    (\<exists>l. set l = set (bytes_vals n bytes) \<and> sorted_wrt (<) l \<and> ecom_refs st' = (ecom_refs st)(l := ecom_refs st l + 1))"
proof -
  let ?l = "sorted_list_of_set (set (bytes_vals n bytes))"
  let ?ecom = "ecommunity_new\<lparr>ec_val := ?l\<rparr>"
  note wf = ecom_objects.new_object [OF assms(1,2), of ?ecom]
  have ok: "ecom_ok ?ecom" using bytes_vals_ok [of n bytes] assms(3,4) by (simp add: ecom_ok_def ecom_vals_ok_def list_all_iff)
  obtain b st' where b: "ecommunity_intern (st\<lparr>objs := (objs st)(new \<mapsto> ?ecom)\<rparr>) new = Some (b, st')" "ecoms_ok st'"
      "b \<in> interned st'" "ec_val (the (objs st' b)) = ?l" "ecom_refs st' = (ecom_refs st)(?l := ecom_refs st ?l + 1)"
    using ecommunity_intern_ok [OF wf(1), of new ?ecom] ok assms(2) wf(2) by (auto simp: ecommunity_new_def)
  have "c = b \<longleftrightarrow> set (ec_val (the (objs st' c))) = set (bytes_vals n bytes)" if c: "c \<in> interned st'" for c
  proof -
    obtain x where "objs st' c = Some x" "ecom_ok x" using ecom_objects.interned_obj [OF b(2) c] by blast
    then have "ec_val (the (objs st' c)) = ?l \<longleftrightarrow> set (ec_val (the (objs st' c))) = set (bytes_vals n bytes)"
      by (auto simp: ecom_ok_def strict_sorted_iff dest: sorted_list_of_set.idem_if_sorted_distinct)
    then show ?thesis using ecom_objects.same_value_same_object [OF b(2) c b(3)] b(4) by metis
  qed
  moreover have "set ?l = set (bytes_vals n bytes)" "sorted_wrt (<) ?l" by simp_all
  moreover have "ecommunity_parse st bytes len new = Some (Some b, st')"
    using assms(3,4) b(1) by (simp add: ecommunity_parse_def ecom_uniq_sort_eq zassert_def)
  ultimately show ?thesis using b by blast
qed

end
