(* ===== verification/Bgp_Types.thy ===== *)
theory Bgp_Types
  imports Aspath Ecommunity
begin

text \<open>
  The data of the BGP daemon that route selection and the protocol extensions work on: attributes
  (\<^verbatim>\<open>bgpd/bgp_attr.h\<close>), routes (\<^verbatim>\<open>bgpd/bgp_common.h\<close>), peers and instances (\<^verbatim>\<open>bgpd/bgpd.h\<close>), and socket addresses
  (\<^verbatim>\<open>lib/sockunion.c\<close>).

  A pointer to a shared object is the object; a pointer that may be null is an option.  Addresses are words in host
  byte order, IPv6 addresses lists of 16 bytes.  Only the fields that the modelled code reads or writes are present.
\<close>

subsection \<open>Socket addresses\<close>

text \<open>The families of \<^verbatim>\<open>struct sockaddr\<close>: \<^verbatim>\<open>AF_INET\<close> is 2, \<^verbatim>\<open>AF_INET6\<close> is 10.\<close>

datatype sockunion = Sin u32 | Sin6 "u8 list" | Sa u16

definition sa_family :: "sockunion \<Rightarrow> u16" where
  "sa_family su = (case su of Sin _ \<Rightarrow> 2 | Sin6 _ \<Rightarrow> 10 | Sa f \<Rightarrow> f)"

fun bytes_cmp :: "u8 list \<Rightarrow> u8 list \<Rightarrow> int" where
  "bytes_cmp (x # xs) (y # ys) = (if y < x then 1 else if x < y then - 1 else bytes_cmp xs ys)"
| "bytes_cmp _ _ = 0"

definition in6addr_cmp :: "u8 list \<Rightarrow> u8 list \<Rightarrow> int" where
  "in6addr_cmp addr1 addr2 = bytes_cmp (take 16 addr1) (take 16 addr2)"

definition sockunion_cmp :: "sockunion \<Rightarrow> sockunion \<Rightarrow> int" where
  "sockunion_cmp su1 su2 =
     (if sa_family su2 < sa_family su1 then 1
      else if sa_family su1 < sa_family su2 then - 1
      else case (su1, su2) of
        (Sin a, Sin b) \<Rightarrow> if a = b then 0 else if b < a then 1 else - 1
      | (Sin6 a, Sin6 b) \<Rightarrow> in6addr_cmp a b
      | _ \<Rightarrow> 0)"

subsection \<open>Attributes\<close>

record transit =
  t_length :: nat
  t_val :: "u8 list option"

record attr_extra =
  mp_nexthop_global :: "u8 list"
  mp_nexthop_local :: "u8 list"
  attr_ecommunity :: "ecommunity option"
  cluster :: "u32 list option"
  transit :: "transit option"
  mp_nexthop_global_in :: u32
  aggregator_addr :: u32
  originator_id :: u32
  weight :: u32
  aggregator_as :: u32
  mp_nexthop_len :: u8

record attr =
  as_path :: aspath
  attr_community :: "community option"
  extra :: "attr_extra option"
  flag :: u32
  nexthop :: u32
  med :: u32
  local_pref :: u32
  origin :: u8

definition ATTR_FLAG_BIT :: "nat \<Rightarrow> u32" where
  "ATTR_FLAG_BIT x = push_bit (x - 1) 1"

abbreviation (input) BGP_ATTR_MULTI_EXIT_DISC :: nat where "BGP_ATTR_MULTI_EXIT_DISC \<equiv> 4"
abbreviation (input) BGP_ATTR_LOCAL_PREF :: nat where "BGP_ATTR_LOCAL_PREF \<equiv> 5"
abbreviation (input) BGP_ATTR_ORIGINATOR_ID :: nat where "BGP_ATTR_ORIGINATOR_ID \<equiv> 9"
abbreviation (input) BGP_ATTR_CLUSTER_LIST :: nat where "BGP_ATTR_CLUSTER_LIST \<equiv> 10"

definition has_attr :: "attr \<Rightarrow> nat \<Rightarrow> bool" where
  "has_attr a n = (flag a AND ATTR_FLAG_BIT n \<noteq> 0)"

abbreviation (input) BGP_MED_MAX :: u32 where "BGP_MED_MAX \<equiv> - 1"

text \<open>A zeroed \<^verbatim>\<open>attr_extra\<close>, and \<^verbatim>\<open>bgp_attr_extra_get\<close>, which allocates one when there is none.\<close>

definition bgp_attr_extra_new :: attr_extra where
  "bgp_attr_extra_new = \<lparr>mp_nexthop_global = replicate 16 0, mp_nexthop_local = replicate 16 0, attr_ecommunity = None, cluster = None,
     transit = None, mp_nexthop_global_in = 0, aggregator_addr = 0, originator_id = 0, weight = 0, aggregator_as = 0, mp_nexthop_len = 0\<rparr>"

definition bgp_attr_extra_get :: "attr \<Rightarrow> attr_extra \<times> attr" where
  "bgp_attr_extra_get a = (case extra a of
     Some e \<Rightarrow> (e, a)
   | None \<Rightarrow> (bgp_attr_extra_new, a\<lparr>extra := Some bgp_attr_extra_new\<rparr>))"

text \<open>The length of a new transitive attribute is zero until a key is stored.\<close>

definition bgp_attr_extra_transit_new :: "nat \<Rightarrow> transit" where
  "bgp_attr_extra_transit_new len = \<lparr>t_length = 0, t_val = Some (replicate len 0)\<rparr>"

definition bgp_attr_extra_transit_get :: "attr \<Rightarrow> nat \<Rightarrow> transit \<times> attr" where
  "bgp_attr_extra_transit_get a len =
     (let (e, a) = bgp_attr_extra_get a in
      case transit e of
        Some t \<Rightarrow> (t, a)
      | None \<Rightarrow> let t = bgp_attr_extra_transit_new len in (t, a\<lparr>extra := Some (e\<lparr>transit := Some t\<rparr>)\<rparr>))"

subsection \<open>Instances, peers and routes\<close>

datatype dbgp_protocol = dbgp_protocol_baseline | dbgp_critical_wiser | dbgp_protocol_baseline_sleeper | dbgp_protocol_benchmark
| dbgp_replacement_none | dbgp_replacement_scion | dbgp_replacement_pathlets

record bgp_maxpaths_cfg =
  maxpaths_ebgp :: u16
  maxpaths_ibgp :: u16

text \<open>The array \<^verbatim>\<open>maxpaths\<close> has a row per address family and a column per subsequent family.\<close>

record bgp =
  bgp_as :: u32
  bgp_flags :: u16
  bgp_config :: u16
  default_local_pref :: u32
  confed_id :: u32
  confed_peers :: "u32 list"
  maxpaths :: "bgp_maxpaths_cfg list list"
  protocol_of :: dbgp_protocol
  island_id :: int

definition CHECK_FLAG :: "'a::len word \<Rightarrow> 'a word \<Rightarrow> bool" where
  "CHECK_FLAG v f = (v AND f \<noteq> 0)"

definition SET_FLAG :: "'a::len word \<Rightarrow> 'a word \<Rightarrow> 'a word" where
  "SET_FLAG v f = v OR f"

definition UNSET_FLAG :: "'a::len word \<Rightarrow> 'a word \<Rightarrow> 'a word" where
  "UNSET_FLAG v f = v AND NOT f"

abbreviation (input) BGP_FLAG_ALWAYS_COMPARE_MED :: u16 where "BGP_FLAG_ALWAYS_COMPARE_MED \<equiv> 1"
abbreviation (input) BGP_FLAG_DETERMINISTIC_MED :: u16 where "BGP_FLAG_DETERMINISTIC_MED \<equiv> 0x2"
abbreviation (input) BGP_FLAG_MED_MISSING_AS_WORST :: u16 where "BGP_FLAG_MED_MISSING_AS_WORST \<equiv> 0x4"
abbreviation (input) BGP_FLAG_MED_CONFED :: u16 where "BGP_FLAG_MED_CONFED \<equiv> 0x8"
abbreviation (input) BGP_FLAG_COMPARE_ROUTER_ID :: u16 where "BGP_FLAG_COMPARE_ROUTER_ID \<equiv> 0x80"
abbreviation (input) BGP_FLAG_ASPATH_IGNORE :: u16 where "BGP_FLAG_ASPATH_IGNORE \<equiv> 0x100"
abbreviation (input) BGP_FLAG_ASPATH_CONFED :: u16 where "BGP_FLAG_ASPATH_CONFED \<equiv> 0x2000"
abbreviation (input) BGP_FLAG_ASPATH_MULTIPATH_RELAX :: u16 where "BGP_FLAG_ASPATH_MULTIPATH_RELAX \<equiv> 0x4000"

definition bgp_flag_check :: "bgp \<Rightarrow> u16 \<Rightarrow> bool" where
  "bgp_flag_check bgp f = CHECK_FLAG (bgp_flags bgp) f"

datatype bgp_peer_sort = BGP_PEER_IBGP | BGP_PEER_EBGP | BGP_PEER_INTERNAL | BGP_PEER_CONFED

record peer =
  peer_bgp :: bgp
  peer_as :: u32
  local_as :: u32
  sort_of :: bgp_peer_sort
  remote_id :: u32
  local_id :: u32
  su_remote :: "sockunion option"

abbreviation (input) BGP_ROUTE_NORMAL :: u8 where "BGP_ROUTE_NORMAL \<equiv> 0"

abbreviation (input) BGP_INFO_DAMPED :: u16 where "BGP_INFO_DAMPED \<equiv> 0x2"
abbreviation (input) BGP_INFO_HISTORY :: u16 where "BGP_INFO_HISTORY \<equiv> 0x4"
abbreviation (input) BGP_INFO_SELECTED :: u16 where "BGP_INFO_SELECTED \<equiv> 0x8"
abbreviation (input) BGP_INFO_VALID :: u16 where "BGP_INFO_VALID \<equiv> 0x10"
abbreviation (input) BGP_INFO_ATTR_CHANGED :: u16 where "BGP_INFO_ATTR_CHANGED \<equiv> 0x20"
abbreviation (input) BGP_INFO_DMED_CHECK :: u16 where "BGP_INFO_DMED_CHECK \<equiv> 0x40"
abbreviation (input) BGP_INFO_DMED_SELECTED :: u16 where "BGP_INFO_DMED_SELECTED \<equiv> 0x80"
abbreviation (input) BGP_INFO_REMOVED :: u16 where "BGP_INFO_REMOVED \<equiv> 0x200"
abbreviation (input) BGP_INFO_COUNTED :: u16 where "BGP_INFO_COUNTED \<equiv> 0x400"
abbreviation (input) BGP_INFO_MULTIPATH :: u16 where "BGP_INFO_MULTIPATH \<equiv> 0x800"
abbreviation (input) BGP_INFO_MULTIPATH_CHG :: u16 where "BGP_INFO_MULTIPATH_CHG \<equiv> 0x1000"

text \<open>The IGP metric is the only field of \<^verbatim>\<open>bgp_info_extra\<close> that selection reads.\<close>

record bgp_info =
  bi_peer :: peer
  bi_attr :: attr
  bi_igpmetric :: "u32 option"
  bi_flags :: u16
  sub_type :: u8

end
