(* ===== verification/Pathlet_State.thy ===== *)
theory Pathlet_State
  imports Quagga_Prelude "HOL-Library.AList"
begin

text \<open>
  The pathlet graph of a router (\<^verbatim>\<open>bgpd/pathlet_internal_state.cpp\<close>): nodes are vnodes, an edge carries the
  pathlet that was inserted for it, and a table maps the addresses that the router announces to pathlets.

  A \<^verbatim>\<open>std::map\<close> is an association list with strictly ascending keys, its \<^verbatim>\<open>operator[]\<close> enters a default value for a
  missing key.  The iteration order of an \<^verbatim>\<open>unordered_set\<close> is not specified: it is the argument \<open>iter\<close> of the
  definitions that use one.  An \<^verbatim>\<open>int\<close> converted from a \<^verbatim>\<open>uint32\<close> field is the signed value of the word.
  The recursion of \<^verbatim>\<open>GetAllPrecedingPathlets\<close> has the number of stack frames that are left as an argument; \<open>None\<close> is
  the overflow of the stack, or undefined behaviour.
\<close>

subsection \<open>Ordered maps\<close>

type_synonym ('k, 'v) omap = "('k \<times> 'v) list"

fun omap_put :: "'k::linorder \<Rightarrow> 'v \<Rightarrow> ('k, 'v) omap \<Rightarrow> ('k, 'v) omap" where
  "omap_put k v [] = [(k, v)]"
| "omap_put k v ((k', v') # m) =
     (if k < k' then (k, v) # (k', v') # m else if k = k' then (k, v) # m else (k', v') # omap_put k v m)"

text \<open>\<^verbatim>\<open>m[k]\<close>: the value, and the map afterwards.\<close>

definition omap_at :: "'v \<Rightarrow> 'k::linorder \<Rightarrow> ('k, 'v) omap \<Rightarrow> 'v \<times> ('k, 'v) omap" where
  "omap_at dflt k m = (case map_of m k of Some v \<Rightarrow> (v, m) | None \<Rightarrow> (dflt, omap_put k dflt m))"

definition omap_ok :: "('k::linorder, 'v) omap \<Rightarrow> bool" where
  "omap_ok m \<longleftrightarrow> sorted_wrt (<) (map fst m)"

subsection \<open>Pathlets and the state\<close>

record pathlet =
  fid :: u32
  vnodes :: "u32 list"
  destination :: string
  path_vector :: "u32 list"
  is_two_hop :: u32

definition empty_pathlet :: pathlet where
  "empty_pathlet = \<lparr>fid = 0, vnodes = [], destination = '''', path_vector = [], is_two_hop = 0\<rparr>"

type_synonym graph = "(int, (int, pathlet) omap) omap"

record PathletInternalState =
  pathlet_graph :: graph
  next_fid :: u32
  next_ip :: u32
  ip_to_pathlet_to_send :: "(string \<times> pathlet) list"

definition vnode :: "pathlet \<Rightarrow> nat \<Rightarrow> int option" where
  "vnode p i = (if i < length (vnodes p) then Some (sint (vnodes p ! i)) else None)"

definition InsertPathletIntoGraph :: "PathletInternalState \<Rightarrow> pathlet \<Rightarrow> PathletInternalState option" where
  "InsertPathletIntoGraph st p = do {
     primary_node \<leftarrow> vnode p 0;
     adjacent_node \<leftarrow> vnode p 1;
     let g = (if map_of (pathlet_graph st) primary_node = None
              then omap_put primary_node [] (pathlet_graph st) else pathlet_graph st);
         (adj, g) = omap_at [] primary_node g in
     Some (st\<lparr>pathlet_graph := omap_put primary_node (omap_put adjacent_node p adj) g\<rparr>) }"

definition InsertPathletToSend :: "PathletInternalState \<Rightarrow> string \<Rightarrow> pathlet \<Rightarrow> PathletInternalState option" where
  "InsertPathletToSend st associated_ip p =
     InsertPathletIntoGraph
       (st\<lparr>ip_to_pathlet_to_send := AList.update associated_ip p (ip_to_pathlet_to_send st)\<rparr>) p"

definition GetPathletToSend :: "PathletInternalState \<Rightarrow> string \<Rightarrow> pathlet \<times> PathletInternalState" where
  "GetPathletToSend st associated_ip =
     (case map_of (ip_to_pathlet_to_send st) associated_ip of
        Some p \<Rightarrow> (p, st)
      | None \<Rightarrow> (empty_pathlet, st\<lparr>ip_to_pathlet_to_send :=
          AList.update associated_ip empty_pathlet (ip_to_pathlet_to_send st)\<rparr>))"

definition ConvertGraphToPathlets :: "PathletInternalState \<Rightarrow> pathlet list" where
  "ConvertGraphToPathlets st = concat (map (\<lambda>(_, adj). map snd adj) (pathlet_graph st))"

text \<open>The counter is an \<^verbatim>\<open>int\<close>; adding one to its largest value is undefined.\<close>

definition GetNextFid :: "PathletInternalState \<Rightarrow> (int \<times> PathletInternalState) option" where
  "GetNextFid st = do {
     zassert (sint (next_fid st) < 2 ^ 31 - 1);
     Some (sint (next_fid st), st\<lparr>next_fid := next_fid st + 1\<rparr>) }"

definition dotted :: "u32 \<Rightarrow> string" where
  "dotted w = dec_str (unat (drop_bit 24 w)) @ ''.'' @ dec_str (unat (drop_bit 16 w AND 255)) @ ''.'' @
     dec_str (unat (drop_bit 8 w AND 255)) @ ''.'' @ dec_str (unat (w AND 255))"

definition GetNextIp :: "PathletInternalState \<Rightarrow> string \<times> PathletInternalState" where
  "GetNextIp st = (dotted (next_ip st), st\<lparr>next_ip := next_ip st + 1\<rparr>)"

text \<open>\<open>inet_pton\<close> gives the address of the range in host order; for a string it rejects the field stays unset.\<close>

definition new_PathletInternalState :: "(string \<Rightarrow> u32 option) \<Rightarrow> string \<Rightarrow> PathletInternalState option" where
  "new_PathletInternalState inet_pton ip_slash_24 = do {
     ip \<leftarrow> inet_pton ip_slash_24;
     Some \<lparr>pathlet_graph = [], next_fid = 1, next_ip = ip, ip_to_pathlet_to_send = []\<rparr> }"

definition int_str :: "int \<Rightarrow> string" where
  "int_str i = (if i < 0 then ''-'' @ dec_str (nat (- i)) else dec_str (nat i))"

definition GraphToString :: "PathletInternalState \<Rightarrow> string" where
  "GraphToString st = concat (map (\<lambda>(primary_node, adj).
     concat (map (\<lambda>(adjacent_node, p).
       int_str primary_node @ '' '' @ int_str adjacent_node @ '' '' @ int_str (sint (fid p)) @ [CHR 0x0A]) adj))
     (pathlet_graph st))"

subsection \<open>Predecessors\<close>

text \<open>The sets of predecessors are lists without repetition.  \<open>visit\<close> is the loop over the adjacent vertices of
  \<open>working_as\<close>; the top of the stack is the head of the list.\<close>

type_synonym dfs = "(int, bool) omap \<times> (int, int list) omap \<times> int list"

definition is_visited :: "(int, bool) omap \<Rightarrow> int \<Rightarrow> bool" where
  "is_visited visited v = (map_of visited v = Some True)"

definition preds_of :: "(int, int list) omap \<Rightarrow> int \<Rightarrow> int list" where
  "preds_of preds v = (case map_of preds v of Some ps \<Rightarrow> ps | None \<Rightarrow> [])"

fun visit :: "int \<Rightarrow> int \<Rightarrow> int list \<Rightarrow> dfs \<Rightarrow> dfs" where
  "visit as_num working_as [] s = s"
| "visit as_num working_as (adjacent_node # adj) (visited, preds, stack) =
     (let (visited, stack) =
            (if \<not> is_visited visited adjacent_node
             then (omap_put adjacent_node True visited, adjacent_node # stack)
             else (visited, stack));
          preds =
            (if working_as \<notin> set (preds_of preds adjacent_node) \<and> adjacent_node \<noteq> as_num
             then omap_put adjacent_node (preds_of preds adjacent_node @ [working_as]) preds else preds)
      in visit as_num working_as adj (visited, preds, stack))"

definition init_nodes :: "graph \<Rightarrow> (int, bool) omap \<times> (int, int list) omap" where
  "init_nodes g = fold (\<lambda>v (visited, preds). (omap_put v False visited, omap_put v [] preds))
     (concat (map (\<lambda>(primary, adj). primary # map fst adj) g)) ([], [])"

definition targets :: "graph \<Rightarrow> int set" where
  "targets g = fst ` set (concat (map snd g))"

lemma map_of_omap_put [simp]: "map_of (omap_put k v m) = (map_of m)(k \<mapsto> v)"
  by (induction m) (auto simp: fun_eq_iff)

lemma is_visited_put [simp]: "is_visited (omap_put v b visited) w = (if w = v then b else is_visited visited w)"
  by (simp add: is_visited_def)

lemma preds_of_put [simp]: "preds_of (omap_put v ps preds) w = (if w = v then ps else preds_of preds w)"
  by (simp add: preds_of_def)

text \<open>A visited vertex stays visited; the stack grows by the newly visited vertices.\<close>

lemma visit_stack:
  "visit as_num w adj (visited, preds, stack) = (visited', preds', stack') \<Longrightarrow>
   \<exists>new. stack' = new @ stack \<and> distinct new \<and> set new = {v \<in> set adj. \<not> is_visited visited v} \<and>
     (\<forall>v. is_visited visited' v \<longleftrightarrow> is_visited visited v \<or> v \<in> set adj)"
proof (induction adj arbitrary: visited preds stack)
  case (Cons a adj)
  let ?preds = "if w \<notin> set (preds_of preds a) \<and> a \<noteq> as_num then omap_put a (preds_of preds a @ [w]) preds else preds"
  show ?case
  proof (cases "is_visited visited a")
    case True
    then have "visit as_num w adj (visited, ?preds, stack) = (visited', preds', stack')" using Cons.prems by (simp add: Let_def)
    from Cons.IH [OF this] show ?thesis using True by auto
  next
    case False
    then have "visit as_num w adj (omap_put a True visited, ?preds, a # stack) = (visited', preds', stack')"
      using Cons.prems by (simp add: Let_def)
    from Cons.IH [OF this] obtain new where "stack' = new @ a # stack" "distinct new"
        "set new = {v \<in> set adj. \<not> is_visited (omap_put a True visited) v}"
        "\<forall>v. is_visited visited' v \<longleftrightarrow> is_visited (omap_put a True visited) v \<or> v \<in> set adj"
      by blast
    then show ?thesis using False by (intro exI [of _ "new @ [a]"]) auto
  qed
qed simp

lemma targets_put_empty: "map_of g k = None \<Longrightarrow> targets (omap_put k [] g) = targets g"
proof -
  have "map_of g k = None \<Longrightarrow> concat (map snd (omap_put k [] g)) = concat (map snd g)"
    by (induction g) (auto split: if_splits)
  then show "map_of g k = None \<Longrightarrow> targets (omap_put k [] g) = targets g" by (simp add: targets_def)
qed

lemma targets_at: "omap_at [] k g = (adj, g') \<Longrightarrow> targets g' = targets g \<and> fst ` set adj \<subseteq> targets g"
  by (auto simp: omap_at_def targets_put_empty split: option.splits dest!: map_of_SomeD)
    (force simp: targets_def)

lemma finite_targets [simp]: "finite (targets g)"
  by (auto simp: targets_def)

text \<open>The loop over the stack; \<^verbatim>\<open>pathlet_graph_[working_as]\<close> may enter an empty entry.\<close>

function get_preds :: "int \<Rightarrow> graph \<times> dfs \<Rightarrow> graph \<times> (int, int list) omap" where
  "get_preds as_num (g, visited, preds, []) = (g, preds)"
| "get_preds as_num (g, visited, preds, working_as # stack) =
     (let (adj, g) = omap_at [] working_as g
      in get_preds as_num (g, visit as_num working_as (map fst adj) (visited, preds, stack)))"
  by pat_completeness auto

termination
proof (relation "measures [\<lambda>(as_num, g, visited, preds, stack). card {v \<in> targets g. \<not> is_visited visited v},
    \<lambda>(as_num, g, visited, preds, stack). length stack]", goal_cases)
  case (2 as_num g visited preds w stack x adj g')
  obtain visited' preds' stack' where v: "visit as_num w (map fst adj) (visited, preds, stack) = (visited', preds', stack')"
    by (metis prod_cases3)
  then obtain new where new: "stack' = new @ stack" "set new = {v \<in> set (map fst adj). \<not> is_visited visited v}"
      "\<forall>v. is_visited visited' v \<longleftrightarrow> is_visited visited v \<or> v \<in> set (map fst adj)"
    using visit_stack by blast
  have g: "targets g' = targets g" "fst ` set adj \<subseteq> targets g" using targets_at 2 by metis+
  show ?case
  proof (cases "new = []")
    case True
    then have "{v \<in> targets g. \<not> is_visited visited' v} = {v \<in> targets g. \<not> is_visited visited v}" using new by auto
    then show ?thesis using True new g 2 v by simp
  next
    case False
    then have "{v \<in> targets g. \<not> is_visited visited' v} \<subset> {v \<in> targets g. \<not> is_visited visited v}"
    proof -
      obtain a where "a \<in> set new" using False by (cases new) auto
      then have "a \<in> targets g" "\<not> is_visited visited a" "is_visited visited' a" using new(2,3) g(2) by auto
      then show ?thesis using new(3) by blast
    qed
    then have "card {v \<in> targets g. \<not> is_visited visited' v} < card {v \<in> targets g. \<not> is_visited visited v}"
      by (intro psubset_card_mono) auto
    then show ?thesis using g 2 v by simp
  qed
qed simp

definition GetPredecessors :: "PathletInternalState \<Rightarrow> int \<Rightarrow> (int, int list) omap \<times> PathletInternalState" where
  "GetPredecessors st as_num =
     (let (visited, preds) = init_nodes (pathlet_graph st);
          (g, preds) = get_preds as_num (pathlet_graph st, omap_put as_num True visited, preds, [as_num])
      in (preds, st\<lparr>pathlet_graph := g\<rparr>))"

subsection \<open>The pathlets towards a destination\<close>

text \<open>\<open>preceding n\<close> is \<^verbatim>\<open>GetAllPrecedingPathlets\<close> with \<open>n\<close> stack frames left.\<close>

fun preceding :: "(int list \<Rightarrow> int list) \<Rightarrow> (int, int list) omap \<Rightarrow> nat \<Rightarrow> graph \<Rightarrow> int \<Rightarrow> (pathlet list \<times> graph) option"
  and preceding_loop :: "(int list \<Rightarrow> int list) \<Rightarrow> (int, int list) omap \<Rightarrow> nat \<Rightarrow> graph \<Rightarrow> int \<Rightarrow> int list \<Rightarrow>
    (pathlet list \<times> graph) option" where
  "preceding iter preds 0 g starting_pt = None"
| "preceding iter preds (Suc n) g starting_pt = preceding_loop iter preds n g starting_pt (iter (preds_of preds starting_pt))"
| "preceding_loop iter preds n g starting_pt [] = Some ([], g)"
| "preceding_loop iter preds n g starting_pt (p # ps) =
     (let (adj, g) = omap_at [] p g;
          (predecessor_pathlet, adj) = omap_at empty_pathlet starting_pt adj;
          g = omap_put p adj g
      in do {
        (append_pathlet, g) \<leftarrow> preceding iter preds n g p;
        (rest, g) \<leftarrow> preceding_loop iter preds n g starting_pt ps;
        Some (predecessor_pathlet # append_pathlet @ rest, g) })"

text \<open>The search for the destination: the inner loop stops at the first match, the outer one goes on.\<close>

definition dest_node :: "graph \<Rightarrow> string \<Rightarrow> int option" where
  "dest_node g dest = fold (\<lambda>(primary, adj) found.
     case find (\<lambda>(_, p). destination p = dest) adj of Some (adjacent, _) \<Rightarrow> Some adjacent | None \<Rightarrow> found) g None"

definition GetPathletsForDestination ::
  "(int list \<Rightarrow> int list) \<Rightarrow> nat \<Rightarrow> PathletInternalState \<Rightarrow> string \<Rightarrow> int \<Rightarrow> int \<Rightarrow> (pathlet list \<times> PathletInternalState) option" where
  "GetPathletsForDestination iter n st dest island_id as_num =
     (let (preds, st) = GetPredecessors st as_num in do {
        d \<leftarrow> dest_node (pathlet_graph st) dest;
        (ps, g) \<leftarrow> preceding iter preds n (pathlet_graph st) d;
        Some (map (\<lambda>p. p\<lparr>path_vector := path_vector p @ [of_int island_id]\<rparr>) ps, st\<lparr>pathlet_graph := g\<rparr>) })"

subsection \<open>Edges\<close>

definition adj_of :: "graph \<Rightarrow> int \<Rightarrow> (int, pathlet) omap" where
  "adj_of g u = (case map_of g u of Some adj \<Rightarrow> adj | None \<Rightarrow> [])"

definition edges :: "graph \<Rightarrow> (int \<times> int) set" where
  "edges g = {(u, v). map_of (adj_of g u) v \<noteq> None}"

definition label :: "graph \<Rightarrow> int \<Rightarrow> int \<Rightarrow> pathlet" where
  "label g u v = the (map_of (adj_of g u) v)"

lemma edge_adj: "(u, v) \<in> edges g \<longleftrightarrow> v \<in> fst ` set (adj_of g u)"
  using dom_map_of_conv_image_fst [of "adj_of g u"] by (auto simp: edges_def dom_def)

lemma at_node: "omap_at [] u g = (adj, g') \<Longrightarrow> adj = adj_of g u \<and> adj_of g' = adj_of g"
  by (auto simp: omap_at_def adj_of_def fun_eq_iff split: option.splits if_splits)

lemma same_adj: "adj_of g' = adj_of g \<Longrightarrow> edges g' = edges g \<and> label g' = label g"
  by (auto simp: edges_def label_def fun_eq_iff)

lemma edge_target:
  assumes "(u, v) \<in> edges g"
  shows "v \<in> targets g"
proof -
  obtain adj p where "map_of g u = Some adj" "(v, p) \<in> set adj"
    using assms unfolding edge_adj adj_of_def by (cases "map_of g u") auto
  then have "(v, p) \<in> set (concat (map snd g))" by (force dest: map_of_SomeD)
  then show ?thesis unfolding targets_def by (metis fst_conv imageI)
qed

subsection \<open>The search finds the predecessors\<close>

lemma visit_preds:
  "visit as_num w adj (visited, preds, stack) = (visited', preds', stack') \<Longrightarrow>
   preds_of preds' v = (if v \<in> set adj \<and> v \<noteq> as_num \<and> w \<notin> set (preds_of preds v) then preds_of preds v @ [w] else preds_of preds v)"
proof (induction adj arbitrary: visited preds stack)
  case (Cons a adj)
  let ?preds = "if w \<notin> set (preds_of preds a) \<and> a \<noteq> as_num then omap_put a (preds_of preds a @ [w]) preds else preds"
  obtain visited1 stack1 where "visit as_num w adj (visited1, ?preds, stack1) = (visited', preds', stack')"
    using Cons.prems by (cases "is_visited visited a") (simp_all add: Let_def)
  from Cons.IH [OF this] show ?case by auto
qed simp

definition dfs_inv :: "graph \<Rightarrow> int \<Rightarrow> dfs \<Rightarrow> bool" where
  "dfs_inv g r = (\<lambda>(visited, preds, stack).
     is_visited visited r \<and> distinct stack \<and> (\<forall>v \<in> set stack. is_visited visited v) \<and>
     (\<forall>v. is_visited visited v \<longrightarrow> (r, v) \<in> (edges g)\<^sup>*) \<and>
     (\<forall>u v. is_visited visited u \<and> u \<notin> set stack \<and> (u, v) \<in> edges g \<longrightarrow> is_visited visited v) \<and>
     (\<forall>v. distinct (preds_of preds v) \<and> set (preds_of preds v) =
        (if v = r then {} else {u. is_visited visited u \<and> u \<notin> set stack \<and> (u, v) \<in> edges g})))"

lemma visit_inv:
  assumes "dfs_inv g r (visited, preds, w # stack)" "visit r w (map fst (adj_of g w)) (visited, preds, stack) = (visited', preds', stack')"
  shows "dfs_inv g r (visited', preds', stack')"
proof -
  obtain new where new: "stack' = new @ stack" "distinct new" "set new = {v. (w, v) \<in> edges g \<and> \<not> is_visited visited v}"
      "\<forall>v. is_visited visited' v \<longleftrightarrow> is_visited visited v \<or> (w, v) \<in> edges g"
    using visit_stack [OF assms(2)] by (auto simp: edge_adj)
  have inv: "is_visited visited r" "distinct (w # stack)" "\<forall>v \<in> set (w # stack). is_visited visited v"
      "\<forall>v. is_visited visited v \<longrightarrow> (r, v) \<in> (edges g)\<^sup>*"
      "\<forall>u v. is_visited visited u \<and> u \<notin> set (w # stack) \<and> (u, v) \<in> edges g \<longrightarrow> is_visited visited v"
    and p: "distinct (preds_of preds v)" "set (preds_of preds v) =
        (if v = r then {} else {u. is_visited visited u \<and> u \<notin> set (w # stack) \<and> (u, v) \<in> edges g})" for v
    using assms(1) by (auto simp: dfs_inv_def)
  have done_iff: "is_visited visited' u \<and> u \<notin> set stack' \<longleftrightarrow> u = w \<or> is_visited visited u \<and> u \<notin> set (w # stack)" for u
    using new inv(2,3) by auto
  have 1: "is_visited visited' r" "distinct stack'" "\<forall>v \<in> set stack'. is_visited visited' v" using new inv(1-3) by auto
  have 2: "\<forall>v. is_visited visited' v \<longrightarrow> (r, v) \<in> (edges g)\<^sup>*"
    using new(4) inv(3,4) by (auto intro: rtrancl_into_rtrancl)
  have 3: "\<forall>u v. is_visited visited' u \<and> u \<notin> set stack' \<and> (u, v) \<in> edges g \<longrightarrow> is_visited visited' v"
  proof (intro allI impI; elim conjE)
    fix u v
    assume "is_visited visited' u" "u \<notin> set stack'" and e: "(u, v) \<in> edges g"
    then consider "u = w" | "is_visited visited u" "u \<notin> set (w # stack)" using done_iff [of u] by auto
    then show "is_visited visited' v" using inv(5) new(4) e by cases blast+
  qed
  have 4: "\<forall>v. distinct (preds_of preds' v) \<and> set (preds_of preds' v) =
      (if v = r then {} else {u. is_visited visited' u \<and> u \<notin> set stack' \<and> (u, v) \<in> edges g})"
  proof
    fix v
    have "{u. is_visited visited' u \<and> u \<notin> set stack' \<and> (u, v) \<in> edges g} =
        {u. u = w \<and> (u, v) \<in> edges g} \<union> {u. is_visited visited u \<and> u \<notin> set (w # stack) \<and> (u, v) \<in> edges g}"
      by (auto simp: done_iff [simplified] conj_disj_distribR simp flip: conj_assoc)
    then show "distinct (preds_of preds' v) \<and> set (preds_of preds' v) =
        (if v = r then {} else {u. is_visited visited' u \<and> u \<notin> set stack' \<and> (u, v) \<in> edges g})"
      using visit_preds [OF assms(2), of v] p [of v] by (auto simp: edge_adj)
  qed
  show ?thesis unfolding dfs_inv_def prod.case by (intro conjI 1 2 3 4)
qed

lemma dfs_inv_same_adj: "adj_of g' = adj_of g \<Longrightarrow> dfs_inv g' r = dfs_inv g r"
  by (drule same_adj) (simp add: dfs_inv_def)

lemma get_preds_ok:
  assumes "dfs_inv g r (visited, preds, stack)" "get_preds r (g, visited, preds, stack) = (g', preds')"
  shows "adj_of g' = adj_of g \<and> distinct (preds_of preds' v) \<and>
    set (preds_of preds' v) = (if v = r then {} else {u. (r, u) \<in> (edges g)\<^sup>* \<and> (u, v) \<in> edges g})"
  using assms
proof (induction r "(g, visited, preds, stack)" arbitrary: g visited preds stack rule: get_preds.induct)
  case (1 r g visited preds)
  have "is_visited visited u" if "(r, u) \<in> (edges g)\<^sup>*" for u
    using that 1 by (induction rule: rtrancl_induct) (auto simp: dfs_inv_def)
  then have "is_visited visited u \<longleftrightarrow> (r, u) \<in> (edges g)\<^sup>*" for u using 1(1) unfolding dfs_inv_def by blast
  then show ?case using 1 by (simp add: dfs_inv_def)
next
  case (2 r g visited preds w stack)
  obtain adj g1 where at: "omap_at [] w g = (adj, g1)" by fastforce
  note adj = at_node [OF at]
  obtain visited1 preds1 stack1 where
    v: "visit r w (map fst adj) (visited, preds, stack) = (visited1, preds1, stack1)" by (metis prod_cases3)
  have "dfs_inv g1 r (visited1, preds1, stack1)"
    using visit_inv [OF 2(2)] v adj dfs_inv_same_adj [of g1 g] by simp
  moreover have "get_preds r (g1, visited1, preds1, stack1) = (g', preds')" using 2(3) at v by simp
  ultimately have "adj_of g' = adj_of g1 \<and> distinct (preds_of preds' v) \<and>
      set (preds_of preds' v) = (if v = r then {} else {u. (r, u) \<in> (edges g1)\<^sup>* \<and> (u, v) \<in> edges g1})"
    using 2(1) [OF refl at [symmetric] v] by blast
  then show ?case using adj same_adj [of g1 g] by simp
qed

lemma init_nodes_ok:
  assumes "init_nodes g = (visited, preds)"
  shows "\<not> is_visited visited v" "preds_of preds v = []"
proof -
  have "\<not> is_visited (fst (fold (\<lambda>v (visited, preds). (omap_put v False visited, omap_put v [] preds)) vs s)) v \<and>
      preds_of (snd (fold (\<lambda>v (visited, preds). (omap_put v False visited, omap_put v [] preds)) vs s)) v = []"
    if "\<not> is_visited (fst s) v" "preds_of (snd s) v = []" for vs s
    using that by (induction vs arbitrary: s) (auto simp: case_prod_beta)
  from this [where s = "([], [])" and vs = "concat (map (\<lambda>(primary, adj). primary # map fst adj) g)"] show "\<not> is_visited visited v" "preds_of preds v = []"
    using assms by (simp_all add: init_nodes_def is_visited_def preds_of_def)
qed

lemma GetPredecessors_ok:
  assumes "GetPredecessors st r = (preds, st')"
  shows "adj_of (pathlet_graph st') = adj_of (pathlet_graph st)" "distinct (preds_of preds v)"
    "set (preds_of preds v) = (if v = r then {} else {u. (r, u) \<in> (edges (pathlet_graph st))\<^sup>* \<and> (u, v) \<in> edges (pathlet_graph st)})"
proof -
  let ?g = "pathlet_graph st"
  obtain visited preds0 where i: "init_nodes ?g = (visited, preds0)" by fastforce
  obtain g' where g': "get_preds r (?g, omap_put r True visited, preds0, [r]) = (g', preds)" "pathlet_graph st' = g'"
    using assms i by (auto simp: GetPredecessors_def split: prod.splits)
  have "dfs_inv ?g r (omap_put r True visited, preds0, [r])"
    by (simp add: dfs_inv_def init_nodes_ok [OF i])
  from get_preds_ok [OF this g'(1)] show "adj_of (pathlet_graph st') = adj_of ?g" "distinct (preds_of preds v)"
    "set (preds_of preds v) = (if v = r then {} else {u. (r, u) \<in> (edges ?g)\<^sup>* \<and> (u, v) \<in> edges ?g})"
    using g'(2) by simp_all
qed

subsection \<open>All preceding pathlets\<close>

abbreviation pred_rel :: "(int, int list) omap \<Rightarrow> (int \<times> int) set" where
  "pred_rel preds \<equiv> {(p, v). p \<in> set (preds_of preds v)}"

abbreviation iterates :: "(int list \<Rightarrow> int list) \<Rightarrow> bool" where
  "iterates iter \<equiv> (\<forall>xs. set (iter xs) = set xs)"

lemma at_edge:
  assumes "(p, v) \<in> edges g" "omap_at [] p g = (adj, g1)" "omap_at empty_pathlet v adj = (pl, adj')"
  shows "pl = label g p v" "adj_of (omap_put p adj' g1) = adj_of g"
proof -
  obtain pl' where l: "map_of (adj_of g p) v = Some pl'" using assms(1) by (auto simp: edges_def)
  then have "adj' = adj" "pl = pl'" using assms(2,3) at_node [OF assms(2)] by (auto simp: omap_at_def)
  then show "pl = label g p v" "adj_of (omap_put p adj' g1) = adj_of g"
    using l at_node [OF assms(2)] by (auto simp: label_def adj_of_def fun_eq_iff)
qed

text \<open>The pathlets of the edges on the ways to \<open>v\<close>.\<close>

definition above :: "(int, int list) omap \<Rightarrow> graph \<Rightarrow> int \<Rightarrow> pathlet set" where
  "above preds g v = {label g a b |a b. (a, b) \<in> pred_rel preds \<and> (b, v) \<in> (pred_rel preds)\<^sup>*}"

lemma above_unfold: "above preds g v = (\<Union>p \<in> set (preds_of preds v). insert (label g p v) (above preds g p))"
proof
  show "above preds g v \<subseteq> (\<Union>p \<in> set (preds_of preds v). insert (label g p v) (above preds g p))"
  proof
    fix x
    assume "x \<in> above preds g v"
    then obtain a b where ab: "x = label g a b" "(a, b) \<in> pred_rel preds" "(b, v) \<in> (pred_rel preds)\<^sup>*"
      by (auto simp: above_def)
    from ab(3) show "x \<in> (\<Union>p \<in> set (preds_of preds v). insert (label g p v) (above preds g p))"
      by (cases rule: rtranclE) (use ab in \<open>auto simp: above_def\<close>)
  qed
  show "(\<Union>p \<in> set (preds_of preds v). insert (label g p v) (above preds g p)) \<subseteq> above preds g v"
    by (auto simp: above_def intro: rtrancl_into_rtrancl)
qed

definition terminates :: "(int list \<Rightarrow> int list) \<Rightarrow> (int, int list) omap \<Rightarrow> nat \<Rightarrow> graph \<Rightarrow> int \<Rightarrow> bool" where
  "terminates iter preds n g p \<longleftrightarrow> (\<forall>g1. adj_of g1 = adj_of g \<longrightarrow>
     (\<exists>pls g2. preceding iter preds n g1 p = Some (pls, g2) \<and> adj_of g2 = adj_of g \<and> set pls = above preds g p))"

lemma preceding_loop_ok:
  assumes "\<forall>p \<in> set ps. terminates iter preds n g p" "\<forall>p \<in> set ps. (p, v) \<in> edges g" "adj_of g1 = adj_of g"
  shows "\<exists>pls g2. preceding_loop iter preds n g1 v ps = Some (pls, g2) \<and> adj_of g2 = adj_of g \<and>
    set pls = (\<Union>p \<in> set ps. insert (label g p v) (above preds g p))"
  using assms
proof (induction ps arbitrary: g1)
  case (Cons p ps)
  obtain adj g2 pl adj' where at: "omap_at [] p g1 = (adj, g2)" "omap_at empty_pathlet v adj = (pl, adj')" by fastforce
  have e: "(p, v) \<in> edges g1" "label g1 = label g" using Cons.prems(2,3) same_adj [of g1 g] by auto
  have pl: "pl = label g1 p v" "adj_of (omap_put p adj' g2) = adj_of g"
    using at_edge [OF e(1) at] Cons.prems(3) by simp_all
  have "terminates iter preds n g p" using Cons.prems(1) by simp
  then obtain pls1 g3 where 1: "preceding iter preds n (omap_put p adj' g2) p = Some (pls1, g3)" "adj_of g3 = adj_of g"
      "set pls1 = above preds g p"
    using pl(2) unfolding terminates_def by blast
  obtain pls2 g4 where 2: "preceding_loop iter preds n g3 v ps = Some (pls2, g4)" "adj_of g4 = adj_of g"
      "set pls2 = (\<Union>p \<in> set ps. insert (label g p v) (above preds g p))"
    using Cons.IH [OF _ _ 1(2)] Cons.prems(1,2) by auto
  have "preceding_loop iter preds n g1 v (p # ps) = Some (pl # pls1 @ pls2, g4)" using at 1(1) 2(1) by simp
  then show ?case using 1(3) 2(2,3) pl(1) e(2) by auto
qed simp

text \<open>With a height that grows along the edges, enough stack makes the recursion return.\<close>

lemma preceding_ok:
  assumes "iterates iter" "pred_rel preds \<subseteq> edges g" "\<forall>(p, v) \<in> pred_rel preds. h p < h v" "h v < n"
  shows "terminates iter preds n g v"
  using assms(4)
proof (induction n arbitrary: v)
  case (Suc n)
  have "\<forall>p \<in> set (iter (preds_of preds v)). terminates iter preds n g p" "\<forall>p \<in> set (iter (preds_of preds v)). (p, v) \<in> edges g"
    using Suc assms(1-3) by force+
  from preceding_loop_ok [OF this] show ?case
    using assms(1) unfolding terminates_def by (simp flip: above_unfold)
qed simp

text \<open>Without enough stack it does not: along every chain of predecessors each call needs a frame.\<close>

lemma preceding_loop_needs:
  assumes "preceding_loop iter preds n g v ps = Some r" "p \<in> set ps"
  shows "\<exists>g' r'. preceding iter preds n g' p = Some r'"
  using assms by (induction ps arbitrary: g r) (auto simp: bind_eq_Some_conv split: prod.splits)

lemma preceding_chain:
  assumes "iterates iter" "(u, v) \<in> pred_rel preds ^^ k" "preceding iter preds n g v = Some r"
  shows "k < n"
  using assms(2,3)
proof (induction n arbitrary: k v g r)
  case (Suc n)
  show ?case
  proof (cases k)
    case (Suc j)
    then obtain p where p: "(u, p) \<in> pred_rel preds ^^ j" "p \<in> set (preds_of preds v)" using Suc.prems(1) by auto
    then have "p \<in> set (iter (preds_of preds v))" using assms(1) by simp
    then obtain g' r' where "preceding iter preds n g' p = Some r'"
      using preceding_loop_needs Suc.prems(2) by (metis preceding.simps(2))
    then show ?thesis using Suc.IH [OF p(1)] Suc by simp
  qed simp
qed simp

text \<open>The height of a vertex: how many vertices precede it.\<close>

lemma acyclic_height:
  assumes "acyclic R" "R \<subseteq> edges g"
  shows "\<exists>h. (\<forall>(p, v) \<in> R. h p < h v) \<and> (\<forall>v. h v \<le> length g)"
proof (intro exI conjI allI ballI; clarify?)
  let ?h = "\<lambda>v. card {u. (u, v) \<in> R\<^sup>+}"
  have sub: "{u. (u, v) \<in> R\<^sup>+} \<subseteq> fst ` set g" for v
  proof
    fix u
    assume "u \<in> {u. (u, v) \<in> R\<^sup>+}"
    then obtain w where "(u, w) \<in> edges g" using assms(2) by (auto dest!: tranclD)
    then show "u \<in> fst ` set g" by (auto simp: edges_def adj_of_def split: option.splits dest!: map_of_SomeD) force
  qed
  show "?h p < ?h v" if "(p, v) \<in> R" for p v
  proof (rule psubset_card_mono)
    show "finite {u. (u, v) \<in> R\<^sup>+}" using sub finite_subset by blast
    have "p \<in> {u. (u, v) \<in> R\<^sup>+}" "p \<notin> {u. (u, p) \<in> R\<^sup>+}" using that assms(1) by (auto simp: acyclic_def)
    then show "{u. (u, p) \<in> R\<^sup>+} \<subset> {u. (u, v) \<in> R\<^sup>+}" using that by (auto intro: trancl_into_trancl)
  qed
  show "?h v \<le> length g" for v
    using card_mono [OF _ sub, of v] card_length [of "map fst g"] by simp
qed

lemma dest_node_put: "map_of g k = None \<Longrightarrow> dest_node (omap_put k [] g) dest = dest_node g dest"
proof -
  have "map_of g k = None \<Longrightarrow> fold (\<lambda>(primary, adj) found.
      case find (\<lambda>(_, p). destination p = dest) adj of Some (adjacent, _) \<Rightarrow> Some adjacent | None \<Rightarrow> found) (omap_put k [] g) r =
    fold (\<lambda>(primary, adj) found.
      case find (\<lambda>(_, p). destination p = dest) adj of Some (adjacent, _) \<Rightarrow> Some adjacent | None \<Rightarrow> found) g r" for r
    by (induction g arbitrary: r) (auto split: if_splits)
  then show "map_of g k = None \<Longrightarrow> dest_node (omap_put k [] g) dest = dest_node g dest" by (simp add: dest_node_def)
qed

lemma get_preds_dest: "get_preds r (g, s) = (g', preds') \<Longrightarrow> dest_node g' dest = dest_node g dest"
proof (induction r "(g, s)" arbitrary: g s rule: get_preds.induct)
  case (2 r g visited preds w stack)
  obtain adj g1 where at: "omap_at [] w g = (adj, g1)" by fastforce
  then have "dest_node g1 dest = dest_node g dest" by (auto simp: omap_at_def dest_node_put split: option.splits)
  then show ?case using 2(1) [OF refl at [symmetric]] 2(2) at by simp
qed simp

text \<open>The edges that the search uses: those from reachable vertices, not into the root.\<close>

definition used :: "graph \<Rightarrow> int \<Rightarrow> (int \<times> int) set" where
  "used g r = {(u, v) \<in> edges g. (r, u) \<in> (edges g)\<^sup>* \<and> v \<noteq> r}"

lemma GetPredecessors_used:
  assumes "GetPredecessors st r = (preds, st')"
  shows "pred_rel preds = used (pathlet_graph st) r" "dest_node (pathlet_graph st') dest = dest_node (pathlet_graph st) dest"
    "label (pathlet_graph st') = label (pathlet_graph st)" "edges (pathlet_graph st') = edges (pathlet_graph st)"
proof -
  show "pred_rel preds = used (pathlet_graph st) r"
    using GetPredecessors_ok(3) [OF assms] by (auto simp: used_def split: if_splits)
  show "dest_node (pathlet_graph st') dest = dest_node (pathlet_graph st) dest"
    using assms by (auto simp: GetPredecessors_def simp del: get_preds.simps split: prod.splits intro: get_preds_dest)
  show "label (pathlet_graph st') = label (pathlet_graph st)" "edges (pathlet_graph st') = edges (pathlet_graph st)"
    using same_adj [OF GetPredecessors_ok(1) [OF assms]] by simp_all
qed

subsection \<open>The invariant of the graph\<close>

text \<open>The keys of the maps ascend, and a pathlet is stored under its own two vnodes.\<close>

definition graph_ok :: "graph \<Rightarrow> bool" where
  "graph_ok g \<longleftrightarrow> omap_ok g \<and> (\<forall>(u, adj) \<in> set g. omap_ok adj \<and> (\<forall>(v, p) \<in> set adj. vnode p 0 = Some u \<and> vnode p 1 = Some v))"

lemma map_of_ok: "omap_ok m \<Longrightarrow> map_of m k = Some v \<longleftrightarrow> (k, v) \<in> set m"
  by (rule map_of_eq_Some_iff) (simp add: omap_ok_def strict_sorted_iff)

lemma set_omap_put: "omap_ok m \<Longrightarrow> set (omap_put k v m) = insert (k, v) {(k', v') \<in> set m. k' \<noteq> k}"
  by (induction m) (fastforce simp: omap_ok_def split: if_splits)+

lemma omap_put_ok: "omap_ok m \<Longrightarrow> omap_ok (omap_put k v m)"
proof (induction m)
  case (Cons a m)
  then have "omap_ok m" by (simp add: omap_ok_def)
  then show ?case using Cons set_omap_put [of m k v] by (cases a) (auto simp: omap_ok_def)
qed (simp add: omap_ok_def)

lemma adj_of_ok: "graph_ok g \<Longrightarrow> omap_ok (adj_of g u) \<and> (\<forall>(v, p) \<in> set (adj_of g u). vnode p 0 = Some u \<and> vnode p 1 = Some v)"
  by (auto simp: graph_ok_def adj_of_def omap_ok_def split: option.splits dest!: map_of_SomeD)

text \<open>What an insertion does to the graph.\<close>

lemma insert_graph:
  assumes "vnode p 0 = Some u" "vnode p 1 = Some v"
  shows "\<exists>st'. InsertPathletIntoGraph st p = Some st' \<and>
    pathlet_graph st' = omap_put u (omap_put v p (adj_of (pathlet_graph st) u))
      (if map_of (pathlet_graph st) u = None then omap_put u [] (pathlet_graph st) else pathlet_graph st)"
  using assms by (auto simp: InsertPathletIntoGraph_def omap_at_def adj_of_def split: option.splits)

lemma omap_put_put: "omap_ok m \<Longrightarrow> omap_put k v (omap_put k w m) = omap_put k v m"
  by (induction m) (auto simp: omap_ok_def)

lemma insert_keeps_ok:
  assumes "graph_ok g" "vnode p 0 = Some u" "vnode p 1 = Some v"
  shows "graph_ok (omap_put u (omap_put v p (adj_of g u)) g)"
  using assms adj_of_ok [OF assms(1), of u] omap_put_ok [of "adj_of g u" v p]
  by (auto simp: graph_ok_def omap_put_ok set_omap_put)

definition edge_map :: "graph \<Rightarrow> int \<times> int \<Rightarrow> pathlet option" where
  "edge_map g = (\<lambda>(u, v). map_of (adj_of g u) v)"

definition edge_key :: "pathlet \<Rightarrow> int \<times> int" where
  "edge_key p = (the (vnode p 0), the (vnode p 1))"

lemma insert_ok:
  assumes "graph_ok (pathlet_graph st)" "vnode p 0 \<noteq> None" "vnode p 1 \<noteq> None"
  shows "\<exists>st'. InsertPathletIntoGraph st p = Some st' \<and> graph_ok (pathlet_graph st') \<and>
    edge_map (pathlet_graph st') = (edge_map (pathlet_graph st))(edge_key p \<mapsto> p)"
proof -
  let ?g = "pathlet_graph st"
  obtain u v where uv: "vnode p 0 = Some u" "vnode p 1 = Some v" using assms(2,3) by auto
  obtain st' where st': "InsertPathletIntoGraph st p = Some st'"
      "pathlet_graph st' = omap_put u (omap_put v p (adj_of ?g u)) (if map_of ?g u = None then omap_put u [] ?g else ?g)"
    using insert_graph [OF uv] by blast
  have "pathlet_graph st' = omap_put u (omap_put v p (adj_of ?g u)) ?g"
    using st'(2) assms(1) by (simp add: omap_put_put graph_ok_def)
  moreover have "edge_map (omap_put u (omap_put v p (adj_of ?g u)) ?g) = (edge_map ?g)((u, v) \<mapsto> p)"
    by (auto simp: edge_map_def adj_of_def fun_eq_iff)
  ultimately show ?thesis using st'(1) insert_keeps_ok [OF assms(1) uv] uv by (simp add: edge_key_def)
qed

text \<open>The loop of \<^verbatim>\<open>MergePathletInformationIntoGraph\<close> over the pathlets of an advertisement.\<close>

fun insert_all :: "PathletInternalState \<Rightarrow> pathlet list \<Rightarrow> PathletInternalState option" where
  "insert_all st [] = Some st"
| "insert_all st (p # ps) = do {
     st \<leftarrow> InsertPathletIntoGraph st p;
     insert_all st ps }"

lemma insert_all_ok:
  assumes "graph_ok (pathlet_graph st)" "\<forall>p \<in> set ps. vnode p 0 \<noteq> None \<and> vnode p 1 \<noteq> None"
  shows "\<exists>st'. insert_all st ps = Some st' \<and> graph_ok (pathlet_graph st') \<and>
    edge_map (pathlet_graph st') = edge_map (pathlet_graph st) ++ map_of (rev (map (\<lambda>p. (edge_key p, p)) ps))"
  using assms
proof (induction ps arbitrary: st)
  case (Cons p ps)
  obtain st1 where 1: "InsertPathletIntoGraph st p = Some st1" "graph_ok (pathlet_graph st1)"
      "edge_map (pathlet_graph st1) = (edge_map (pathlet_graph st))(edge_key p \<mapsto> p)"
    using insert_ok [OF Cons.prems(1), of p] Cons.prems(2) by auto
  obtain st' where "insert_all st1 ps = Some st'" "graph_ok (pathlet_graph st')"
      "edge_map (pathlet_graph st') = edge_map (pathlet_graph st1) ++ map_of (rev (map (\<lambda>p. (edge_key p, p)) ps))"
    using Cons.IH [OF 1(2)] Cons.prems(2) by auto
  then show ?case using 1 by (simp add: fun_eq_iff map_add_def split: option.splits)
qed simp

lemma edge_map_key: "graph_ok g \<Longrightarrow> edge_map g k = Some p \<Longrightarrow> edge_key p = k \<and> vnode p 0 \<noteq> None \<and> vnode p 1 \<noteq> None"
  using adj_of_ok [of g "fst k"] by (cases k) (auto simp: edge_map_def edge_key_def dest!: map_of_SomeD)

lemma convert_set: "graph_ok (pathlet_graph st) \<Longrightarrow> p \<in> set (ConvertGraphToPathlets st) \<longleftrightarrow> (\<exists>k. edge_map (pathlet_graph st) k = Some p)"
proof -
  let ?g = "pathlet_graph st"
  assume ok: "graph_ok ?g"
  have "p \<in> set (ConvertGraphToPathlets st) \<longleftrightarrow> (\<exists>u adj v. (u, adj) \<in> set ?g \<and> (v, p) \<in> set adj)"
    by (force simp: ConvertGraphToPathlets_def)
  also have "\<dots> \<longleftrightarrow> (\<exists>u adj v. map_of ?g u = Some adj \<and> map_of adj v = Some p)"
    using ok map_of_ok [of ?g] map_of_ok by (fastforce simp: graph_ok_def)
  also have "\<dots> \<longleftrightarrow> (\<exists>k. edge_map ?g k = Some p)"
    by (force simp: edge_map_def adj_of_def split: option.splits)
  finally show ?thesis .
qed

text \<open>Merging the pathlets that another router advertises.  For two consistent states, inserting all pathlets of
  \<^verbatim>\<open>ConvertGraphToPathlets\<close> succeeds, keeps the invariant, and gives the union of the two graphs in which the received
  pathlet wins on common edges; merged into an empty graph it is the sender's graph.\<close>

lemma merge_converted_graph:
  assumes "graph_ok (pathlet_graph st)" "graph_ok (pathlet_graph sender)"
  shows "\<exists>st'. insert_all st (ConvertGraphToPathlets sender) = Some st' \<and> graph_ok (pathlet_graph st') \<and>
    edge_map (pathlet_graph st') = edge_map (pathlet_graph st) ++ edge_map (pathlet_graph sender)"
proof -
  let ?ps = "ConvertGraphToPathlets sender" and ?e = "edge_map (pathlet_graph sender)"
  let ?m = "map_of (rev (map (\<lambda>p. (edge_key p, p)) ?ps))"
  have key: "edge_key p = k \<and> p \<in> set ?ps \<longleftrightarrow> ?e k = Some p" for k p
    using convert_set [OF assms(2), of p] edge_map_key [OF assms(2)] by metis
  have nodes: "\<forall>p \<in> set ?ps. vnode p 0 \<noteq> None \<and> vnode p 1 \<noteq> None"
    using convert_set [OF assms(2)] edge_map_key [OF assms(2)] by blast
  have "?m k = ?e k" for k
  proof (cases "?m k")
    case None
    then have "\<nexists>p. edge_key p = k \<and> p \<in> set ?ps" by (force simp: map_of_eq_None_iff)
    then show ?thesis using None key by (cases "?e k") auto
  next
    case (Some p)
    then have "edge_key p = k \<and> p \<in> set ?ps" by (auto dest!: map_of_SomeD)
    then show ?thesis using Some key by simp
  qed
  then have "?m = ?e" by blast
  then show ?thesis using insert_all_ok [OF assms(1) nodes] by simp
qed

subsection \<open>Properties\<close>

text \<open>\<^verbatim>\<open>GetPredecessors\<close> (a depth-first search, total by construction) records for every vertex other than the
  root exactly its predecessors among the vertices that the root reaches, each once, and none for the root;
  the edges and pathlets of the graph do not change.\<close>

lemma GetPredecessors_reachable:
  "\<exists>preds st'. GetPredecessors st r = (preds, st') \<and> edge_map (pathlet_graph st') = edge_map (pathlet_graph st) \<and>
    (\<forall>v. distinct (preds_of preds v) \<and> set (preds_of preds v) =
      (if v = r then {} else {u. (r, u) \<in> (edges (pathlet_graph st))\<^sup>* \<and> (u, v) \<in> edges (pathlet_graph st)}))"
proof -
  obtain preds st' where "GetPredecessors st r = (preds, st')" by fastforce
  then show ?thesis using GetPredecessors_ok [of st r preds st'] by (auto simp: edge_map_def)
qed

lemma used_label: "(u, v) \<in> used g r \<Longrightarrow> edge_map g (u, v) = Some p \<longleftrightarrow> p = label g u v"
  by (auto simp: used_def edges_def edge_map_def label_def)

text \<open>A small graph: for each pair an edge whose pathlet leads to a destination named after its end.\<close>

definition edge_pathlet :: "nat \<Rightarrow> nat \<Rightarrow> pathlet" where
  "edge_pathlet u v = \<lparr>fid = of_nat v, vnodes = [of_nat u, of_nat v], destination = ''10.0.'' @ dec_str v @ ''.0/24'',
     path_vector = [], is_two_hop = 0\<rparr>"

definition example_state :: "(nat \<times> nat) list \<Rightarrow> PathletInternalState" where
  "example_state es = \<lparr>pathlet_graph = map (\<lambda>(u, v). (int u, [(int v, edge_pathlet u v)])) es, next_fid = 1, next_ip = 0,
     ip_to_pathlet_to_send = []\<rparr>"



text \<open>C32.  On a graph in which a cycle that avoids the router lies on a way to the destination the function never
  returns: for every size of the stack the recursion runs out of frames.  That the root has no predecessors, which the
  source relies on, is not enough.\<close>

theorem GetPathletsForDestination_cycle:
  assumes "iterates iter" "dest_node (pathlet_graph st) dest = Some d"
    "(c, c) \<in> (used (pathlet_graph st) as_num)\<^sup>+" "(c, d) \<in> (used (pathlet_graph st) as_num)\<^sup>*"
  shows "GetPathletsForDestination iter n st dest island_id as_num = None"
proof -
  let ?R = "used (pathlet_graph st) as_num"
  obtain preds st1 where P: "GetPredecessors st as_num = (preds, st1)" by fastforce
  note U = GetPredecessors_used [OF P]
  obtain k where k: "0 < k" "(c, c) \<in> ?R ^^ k" using assms(3) by (auto simp: trancl_power)
  obtain j where j: "(c, d) \<in> ?R ^^ j" using assms(4) by (auto simp: rtrancl_power)
  have "(c, c) \<in> ?R ^^ (m * k)" for m
    by (induction m) (use k(2) in \<open>auto simp: relpow_add\<close>)
  then have "(c, d) \<in> ?R ^^ (n * k + j)" using j by (auto simp: relpow_add)
  then have chain: "(c, d) \<in> pred_rel preds ^^ (n * k + j)" using U(1) by simp
  have "n \<le> n * k + j" using k(1) by (cases k) auto
  then have "preceding iter preds n (pathlet_graph st1) d = None"
    using preceding_chain [OF assms(1) chain, of n "pathlet_graph st1"] by (cases "preceding iter preds n (pathlet_graph st1) d") auto
  then show ?thesis using P U(2) assms(2) by (simp add: GetPathletsForDestination_def)
qed

theorem GetPathletsForDestination_cycle_witness:
  "\<forall>n. GetPathletsForDestination (\<lambda>xs. xs) n (example_state [(1, 2), (2, 3), (3, 2)]) ''10.0.3.0/24'' 9 1 = None"
proof -
  let ?st = "example_state [(1, 2), (2, 3), (3, 2)]"
  have e: "edges (pathlet_graph ?st) = {(1, 2), (2, 3), (3, 2)}"
    by (auto simp: example_state_def edges_def adj_of_def split: if_splits)
  have "(1, 3) \<in> (edges (pathlet_graph ?st))\<^sup>*" unfolding e by (rule rtrancl_trans [of _ 2]) auto
  then have u: "(2, 3) \<in> used (pathlet_graph ?st) 1" "(3, 2) \<in> used (pathlet_graph ?st) 1"
    unfolding used_def e by auto
  have "dest_node (pathlet_graph ?st) ''10.0.3.0/24'' = Some 3" by code_simp
  moreover have "(3, 3) \<in> (used (pathlet_graph ?st) 1)\<^sup>+" using u by (auto intro: trancl_into_trancl)
  ultimately show ?thesis
    using GetPathletsForDestination_cycle [of "\<lambda>xs. xs" ?st "''10.0.3.0/24''" 3 3 1 _ 9] by simp
qed

end
