(* ===== verification/Integrated_Advert.thy ===== *)
theory Integrated_Advert
  imports Pathlet_State "HOL-Library.Countable" "HOL-Library.Log_Nat"
begin

text \<open>
  Integrated advertisements (\<^verbatim>\<open>bgpd/integrated_advertisement_functions.cpp\<close>): the control information of several protocols
  in one message of path group and hop descriptors, each a list of keys and values.

  A message is a record, a repeated field a list; an optional field that is not set has its default value.  The
  serialised form of a message is the work of the protocol buffer library: the record \<open>codec\<close> holds the library's
  functions for the messages the code serialises, and is an argument of the definitions that use them.  A null pointer
  that is dereferenced, an exception that nobody catches and a conversion from \<^verbatim>\<open>float\<close> out of range are \<open>None\<close>.
\<close>

subsection \<open>Messages\<close>

datatype Protocol = P_UNKNOWN | P_WISER | P_PATHLETS | P_BENCHMARK | P_BASELINE

record KeyValue =
  key :: string
  "value" :: string

record PathGroupDescriptor =
  pg_protocol :: Protocol
  pg_key_values :: "KeyValue list"

record HopDescriptor =
  hd_island_id :: u32
  hd_protocol :: Protocol
  hd_key_values :: "KeyValue list"

record IntegratedAdvertisement =
  path_group_descriptors :: "PathGroupDescriptor list"
  hop_descriptors :: "HopDescriptor list"

definition empty_advert :: IntegratedAdvertisement where
  "empty_advert = \<lparr>path_group_descriptors = [], hop_descriptors = []\<rparr>"

text \<open>The serialisation functions of the library: advertisements, path costs, pathlets and lists of them, and the
  padding of the benchmark.\<close>

record codec =
  parse_advert :: "string \<Rightarrow> IntegratedAdvertisement"
  ser_advert :: "IntegratedAdvertisement \<Rightarrow> string"
  parse_cost :: "string \<Rightarrow> u32"
  ser_cost :: "u32 \<Rightarrow> string"
  parse_pathlets :: "string \<Rightarrow> pathlet list"
  ser_pathlets :: "pathlet list \<Rightarrow> string"
  parse_pathlet :: "string \<Rightarrow> pathlet"
  ser_pathlet :: "pathlet \<Rightarrow> string"
  parse_ints :: "string \<Rightarrow> u32 list"
  ser_ints :: "u32 list \<Rightarrow> string"

text \<open>What the library documents: parsing the serialised form of a message gives the message, and the empty array is
  the message in which nothing is set.\<close>

definition codec_ok :: "codec \<Rightarrow> bool" where
  "codec_ok pb \<longleftrightarrow> (\<forall>m. parse_advert pb (ser_advert pb m) = m) \<and> (\<forall>c. parse_cost pb (ser_cost pb c) = c) \<and>
     (\<forall>ps. parse_pathlets pb (ser_pathlets pb ps) = ps) \<and> (\<forall>p. parse_pathlet pb (ser_pathlet pb p) = p) \<and>
     (\<forall>is. parse_ints pb (ser_ints pb is) = is) \<and>
     parse_advert pb [] = empty_advert \<and> parse_cost pb [] = 0 \<and> parse_pathlets pb [] = [] \<and>
     parse_pathlet pb [] = empty_pathlet \<and> (\<forall>p. ser_pathlet pb p = [] \<longrightarrow> p = empty_pathlet)"

subsection \<open>Single precision arithmetic\<close>

text \<open>The \<^verbatim>\<open>float\<close> operations of the sources work on quotients and products of 32-bit integers, which neither
  overflow nor are subnormal: a finite value is a rational, and an operation rounds its exact result to 24
  significant bits, to even on a tie.\<close>

definition rne :: "rat \<Rightarrow> int" where
  "rne x = (let f = \<lfloor>x\<rfloor>; d = x - of_int f in
     if d < 1 / 2 then f else if 1 / 2 < d then f + 1 else if even f then f else f + 1)"

text \<open>The exponent \<open>e\<close> with \<open>2 ^ e \<le> \<bar>x\<bar> < 2 ^ (e + 1)\<close>.\<close>

definition fexp :: "rat \<Rightarrow> int" where
  "fexp x = (let (p, q) = quotient_of \<bar>x\<bar>; k = bitlen p - bitlen q in
     if 2 powi k \<le> \<bar>x\<bar> then k else k - 1)"

definition f32 :: "rat \<Rightarrow> rat" where
  "f32 x = (if x = 0 then 0 else let u = 2 powi (fexp x - 23) in of_int (rne (x / u)) * u)"

text \<open>The conversion of a \<^verbatim>\<open>float\<close> to an \<^verbatim>\<open>int\<close> truncates and is undefined out of range.\<close>

definition float_to_int :: "rat \<Rightarrow> int option" where
  "float_to_int x = (let i = (if 0 \<le> x then \<lfloor>x\<rfloor> else \<lceil>x\<rceil>) in
     if - (2 ^ 31) \<le> i \<and> i < 2 ^ 31 then Some i else None)"

subsection \<open>Lookup in a message\<close>

text \<open>The position of the first element with a property.\<close>

fun find_pos :: "('a \<Rightarrow> bool) \<Rightarrow> 'a list \<Rightarrow> nat option" where
  "find_pos P [] = None"
| "find_pos P (x # xs) = (if P x then Some 0 else map_option Suc (find_pos P xs))"

definition GetProtocolPathGroupDescriptor :: "IntegratedAdvertisement \<Rightarrow> Protocol \<Rightarrow> nat option" where
  "GetProtocolPathGroupDescriptor advertisement protocol =
     find_pos (\<lambda>d. pg_protocol d = protocol) (path_group_descriptors advertisement)"

definition GetProtocolHopDescriptor :: "IntegratedAdvertisement \<Rightarrow> Protocol \<Rightarrow> u32 \<Rightarrow> nat option" where
  "GetProtocolHopDescriptor advertisement protocol island_id =
     find_pos (\<lambda>d. hd_protocol d = protocol \<and> island_id = hd_island_id d) (hop_descriptors advertisement)"

definition create_key_value :: "KeyValue list \<Rightarrow> string \<Rightarrow> nat \<times> KeyValue list" where
  "create_key_value kvs search_key = (case find_pos (\<lambda>kv. key kv = search_key) kvs of
     Some i \<Rightarrow> (i, kvs)
   | None \<Rightarrow> (length kvs, kvs @ [\<lparr>key = search_key, value = ''''\<rparr>]))"

definition GetCreateKeyValueFromPathGroupDesc :: "PathGroupDescriptor \<Rightarrow> string \<Rightarrow> nat \<times> PathGroupDescriptor" where
  "GetCreateKeyValueFromPathGroupDesc d search_key =
     (let (i, kvs) = create_key_value (pg_key_values d) search_key in (i, d\<lparr>pg_key_values := kvs\<rparr>))"

definition GetCreateKeyValueFromHopDesc :: "HopDescriptor \<Rightarrow> string \<Rightarrow> nat \<times> HopDescriptor" where
  "GetCreateKeyValueFromHopDesc d search_key =
     (let (i, kvs) = create_key_value (hd_key_values d) search_key in (i, d\<lparr>hd_key_values := kvs\<rparr>))"

definition GetHopDescriptorKeyValue :: "HopDescriptor \<Rightarrow> string \<Rightarrow> KeyValue option" where
  "GetHopDescriptorKeyValue d search_key = find (\<lambda>kv. key kv = search_key) (hd_key_values d)"

definition GetPathGroupKeyValue :: "PathGroupDescriptor \<Rightarrow> string \<Rightarrow> KeyValue option" where
  "GetPathGroupKeyValue d search_key = find (\<lambda>kv. key kv = search_key) (pg_key_values d)"

text \<open>What the setters do with a list of descriptors: take the first one for \<open>p\<close> or add a blank one at the end, take its
  key-value pair for the key or add one, and replace the value, where \<open>f\<close> computes the new value from the old one.\<close>

definition update_desc ::
  "('p \<Rightarrow> 'd \<Rightarrow> bool) \<Rightarrow> ('p \<Rightarrow> 'd) \<Rightarrow> ('d \<Rightarrow> KeyValue list) \<Rightarrow> (KeyValue list \<Rightarrow> 'd \<Rightarrow> 'd) \<Rightarrow>
   'd list \<Rightarrow> 'p \<Rightarrow> string \<Rightarrow> (string \<Rightarrow> string option) \<Rightarrow> 'd list option" where
  "update_desc match blank kvs set_kvs ds p search_key f =
     (let (i, ds) = (case find_pos (match p) ds of Some i \<Rightarrow> (i, ds) | None \<Rightarrow> (length ds, ds @ [blank p]));
          (j, l) = create_key_value (kvs (ds ! i)) search_key in do {
        v \<leftarrow> f (value (l ! j));
        Some (ds[i := set_kvs (l[j := (l ! j)\<lparr>value := v\<rparr>]) (ds ! i)]) })"

definition update_path_group ::
  "IntegratedAdvertisement \<Rightarrow> Protocol \<Rightarrow> string \<Rightarrow> (string \<Rightarrow> string option) \<Rightarrow> IntegratedAdvertisement option" where
  "update_path_group m protocol search_key f = do {
     ds \<leftarrow> update_desc (\<lambda>p d. pg_protocol d = p) (\<lambda>p. \<lparr>pg_protocol = p, pg_key_values = []\<rparr>)
       pg_key_values (\<lambda>l d. d\<lparr>pg_key_values := l\<rparr>) (path_group_descriptors m) protocol search_key f;
     Some (m\<lparr>path_group_descriptors := ds\<rparr>) }"

definition update_hop_descriptor ::
  "IntegratedAdvertisement \<Rightarrow> Protocol \<Rightarrow> u32 \<Rightarrow> string \<Rightarrow> string \<Rightarrow> IntegratedAdvertisement option" where
  "update_hop_descriptor m protocol island_id search_key v = do {
     ds \<leftarrow> update_desc (\<lambda>(p, i) d. hd_protocol d = p \<and> i = hd_island_id d)
       (\<lambda>(p, i). \<lparr>hd_island_id = i, hd_protocol = p, hd_key_values = []\<rparr>)
       hd_key_values (\<lambda>l d. d\<lparr>hd_key_values := l\<rparr>) (hop_descriptors m) (protocol, island_id) search_key (\<lambda>_. Some v);
     Some (m\<lparr>hop_descriptors := ds\<rparr>) }"

subsection \<open>Wiser\<close>

definition SetWiserControlInfo :: "codec \<Rightarrow> string \<Rightarrow> int \<Rightarrow> rat \<Rightarrow> string option" where
  "SetWiserControlInfo pb serialized_advert additive_path_cost normalization = do {
     m \<leftarrow> update_path_group (if serialized_advert \<noteq> '''' then parse_advert pb serialized_advert else empty_advert)
       P_WISER ''PathCost'' (\<lambda>v. do {
         new_cost \<leftarrow> float_to_int
           (f32 (f32 (f32 (of_int (sint (parse_cost pb v))) * normalization) + f32 (of_int additive_path_cost)));
         Some (ser_cost pb (of_int new_cost)) });
     Some (ser_advert pb m) }"

definition GetWiserPathCost :: "codec \<Rightarrow> string \<Rightarrow> int option" where
  "GetWiserPathCost pb serialized_advert =
     (let m = parse_advert pb serialized_advert in
      case GetProtocolPathGroupDescriptor m P_WISER of
        None \<Rightarrow> Some (- 1)
      | Some i \<Rightarrow> do {
          kv \<leftarrow> GetPathGroupKeyValue (path_group_descriptors m ! i) ''PathCost'';
          Some (sint (parse_cost pb (value kv))) })"

text \<open>\<^verbatim>\<open>std::stoi\<close>: leading blanks, a sign, digits; it throws when there is no digit or the number does not fit.\<close>

definition stoi :: "string \<Rightarrow> int option" where
  "stoi s =
     (let s = dropWhile isspace s;
          neg = (s \<noteq> [] \<and> hd s = CHR ''-'');
          digits = takeWhile isdigit (if s \<noteq> [] \<and> (hd s = CHR ''-'' \<or> hd s = CHR ''+'') then tl s else s);
          i = (if neg then - int (dec_val digits) else int (dec_val digits)) in
      if digits = [] \<or> i < - (2 ^ 31) \<or> 2 ^ 31 \<le> i then None else Some i)"

definition GetLastWiserNode :: "codec \<Rightarrow> string \<Rightarrow> int option" where
  "GetLastWiserNode pb serialized_advert =
     (let m = parse_advert pb serialized_advert in
      case GetProtocolPathGroupDescriptor m P_WISER of
        None \<Rightarrow> Some (- 1)
      | Some i \<Rightarrow>
          (case GetPathGroupKeyValue (path_group_descriptors m ! i) ''LastWiserNode'' of
             None \<Rightarrow> Some (- 1)
           | Some kv \<Rightarrow> stoi (value kv)))"

definition SetLastWiserNode :: "codec \<Rightarrow> string \<Rightarrow> int \<Rightarrow> string option" where
  "SetLastWiserNode pb serialized_advert new_last_node = do {
     m \<leftarrow> update_path_group (parse_advert pb serialized_advert) P_WISER ''LastWiserNode'' (\<lambda>_. Some (int_str new_last_node));
     Some (ser_advert pb m) }"

subsection \<open>Pathlets\<close>

text \<open>\<open>preds\<close> is the remaining stack and \<open>iter\<close> the iteration order of the sets, as in the theory of the graph.  The interface
  functions hand pathlets over in serialised form.\<close>

definition GenerateExternalPathletControlInfo :: "codec \<Rightarrow> PathletInternalState \<Rightarrow> int \<Rightarrow> string \<Rightarrow> string option" where
  "GenerateExternalPathletControlInfo pb st island_id serialized_advert =
     (let graph_msg = parse_pathlets pb (ser_pathlets pb (ConvertGraphToPathlets st)) in do {
        m \<leftarrow> update_hop_descriptor (parse_advert pb serialized_advert) P_PATHLETS (of_int island_id)
          ''PathletGraph'' (ser_pathlets pb graph_msg);
        Some (ser_advert pb m) })"

definition GenerateExternalPathletDestinationControlInfo ::
  "codec \<Rightarrow> (int list \<Rightarrow> int list) \<Rightarrow> nat \<Rightarrow> PathletInternalState \<Rightarrow> string \<Rightarrow> int \<Rightarrow> int \<Rightarrow> string \<Rightarrow>
   (string \<times> PathletInternalState) option" where
  "GenerateExternalPathletDestinationControlInfo pb iter n st dest island_id as_num serialized_advert = do {
     (ps, st) \<leftarrow> GetPathletsForDestination iter n st dest island_id as_num;
     let graph_msg = parse_pathlets pb (ser_pathlets pb ps) in do {
       m \<leftarrow> update_hop_descriptor (parse_advert pb serialized_advert) P_PATHLETS (of_int island_id)
         ''PathletGraph'' (ser_pathlets pb graph_msg);
       Some (ser_advert pb m, st) } }"

definition HasPathletInformation :: "codec \<Rightarrow> string \<Rightarrow> int \<Rightarrow> bool" where
  "HasPathletInformation pb serialized_advert island_id =
     (GetProtocolHopDescriptor (parse_advert pb serialized_advert) P_PATHLETS (of_int island_id) \<noteq> None)"

definition MergePathletInformationIntoGraph ::
  "codec \<Rightarrow> PathletInternalState \<Rightarrow> string \<Rightarrow> int \<Rightarrow> PathletInternalState option" where
  "MergePathletInformationIntoGraph pb st serialized_advert island_id =
     (let m = parse_advert pb serialized_advert in
      case GetProtocolHopDescriptor m P_PATHLETS (of_int island_id) of
        None \<Rightarrow> Some st
      | Some i \<Rightarrow> do {
          pathlet_info \<leftarrow> GetHopDescriptorKeyValue (hop_descriptors m ! i) ''PathletGraph'';
          insert_all st (map (\<lambda>p. parse_pathlet pb (ser_pathlet pb p)) (parse_pathlets pb (value pathlet_info))) })"

text \<open>The result is a null pointer when the address has no pathlet.\<close>

definition GenerateInternalPathletControlInfo ::
  "codec \<Rightarrow> PathletInternalState \<Rightarrow> string \<Rightarrow> string \<Rightarrow> int \<Rightarrow> (string option \<times> PathletInternalState) option" where
  "GenerateInternalPathletControlInfo pb st serialized_advert ip_address island_id =
     (let (p, st) = GetPathletToSend st ip_address; serialized_pathlet = ser_pathlet pb p in
      if serialized_pathlet = '''' then Some (None, st)
      else do {
        m \<leftarrow> update_hop_descriptor (parse_advert pb serialized_advert) P_PATHLETS (of_int island_id)
          ''PathletGraph'' (ser_pathlets pb [parse_pathlet pb serialized_pathlet]);
        Some (Some (ser_advert pb m), st) })"

definition InsertRawPathletToSend ::
  "codec \<Rightarrow> PathletInternalState \<Rightarrow> string \<Rightarrow> string \<Rightarrow> PathletInternalState option" where
  "InsertRawPathletToSend pb st associated_ip serialized_pathlet =
     InsertPathletToSend st associated_ip (parse_pathlet pb serialized_pathlet)"

definition announce_text :: "string \<Rightarrow> string" where
  "announce_text new_ip = take 255 (new_ip @ ''/32'')"

text \<open>The loop over the pathlets of the advertisement: each is announced under a new address with the AS path appended.\<close>

fun send_pathlets :: "codec \<Rightarrow> PathletInternalState \<Rightarrow> u32 list \<Rightarrow> pathlet list \<Rightarrow> (string list \<times> PathletInternalState) option" where
  "send_pathlets pb st as_path [] = Some ([], st)"
| "send_pathlets pb st as_path (p # ps) =
     (let (new_ip, st) = GetNextIp st in do {
        st \<leftarrow> InsertRawPathletToSend pb st new_ip (ser_pathlet pb (p\<lparr>path_vector := path_vector p @ as_path\<rparr>));
        (ips, st) \<leftarrow> send_pathlets pb st as_path ps;
        Some (announce_text new_ip # ips, st) })"

text \<open>The pathlet across the gulf ends at the last AS number but one; a shorter path is read out of bounds.\<close>

definition CreatePathletsFromIA ::
  "codec \<Rightarrow> PathletInternalState \<Rightarrow> string \<Rightarrow> u32 list \<Rightarrow> int \<Rightarrow> int \<Rightarrow> (string list \<times> PathletInternalState) option" where
  "CreatePathletsFromIA pb st serialized_advert as_path island_id as_num =
     (let m = parse_advert pb serialized_advert in
      case GetProtocolHopDescriptor m P_PATHLETS (of_int island_id) of
        None \<Rightarrow> Some ([], st)
      | Some i \<Rightarrow>
          (case GetHopDescriptorKeyValue (hop_descriptors m ! i) ''PathletGraph'' of
             None \<Rightarrow> Some ([], st)
           | Some kv \<Rightarrow> do {
               (ips, st) \<leftarrow> send_pathlets pb st as_path (parse_pathlets pb (value kv));
               (new_fid, st) \<leftarrow> GetNextFid st;
               let (new_ip, st) = GetNextIp st in do {
                 zassert (2 \<le> length as_path);
                 let p = empty_pathlet\<lparr>vnodes := [of_int as_num, as_path ! (length as_path - 2)],
                   fid := of_int new_fid, path_vector := as_path\<rparr> in do {
                 st \<leftarrow> InsertRawPathletToSend pb st new_ip (ser_pathlet pb p);
                 Some (ips @ [announce_text new_ip], st) } } }))"

definition GetPathletPathVectorForAssociatedIp ::
  "codec \<Rightarrow> PathletInternalState \<Rightarrow> string \<Rightarrow> u32 list \<times> PathletInternalState" where
  "GetPathletPathVectorForAssociatedIp pb st ip_address =
     (let (p, st) = GetPathletToSend st ip_address
      in (path_vector (parse_pathlet pb (ser_pathlet pb p)), st))"

subsection \<open>Benchmark padding\<close>

definition SetBenchmarkIABytes :: "codec \<Rightarrow> string \<Rightarrow> int \<Rightarrow> string option" where
  "SetBenchmarkIABytes pb serialized_advert num_bytes_to_set = do {
     m \<leftarrow> update_path_group (if serialized_advert \<noteq> '''' then parse_advert pb serialized_advert else empty_advert)
       P_BENCHMARK ''Bytes'' (\<lambda>_. Some (ser_ints pb (replicate (nat (num_bytes_to_set div 4)) 2147483647)));
     Some (ser_advert pb m) }"

definition GetBenchmarkIABytesSize :: "codec \<Rightarrow> string \<Rightarrow> int option" where
  "GetBenchmarkIABytesSize pb serialized_advert =
     (let m = parse_advert pb serialized_advert in
      case GetProtocolPathGroupDescriptor m P_BENCHMARK of
        None \<Rightarrow> Some (- 1)
      | Some i \<Rightarrow> do {
          kv \<leftarrow> GetPathGroupKeyValue (path_group_descriptors m ! i) ''Bytes'';
          Some (int (length (ser_ints pb (parse_ints pb (value kv))))) })"

subsection \<open>What a message says\<close>

definition path_value :: "IntegratedAdvertisement \<Rightarrow> Protocol \<Rightarrow> string \<Rightarrow> string option" where
  "path_value m protocol k = Option.bind (find (\<lambda>d. pg_protocol d = protocol) (path_group_descriptors m))
     (\<lambda>d. map_option value (GetPathGroupKeyValue d k))"

definition hop_value :: "IntegratedAdvertisement \<Rightarrow> Protocol \<Rightarrow> u32 \<Rightarrow> string \<Rightarrow> string option" where
  "hop_value m protocol island k = Option.bind (find (\<lambda>d. hd_protocol d = protocol \<and> island = hd_island_id d) (hop_descriptors m))
     (\<lambda>d. map_option value (GetHopDescriptorKeyValue d k))"

lemma find_pos_Some: "find_pos P xs = Some i \<Longrightarrow> i < length xs \<and> P (xs ! i) \<and> find P xs = Some (xs ! i)"
  by (induction xs arbitrary: i) (auto split: if_splits)

lemma find_pos_None: "find_pos P xs = None \<longleftrightarrow> find P xs = None"
  by (induction xs) auto

text \<open>Updating the first element with a property.\<close>

lemma find_update_first:
  "find_pos P xs = Some i \<Longrightarrow> P y \<Longrightarrow> find P (xs[i := y]) = Some y"
  by (induction xs arbitrary: i) (auto split: if_splits)

lemma find_update_other:
  "i < length xs \<Longrightarrow> \<not> Q (xs ! i) \<Longrightarrow> \<not> Q y \<Longrightarrow> find Q (xs[i := y]) = find Q xs"
proof (induction xs arbitrary: i)
  case (Cons x xs)
  then show ?case by (cases i) auto
qed simp

lemma find_append: "find P (xs @ ys) = (case find P xs of Some x \<Rightarrow> Some x | None \<Rightarrow> find P ys)"
  by (induction xs) auto

lemma create_key_value_ok:
  assumes "create_key_value kvs k = (j, kvs')"
  shows "j < length kvs'" "key (kvs' ! j) = k" "value (kvs' ! j) = (case find (\<lambda>kv. key kv = k) kvs of Some kv \<Rightarrow> value kv | None \<Rightarrow> '''')"
    "find (\<lambda>kv. key kv = k') (kvs'[j := (kvs' ! j)\<lparr>value := v\<rparr>]) =
      (if k' = k then Some \<lparr>key = k, value = v\<rparr> else find (\<lambda>kv. key kv = k') kvs)"
proof -
  have *: "(j < length kvs' \<and> key (kvs' ! j) = k \<and> value (kvs' ! j) = (case find (\<lambda>kv. key kv = k) kvs of Some kv \<Rightarrow> value kv | None \<Rightarrow> '''')) \<and>
      find (\<lambda>kv. key kv = k') (kvs'[j := (kvs' ! j)\<lparr>value := v\<rparr>]) =
      (if k' = k then Some \<lparr>key = k, value = v\<rparr> else find (\<lambda>kv. key kv = k') kvs)"
  proof (cases "find_pos (\<lambda>kv. key kv = k) kvs")
    case None
    then have "j = length kvs" "kvs' = kvs @ [\<lparr>key = k, value = ''''\<rparr>]" using assms by (auto simp: create_key_value_def)
    moreover have "find (\<lambda>kv. key kv = k) kvs = None" using None find_pos_None by metis
    ultimately show ?thesis by (auto simp: find_append split: option.splits)
  next
    case (Some i)
    then have eqs: "j = i" "kvs' = kvs" using assms by (auto simp: create_key_value_def)
    note F = find_pos_Some [OF Some]
    have kv: "(kvs ! i)\<lparr>value := v\<rparr> = \<lparr>key = k, value = v\<rparr>" using F by (cases "kvs ! i") simp
    show ?thesis
      unfolding eqs kv using F find_update_first [OF Some, of "\<lparr>key = k, value = v\<rparr>"]
        find_update_other [of i kvs "\<lambda>kv. key kv = k'" "\<lparr>key = k, value = v\<rparr>"] by auto
  qed
  show "j < length kvs'" "key (kvs' ! j) = k" "value (kvs' ! j) = (case find (\<lambda>kv. key kv = k) kvs of Some kv \<Rightarrow> value kv | None \<Rightarrow> '''')"
    "find (\<lambda>kv. key kv = k') (kvs'[j := (kvs' ! j)\<lparr>value := v\<rparr>]) =
      (if k' = k then Some \<lparr>key = k, value = v\<rparr> else find (\<lambda>kv. key kv = k') kvs)"
    using * by simp_all
qed

text \<open>Descriptors of a kind: how they are found, made and changed.\<close>

locale descriptors =
  fixes match :: "'p \<Rightarrow> 'd \<Rightarrow> bool" and blank :: "'p \<Rightarrow> 'd" and kvs :: "'d \<Rightarrow> KeyValue list" and set_kvs :: "KeyValue list \<Rightarrow> 'd \<Rightarrow> 'd"
  assumes kvs_set [simp]: "kvs (set_kvs l d) = l" and match_set [simp]: "match p (set_kvs l d) = match p d"
    and match_blank [simp]: "match p (blank p)" and kvs_blank [simp]: "kvs (blank p) = []"
    and match_unique: "match p d \<Longrightarrow> match q d \<Longrightarrow> p = q"
begin

definition desc_value :: "'d list \<Rightarrow> 'p \<Rightarrow> string \<Rightarrow> string option" where
  "desc_value ds p k = Option.bind (find (match p) ds) (\<lambda>d. map_option value (find (\<lambda>kv. key kv = k) (kvs d)))"

lemma desc_value_blank:
  assumes "find (match p) ds = None"
  shows "desc_value (ds @ [blank p]) q k = desc_value ds q k" "find_pos (match p) (ds @ [blank p]) = Some (length ds)"
proof -
  show "find_pos (match p) (ds @ [blank p]) = Some (length ds)"
    using assms by (induction ds) (auto split: if_splits)
  show "desc_value (ds @ [blank p]) q k = desc_value ds q k"
    using assms match_unique [of p "blank p" q] by (auto simp: desc_value_def find_append split: option.splits)
qed

lemma desc_value_update:
  assumes "find_pos (match p) ds = Some i" "create_key_value (kvs (ds ! i)) k = (j, l)"
  shows "desc_value (ds[i := set_kvs (l[j := (l ! j)\<lparr>value := v\<rparr>]) (ds ! i)]) q k' =
    (if q = p \<and> k' = k then Some v else desc_value ds q k')"
proof -
  note F = find_pos_Some [OF assms(1)]
  let ?d = "set_kvs (l[j := (l ! j)\<lparr>value := v\<rparr>]) (ds ! i)"
  show ?thesis
  proof (cases "q = p")
    case True
    then show ?thesis
      using F find_update_first [OF assms(1), of ?d] create_key_value_ok(4) [OF assms(2), of k' v] by (simp add: desc_value_def)
  next
    case False
    then have "find (match q) (ds[i := ?d]) = find (match q) ds"
      using F match_unique [of p "ds ! i" q] by (intro find_update_other) auto
    then show ?thesis using False by (simp add: desc_value_def)
  qed
qed

lemma update_desc_ok:
  assumes "f (case desc_value ds p k of Some v \<Rightarrow> v | None \<Rightarrow> '''') = Some v"
  shows "\<exists>ds'. update_desc match blank kvs set_kvs ds p k f = Some ds' \<and>
    (\<forall>q k'. desc_value ds' q k' = (if q = p \<and> k' = k then Some v else desc_value ds q k'))"
proof -
  obtain i ds1 where 1: "(case find_pos (match p) ds of Some i \<Rightarrow> (i, ds) | None \<Rightarrow> (length ds, ds @ [blank p])) = (i, ds1)" by fastforce
  obtain j l where c: "create_key_value (kvs (ds1 ! i)) k = (j, l)" by fastforce
  have first: "find_pos (match p) ds1 = Some i" and same: "\<forall>q k. desc_value ds1 q k = desc_value ds q k"
    using 1 desc_value_blank [of p ds] by (auto simp: find_pos_None split: option.splits)
  have "desc_value ds1 p k = map_option value (find (\<lambda>kv. key kv = k) (kvs (ds1 ! i)))"
    using find_pos_Some [OF first] by (simp add: desc_value_def)
  then have "f (value (l ! j)) = Some v"
    using create_key_value_ok(3) [OF c] same assms by (simp split: option.splits)
  then show ?thesis
    using 1 c desc_value_update [OF first c, of v] same by (simp add: update_desc_def)
qed

end

interpretation path_groups: descriptors "\<lambda>p d. pg_protocol d = p" "\<lambda>p. \<lparr>pg_protocol = p, pg_key_values = []\<rparr>"
  pg_key_values "\<lambda>l d. d\<lparr>pg_key_values := l\<rparr>"
  by unfold_locales auto

interpretation hops: descriptors "\<lambda>(p, i) d. hd_protocol d = p \<and> i = hd_island_id d"
  "\<lambda>(p, i). \<lparr>hd_island_id = i, hd_protocol = p, hd_key_values = []\<rparr>" hd_key_values "\<lambda>l d. d\<lparr>hd_key_values := l\<rparr>"
  by unfold_locales auto

text \<open>An update sets one value and leaves everything else of the message alone.\<close>

lemma update_path_group_ok:
  assumes "f (case path_value m protocol k of Some v \<Rightarrow> v | None \<Rightarrow> '''') = Some v"
  shows "\<exists>m'. update_path_group m protocol k f = Some m' \<and> hop_descriptors m' = hop_descriptors m \<and>
    (\<forall>p k'. path_value m' p k' = (if p = protocol \<and> k' = k then Some v else path_value m p k'))"
proof -
  have "path_value n p k = path_groups.desc_value (path_group_descriptors n) p k" for n p k
    by (simp add: path_value_def path_groups.desc_value_def GetPathGroupKeyValue_def)
  then show ?thesis
    using path_groups.update_desc_ok [of f "path_group_descriptors m" protocol k v] assms
    by (auto simp: update_path_group_def)
qed

lemma update_hop_descriptor_ok:
  "\<exists>m'. update_hop_descriptor m protocol island k v = Some m' \<and> path_group_descriptors m' = path_group_descriptors m \<and>
    (\<forall>p i k'. hop_value m' p i k' = (if p = protocol \<and> i = island \<and> k' = k then Some v else hop_value m p i k'))"
proof -
  have "hop_value n p i k = hops.desc_value (hop_descriptors n) (p, i) k" for n p i k
    by (simp add: hop_value_def hops.desc_value_def GetHopDescriptorKeyValue_def)
  then show ?thesis
    using hops.update_desc_ok [of "\<lambda>_. Some v" "hop_descriptors m" "(protocol, island)" k v]
    by (auto simp: update_hop_descriptor_def)
qed

subsection \<open>A codec\<close>

text \<open>Messages are countable, so numbering them gives a codec with the documented properties.\<close>

instance Protocol :: countable by countable_datatype

instance KeyValue_ext :: (countable) countable
  by (rule countable_classI [of "\<lambda>r. to_nat (key r, value r, KeyValue.more r)"]) simp

instance PathGroupDescriptor_ext :: (countable) countable
  by (rule countable_classI [of "\<lambda>r. to_nat (pg_protocol r, pg_key_values r, PathGroupDescriptor.more r)"]) simp

instance HopDescriptor_ext :: (countable) countable
  by (rule countable_classI [of "\<lambda>r. to_nat (hd_island_id r, hd_protocol r, hd_key_values r, HopDescriptor.more r)"]) simp

instance IntegratedAdvertisement_ext :: (countable) countable
  by (rule countable_classI [of "\<lambda>r. to_nat (path_group_descriptors r, hop_descriptors r, IntegratedAdvertisement.more r)"]) simp

instance pathlet_ext :: (countable) countable
  by (rule countable_classI [of "\<lambda>r. to_nat (fid r, vnodes r, destination r, path_vector r, is_two_hop r, pathlet.more r)"]) simp

definition number :: "'a::countable \<Rightarrow> 'a \<Rightarrow> string" where
  "number dflt x = (if x = dflt then '''' else CHR ''n'' # dec_str (to_nat x))"

definition unnumber :: "'a::countable \<Rightarrow> string \<Rightarrow> 'a" where
  "unnumber dflt s = (if s = '''' then dflt else from_nat (dec_val (tl s)))"

lemma unnumber_number [simp]: "unnumber dflt (number dflt x) = x" "unnumber dflt '''' = dflt" "number dflt x = '''' \<longleftrightarrow> x = dflt"
  by (auto simp: unnumber_def number_def dec_val_dec_str)

definition number_codec :: codec where
  "number_codec = \<lparr>parse_advert = unnumber empty_advert, ser_advert = number empty_advert, parse_cost = unnumber 0, ser_cost = number 0,
     parse_pathlets = unnumber [], ser_pathlets = number [], parse_pathlet = unnumber empty_pathlet, ser_pathlet = number empty_pathlet,
     parse_ints = unnumber [], ser_ints = number []\<rparr>"

lemma number_codec_ok: "codec_ok number_codec"
  by (simp add: codec_ok_def number_codec_def)

subsection \<open>Small integers are exact\<close>

lemma rne_int [simp]: "rne (of_int n) = n"
  by (simp add: rne_def)

lemma fexp_int:
  assumes "n \<noteq> 0"
  shows "fexp (of_int n) = bitlen \<bar>n\<bar> - 1"
proof -
  have p: "1 \<le> bitlen \<bar>n\<bar>" using assms by (simp add: bitlen_ge_iff_power)
  have "2 ^ nat (bitlen \<bar>n\<bar> - 1) \<le> \<bar>n\<bar>" using bitlen_bounds [of "\<bar>n\<bar>"] assms by simp
  then have "(2 :: rat) ^ nat (bitlen \<bar>n\<bar> - 1) \<le> of_int \<bar>n\<bar>"
    by (metis of_int_le_iff of_int_numeral of_int_power)
  then have "(2 :: rat) powi (bitlen \<bar>n\<bar> - 1) \<le> \<bar>of_int n\<bar>" using p by (simp add: power_int_def)
  moreover have "quotient_of \<bar>of_int n\<bar> = (\<bar>n\<bar>, 1)" by (metis of_int_abs quotient_of_rat_of_int)
  moreover have "bitlen 1 = 1" using bitlen_twopow_add_eq [of 0 0] by simp
  ultimately show ?thesis by (simp add: fexp_def)
qed

lemma f32_exact:
  assumes "x = of_int k * 2 powi (fexp x - 23)"
  shows "f32 x = x"
proof -
  have "x / 2 powi (fexp x - 23) = of_int k" by (subst assms) simp
  then show ?thesis using assms by (simp add: f32_def)
qed

lemma f32_int:
  assumes "\<bar>n\<bar> \<le> 2 ^ 24"
  shows "f32 (of_int n) = of_int n"
proof (cases "n = 0")
  case False
  let ?e = "bitlen \<bar>n\<bar> - 1"
  show ?thesis
  proof (cases "?e \<le> 23")
    case True
    have "(2 :: rat) ^ nat (23 - ?e) * 2 powi (?e - 23) = 1" using True by (simp add: power_int_def flip: power_mult_distrib)
    then have "of_int n = of_int (n * 2 ^ nat (23 - ?e)) * (2 :: rat) powi (?e - 23)" by (simp add: mult.assoc)
    then show ?thesis using f32_exact fexp_int [OF False] by metis
  next
    case False
    then have "2 ^ 24 \<le> \<bar>n\<bar>" using bitlen_ge_iff_power [of 25 "\<bar>n\<bar>"] by simp
    then have n: "\<bar>n\<bar> = 2 ^ 24" using assms by simp
    then have "bitlen \<bar>n\<bar> = 25" using bitlen_twopow_add_eq [of 0 24] by simp
    then have "fexp (of_int n) = 24" using fexp_int [of n] n by auto
    moreover have "(of_int n :: rat) = of_int (n div 2) * 2"
      using n by (metis abs_if add.inverse_inverse even_two_times_div_two dvd_power dvd_minus_iff mult.commute of_int_mult of_int_numeral zero_less_numeral)
    ultimately show ?thesis using f32_exact [of "of_int n" "n div 2"] by simp
  qed
qed (simp add: f32_def)

text \<open>Past 24 bits an odd cost is not a \<^verbatim>\<open>float\<close>.\<close>

lemma f32_not_exact: "f32 16777217 = 16777216"
proof -
  have "bitlen 16777217 = 25" using bitlen_twopow_add_eq [of 1 24] by simp
  then have "fexp (of_int 16777217) = 24" using fexp_int [of 16777217] by simp
  moreover have "rne (16777217 / 2) = 8388608" by code_simp
  ultimately show ?thesis by (simp add: f32_def)
qed

subsection \<open>Properties\<close>

lemma wiser_cost_value:
  "path_value (parse_advert pb s) P_WISER ''PathCost'' = Some v \<Longrightarrow> GetWiserPathCost pb s = Some (sint (parse_cost pb v))"
  unfolding path_value_def GetWiserPathCost_def GetProtocolPathGroupDescriptor_def
  by (auto simp: Let_def bind_eq_Some_conv split: option.splits dest!: find_pos_Some)
    (metis find_pos_None option.distinct(1))

definition advert_cost :: "codec \<Rightarrow> string \<Rightarrow> int" where
  "advert_cost pb s = (case path_value (parse_advert pb s) P_WISER ''PathCost'' of Some v \<Rightarrow> sint (parse_cost pb v) | None \<Rightarrow> 0)"

text \<open>The general effect of the setter: the cost becomes the value of the expression, nothing else changes.\<close>

lemma SetWiserControlInfo_ok:
  assumes "codec_ok pb"
    "float_to_int (f32 (f32 (f32 (of_int (advert_cost pb s)) * normalization) + f32 (of_int link_cost))) = Some c"
  shows "\<exists>s'. SetWiserControlInfo pb s link_cost normalization = Some s' \<and> GetWiserPathCost pb s' = Some c \<and>
    hop_descriptors (parse_advert pb s') = hop_descriptors (parse_advert pb s) \<and>
    (\<forall>p k. (p, k) \<noteq> (P_WISER, ''PathCost'') \<longrightarrow> path_value (parse_advert pb s') p k = path_value (parse_advert pb s) p k)"
proof -
  let ?m = "parse_advert pb s"
  have m: "(if s \<noteq> '''' then parse_advert pb s else empty_advert) = ?m" using assms(1) by (auto simp: codec_ok_def)
  let ?f = "\<lambda>v. do { new_cost \<leftarrow> float_to_int (f32 (f32 (f32 (of_int (sint (parse_cost pb v))) * normalization) + f32 (of_int link_cost)));
    Some (ser_cost pb (of_int new_cost)) }"
  have "?f (case path_value ?m P_WISER ''PathCost'' of Some v \<Rightarrow> v | None \<Rightarrow> '''') = Some (ser_cost pb (of_int c))"
    using assms by (auto simp: advert_cost_def codec_ok_def split: option.splits)
  from update_path_group_ok [of ?f, OF this] obtain m' where m': "update_path_group ?m P_WISER ''PathCost'' ?f = Some m'"
      "hop_descriptors m' = hop_descriptors ?m"
      "\<forall>p k. path_value m' p k = (if p = P_WISER \<and> k = ''PathCost'' then Some (ser_cost pb (of_int c)) else path_value ?m p k)"
    by blast
  have "SetWiserControlInfo pb s link_cost normalization = Some (ser_advert pb m')"
    using m'(1) unfolding SetWiserControlInfo_def m by simp
  moreover have p: "parse_advert pb (ser_advert pb m') = m'" using assms(1) by (simp add: codec_ok_def)
  moreover have "sint (of_int c :: u32) = c"
    using assms(2) by (auto simp: sint_sbintrunc' signed_take_bit_int_eq_self_iff float_to_int_def Let_def split: if_splits)
  then have "GetWiserPathCost pb (ser_advert pb m') = Some c"
    using wiser_cost_value [of pb "ser_advert pb m'" "ser_cost pb (of_int c)"] m'(3) p assms(1) by (simp add: codec_ok_def)
  ultimately show ?thesis using m'(2,3) by auto
qed

text \<open>Adding a link cost to an advertisement.  Without normalisation and while the costs fit in 24 bits, the new Wiser
  cost is the old one (or zero) plus the link cost, and the values of every other protocol, the other Wiser values and
  all hop descriptors are passed on unchanged.\<close>

lemma SetWiserControlInfo_adds:
  assumes "codec_ok pb" "\<bar>advert_cost pb s\<bar> \<le> 2 ^ 24" "\<bar>link_cost\<bar> \<le> 2 ^ 24" "\<bar>advert_cost pb s + link_cost\<bar> \<le> 2 ^ 24"
  shows "\<exists>s'. SetWiserControlInfo pb s link_cost 1 = Some s' \<and> GetWiserPathCost pb s' = Some (advert_cost pb s + link_cost) \<and>
    hop_descriptors (parse_advert pb s') = hop_descriptors (parse_advert pb s) \<and>
    (\<forall>p k. (p, k) \<noteq> (P_WISER, ''PathCost'') \<longrightarrow> path_value (parse_advert pb s') p k = path_value (parse_advert pb s) p k)"
proof -
  have "float_to_int (f32 (f32 (f32 (of_int (advert_cost pb s)) * 1) + f32 (of_int link_cost))) = Some (advert_cost pb s + link_cost)"
    using assms(2-4) f32_int [of "advert_cost pb s"] f32_int [of link_cost] f32_int [of "advert_cost pb s + link_cost"]
    by (auto simp: float_to_int_def simp flip: of_int_add)
  from SetWiserControlInfo_ok [OF assms(1) this] show ?thesis .
qed

text \<open>Costs that need more than 24 bits do not survive the \<^verbatim>\<open>float\<close> arithmetic: a path of cost \<open>2 ^ 24\<close> that crosses a link
  of cost one keeps its cost, so it wins against paths it should lose to.\<close>

lemma SetWiserControlInfo_loses_cost:
  assumes "codec_ok pb" "advert_cost pb s = 2 ^ 24"
  shows "\<exists>s'. SetWiserControlInfo pb s 1 1 = Some s' \<and> GetWiserPathCost pb s' = Some (2 ^ 24)"
proof -
  have "float_to_int (f32 (f32 (f32 (of_int (advert_cost pb s)) * 1) + f32 (of_int 1))) = Some (2 ^ 24)"
    using f32_int [of "2 ^ 24"] f32_int [of 1] f32_not_exact by (simp add: assms(2) float_to_int_def)
  from SetWiserControlInfo_ok [OF assms(1) this] show ?thesis by auto
qed

lemma hop_position:
  assumes "hop_value m p i k = Some v"
  obtains n kv where "GetProtocolHopDescriptor m p i = Some n" "GetHopDescriptorKeyValue (hop_descriptors m ! n) k = Some kv" "value kv = v"
proof -
  obtain d kv where d: "find (\<lambda>d. hd_protocol d = p \<and> i = hd_island_id d) (hop_descriptors m) = Some d"
      "GetHopDescriptorKeyValue d k = Some kv" "value kv = v"
    using assms by (auto simp: hop_value_def bind_eq_Some_conv)
  then obtain n where "find_pos (\<lambda>d. hd_protocol d = p \<and> i = hd_island_id d) (hop_descriptors m) = Some n"
    using find_pos_None by (metis not_Some_eq)
  then show ?thesis using that d find_pos_Some by (fastforce simp: GetProtocolHopDescriptor_def)
qed

text \<open>Pathlets put into an advertisement are the ones its reader inserts.\<close>

lemma put_pathlets_merged:
  assumes "codec_ok pb"
  shows "\<exists>m'. update_hop_descriptor (parse_advert pb s) P_PATHLETS (of_int island) ''PathletGraph'' (ser_pathlets pb ps) = Some m' \<and>
    HasPathletInformation pb (ser_advert pb m') island \<and>
    (\<forall>st. MergePathletInformationIntoGraph pb st (ser_advert pb m') island = insert_all st ps)"
proof -
  let ?v = "ser_pathlets pb ps"
  obtain m' where m': "update_hop_descriptor (parse_advert pb s) P_PATHLETS (of_int island) ''PathletGraph'' ?v = Some m'"
      "hop_value m' P_PATHLETS (of_int island) ''PathletGraph'' = Some ?v"
    using update_hop_descriptor_ok [of "parse_advert pb s" P_PATHLETS "of_int island" "''PathletGraph''" ?v] by auto
  obtain n kv where "GetProtocolHopDescriptor m' P_PATHLETS (of_int island) = Some n"
      "GetHopDescriptorKeyValue (hop_descriptors m' ! n) ''PathletGraph'' = Some kv" "value kv = ?v"
    using hop_position [OF m'(2)] .
  then show ?thesis
    using m'(1) assms by (auto simp: MergePathletInformationIntoGraph_def HasPathletInformation_def codec_ok_def)
qed

lemma external_info_merged:
  assumes "codec_ok pb" "graph_ok (pathlet_graph sender)" "graph_ok (pathlet_graph st)"
  shows "\<exists>s' st'. GenerateExternalPathletControlInfo pb sender island s = Some s' \<and>
    HasPathletInformation pb s' island \<and>
    MergePathletInformationIntoGraph pb st s' island = Some st' \<and> graph_ok (pathlet_graph st') \<and>
    edge_map (pathlet_graph st') = edge_map (pathlet_graph st) ++ edge_map (pathlet_graph sender) \<and>
    path_group_descriptors (parse_advert pb s') = path_group_descriptors (parse_advert pb s) \<and>
    (\<forall>p i k. (p, i, k) \<noteq> (P_PATHLETS, of_int island, ''PathletGraph'') \<longrightarrow>
      hop_value (parse_advert pb s') p i k = hop_value (parse_advert pb s) p i k)"
proof -
  let ?v = "ser_pathlets pb (parse_pathlets pb (ser_pathlets pb (ConvertGraphToPathlets sender)))"
  obtain m' where m': "update_hop_descriptor (parse_advert pb s) P_PATHLETS (of_int island) ''PathletGraph'' ?v = Some m'"
      "path_group_descriptors m' = path_group_descriptors (parse_advert pb s)"
      "\<forall>p i k. hop_value m' p i k = (if p = P_PATHLETS \<and> i = of_int island \<and> k = ''PathletGraph'' then Some ?v
        else hop_value (parse_advert pb s) p i k)"
    using update_hop_descriptor_ok by blast
  have parse: "parse_advert pb (ser_advert pb m') = m'" using assms(1) by (simp add: codec_ok_def)
  obtain st' where st': "insert_all st (ConvertGraphToPathlets sender) = Some st'" "graph_ok (pathlet_graph st')"
      "edge_map (pathlet_graph st') = edge_map (pathlet_graph st) ++ edge_map (pathlet_graph sender)"
    using merge_converted_graph [OF assms(3,2)] by blast
  obtain n kv where "GetProtocolHopDescriptor m' P_PATHLETS (of_int island) = Some n"
      "GetHopDescriptorKeyValue (hop_descriptors m' ! n) ''PathletGraph'' = Some kv" "value kv = ?v"
    using hop_position [of m' P_PATHLETS "of_int island" "''PathletGraph''" ?v] m'(3) by auto
  then have "MergePathletInformationIntoGraph pb st (ser_advert pb m') island = Some st'"
      "HasPathletInformation pb (ser_advert pb m') island"
    using st'(1) assms(1) parse by (simp_all add: MergePathletInformationIntoGraph_def HasPathletInformation_def codec_ok_def)
  moreover have "GenerateExternalPathletControlInfo pb sender island s = Some (ser_advert pb m')"
    using m'(1) by (simp add: GenerateExternalPathletControlInfo_def)
  ultimately show ?thesis using st' m'(2,3) parse by auto
qed

text \<open>C17.  The graph of a border router reaches another router of its island in an advertisement: what
  \<^verbatim>\<open>GenerateExternalPathletControlInfo\<close> puts in, \<^verbatim>\<open>MergePathletInformationIntoGraph\<close> merges, so that the receiver's graph becomes
  the union of both, received pathlets winning on common edges; the invariant of the graph is kept, and all
  other values of the advertisement are passed on unchanged.\<close>

theorem advertised_graph_is_merged:
  assumes "codec_ok pb" "graph_ok (pathlet_graph sender)" "graph_ok (pathlet_graph st)"
  shows "\<exists>s' st'. GenerateExternalPathletControlInfo pb sender island s = Some s' \<and>
    HasPathletInformation pb s' island \<and>
    MergePathletInformationIntoGraph pb st s' island = Some st' \<and> graph_ok (pathlet_graph st') \<and>
    edge_map (pathlet_graph st') = edge_map (pathlet_graph st) ++ edge_map (pathlet_graph sender) \<and>
    path_group_descriptors (parse_advert pb s') = path_group_descriptors (parse_advert pb s) \<and>
    (\<forall>p i k. (p, i, k) \<noteq> (P_PATHLETS, of_int island, ''PathletGraph'') \<longrightarrow>
      hop_value (parse_advert pb s') p i k = hop_value (parse_advert pb s) p i k)"
  using assms by (rule external_info_merged)

theorem advertised_graph_is_merged_witness:
  "\<exists>s' st'. GenerateExternalPathletControlInfo number_codec (example_state [(1, 2), (2, 3)]) 9 '''' = Some s' \<and>
    MergePathletInformationIntoGraph number_codec (example_state [(1, 4)]) s' 9 = Some st' \<and>
    edge_map (pathlet_graph st') (2, 3) = Some (edge_pathlet 2 3)"
proof -
  let ?a = "example_state [(1, 2), (2, 3)]" and ?b = "example_state [(1, 4)]"
  have "graph_ok (pathlet_graph ?a)" "graph_ok (pathlet_graph ?b)"
    by (simp_all add: example_state_def graph_ok_def omap_ok_def vnode_def edge_pathlet_def)
  moreover have "edge_map (pathlet_graph ?a) (2, 3) = Some (edge_pathlet 2 3)" by code_simp
  ultimately show ?thesis
    using advertised_graph_is_merged [OF number_codec_ok, of ?a ?b 9 "''''"] by (auto simp: map_add_def)
qed

end
