(* ===== verification/Dbgp_Lookup.thy ===== *)
theory Dbgp_Lookup
  imports Bgp_Types Integrated_Advert
begin

text \<open>
  The lookup service of D-BGP (\<^verbatim>\<open>bgpd/dbgp_lookup.c\<close>).

  The service is a Redis server and \<^verbatim>\<open>rand\<close> its source of keys: both are operations of an environment \<open>env\<close> on the state of
  the world, arguments of the definitions.  A command is the list of its words.  Keys are read from the transitive
  attribute in the byte order of the host, least significant byte first.  Debug output, the timers of the
  benchmark and sleeping have no effect on the state.
\<close>

subsection \<open>The environment\<close>

datatype redisReply = REDIS_REPLY_ERROR | REDIS_REPLY_NIL | REDIS_REPLY_INTEGER int | REDIS_REPLY_STRING string | REDIS_REPLY_STATUS string

record 'w env =
  redisCommand :: "string list \<Rightarrow> 'w \<Rightarrow> redisReply option \<times> 'w"
  connected :: "'w \<Rightarrow> bool"
  rand :: "'w \<Rightarrow> u32 \<times> 'w"

record control_info =
  sentinel :: u64
  integrated_advertisement :: string

definition DBGP_SENTINEL_VALUE :: u64 where "DBGP_SENTINEL_VALUE = 5"
definition DBGP_LOOKUP_SVC_PATH :: u32 where "DBGP_LOOKUP_SVC_PATH = 0xDEADBEEF"

definition connect_to_redis :: "'w env \<Rightarrow> 'w \<Rightarrow> unit option" where
  "connect_to_redis env w = zassert (connected env w)"

text \<open>The seed of the random number generator.\<close>

definition mix :: "u64 \<Rightarrow> u64 \<Rightarrow> u64 \<Rightarrow> u64" where
  "mix a b c =
     (let a = (a - b - c) XOR drop_bit 13 c;
          b = (b - c - a) XOR push_bit 8 a;
          c = (c - a - b) XOR drop_bit 13 b;
          a = (a - b - c) XOR drop_bit 12 c;
          b = (b - c - a) XOR push_bit 16 a;
          c = (c - a - b) XOR drop_bit 5 b;
          a = (a - b - c) XOR drop_bit 3 c;
          b = (b - c - a) XOR push_bit 10 a;
          c = (c - a - b) XOR drop_bit 15 b
      in c)"

subsection \<open>Keys\<close>

text \<open>The first four bytes of the value; a shorter one is read out of bounds.\<close>

definition host_key :: "u8 list \<Rightarrow> u32 option" where
  "host_key bs = (case bs of a # b # c # d # _ \<Rightarrow> Some (get32 d c b a) | _ \<Rightarrow> None)"

definition key_bytes :: "u32 \<Rightarrow> u8 list" where
  "key_bytes k = rev (put32 k)"

definition is_lookup_service_path :: "transit \<Rightarrow> bool option" where
  "is_lookup_service_path t = do {
     v \<leftarrow> t_val t;
     k \<leftarrow> host_key v;
     Some (k = DBGP_LOOKUP_SVC_PATH) }"

definition has_dbgp_control_info :: "transit option \<Rightarrow> bool" where
  "has_dbgp_control_info t = (case t of None \<Rightarrow> False | Some t \<Rightarrow> t_val t \<noteq> None \<and> t_length t = 4)"

subsection \<open>Retrieving and storing control information\<close>

definition unpack_redis_reply :: "string \<Rightarrow> control_info" where
  "unpack_redis_reply reply = \<lparr>sentinel = 0, integrated_advertisement = reply\<rparr>"

text \<open>\<open>retrieve_loop n\<close> is the loop with \<open>n\<close> attempts left; the thousandth failure aborts.\<close>

fun retrieve_loop :: "'w env \<Rightarrow> u32 \<Rightarrow> nat \<Rightarrow> 'w \<Rightarrow> (redisReply \<times> 'w) option" where
  "retrieve_loop env k 0 w = None"
| "retrieve_loop env k (Suc n) w =
     (let (reply, w) = redisCommand env [''GET'', dec_str (unat k)] w in
      case reply of
        None \<Rightarrow> retrieve_loop env k n w
      | Some REDIS_REPLY_ERROR \<Rightarrow> retrieve_loop env k n w
      | Some r \<Rightarrow> Some (r, w))"

text \<open>The text of a reply; it is a null pointer in a reply without one.\<close>

definition reply_str :: "redisReply \<Rightarrow> string option" where
  "reply_str r = (case r of REDIS_REPLY_STRING s \<Rightarrow> Some s | REDIS_REPLY_STATUS s \<Rightarrow> Some s | _ \<Rightarrow> None)"

definition retrieve_control_info :: "'w env \<Rightarrow> transit \<Rightarrow> 'w \<Rightarrow> (control_info \<times> 'w) option" where
  "retrieve_control_info env t w = do {
     v \<leftarrow> t_val t;
     zassert (t_length t = 4);
     connect_to_redis env w;
     k \<leftarrow> host_key v;
     (r, w) \<leftarrow> retrieve_loop env k 1000 w;
     s \<leftarrow> reply_str r;
     Some (unpack_redis_reply s, w) }"

text \<open>The loop that draws a key other than the one of the lookup service.\<close>

partial_function (option) draw_key :: "'w env \<Rightarrow> 'w \<Rightarrow> (u32 \<times> 'w) option" where
  "draw_key env w =
     (let (k, w) = rand env w in
      if k = DBGP_LOOKUP_SVC_PATH then draw_key env w else Some (k, w))"

text \<open>The packed advertisement is handed over as a C string: what is stored ends at the first zero byte, which lies in
  the packed value or, when that has none, in the memory behind it, the argument \<open>beyond\<close>.\<close>

definition set_control_info :: "'w env \<Rightarrow> string \<Rightarrow> transit \<Rightarrow> control_info \<Rightarrow> 'w \<Rightarrow> (transit \<times> 'w) option" where
  "set_control_info env beyond t ci w = do {
     zassert (t_val t \<noteq> None);
     (k, w) \<leftarrow> draw_key env w;
     zassert (CHR 0x00 \<in> set (integrated_advertisement ci @ beyond));
     connect_to_redis env w;
     let packed_val = takeWhile (\<lambda>c. c \<noteq> CHR 0x00) (integrated_advertisement ci @ beyond);
         (reply, w) = redisCommand env [''SET'', dec_str (unat k), packed_val] w in do {
       r \<leftarrow> reply;
       zassert (r \<noteq> REDIS_REPLY_ERROR);
       Some (t\<lparr>t_length := 4, t_val := Some (key_bytes k)\<rparr>, w) } }"

definition insert_check_sentinel :: "'w env \<Rightarrow> string \<Rightarrow> transit \<Rightarrow> 'w \<Rightarrow> (transit \<times> 'w) option" where
  "insert_check_sentinel env beyond t w = do {
     (ci, w) \<leftarrow> retrieve_control_info env t w;
     zassert (sentinel ci = DBGP_SENTINEL_VALUE);
     set_control_info env beyond t ci w }"

subsection \<open>Wiser costs\<close>

definition IncrementWiserCosts :: "'w env \<Rightarrow> int \<Rightarrow> int \<Rightarrow> int \<Rightarrow> 'w \<Rightarrow> 'w option" where
  "IncrementWiserCosts env as1 as2 increment_by w = do {
     connect_to_redis env w;
     let (reply, w) = redisCommand env [''INCRBY'', int_str as1 @ ''-'' @ int_str as2, int_str increment_by] w in do {
       r \<leftarrow> reply;
       zassert (r \<noteq> REDIS_REPLY_ERROR);
       Some w } }"

text \<open>\<^verbatim>\<open>strtol (s, NULL, 0)\<close>: blanks, a sign, and digits in base 16 after \<^verbatim>\<open>0x\<close>, 8 after \<^verbatim>\<open>0\<close>, otherwise 10,
  clamped to \<^verbatim>\<open>long\<close>.\<close>

definition xdigit_val :: "char \<Rightarrow> nat option" where
  "xdigit_val c = (let n = of_char c :: nat in
     if 48 \<le> n \<and> n \<le> 57 then Some (n - 48)
     else if 97 \<le> n \<and> n \<le> 102 then Some (n - 87)
     else if 65 \<le> n \<and> n \<le> 70 then Some (n - 55) else None)"

fun digits_val :: "nat \<Rightarrow> string \<Rightarrow> nat \<Rightarrow> nat" where
  "digits_val base [] acc = acc"
| "digits_val base (c # s) acc = (case xdigit_val c of
     Some d \<Rightarrow> if d < base then digits_val base s (acc * base + d) else acc
   | None \<Rightarrow> acc)"

definition strtol0 :: "string \<Rightarrow> int" where
  "strtol0 s =
     (let s = dropWhile isspace s;
          neg = (s \<noteq> [] \<and> hd s = CHR ''-'');
          s = (if s \<noteq> [] \<and> (hd s = CHR ''-'' \<or> hd s = CHR ''+'') then tl s else s);
          hex = (take 2 s = ''0x'' \<or> take 2 s = ''0X'') \<and> (\<exists>c \<in> set (take 1 (drop 2 s)). xdigit_val c \<noteq> None);
          v = int (if hex then digits_val 16 (drop 2 s) 0
                   else if take 1 s = ''0'' then digits_val 8 s 0 else digits_val 10 s 0)
      in if neg then max (- v) (- (2 ^ 63)) else min v (2 ^ 63 - 1))"

text \<open>The conversion of a \<^verbatim>\<open>long\<close> to an \<^verbatim>\<open>int\<close> keeps the low 32 bits.\<close>

definition to_int :: "int \<Rightarrow> int" where
  "to_int i = sint (of_int i :: u32)"

definition RetrieveWiserCosts :: "'w env \<Rightarrow> int \<Rightarrow> int \<Rightarrow> 'w \<Rightarrow> (int \<times> 'w) option" where
  "RetrieveWiserCosts env as1 as2 w = do {
     connect_to_redis env w;
     let (reply, w) = redisCommand env [''GET'', int_str as1 @ ''-'' @ int_str as2] w in do {
       r \<leftarrow> reply;
       case r of
         REDIS_REPLY_ERROR \<Rightarrow> None
       | REDIS_REPLY_NIL \<Rightarrow> Some (- 1, w)
       | REDIS_REPLY_INTEGER i \<Rightarrow> Some (to_int i, w)
       | REDIS_REPLY_STRING s \<Rightarrow> Some (to_int (strtol0 s), w)
       | REDIS_REPLY_STATUS s \<Rightarrow> Some (to_int (strtol0 s), w) } }"

subsection \<open>What is stored is found\<close>

text \<open>What the server documents: a value set under a key is the answer to a request for the key; and the C library: \<^verbatim>\<open>rand\<close>
  returns at most \<^verbatim>\<open>RAND_MAX\<close>, \<open>2 ^ 31 - 1\<close>, and does not touch the connection.\<close>

definition redis_ok :: "'w env \<Rightarrow> bool" where
  "redis_ok env \<longleftrightarrow> (\<forall>k v w. connected env w \<longrightarrow>
     (\<exists>w' w''. redisCommand env [''SET'', k, v] w = (Some (REDIS_REPLY_STATUS ''OK''), w') \<and> connected env w' \<and>
       redisCommand env [''GET'', k] w' = (Some (REDIS_REPLY_STRING v), w'')))"

definition rand_ok :: "'w env \<Rightarrow> bool" where
  "rand_ok env \<longleftrightarrow> (\<forall>w. fst (rand env w) < 0x80000000 \<and> connected env (snd (rand env w)) = connected env w)"

text \<open>A server that keeps an association list, and a constant source of keys.\<close>

fun answer :: "string list \<Rightarrow> (string \<times> string) list \<Rightarrow> redisReply option \<times> (string \<times> string) list" where
  "answer [cmd, k] w = (case map_of w k of Some v \<Rightarrow> (Some (REDIS_REPLY_STRING v), w) | None \<Rightarrow> (Some REDIS_REPLY_NIL, w))"
| "answer [cmd, k, v] w = (Some (REDIS_REPLY_STATUS ''OK''), (k, v) # w)"
| "answer _ w = (Some REDIS_REPLY_ERROR, w)"

definition store_env :: "(string \<times> string) list env" where
  "store_env = \<lparr>redisCommand = answer, connected = \<lambda>_. True, rand = \<lambda>w. (4, w)\<rparr>"

lemma store_env_ok: "redis_ok store_env" "rand_ok store_env"
  by (simp_all add: redis_ok_def rand_ok_def store_env_def)

lemma host_key_bytes [simp]: "host_key (key_bytes k) = Some k"
  by (simp add: key_bytes_def put32_def host_key_def get32_put32)

lemma draw_key_first: "rand_ok env \<Longrightarrow> draw_key env w = Some (rand env w) \<and> fst (rand env w) \<noteq> DBGP_LOOKUP_SVC_PATH"
proof -
  assume "rand_ok env"
  then have "fst (rand env w) < 0x80000000" by (simp add: rand_ok_def)
  moreover have "\<not> (0xDEADBEEF :: u32) < 0x80000000" by simp
  ultimately have "fst (rand env w) \<noteq> DBGP_LOOKUP_SVC_PATH" by (auto simp: DBGP_LOOKUP_SVC_PATH_def)
  then show ?thesis by (subst draw_key.simps) (auto simp: Let_def split: prod.splits)
qed

lemma stored_info_found:
  assumes redis: "redis_ok env" and rand: "rand_ok env" and "connected env w" and "t_val t \<noteq> None"
    and "CHR 0x00 \<in> set (integrated_advertisement ci @ beyond)"
  shows "\<exists>t' w' w''. set_control_info env beyond t ci w = Some (t', w') \<and> is_lookup_service_path t' = Some False \<and>
    has_dbgp_control_info (Some t') \<and>
    retrieve_control_info env t' w' = Some (\<lparr>sentinel = 0,
      integrated_advertisement = takeWhile (\<lambda>c. c \<noteq> CHR 0x00) (integrated_advertisement ci @ beyond)\<rparr>, w'')"
proof -
  obtain k w0 where k: "rand env w = (k, w0)" by fastforce
  define v where "v = takeWhile (\<lambda>c. c \<noteq> CHR 0x00) (integrated_advertisement ci @ beyond)"
  have d: "draw_key env w = Some (k, w0)" "k \<noteq> DBGP_LOOKUP_SVC_PATH" using draw_key_first [OF rand, of w] k by auto
  have "connected env w0" using rand assms(3) k by (metis rand_ok_def snd_conv)
  then obtain w' w'' where s: "redisCommand env [''SET'', dec_str (unat k), v] w0 = (Some (REDIS_REPLY_STATUS ''OK''), w')"
    and c: "connected env w'" and g: "redisCommand env [''GET'', dec_str (unat k)] w' = (Some (REDIS_REPLY_STRING v), w'')"
    using redis unfolding redis_ok_def by blast
  let ?t = "t\<lparr>t_length := 4, t_val := Some (key_bytes k)\<rparr>"
  have "set_control_info env beyond t ci w = Some (?t, w')"
    using assms(4,5) d s \<open>connected env w0\<close>
    by (auto simp: set_control_info_def connect_to_redis_def zassert_def v_def [symmetric])
  moreover have "retrieve_loop env k 1000 w' = Some (REDIS_REPLY_STRING v, w'')"
    using g by (simp add: eval_nat_numeral(3) numeral_eq_Suc)
  then have "retrieve_control_info env ?t w' = Some (unpack_redis_reply v, w'')"
    using c by (simp add: retrieve_control_info_def connect_to_redis_def zassert_def reply_str_def)
  ultimately show ?thesis
    using d by (auto simp: is_lookup_service_path_def has_dbgp_control_info_def unpack_redis_reply_def v_def)
qed

text \<open>C19. Storing control information draws its key at once, never the one of the lookup service, and what is then
  retrieved with the attribute is the advertisement up to its first zero byte, or, when it has none, the advertisement followed
  by the bytes that happen to lie behind it in memory up to a zero byte.\<close>

theorem set_then_retrieve:
  assumes redis: "redis_ok env" and rand: "rand_ok env" and "connected env w" and "t_val t \<noteq> None"
    and "CHR 0x00 \<in> set (integrated_advertisement ci @ beyond)"
  shows "\<exists>t' w' w''. set_control_info env beyond t ci w = Some (t', w') \<and> is_lookup_service_path t' = Some False \<and>
    has_dbgp_control_info (Some t') \<and>
    retrieve_control_info env t' w' = Some (\<lparr>sentinel = 0,
      integrated_advertisement = takeWhile (\<lambda>c. c \<noteq> CHR 0x00) (integrated_advertisement ci @ beyond)\<rparr>, w'')"
  using assms by (rule stored_info_found)

theorem set_then_retrieve_witness:
  "redis_ok store_env \<and> rand_ok store_env \<and>
   (\<exists>t' w' w''. set_control_info store_env [CHR 0x00] \<lparr>t_length = 0, t_val = Some [0, 0, 0, 0]\<rparr>
      \<lparr>sentinel = 0, integrated_advertisement = [CHR ''a'', CHR 0x00, CHR ''b'']\<rparr> [] = Some (t', w') \<and>
     retrieve_control_info store_env t' w' = Some (\<lparr>sentinel = 0, integrated_advertisement = ''a''\<rparr>, w''))"
  using set_then_retrieve [OF store_env_ok, of "[]" "\<lparr>t_length = 0, t_val = Some [0, 0, 0, 0]\<rparr>"
      "\<lparr>sentinel = 0, integrated_advertisement = [CHR ''a'', CHR 0x00, CHR ''b'']\<rparr>" "[CHR 0x00]"] store_env_ok
  by (auto simp: store_env_def)

end
