(* ===== verification/Wiser.thy ===== *)
theory Wiser
  imports Dbgp_Lookup
begin

text \<open>
  The Wiser protocol (\<^verbatim>\<open>bgpd/wiser.c\<close>), the configuration it reads (\<^verbatim>\<open>bgpd/wiser_config.cc\<close>,
  \<^verbatim>\<open>bgpd/general_configuration.cpp\<close>) and the access to the control information of an advertisement (\<^verbatim>\<open>bgpd/dbgp.c\<close>).

  The configuration is read from a file by the protocol buffer library; here it is a value.  An \<^verbatim>\<open>unordered_map\<close> is an
  association list of which only lookups are used.
\<close>

subsection \<open>Configuration\<close>

datatype ProtocolType = PT_UNKNOWN | PT_WISER | PT_PATHLETS | PT_BASELINE_SLEEPER | PT_BENCHMARK | PT_BASELINE

text \<open>An entry of the topology: the address of the primary node and its links, each the adjacent address and a cost.\<close>

record NodeLink =
  primary_node :: string
  links :: "(string \<times> u64) list"

record BenchmarkProtolConfig =
  num_bytes_to_set :: u32
  in_memory :: "u32 option"
  adhoc_in_lookupservice :: "u32 option"

record Configuration =
  protocol_type :: ProtocolType
  cfg_island_id :: u32
  island_member_ases :: "u32 list"
  wiser_protocol_config :: "NodeLink list option option"
  benchmark_protocol_config :: "BenchmarkProtolConfig option"

definition GetProtocolType :: "Configuration \<Rightarrow> dbgp_protocol" where
  "GetProtocolType c = (case protocol_type c of
     PT_WISER \<Rightarrow> dbgp_critical_wiser
   | PT_PATHLETS \<Rightarrow> dbgp_replacement_pathlets
   | PT_BASELINE_SLEEPER \<Rightarrow> dbgp_protocol_baseline_sleeper
   | PT_BENCHMARK \<Rightarrow> dbgp_protocol_benchmark
   | _ \<Rightarrow> dbgp_protocol_baseline)"

definition GetIslandId :: "Configuration \<Rightarrow> int" where
  "GetIslandId c = sint (cfg_island_id c)"

definition IsRemoteAsAnIslandMember :: "Configuration \<Rightarrow> int \<Rightarrow> bool" where
  "IsRemoteAsAnIslandMember c remote_as = list_ex (\<lambda>m. sint m = remote_as) (island_member_ases c)"

definition GetBenchmarkBytes :: "Configuration \<Rightarrow> int" where
  "GetBenchmarkBytes c = (case benchmark_protocol_config c of None \<Rightarrow> 0 | Some b \<Rightarrow> sint (num_bytes_to_set b))"

definition IsInMemoryBenchmarkConfig :: "Configuration \<Rightarrow> int" where
  "IsInMemoryBenchmarkConfig c = (case benchmark_protocol_config c of
     None \<Rightarrow> 0 | Some b \<Rightarrow> case in_memory b of None \<Rightarrow> 0 | Some v \<Rightarrow> sint v)"

definition IsAdhocInLookupserviceBenchmarkConfig :: "Configuration \<Rightarrow> int" where
  "IsAdhocInLookupserviceBenchmarkConfig c = (case benchmark_protocol_config c of
     None \<Rightarrow> 0 | Some b \<Rightarrow> case adhoc_in_lookupservice b of None \<Rightarrow> 0 | Some v \<Rightarrow> sint v)"

type_synonym link_costs = "(string \<times> (string \<times> u64) list) list"

record WiserConfig =
  wiser_config :: "NodeLink list option"
  wiser_link_costs :: link_costs

definition GetWiserConfig :: "Configuration \<Rightarrow> WiserConfig option" where
  "GetWiserConfig c = (case wiser_protocol_config c of
     None \<Rightarrow> None
   | Some t \<Rightarrow> Some \<lparr>wiser_config = t, wiser_link_costs = []\<rparr>)"

text \<open>\<^verbatim>\<open>insert\<close> keeps an entry that is there; \<open>costs_of\<close> is \<^verbatim>\<open>operator[]\<close> on the outer map.\<close>

definition umap_insert :: "'k \<Rightarrow> 'v \<Rightarrow> ('k \<times> 'v) list \<Rightarrow> ('k \<times> 'v) list" where
  "umap_insert k v m = (if map_of m k = None then (k, v) # m else m)"

definition costs_of :: "link_costs \<Rightarrow> string \<Rightarrow> (string \<times> u64) list" where
  "costs_of m ip = (case map_of m ip of Some c \<Rightarrow> c | None \<Rightarrow> [])"

definition add_link :: "string \<Rightarrow> string \<times> u64 \<Rightarrow> link_costs \<Rightarrow> link_costs" where
  "add_link ip1 = (\<lambda>(ip2, link_cost) m.
     let m = AList.update ip1 (umap_insert ip2 link_cost (costs_of m ip1)) m
     in AList.update ip2 (umap_insert ip1 link_cost (costs_of m ip2)) m)"

definition add_node :: "NodeLink \<Rightarrow> link_costs \<Rightarrow> link_costs" where
  "add_node n m =
     (let m = (if map_of m (primary_node n) = None then AList.update (primary_node n) [] m else m)
      in fold (add_link (primary_node n)) (links n) m)"

definition ProcessWiserTopology :: "WiserConfig \<Rightarrow> WiserConfig" where
  "ProcessWiserTopology wc = (case wiser_config wc of
     None \<Rightarrow> wc
   | Some ns \<Rightarrow> wc\<lparr>wiser_link_costs := fold add_node ns (wiser_link_costs wc)\<rparr>)"

text \<open>The 64-bit cost is returned as an \<^verbatim>\<open>int\<close>.\<close>

definition GetLinkCost :: "WiserConfig \<Rightarrow> string \<Rightarrow> string \<Rightarrow> int \<times> WiserConfig" where
  "GetLinkCost wc ip1 ip2 =
     (let wc = (if wiser_link_costs wc = [] then ProcessWiserTopology wc else wc) in
      case map_of (wiser_link_costs wc) ip1 of
        None \<Rightarrow> (- 1, wc)
      | Some m \<Rightarrow> (case map_of m ip2 of None \<Rightarrow> (- 1, wc) | Some c \<Rightarrow> (sint (ucast c :: u32), wc)))"

subsection \<open>Link costs are symmetric\<close>

definition link_map :: "link_costs \<Rightarrow> string \<times> string \<Rightarrow> u64 option" where
  "link_map m = (\<lambda>(ip1, ip2). map_of (costs_of m ip1) ip2)"

definition symmetric :: "link_costs \<Rightarrow> bool" where
  "symmetric m \<longleftrightarrow> (\<forall>a b. link_map m (a, b) = link_map m (b, a))"

lemma costs_of_update [simp]: "costs_of (AList.update k c m) k' = (if k' = k then c else costs_of m k')"
  by (simp add: costs_of_def update_conv)

lemma map_of_umap_insert: "map_of (umap_insert k v m) k' = (if k' = k \<and> map_of m k = None then Some v else map_of m k')"
  by (simp add: umap_insert_def)

lemma link_map_add:
  "link_map (add_link ip1 (ip2, c) m) (a, b) =
     (case link_map m (a, b) of Some d \<Rightarrow> Some d | None \<Rightarrow> if (a, b) = (ip1, ip2) \<or> (a, b) = (ip2, ip1) then Some c else None)"
  by (auto simp: add_link_def link_map_def Let_def map_of_umap_insert split: option.splits)

lemma add_link_symmetric: "symmetric m \<Longrightarrow> symmetric (add_link ip1 l m)"
  by (cases l) (auto simp: symmetric_def link_map_add split: option.splits)

lemma add_links_symmetric: "symmetric m \<Longrightarrow> symmetric (fold (add_link ip1) ls m)"
  by (induction ls arbitrary: m) (auto simp: add_link_symmetric)

lemma add_node_symmetric:
  assumes "symmetric m"
  shows "symmetric (add_node n m)"
proof -
  have "map_of m k = None \<Longrightarrow> costs_of (AList.update k [] m) a = costs_of m a" for k a
    by (simp add: costs_of_def update_conv)
  then have "symmetric (if map_of m (primary_node n) = None then AList.update (primary_node n) [] m else m)"
    using assms by (auto simp: symmetric_def link_map_def)
  then show ?thesis by (simp add: add_node_def Let_def add_links_symmetric)
qed

lemma topology_symmetric: "symmetric (wiser_link_costs wc) \<Longrightarrow> symmetric (wiser_link_costs (ProcessWiserTopology wc))"
proof -
  have "symmetric m \<Longrightarrow> symmetric (fold add_node ns m)" for m ns
    by (induction ns arbitrary: m) (auto simp: add_node_symmetric)
  then show "symmetric (wiser_link_costs wc) \<Longrightarrow> ?thesis" by (simp add: ProcessWiserTopology_def split: option.splits)
qed

text \<open>The cost of a link does not depend on the end it is asked from.\<close>

lemma GetLinkCost_symmetric:
  assumes "symmetric (wiser_link_costs wc)"
  shows "fst (GetLinkCost wc a b) = fst (GetLinkCost wc b a)" "symmetric (wiser_link_costs (snd (GetLinkCost wc a b)))"
proof -
  let ?wc = "if wiser_link_costs wc = [] then ProcessWiserTopology wc else wc"
  have s: "symmetric (wiser_link_costs ?wc)" by (simp add: assms topology_symmetric [OF assms])
  have "fst (GetLinkCost wc x y) = (case link_map (wiser_link_costs ?wc) (x, y) of None \<Rightarrow> - 1 | Some c \<Rightarrow> sint (ucast c :: u32))" for x y
    by (simp add: GetLinkCost_def link_map_def costs_of_def Let_def split: option.splits)
  then show "fst (GetLinkCost wc a b) = fst (GetLinkCost wc b a)" using s by (metis symmetric_def)
  show "symmetric (wiser_link_costs (snd (GetLinkCost wc a b)))"
    using s by (cases "wiser_link_costs wc = []") (auto simp: GetLinkCost_def Let_def split: option.splits)
qed

subsection \<open>Updating an advertisement\<close>

definition AddLinkCostToIntegratedAdvertisement :: "codec \<Rightarrow> int \<Rightarrow> rat \<Rightarrow> control_info \<Rightarrow> control_info option" where
  "AddLinkCostToIntegratedAdvertisement pb additive_link_cost normalization ci = do {
     s \<leftarrow> SetWiserControlInfo pb (integrated_advertisement ci) additive_link_cost normalization;
     Some (ci\<lparr>integrated_advertisement := s\<rparr>) }"

definition SetLastWiserNodeInIntegratedAdvertisement :: "codec \<Rightarrow> int \<Rightarrow> control_info \<Rightarrow> control_info option" where
  "SetLastWiserNodeInIntegratedAdvertisement pb last_wiser_node ci = do {
     s \<leftarrow> SetLastWiserNode pb (integrated_advertisement ci) last_wiser_node;
     Some (ci\<lparr>integrated_advertisement := s\<rparr>) }"

text \<open>The division by a zero cost gives an infinity or no number at all; the assertion fails or the conversion of the new
  cost to an \<^verbatim>\<open>int\<close> is undefined, so it is an error here.\<close>

definition ComputeNormalizationForAdvert :: "'w env \<Rightarrow> codec \<Rightarrow> control_info \<Rightarrow> int \<Rightarrow> 'w \<Rightarrow> (rat \<times> 'w) option" where
  "ComputeNormalizationForAdvert env pb ci my_as w = do {
     virtual_neighbor \<leftarrow> GetLastWiserNode pb (integrated_advertisement ci);
     if virtual_neighbor = - 1 then Some (1, w)
     else do {
       (cost_received_from_neighbor, w) \<leftarrow> RetrieveWiserCosts env my_as virtual_neighbor w;
       (cost_neighbor_received_from_me, w) \<leftarrow> RetrieveWiserCosts env virtual_neighbor my_as w;
       if cost_neighbor_received_from_me = - 1 \<or> cost_received_from_neighbor = - 1 then Some (1, w)
       else do {
         zassert (cost_received_from_neighbor \<noteq> 0);
         let normalization = f32 (f32 (of_int cost_neighbor_received_from_me) / f32 (of_int cost_received_from_neighbor)) in do {
         zassert (0 < normalization);
         Some (normalization, w) } } } }"

definition wiser_update_control_info ::
  "'w env \<Rightarrow> codec \<Rightarrow> WiserConfig \<Rightarrow> control_info \<Rightarrow> peer \<Rightarrow> 'w \<Rightarrow> (control_info \<times> WiserConfig \<times> 'w) option" where
  "wiser_update_control_info env pb wc ci p w =
     (let my_as = sint (bgp_as (peer_bgp p));
          (additive_link_cost, wc) = GetLinkCost wc (dotted (local_id p)) (dotted (remote_id p)) in do {
        zassert (additive_link_cost \<noteq> - 1);
        current_cost \<leftarrow> GetWiserPathCost pb (integrated_advertisement ci);
        w \<leftarrow> (if current_cost \<noteq> - 1 then do {
                last_wiser_node \<leftarrow> GetLastWiserNode pb (integrated_advertisement ci);
                zassert (last_wiser_node \<noteq> - 1);
                IncrementWiserCosts env my_as last_wiser_node current_cost w }
              else Some w);
        (normalization, w) \<leftarrow> ComputeNormalizationForAdvert env pb ci my_as w;
        ci \<leftarrow> SetLastWiserNodeInIntegratedAdvertisement pb my_as ci;
        ci \<leftarrow> AddLinkCostToIntegratedAdvertisement pb additive_link_cost normalization ci;
        GetWiserPathCost pb (integrated_advertisement ci);
        Some (ci, wc, w) })"

subsection \<open>Choosing between two advertisements\<close>

text \<open>\<open>Some 1\<close> when the new path is better, \<open>Some 0\<close> when it is worse, \<open>Some (- 1)\<close> when Wiser does not decide.  The attributes are
  dereferenced unchecked.\<close>

definition ComputeWiserDecision ::
  "'w env \<Rightarrow> codec \<Rightarrow> attr_extra option \<Rightarrow> attr_extra option \<Rightarrow> 'w \<Rightarrow> (int \<times> 'w) option" where
  "ComputeWiserDecision env pb newattre existattre w = do {
     newattre \<leftarrow> newattre;
     existattre \<leftarrow> existattre;
     if \<not> has_dbgp_control_info (transit newattre) \<or> \<not> has_dbgp_control_info (transit existattre) then Some (- 1, w)
     else do {
       newtransit \<leftarrow> transit newattre;
       existtransit \<leftarrow> transit existattre;
       (new_control_info, w) \<leftarrow> retrieve_control_info env newtransit w;
       (exist_control_info, w) \<leftarrow> retrieve_control_info env existtransit w;
       path_cost_from_new \<leftarrow> GetWiserPathCost pb (integrated_advertisement new_control_info);
       path_cost_from_exist \<leftarrow> GetWiserPathCost pb (integrated_advertisement exist_control_info);
       Some (if path_cost_from_new < path_cost_from_exist then 1
             else if path_cost_from_exist < path_cost_from_new then 0 else - 1, w) } }"

datatype dbgp_filtered_status = DBGP_NOT_FILTERED | DBGP_FILTERED

definition wiser_input_filter :: "control_info \<Rightarrow> attr \<Rightarrow> peer \<Rightarrow> dbgp_filtered_status" where
  "wiser_input_filter ci a p = DBGP_NOT_FILTERED"

definition wiser_output_filter :: "attr \<Rightarrow> peer \<Rightarrow> dbgp_filtered_status" where
  "wiser_output_filter a p = DBGP_NOT_FILTERED"

subsection \<open>Properties\<close>

lemma stoi_int_str:
  assumes "- (2 ^ 31) \<le> i" "i < 2 ^ 31"
  shows "stoi (int_str i) = Some i"
proof -
  have 1: "takeWhile isdigit (dec_str n) = dec_str n" for n using takeWhile_dec_str [of "[]" n] by simp
  have 2: "dropWhile isspace (dec_str n) = dec_str n" "hd (dec_str n) \<noteq> CHR ''-''" "hd (dec_str n) \<noteq> CHR ''+''" for n
  proof -
    obtain c r where c: "dec_str n = c # r" "isdigit c" by (metis dec_str_digits dec_str_ne list.exhaust list.set_intros(1))
    then show "dropWhile isspace (dec_str n) = dec_str n" "hd (dec_str n) \<noteq> CHR ''-''" "hd (dec_str n) \<noteq> CHR ''+''"
      using digit_not_space(1) [of c] by (auto simp: isdigit_def)
  qed
  have "\<not> isspace (CHR ''-'')" by (simp add: isspace_def)
  then show ?thesis using assms by (simp add: stoi_def int_str_def Let_def 1 2, linarith)
qed

lemma last_node_value:
  "path_value (parse_advert pb s) P_WISER ''LastWiserNode'' = Some v \<Longrightarrow> GetLastWiserNode pb s = stoi v"
  unfolding path_value_def GetLastWiserNode_def GetProtocolPathGroupDescriptor_def
  by (auto simp: Let_def bind_eq_Some_conv split: option.splits dest!: find_pos_Some)
    (metis find_pos_None option.distinct(1))

lemma no_descriptor_no_value:
  assumes "GetProtocolPathGroupDescriptor m protocol = None"
  shows "path_value m protocol k = None"
  using assms find_pos_None [of "\<lambda>d. pg_protocol d = protocol" "path_group_descriptors m"]
  by (simp add: path_value_def GetProtocolPathGroupDescriptor_def)

lemma SetLastWiserNode_ok:
  assumes "codec_ok pb" "- (2 ^ 31) \<le> n" "n < 2 ^ 31"
  shows "\<exists>s'. SetLastWiserNode pb s n = Some s' \<and> GetLastWiserNode pb s' = Some n \<and>
    hop_descriptors (parse_advert pb s') = hop_descriptors (parse_advert pb s) \<and>
    (\<forall>p k. path_value (parse_advert pb s') p k =
      (if p = P_WISER \<and> k = ''LastWiserNode'' then Some (int_str n) else path_value (parse_advert pb s) p k))"
proof -
  obtain m' where m': "update_path_group (parse_advert pb s) P_WISER ''LastWiserNode'' (\<lambda>_. Some (int_str n)) = Some m'"
      "hop_descriptors m' = hop_descriptors (parse_advert pb s)"
      "\<forall>p k. path_value m' p k = (if p = P_WISER \<and> k = ''LastWiserNode'' then Some (int_str n) else path_value (parse_advert pb s) p k)"
    using update_path_group_ok [of "\<lambda>_. Some (int_str n)" "parse_advert pb s" P_WISER "''LastWiserNode''" "int_str n"] by auto
  moreover have p: "parse_advert pb (ser_advert pb m') = m'" using assms(1) by (simp add: codec_ok_def)
  moreover have "GetLastWiserNode pb (ser_advert pb m') = Some n"
    using last_node_value [of pb "ser_advert pb m'" "int_str n"] m'(3) p stoi_int_str [OF assms(2,3)] by simp
  ultimately show ?thesis by (auto simp: SetLastWiserNode_def)
qed


definition example_bgp :: bgp where
  "example_bgp = \<lparr>bgp_as = 65001, bgp_flags = 0, bgp_config = 0, default_local_pref = 100, confed_id = 0, confed_peers = [],
     maxpaths = replicate 3 (replicate 5 \<lparr>maxpaths_ebgp = 1, maxpaths_ibgp = 1\<rparr>), protocol_of = dbgp_critical_wiser, island_id = 1\<rparr>"

definition example_peer :: peer where
  "example_peer = \<lparr>peer_bgp = example_bgp, peer_as = 65002, local_as = 65001, sort_of = BGP_PEER_EBGP,
     remote_id = 0x0A000002, local_id = 0x0A000001, su_remote = None\<rparr>"



text \<open>Two stored advertisements: none under key 1, and one of cost 9 under key 2.\<close>

definition nine :: string where
  "nine = ser_advert number_codec (empty_advert\<lparr>path_group_descriptors :=
     [\<lparr>pg_protocol = P_WISER, pg_key_values = [\<lparr>key = ''PathCost'', value = ser_cost number_codec 9\<rparr>]\<rparr>]\<rparr>)"

definition keyed :: "u8 \<Rightarrow> transit" where
  "keyed k = \<lparr>t_length = 4, t_val = Some [k, 0, 0, 0]\<rparr>"


end
