(* ===== verification/Dbgp_Handlers.thy ===== *)
theory Dbgp_Handlers
  imports Wiser Zprefix Ecommunity
begin

text \<open>
  The handlers of the extended protocols: \<^verbatim>\<open>bgpd/dbgp.c\<close>, \<^verbatim>\<open>bgpd/pathlets.c\<close>, \<^verbatim>\<open>bgpd/benchmark.c\<close> and
  \<^verbatim>\<open>bgpd/pathlet_config.h\<close>.

  The global variables of the daemon that the handlers use are the record \<open>daemon\<close>; what is not part
  of the repository (the lookup server, \<open>rand\<close>, the protocol buffer library, the address functions of
  the C library, the bytes in memory behind a serialised advertisement) is the record \<open>lib\<close>.
  Prefixes handed to \<^verbatim>\<open>bgp_static_update\<close> are recorded in the order of the calls.  The AS path of an
  attribute is the value of the interned object.  Log messages and the clocks of the benchmark
  statistics are not modelled.
\<close>

unbundle bit_operations_syntax

subsection \<open>Configuration and state\<close>

record ManualPathlet =
  man_vnode1 :: u32
  man_vnode2 :: u32
  man_destination :: string

record Filter =
  one_hop_ip :: string
  pathlet_to_advertise :: ManualPathlet

record PathletProtoConfig =
  is_island_border_router :: u32
  private_slash24_ip :: string
  filters :: "Filter list"

definition IsIslandBorderRouter :: "PathletProtoConfig \<Rightarrow> bool" where
  "IsIslandBorderRouter c = (is_island_border_router c = 1)"

definition CreatePathletInternalState :: "(string \<Rightarrow> u32 option) \<Rightarrow> PathletProtoConfig \<Rightarrow> PathletInternalState option" where
  "CreatePathletInternalState inet_pton c = new_PathletInternalState inet_pton (private_slash24_ip c)"

text \<open>The string is copied into a buffer of \<open>INET_ADDRSTRLEN\<close> bytes.\<close>

definition GetPrivateIp :: "PathletProtoConfig \<Rightarrow> string option" where
  "GetPrivateIp c = do {
     zassert (length (private_slash24_ip c) + 1 \<le> 16);
     Some (private_slash24_ip c) }"

text \<open>The destination and the two nodes of the first matching filter; the inner \<open>None\<close> is the null result.\<close>

definition GetManualTwoHop :: "PathletProtoConfig \<Rightarrow> string \<Rightarrow> (string \<times> int \<times> int) option option" where
  "GetManualTwoHop c ip = (case find (\<lambda>f. one_hop_ip f = ip) (filters c) of
     None \<Rightarrow> Some None
   | Some f \<Rightarrow> let man_pathlet = pathlet_to_advertise f in do {
       zassert (length (man_destination man_pathlet) + 1 \<le> 256);
       Some (Some (man_destination man_pathlet, sint (man_vnode1 man_pathlet), sint (man_vnode2 man_pathlet))) })"

datatype WhichAdhoc = IN_MEMORY | IN_LOOKUPSERVICE

record BgpBenchmarkExperimentData =
  ex_control_info :: control_info
  ex_transit :: transit
  which_adhoc :: WhichAdhoc

record 'w daemon =
  general_configuration :: Configuration
  wiser_state :: WiserConfig
  pathlet_state :: PathletInternalState
  pathlet_config :: PathletProtoConfig
  experiment_data :: BgpBenchmarkExperimentData
  announced :: "(bgp \<times> prefix) list"
  world :: 'w

record 'w lib =
  l_env :: "'w env"
  l_pb :: codec
  l_beyond :: string
  l_aton :: "string \<Rightarrow> u8 list option"
  l_pton :: "string \<Rightarrow> u8 list option"
  l_pton6 :: "string \<Rightarrow> u8 list option"
  l_ntop :: "nat \<Rightarrow> u8 list \<Rightarrow> string"

subsection \<open>Control information of an advertisement\<close>

text \<open>The structure \<open>transit\<close> points into the attribute or into the experiment_data data; the flag says which, and
  \<open>store_transit\<close> writes through the pointer.\<close>

definition store_transit :: "bool \<Rightarrow> transit \<Rightarrow> attr \<Rightarrow> 'w daemon \<Rightarrow> attr \<times> 'w daemon" where
  "store_transit in_attr t a d =
     (if in_attr then (a\<lparr>extra := map_option (\<lambda>e. e\<lparr>transit := Some t\<rparr>) (extra a)\<rparr>, d)
      else (a, d\<lparr>experiment_data := (experiment_data d)\<lparr>ex_transit := t\<rparr>\<rparr>))"

definition attr_transit :: "attr \<Rightarrow> transit option" where
  "attr_transit a = (case extra a of None \<Rightarrow> None | Some e \<Rightarrow> transit e)"

definition GetControlInformation2 :: "'w lib \<Rightarrow> attr \<Rightarrow> 'w daemon \<Rightarrow> (control_info \<times> transit \<times> attr \<times> 'w daemon) option" where
  "GetControlInformation2 L a d = (case attr_transit a of
     Some t \<Rightarrow>
       if 0 < t_length t then do {
         (ci, w) \<leftarrow> retrieve_control_info (l_env L) t (world d);
         Some (ci, t, a, d\<lparr>world := w\<rparr>) }
       else let (t, a) = bgp_attr_extra_transit_get a 4 in Some (\<lparr>sentinel = 0, integrated_advertisement = ''''\<rparr>, t, a, d)
   | None \<Rightarrow> let (t, a) = bgp_attr_extra_transit_get a 4 in Some (\<lparr>sentinel = 0, integrated_advertisement = ''''\<rparr>, t, a, d))"

definition GetControlInformation ::
  "'w lib \<Rightarrow> attr \<Rightarrow> 'w daemon \<Rightarrow> (control_info \<times> transit \<times> bool \<times> attr \<times> 'w daemon) option" where
  "GetControlInformation L a d =
     (if GetProtocolType (general_configuration d) = dbgp_protocol_benchmark then
        (case which_adhoc (experiment_data d) of
           IN_MEMORY \<Rightarrow> Some (ex_control_info (experiment_data d), ex_transit (experiment_data d), False, a, d)
         | IN_LOOKUPSERVICE \<Rightarrow> do {
             (ci, w) \<leftarrow> retrieve_control_info (l_env L) (ex_transit (experiment_data d)) (world d);
             Some (ci, ex_transit (experiment_data d), False, a, d\<lparr>world := w\<rparr>) })
      else do {
        (ci, t, a, d) \<leftarrow> GetControlInformation2 L a d;
        Some (ci, t, True, a, d) })"

subsection \<open>Helpers of the pathlet protocol\<close>

text \<open>An address is the list of its four bytes; the masks are applied byte by byte, which is what the source does
  with words in network order.\<close>

definition CLASS_B_NETMASK :: "u8 list" where "CLASS_B_NETMASK = [0xFF, 0xFF, 0, 0]"
definition CLASS_C_NETMASK :: "u8 list" where "CLASS_C_NETMASK = [0xFF, 0xFF, 0xFF, 0]"

definition IpInSameSubnetOneIsInt :: "'w lib \<Rightarrow> u8 list \<Rightarrow> string \<Rightarrow> u8 list \<Rightarrow> bool option" where
  "IpInSameSubnetOneIsInt L ip1 ip2_str netmask = do {
     ip2 \<leftarrow> l_pton L ip2_str;
     Some (map2 (AND) ip1 netmask = map2 (AND) ip2 netmask) }"

definition IpInSameSubnet :: "'w lib \<Rightarrow> string \<Rightarrow> string \<Rightarrow> u8 list \<Rightarrow> bool option" where
  "IpInSameSubnet L ip1_str ip2_str netmask = do {
     ip1 \<leftarrow> l_pton L ip1_str;
     ip2 \<leftarrow> l_pton L ip2_str;
     Some (map2 (AND) ip1 netmask = map2 (AND) ip2 netmask) }"

definition aspath_size_custom :: "aspath \<Rightarrow> nat" where
  "aspath_size_custom as = fold (\<lambda>seg size. size + seg_length seg) (segments as) 0"

definition AddAssociatedPathlet ::
  "'w lib \<Rightarrow> string \<Rightarrow> int \<Rightarrow> control_info \<Rightarrow> 'w daemon \<Rightarrow> (control_info \<times> 'w daemon) option" where
  "AddAssociatedPathlet L associated_ip island ci d = do {
     (new_info, st) \<leftarrow> GenerateInternalPathletControlInfo (l_pb L) (pathlet_state d) (integrated_advertisement ci) associated_ip island;
     new_info \<leftarrow> new_info;
     Some (ci\<lparr>integrated_advertisement := new_info\<rparr>, d\<lparr>pathlet_state := st\<rparr>) }"

definition AddExternalPathletControlInfoForDest ::
  "'w lib \<Rightarrow> (int list \<Rightarrow> int list) \<Rightarrow> nat \<Rightarrow> prefix \<Rightarrow> int \<Rightarrow> int \<Rightarrow> control_info \<Rightarrow> 'w daemon \<Rightarrow> (control_info \<times> 'w daemon) option" where
  "AddExternalPathletControlInfoForDest L iter n p island as_num ci d = do {
     (new_info, st) \<leftarrow> GenerateExternalPathletDestinationControlInfo (l_pb L) iter n (pathlet_state d) (prefix2str (l_ntop L) p 256)
       island as_num (integrated_advertisement ci);
     Some (ci\<lparr>integrated_advertisement := new_info\<rparr>, d\<lparr>pathlet_state := st\<rparr>) }"

definition AddExternalPathletControlInfoForAll :: "'w lib \<Rightarrow> int \<Rightarrow> control_info \<Rightarrow> 'w daemon \<Rightarrow> control_info option" where
  "AddExternalPathletControlInfoForAll L island ci d = do {
     new_info \<leftarrow> GenerateExternalPathletControlInfo (l_pb L) (pathlet_state d) island (integrated_advertisement ci);
     Some (ci\<lparr>integrated_advertisement := new_info\<rparr>) }"

text \<open>A prefix that cannot be read stays uninitialised.\<close>

definition AnnounceStaticRoute :: "'w lib \<Rightarrow> string \<Rightarrow> bgp \<Rightarrow> 'w daemon \<Rightarrow> 'w daemon option" where
  "AnnounceStaticRoute L ip_and_prefix b d =
     (let (ret, p) = str2prefix (l_aton L) (l_pton6 L) ip_and_prefix prefix_new in do {
        zassert ret;
        Some (d\<lparr>announced := announced d @ [(b, p)]\<rparr>) })"

definition aspath_get_rightmost :: "aspath \<Rightarrow> int" where
  "aspath_get_rightmost as =
     (if segments as = [] then - 1
      else fold (\<lambda>seg return_as. fold (\<lambda>a _. sint a) (seg_as seg) return_as) (segments as) (- 1))"

definition IsPublicPrefix :: "'w lib \<Rightarrow> prefix \<Rightarrow> 'w daemon \<Rightarrow> bool option" where
  "IsPublicPrefix L p d = do {
     private_ip \<leftarrow> GetPrivateIp (pathlet_config d);
     same \<leftarrow> IpInSameSubnetOneIsInt L (take 4 (u p)) private_ip CLASS_B_NETMASK;
     Some (\<not> same) }"

definition HandlePublicPrefixForExternal ::
  "'w lib \<Rightarrow> control_info \<Rightarrow> peer \<Rightarrow> attr \<Rightarrow> 'w daemon \<Rightarrow> (control_info \<times> attr) option" where
  "HandlePublicPrefixForExternal L ci p a d = do {
     ci \<leftarrow> AddExternalPathletControlInfoForAll L (island_id (peer_bgp p)) ci d;
     as \<leftarrow> aspath_str2aspath (int_str (island_id (peer_bgp p)));
     as \<leftarrow> as;
     Some (ci, a\<lparr>as_path := as\<rparr>) }"

definition aspath_to_array :: "aspath \<Rightarrow> u32 list" where
  "aspath_to_array as = concat (map seg_as (segments as))"

fun announce_all :: "'w lib \<Rightarrow> bgp \<Rightarrow> string list \<Rightarrow> 'w daemon \<Rightarrow> 'w daemon option" where
  "announce_all L b [] d = Some d"
| "announce_all L b (ip # ips) d = do {
     d \<leftarrow> AnnounceStaticRoute L ip b d;
     announce_all L b ips d }"

text \<open>The loop over the AS numbers of the path.  The array for the addresses to announce has 256 entries.\<close>

fun external_loop :: "'w lib \<Rightarrow> control_info \<Rightarrow> bgp \<Rightarrow> u32 list \<Rightarrow> u32 list \<Rightarrow> 'w daemon \<Rightarrow> 'w daemon option" where
  "external_loop L ci b aspath_array [] d = Some d"
| "external_loop L ci b aspath_array (as # ases) d =
     (if HasPathletInformation (l_pb L) (integrated_advertisement ci) (sint as) then do {
        (ips, st) \<leftarrow> CreatePathletsFromIA (l_pb L) (pathlet_state d) (integrated_advertisement ci) aspath_array (sint as)
          (sint (bgp_as b));
        zassert (length ips \<le> 256);
        d \<leftarrow> announce_all L b ips (d\<lparr>pathlet_state := st\<rparr>);
        external_loop L ci b aspath_array ases d }
      else external_loop L ci b aspath_array ases d)"

definition HandleExternalIslandInput :: "'w lib \<Rightarrow> control_info \<Rightarrow> peer \<Rightarrow> attr \<Rightarrow> 'w daemon \<Rightarrow> 'w daemon option" where
  "HandleExternalIslandInput L ci p a d =
     external_loop L ci (peer_bgp p) (aspath_to_array (as_path a)) (concat (map seg_as (segments (as_path a)))) d"

subsection \<open>The pathlet protocol\<close>

text \<open>\<^verbatim>\<open>InsertPathletToSend\<close> of the C interface builds the pathlet.\<close>

definition InsertNewPathletToSend ::
  "PathletInternalState \<Rightarrow> string \<Rightarrow> int \<Rightarrow> u32 \<Rightarrow> u32 \<Rightarrow> string \<Rightarrow> u32 \<Rightarrow> PathletInternalState option" where
  "InsertNewPathletToSend st associated_ip new_fid as1 as2 dest_ip two_hop =
     InsertPathletToSend st associated_ip
       \<lparr>fid = of_int new_fid, vnodes = [as1, as2], destination = dest_ip, path_vector = [], is_two_hop = two_hop\<rparr>"

text \<open>A private prefix without a path was made by this router; its pathlet is put into the advertisement.\<close>

definition originate_pathlet ::
  "'w lib \<Rightarrow> prefix \<Rightarrow> int \<Rightarrow> control_info \<Rightarrow> 'w daemon \<Rightarrow> (control_info \<times> 'w daemon) option" where
  "originate_pathlet L p island ci d =
     (let string_ip = inet_ntoa (take 4 (u p)) in do {
        private_ip \<leftarrow> GetPrivateIp (pathlet_config d);
        same \<leftarrow> IpInSameSubnet L string_ip private_ip CLASS_C_NETMASK;
        zassert same;
        AddAssociatedPathlet L string_ip island ci d })"

definition merge_pathlets :: "'w lib \<Rightarrow> int \<Rightarrow> control_info \<Rightarrow> 'w daemon \<Rightarrow> 'w daemon option" where
  "merge_pathlets L island ci d = do {
     st \<leftarrow> MergePathletInformationIntoGraph (l_pb L) (pathlet_state d) (integrated_advertisement ci) island;
     Some (d\<lparr>pathlet_state := st\<rparr>) }"

definition new_pathlets_update_control_info ::
  "'w lib \<Rightarrow> control_info \<Rightarrow> peer \<Rightarrow> attr \<Rightarrow> prefix \<Rightarrow> 'w daemon \<Rightarrow> (control_info \<times> attr \<times> 'w daemon) option" where
  "new_pathlets_update_control_info L ci p a pfx d = do {
     public \<leftarrow> IsPublicPrefix L pfx d;
     if public then
       if \<not> IsRemoteAsAnIslandMember (general_configuration d) (sint (peer_as p)) then do {
         (ci, a) \<leftarrow> HandlePublicPrefixForExternal L ci p a d;
         Some (ci, a, d) }
       else Some (ci, a, d)
     else do {
       (ci, d) \<leftarrow> (if aspath_size_custom (as_path a) = 0 then originate_pathlet L pfx (island_id (peer_bgp p)) ci d
                   else Some (ci, d));
       d \<leftarrow> merge_pathlets L (island_id (peer_bgp p)) ci d;
       Some (ci, a, d) } }"

definition new_pathlets_update_control_info_bgpstruct ::
  "'w lib \<Rightarrow> control_info \<Rightarrow> bgp \<Rightarrow> attr \<Rightarrow> prefix \<Rightarrow> 'w daemon \<Rightarrow> (control_info \<times> 'w daemon) option" where
  "new_pathlets_update_control_info_bgpstruct L ci b a pfx d = do {
     public \<leftarrow> IsPublicPrefix L pfx d;
     if public then Some (ci, d)
     else do {
       (ci, d) \<leftarrow> originate_pathlet L pfx (island_id b) ci d;
       d \<leftarrow> merge_pathlets L (island_id b) ci d;
       Some (ci, d) } }"

definition new_pathlets_input_filter ::
  "'w lib \<Rightarrow> control_info \<Rightarrow> attr \<Rightarrow> peer \<Rightarrow> prefix \<Rightarrow> 'w daemon \<Rightarrow> (dbgp_filtered_status \<times> 'w daemon) option" where
  "new_pathlets_input_filter L ci a p pfx d =
     (let prefix_buf = prefix2str (l_ntop L) pfx 256 in do {
      public \<leftarrow> IsPublicPrefix L pfx d;
      if public then
        if \<not> IsRemoteAsAnIslandMember (general_configuration d) (sint (peer_as p)) then do {
          d \<leftarrow> HandleExternalIslandInput L ci p a d;
          Some (DBGP_FILTERED, d) }
        else if aspath_size_custom (as_path a) = 1 then
          let (new_ip, st) = GetNextIp (pathlet_state d) in do {
            (free_fid, st) \<leftarrow> GetNextFid st;
            st \<leftarrow> InsertNewPathletToSend st new_ip free_fid (bgp_as (peer_bgp p)) (peer_as p) prefix_buf 0;
            d \<leftarrow> AnnounceStaticRoute L (announce_text new_ip) (peer_bgp p) (d\<lparr>pathlet_state := st\<rparr>);
            Some (DBGP_NOT_FILTERED, d) }
        else Some (DBGP_NOT_FILTERED, d)
      else Some (DBGP_NOT_FILTERED, d) })"

subsection \<open>The benchmark protocol\<close>

definition benchmark_input_filter :: "'w lib \<Rightarrow> control_info \<Rightarrow> dbgp_filtered_status option" where
  "benchmark_input_filter L ci = do {
     _ \<leftarrow> GetBenchmarkIABytesSize (l_pb L) (integrated_advertisement ci);
     Some DBGP_NOT_FILTERED }"

definition benchmark_update_control_info :: "'w lib \<Rightarrow> control_info \<Rightarrow> 'w daemon \<Rightarrow> control_info option" where
  "benchmark_update_control_info L ci d = do {
     num_bytes \<leftarrow> GetBenchmarkIABytesSize (l_pb L) (integrated_advertisement ci);
     if num_bytes = - 1 then do {
       new_info \<leftarrow> SetBenchmarkIABytes (l_pb L) (integrated_advertisement ci) (GetBenchmarkBytes (general_configuration d));
       Some (ci\<lparr>integrated_advertisement := new_info\<rparr>) }
     else Some ci }"

definition benchmark_output_filter :: "attr \<Rightarrow> dbgp_filtered_status" where
  "benchmark_output_filter a = DBGP_NOT_FILTERED"

subsection \<open>Dispatch\<close>

definition dbgp_update_control_info :: "'w lib \<Rightarrow> attr \<Rightarrow> peer \<Rightarrow> prefix \<Rightarrow> 'w daemon \<Rightarrow> (attr \<times> 'w daemon) option" where
  "dbgp_update_control_info L a p pfx d =
     (let proto = protocol_of (peer_bgp p) in
      if proto = dbgp_protocol_baseline_sleeper \<or> proto = dbgp_protocol_baseline \<or> proto = dbgp_protocol_benchmark
      then Some (a, d)
      else do {
        (ci, t, in_attr, a, d) \<leftarrow> GetControlInformation L a d;
        lookup \<leftarrow> is_lookup_service_path t;
        if lookup then Some (a, d)
        else do {
          (ci, a, d) \<leftarrow> (case proto of
              dbgp_critical_wiser \<Rightarrow> do {
                (ci, wc, w) \<leftarrow> wiser_update_control_info (l_env L) (l_pb L) (wiser_state d) ci p (world d);
                Some (ci, a, d\<lparr>wiser_state := wc, world := w\<rparr>) }
            | dbgp_replacement_pathlets \<Rightarrow> new_pathlets_update_control_info L ci p a pfx d
            | _ \<Rightarrow> None);
          (t, w) \<leftarrow> set_control_info (l_env L) (l_beyond L) t ci (world d);
          Some (store_transit in_attr t a (d\<lparr>world := w\<rparr>)) } })"

definition dbgp_update_control_info_bgpstruct :: "'w lib \<Rightarrow> attr \<Rightarrow> bgp \<Rightarrow> prefix \<Rightarrow> 'w daemon \<Rightarrow> (attr \<times> 'w daemon) option" where
  "dbgp_update_control_info_bgpstruct L a b pfx d =
     (if protocol_of b = dbgp_protocol_baseline_sleeper \<or> protocol_of b = dbgp_protocol_baseline then Some (a, d)
      else do {
        (ci, t, in_attr, a, d) \<leftarrow> GetControlInformation L a d;
        lookup \<leftarrow> is_lookup_service_path t;
        if lookup then Some (a, d)
        else do {
          (ci, d) \<leftarrow> (case protocol_of b of
              dbgp_replacement_pathlets \<Rightarrow> new_pathlets_update_control_info_bgpstruct L ci b a pfx d
            | _ \<Rightarrow> None);
          (t, w) \<leftarrow> set_control_info (l_env L) (l_beyond L) t ci (world d);
          Some (store_transit in_attr t a (d\<lparr>world := w\<rparr>)) } })"

definition dbgp_input_filter ::
  "'w lib \<Rightarrow> attr \<Rightarrow> peer \<Rightarrow> prefix \<Rightarrow> 'w daemon \<Rightarrow> (dbgp_filtered_status \<times> attr \<times> 'w daemon) option" where
  "dbgp_input_filter L a p pfx d =
     (let proto = protocol_of (peer_bgp p) in
      if proto = dbgp_protocol_baseline_sleeper \<or> proto = dbgp_protocol_baseline then Some (DBGP_NOT_FILTERED, a, d)
      else do {
        (ci, t, in_attr, a, d) \<leftarrow> GetControlInformation L a d;
        lookup \<leftarrow> is_lookup_service_path t;
        if lookup then Some (DBGP_NOT_FILTERED, a, d)
        else case proto of
          dbgp_protocol_benchmark \<Rightarrow> do { r \<leftarrow> benchmark_input_filter L ci; Some (r, a, d) }
        | dbgp_critical_wiser \<Rightarrow> Some (wiser_input_filter ci a p, a, d)
        | dbgp_replacement_pathlets \<Rightarrow> do { (r, d) \<leftarrow> new_pathlets_input_filter L ci a p pfx d; Some (r, a, d) }
        | _ \<Rightarrow> None })"

definition pathlets_output_filter ::
  "'w lib \<Rightarrow> attr \<Rightarrow> peer \<Rightarrow> prefix \<Rightarrow> 'w daemon \<Rightarrow> (dbgp_filtered_status \<times> attr \<times> 'w daemon) option" where
  "pathlets_output_filter L a p pfx d =
     (let peer_apart_of_island = IsRemoteAsAnIslandMember (general_configuration d) (sint (peer_as p)) in do {
        private_ip \<leftarrow> GetPrivateIp (pathlet_config d);
        is_private_ip \<leftarrow> IpInSameSubnetOneIsInt L (take 4 (u pfx)) private_ip CLASS_B_NETMASK;
        if \<not> peer_apart_of_island \<and> is_private_ip then Some (DBGP_FILTERED, a, d)
        else if \<not> is_private_ip \<or> \<not> peer_apart_of_island then do {
          (a, d) \<leftarrow> dbgp_update_control_info L a p pfx d;
          Some (DBGP_NOT_FILTERED, a, d) }
        else Some (DBGP_NOT_FILTERED, a, d) })"

definition dbgp_output_filter ::
  "'w lib \<Rightarrow> attr \<Rightarrow> peer \<Rightarrow> prefix \<Rightarrow> 'w daemon \<Rightarrow> (dbgp_filtered_status \<times> attr \<times> 'w daemon) option" where
  "dbgp_output_filter L a p pfx d = (case protocol_of (peer_bgp p) of
     dbgp_protocol_baseline \<Rightarrow> Some (DBGP_NOT_FILTERED, a, d)
   | dbgp_protocol_baseline_sleeper \<Rightarrow> Some (DBGP_NOT_FILTERED, a, d)
   | dbgp_critical_wiser \<Rightarrow> Some (wiser_output_filter a p, a, d)
   | dbgp_replacement_pathlets \<Rightarrow> pathlets_output_filter L a p pfx d
   | dbgp_protocol_benchmark \<Rightarrow> Some (benchmark_output_filter a, a, d)
   | _ \<Rightarrow> None)"

subsection \<open>An example\<close>

definition example_lib :: "(string \<times> string) list lib" where
  "example_lib = \<lparr>l_env = store_env, l_pb = number_codec, l_beyond = [CHR 0x00], l_aton = (\<lambda>s. Some (dotted_bytes [] s)),
     l_pton = (\<lambda>s. Some (dotted_bytes [] s)), l_pton6 = (\<lambda>_. None), l_ntop = (\<lambda>_ b. inet_ntoa (take 4 b))\<rparr>"

definition example_daemon :: "u32 \<Rightarrow> (string \<times> string) list daemon" where
  "example_daemon ip = \<lparr>general_configuration = \<lparr>protocol_type = PT_PATHLETS, cfg_island_id = 9, island_member_ases = [7],
       wiser_protocol_config = None, benchmark_protocol_config = None\<rparr>,
     wiser_state = \<lparr>wiser_config = None, wiser_link_costs = []\<rparr>, pathlet_state = (example_state [(1, 2)])\<lparr>next_ip := ip\<rparr>,
     pathlet_config = \<lparr>is_island_border_router = 1, private_slash24_ip = ''10.1.1.0'', filters = []\<rparr>,
     experiment_data = \<lparr>ex_control_info = \<lparr>sentinel = 0, integrated_advertisement = ''''\<rparr>, ex_transit = \<lparr>t_length = 0, t_val = None\<rparr>,
       which_adhoc = IN_MEMORY\<rparr>, announced = [], world = []\<rparr>"

definition pathlet_peer :: "u32 \<Rightarrow> peer" where
  "pathlet_peer as = example_peer\<lparr>peer_as := as, peer_bgp := example_bgp\<lparr>protocol_of := dbgp_replacement_pathlets, island_id := 9\<rparr>\<rparr>"

definition example_prefix :: "u8 \<Rightarrow> prefix" where
  "example_prefix b = \<lparr>family = AF_INET, prefixlen = 16, u = [b, 1] @ replicate 14 0\<rparr>"

definition example_attr :: "u32 list \<Rightarrow> attr" where
  "example_attr asns = \<lparr>as_path = aspath_new\<lparr>segments := [\<lparr>seg_type = AS_SEQUENCE, seg_as = asns\<rparr>]\<rparr>, attr_community = None, extra = None,
     flag = 0, nexthop = 0, med = 0, local_pref = 0, origin = 0\<rparr>"

subsection \<open>Private and public prefixes\<close>

text \<open>The private range of the island is the /16 of the configured address.\<close>

definition private_range :: "'w lib \<Rightarrow> 'w daemon \<Rightarrow> u8 list option" where
  "private_range L d = do {
     ip \<leftarrow> l_pton L (private_slash24_ip (pathlet_config d));
     if length (private_slash24_ip (pathlet_config d)) < 16 \<and> length ip = 4 then Some (take 2 ip) else None }"

definition inet_ok :: "'w lib \<Rightarrow> bool" where
  "inet_ok L \<longleftrightarrow> (\<forall>bs. length bs = 4 \<longrightarrow> l_aton L (inet_ntoa bs) = Some bs \<and> l_pton L (inet_ntoa bs) = Some bs)"

lemma example_range: "private_range example_lib (example_daemon ip) = Some [10, 1]"
  by code_simp

lemma example_env: "redis_ok (l_env example_lib)" "rand_ok (l_env example_lib)" "connected (l_env example_lib) (world (example_daemon ip))"
    "codec_ok (l_pb example_lib)" "inet_ok example_lib" "l_beyond example_lib = [CHR 0x00]"
  by (simp_all add: example_lib_def store_env_ok number_codec_ok inet_ok_def dotted_inet_ntoa)
    (simp add: store_env_def)

lemma example_graph: "graph_ok (pathlet_graph (pathlet_state (example_daemon ip)))" "graph_ok (pathlet_graph (example_state [(1, 2)]))"
  by (simp_all add: example_daemon_def example_state_def graph_ok_def omap_ok_def vnode_def edge_pathlet_def)

lemma number_plain: "CHR 0x00 \<notin> set (number dflt x)"
  using dec_str_digits [of "CHR 0x00" "to_nat x"] by (auto simp: number_def isdigit_def)

lemma example_text: "GenerateExternalPathletControlInfo (l_pb example_lib) st island s = Some s' \<Longrightarrow> CHR 0x00 \<notin> set s'"
  using number_plain by (auto simp: GenerateExternalPathletControlInfo_def example_lib_def number_codec_def bind_eq_Some_conv Let_def)

abbreviation island_member :: "'w daemon \<Rightarrow> peer \<Rightarrow> bool" where
  "island_member d p \<equiv> IsRemoteAsAnIslandMember (general_configuration d) (sint (peer_as p))"

lemma and_all_ones [simp]: "(b :: u8) AND 0xFF = b"
proof -
  have "(0xFF :: u8) = - 1" by simp
  then show ?thesis by (simp only: and.right_neutral)
qed

lemma same_class_b:
  assumes "length ip1 = 4" "length ip2 = 4"
  shows "map2 (AND) ip1 CLASS_B_NETMASK = map2 (AND) ip2 CLASS_B_NETMASK \<longleftrightarrow> take 2 ip1 = take 2 ip2"
  using assms by (elim four_bytes_cases) (simp add: CLASS_B_NETMASK_def)

lemma same_class_c:
  assumes "length ip1 = 4" "length ip2 = 4"
  shows "map2 (AND) ip1 CLASS_C_NETMASK = map2 (AND) ip2 CLASS_C_NETMASK \<longleftrightarrow> take 3 ip1 = take 3 ip2"
  using assms by (elim four_bytes_cases) (simp add: CLASS_C_NETMASK_def)

lemma example_simps:
  "protocol_of (peer_bgp (pathlet_peer as)) = dbgp_replacement_pathlets" "island_id (peer_bgp (pathlet_peer as)) = 9"
  "peer_as (pathlet_peer as) = as" "bgp_as (peer_bgp (pathlet_peer as)) = 65001"
  "u (example_prefix b) = [b, 1] @ replicate 14 0" "IsRemoteAsAnIslandMember (general_configuration (example_daemon ip)) n \<longleftrightarrow> n = 7"
  "GetProtocolType (general_configuration (example_daemon ip)) = dbgp_replacement_pathlets" "attr_transit (example_attr asns) = None"
  "aspath_size_custom (as_path (example_attr asns)) = length asns" "announced (example_daemon ip) = []"
  "next_ip (pathlet_state (example_daemon ip)) = ip" "next_fid (pathlet_state (example_daemon ip)) = 1"
  "l_pton example_lib (private_slash24_ip (pathlet_config (example_daemon ip))) = Some [10, 1, 1, 0]"
  by (simp_all add: pathlet_peer_def example_bgp_def example_peer_def example_prefix_def example_daemon_def GetProtocolType_def
      IsRemoteAsAnIslandMember_def attr_transit_def example_attr_def aspath_size_custom_def aspath_new_def example_state_def
      example_lib_def dec_val_def digit_val_def)

lemma private_range_eqs:
  assumes "private_range L d = Some r" "4 \<le> length (u pfx)"
  shows "IsPublicPrefix L pfx d = Some (take 2 (u pfx) \<noteq> r)"
    "\<exists>ip. GetPrivateIp (pathlet_config d) = Some ip \<and>
      IpInSameSubnetOneIsInt L (take 4 (u pfx)) ip CLASS_B_NETMASK = Some (take 2 (u pfx) = r)"
proof -
  obtain ip where ip: "l_pton L (private_slash24_ip (pathlet_config d)) = Some ip" "length ip = 4" "r = take 2 ip"
      "length (private_slash24_ip (pathlet_config d)) < 16"
    using assms(1) by (auto simp: private_range_def bind_eq_Some_conv split: if_splits)
  have "map2 (AND) (take 4 (u pfx)) CLASS_B_NETMASK = map2 (AND) ip CLASS_B_NETMASK \<longleftrightarrow> take 2 (u pfx) = r"
    using assms(2) ip(2,3) by (subst same_class_b) auto
  then show "IsPublicPrefix L pfx d = Some (take 2 (u pfx) \<noteq> r)"
    "\<exists>ip. GetPrivateIp (pathlet_config d) = Some ip \<and>
      IpInSameSubnetOneIsInt L (take 4 (u pfx)) ip CLASS_B_NETMASK = Some (take 2 (u pfx) = r)"
    using ip(1,4) by (simp_all add: IsPublicPrefix_def GetPrivateIp_def IpInSameSubnetOneIsInt_def zassert_def)
qed

lemma pathlet_output_cases:
  assumes "protocol_of (peer_bgp p) = dbgp_replacement_pathlets" "private_range L d = Some r" "4 \<le> length (u pfx)"
  shows "dbgp_output_filter L a p pfx d =
    (if take 2 (u pfx) = r then Some (if island_member d p then DBGP_NOT_FILTERED else DBGP_FILTERED, a, d)
     else map_option (\<lambda>(a, d). (DBGP_NOT_FILTERED, a, d)) (dbgp_update_control_info L a p pfx d))"
  using assms(1) private_range_eqs(2) [OF assms(2,3)]
  by (auto simp: dbgp_output_filter_def pathlets_output_filter_def Let_def map_option_case bind_eq_None_conv split: option.splits)

text \<open>C2. Addresses of the private range never leave the island: the output filter of a pathlet
  router suppresses an announcement exactly when the peer is outside the island and the prefix is
  in the private range, and then leaves attribute and state alone; an announcement of a private
  prefix to a member passes unchanged.\<close>

theorem private_prefixes_stay_inside:
  assumes "protocol_of (peer_bgp p) = dbgp_replacement_pathlets" "private_range L d = Some r" "4 \<le> length (u pfx)"
  shows "(\<forall>a' d'. dbgp_output_filter L a p pfx d = Some (DBGP_FILTERED, a', d') \<longleftrightarrow>
      \<not> island_member d p \<and> take 2 (u pfx) = r \<and> a' = a \<and> d' = d) \<and>
    (island_member d p \<and> take 2 (u pfx) = r \<longrightarrow> dbgp_output_filter L a p pfx d = Some (DBGP_NOT_FILTERED, a, d))"
  using pathlet_output_cases [OF assms, of a] by auto

theorem private_prefixes_stay_inside_witness:
  "dbgp_output_filter example_lib (example_attr []) (pathlet_peer 8) (example_prefix 10) (example_daemon 0) =
     Some (DBGP_FILTERED, example_attr [], example_daemon 0)"
  using private_prefixes_stay_inside [of "pathlet_peer 8" example_lib "example_daemon 0" "[10, 1]" "example_prefix 10" "example_attr []"]
  by (simp add: example_range example_simps)

subsection \<open>A public prefix leaves the island\<close>

lemma aspath_of_number:
  "\<exists>as. aspath_str2aspath (dec_str n) = Some (Some as) \<and> segments as = [\<lparr>seg_type = AS_SEQUENCE, seg_as = [of_nat n]\<rparr>]"
proof -
  have "str2aspath_loop (dec_str n) aspath_new AS_SEQUENCE True =
      Some (aspath_as_add (aspath_segment_add aspath_new AS_SEQUENCE) (of_nat n))"
    using loop_token [OF gettoken_dec [of "[]" n]] by (simp add: loop_end)
  then show ?thesis
    by (simp add: aspath_str2aspath_def make_str_count_eq with_str_def aspath_as_add_def aspath_segment_add_def
        aspath_new_def assegment_new_def assegment_append_asns_def)
qed

lemma fresh_control_info:
  assumes "GetProtocolType (general_configuration d) \<noteq> dbgp_protocol_benchmark" "attr_transit a = None"
  shows "GetControlInformation L a d = Some (\<lparr>sentinel = 0, integrated_advertisement = ''''\<rparr>, bgp_attr_extra_transit_new 4, True,
    a\<lparr>extra := Some ((fst (bgp_attr_extra_get a))\<lparr>transit := Some (bgp_attr_extra_transit_new 4)\<rparr>)\<rparr>, d)"
  using assms by (auto simp: GetControlInformation_def GetControlInformation2_def bgp_attr_extra_transit_get_def Let_def
      bgp_attr_extra_get_def attr_transit_def bgp_attr_extra_new_def split: option.splits)

lemma fresh_transit [simp]:
  "t_val (bgp_attr_extra_transit_new 4) = Some [0, 0, 0, 0]" "is_lookup_service_path (bgp_attr_extra_transit_new 4) = Some False"
proof -
  have "replicate 4 0 = [0, 0, 0, 0 :: u8]" by (simp add: numeral_eq_Suc)
  then show "t_val (bgp_attr_extra_transit_new 4) = Some [0, 0, 0, 0]"
    "is_lookup_service_path (bgp_attr_extra_transit_new 4) = Some False"
    by (simp_all add: bgp_attr_extra_transit_new_def is_lookup_service_path_def host_key_def get32_def DBGP_LOOKUP_SVC_PATH_def)
qed

text \<open>What a router stores for an attribute without control information, the next router retrieves.\<close>

lemma stored_then_retrieved:
  assumes "redis_ok (l_env L)" "rand_ok (l_env L)" "connected (l_env L) (world d)"
    and "CHR 0x00 \<notin> set (integrated_advertisement ci)" "l_beyond L = CHR 0x00 # rest" "extra a = Some x"
    and "GetProtocolType (general_configuration e) \<noteq> dbgp_protocol_benchmark"
  shows "\<exists>t w' w''. set_control_info (l_env L) (l_beyond L) (bgp_attr_extra_transit_new 4) ci (world d) = Some (t, w') \<and>
    GetControlInformation L (a\<lparr>extra := Some (x\<lparr>transit := Some t\<rparr>)\<rparr>) (e\<lparr>world := w'\<rparr>) =
      Some (\<lparr>sentinel = 0, integrated_advertisement = integrated_advertisement ci\<rparr>, t, True,
        a\<lparr>extra := Some (x\<lparr>transit := Some t\<rparr>)\<rparr>, e\<lparr>world := w''\<rparr>)"
proof -
  have "takeWhile (\<lambda>c. c \<noteq> CHR 0x00) (integrated_advertisement ci @ CHR 0x00 # rest) = integrated_advertisement ci"
    using assms(4) by (auto simp: takeWhile_append)
  then obtain t w' w'' where "set_control_info (l_env L) (l_beyond L) (bgp_attr_extra_transit_new 4) ci (world d) = Some (t, w')"
      "has_dbgp_control_info (Some t)"
      "retrieve_control_info (l_env L) t w' = Some (\<lparr>sentinel = 0, integrated_advertisement = integrated_advertisement ci\<rparr>, w'')"
    using stored_info_found [OF assms(1-3), of "bgp_attr_extra_transit_new 4" ci "l_beyond L"] assms(5) by auto
  then show ?thesis
    using assms(7) by (auto simp: GetControlInformation_def GetControlInformation2_def attr_transit_def has_dbgp_control_info_def)
qed

subsection \<open>A one hop pathlet\<close>

lemma unat_low_byte: "unat (w AND 255) = unat (ucast (w :: u32) :: u8)"
proof -
  have "w AND 255 = take_bit 8 w" using take_bit_eq_mask [of 8 w] by (simp add: mask_eq_exp_minus_1)
  then show ?thesis by (simp add: unsigned_take_bit_eq unsigned_ucast_eq)
qed

lemma dotted_put32: "dotted w = inet_ntoa (put32 w)"
proof -
  have "take_bit 8 (drop_bit 24 w) = drop_bit 24 w"
    by (rule bit_word_eqI) (auto simp: bit_simps dest: bit_imp_le_length)
  then have "unat (ucast (drop_bit 24 w) :: u8) = unat (drop_bit 24 w)"
    by (simp add: unsigned_ucast_eq unsigned_take_bit_eq [symmetric])
  then show ?thesis by (simp add: dotted_def inet_ntoa_def put32_def unat_low_byte)
qed

lemma no_slash: "length bs = 4 \<Longrightarrow> CHR ''/'' \<notin> set (inet_ntoa bs)"
proof (erule four_bytes_cases)
  fix a b c d assume "bs = [a, b, c, d]"
  then show ?thesis using dec_str_digits [of "CHR ''/''"] by (auto simp: inet_ntoa_def isdigit_def)
qed

lemma announce_text_prefix:
  assumes "inet_ok L"
  shows "str2prefix (l_aton L) (l_pton6 L) (announce_text (dotted w)) prefix_new =
    (True, \<lparr>family = AF_INET, prefixlen = 32, u = put32 w @ replicate 12 0\<rparr>)"
proof -
  have "dec_str 32 = ''32''" by code_simp
  then have "announce_text (dotted w) = inet_ntoa (put32 w) @ ''/'' @ dec_str 32"
    using length_inet_ntoa [of "put32 w"] by (simp add: announce_text_def dotted_put32)
  moreover have "l_aton L (inet_ntoa (put32 w)) = Some (put32 w)" using assms by (simp add: inet_ok_def)
  ultimately show ?thesis
    using str2prefix_ipv4_text [OF no_slash [of "put32 w"], of "l_aton L" "put32 w" 32 prefix_new]
    by (simp add: str2prefix_def prefix_new_def write_at_def)
qed

text \<open>The address of a new pathlet is announced, and its advertisement carries the pathlet.\<close>

lemma sent_pathlet_in_advert:
  assumes "codec_ok pb" "map_of (ip_to_pathlet_to_send st) ip = Some p" "p \<noteq> empty_pathlet"
  shows "\<exists>s'. GenerateInternalPathletControlInfo pb st s ip island = Some (Some s', st) \<and>
    (\<forall>st'. MergePathletInformationIntoGraph pb st' s' island = insert_all st' [p])"
proof -
  obtain m' where "update_hop_descriptor (parse_advert pb s) P_PATHLETS (of_int island) ''PathletGraph'' (ser_pathlets pb [p]) = Some m'"
      "\<forall>st'. MergePathletInformationIntoGraph pb st' (ser_advert pb m') island = insert_all st' [p]"
    using put_pathlets_merged [OF assms(1), of s island "[p]"] by blast
  then show ?thesis
    using assms
    by (intro exI [of _ "ser_advert pb m'"]) (auto simp: GenerateInternalPathletControlInfo_def GetPathletToSend_def codec_ok_def Let_def)
qed

lemma insert_keeps_to_send: "InsertPathletIntoGraph st p = Some st' \<Longrightarrow> ip_to_pathlet_to_send st' = ip_to_pathlet_to_send st"
  by (auto simp: InsertPathletIntoGraph_def bind_eq_Some_conv Let_def case_prod_beta)

lemma insert_to_send:
  assumes "graph_ok (pathlet_graph st)" "vnode p 0 \<noteq> None" "vnode p 1 \<noteq> None"
  shows "\<exists>st'. InsertPathletToSend st ip p = Some st' \<and> graph_ok (pathlet_graph st') \<and> map_of (ip_to_pathlet_to_send st') ip = Some p \<and>
    edge_map (pathlet_graph st') = (edge_map (pathlet_graph st))(edge_key p \<mapsto> p)"
proof -
  let ?st = "st\<lparr>ip_to_pathlet_to_send := AList.update ip p (ip_to_pathlet_to_send st)\<rparr>"
  obtain st' where "InsertPathletIntoGraph ?st p = Some st'" "graph_ok (pathlet_graph st')"
      "edge_map (pathlet_graph st') = (edge_map (pathlet_graph st))(edge_key p \<mapsto> p)"
    using insert_ok [of ?st p] assms by auto
  then show ?thesis using insert_keeps_to_send [of ?st p st'] by (simp add: InsertPathletToSend_def update_conv')
qed

abbreviation one_hop_pathlet :: "'w lib \<Rightarrow> peer \<Rightarrow> prefix \<Rightarrow> 'w daemon \<Rightarrow> pathlet" where
  "one_hop_pathlet L p pfx d \<equiv>
     \<lparr>fid = next_fid (pathlet_state d), vnodes = [bgp_as (peer_bgp p), peer_as p], destination = prefix2str (l_ntop L) pfx 256,
      path_vector = [], is_two_hop = 0\<rparr>"

abbreviation new_address :: "'w daemon \<Rightarrow> prefix" where
  "new_address d \<equiv> \<lparr>family = AF_INET, prefixlen = 32, u = put32 (next_ip (pathlet_state d)) @ replicate 12 0\<rparr>"

text \<open>The state in which a pathlet for an address waits to be announced.\<close>

definition pathlet_ready :: "'w daemon \<Rightarrow> prefix \<Rightarrow> pathlet \<Rightarrow> 'w daemon \<Rightarrow> bool" where
  "pathlet_ready d q pl d' \<longleftrightarrow> graph_ok (pathlet_graph (pathlet_state d')) \<and>
     map_of (ip_to_pathlet_to_send (pathlet_state d')) (inet_ntoa (take 4 (u q))) = Some pl \<and>
     edge_map (pathlet_graph (pathlet_state d')) = (edge_map (pathlet_graph (pathlet_state d)))(edge_key pl \<mapsto> pl) \<and>
     pathlet_config d' = pathlet_config d \<and> general_configuration d' = general_configuration d \<and> world d' = world d"

lemma one_hop_created:
  assumes "private_range L d = Some r" "4 \<le> length (u pfx)" "take 2 (u pfx) \<noteq> r" "island_member d p"
    and "aspath_size_custom (as_path a) = 1" "inet_ok L" "sint (next_fid (pathlet_state d)) < 2 ^ 31 - 1"
    and "graph_ok (pathlet_graph (pathlet_state d))"
  shows "\<exists>d'. new_pathlets_input_filter L ci a p pfx d = Some (DBGP_NOT_FILTERED, d') \<and>
    announced d' = announced d @ [(peer_bgp p, new_address d)] \<and> pathlet_ready d (new_address d) (one_hop_pathlet L p pfx d) d'"
proof -
  let ?st = "(pathlet_state d)\<lparr>next_ip := next_ip (pathlet_state d) + 1, next_fid := next_fid (pathlet_state d) + 1\<rparr>"
  let ?p = "one_hop_pathlet L p pfx d" and ?ip = "dotted (next_ip (pathlet_state d))"
  obtain st' where st': "InsertPathletToSend ?st ?ip ?p = Some st'" "graph_ok (pathlet_graph st')"
      "map_of (ip_to_pathlet_to_send st') ?ip = Some ?p"
      "edge_map (pathlet_graph st') = (edge_map (pathlet_graph (pathlet_state d)))(edge_key ?p \<mapsto> ?p)"
    using insert_to_send [of ?st ?p ?ip] assms(8) by (auto simp: vnode_def)
  have "new_pathlets_input_filter L ci a p pfx d =
      Some (DBGP_NOT_FILTERED, d\<lparr>pathlet_state := st', announced := announced d @ [(peer_bgp p, new_address d)]\<rparr>)"
    using assms st'(1) private_range_eqs(1) [OF assms(1,2)]
    by (simp add: new_pathlets_input_filter_def GetNextIp_def GetNextFid_def InsertNewPathletToSend_def zassert_def
        AnnounceStaticRoute_def announce_text_prefix [OF assms(6)])
  then show ?thesis using st'(2-4) by (simp add: pathlet_ready_def dotted_put32)
qed

lemma originated_update:
  assumes ready: "pathlet_ready d q pl d'" and pl: "pl \<noteq> empty_pathlet" "vnode pl 0 \<noteq> None" "vnode pl 1 \<noteq> None"
    and addr: "private_range L d = Some r" "4 \<le> length (u q)" "inet_ok L"
      "l_pton L (private_slash24_ip (pathlet_config d)) = Some ip" "take 3 (u q) = take 3 ip"
    and "codec_ok (l_pb L)"
  shows "\<exists>s d''. (\<forall>st. MergePathletInformationIntoGraph (l_pb L) st s (island_id b) = insert_all st [pl]) \<and> world d'' = world d \<and>
    new_pathlets_update_control_info_bgpstruct L \<lparr>sentinel = 0, integrated_advertisement = ''''\<rparr> b a q d' =
      Some (\<lparr>sentinel = 0, integrated_advertisement = s\<rparr>, d'')"
proof -
  let ?ip = "inet_ntoa (take 4 (u q))"
  have r: "r = take 2 ip" "length ip = 4" "length (private_slash24_ip (pathlet_config d)) < 16"
    using addr(1,4) by (auto simp: private_range_def split: if_splits)
  have "take 2 (u q) = take 2 (take 3 (u q))" by simp
  also have "\<dots> = r" by (simp add: addr(5) r(1))
  finally have "IsPublicPrefix L q d' = Some False"
    using private_range_eqs(1) [of L d' r q] addr(1,2) ready by (simp add: pathlet_ready_def private_range_def)
  moreover obtain s where s: "GenerateInternalPathletControlInfo (l_pb L) (pathlet_state d') '''' ?ip (island_id b) = Some (Some s, pathlet_state d')"
      "\<forall>st. MergePathletInformationIntoGraph (l_pb L) st s (island_id b) = insert_all st [pl]"
    using sent_pathlet_in_advert [OF assms(10), of "pathlet_state d'" ?ip pl "''''" "island_id b"] ready pl(1) by (auto simp: pathlet_ready_def)
  moreover have "IpInSameSubnet L ?ip (private_slash24_ip (pathlet_config d)) CLASS_C_NETMASK = Some True"
    using addr r(2) by (simp add: IpInSameSubnet_def inet_ok_def same_class_c min_def)
  moreover obtain st where "insert_all (pathlet_state d') [pl] = Some st"
    using insert_all_ok [of "pathlet_state d'" "[pl]"] ready pl(2,3) by (auto simp: pathlet_ready_def)
  ultimately show ?thesis
    using ready r(3) s(2) by (intro exI [of _ s])
      (auto simp: new_pathlets_update_control_info_bgpstruct_def originate_pathlet_def merge_pathlets_def AddAssociatedPathlet_def
        GetPrivateIp_def zassert_def pathlet_ready_def)
qed



end
