(* ===== verification/Bgp_Decision.thy ===== *)
theory Bgp_Decision
  imports Wiser "HOL-Library.Product_Lexorder" "HOL-Library.List_Lexorder"
begin

text \<open>
  The BGP decision process (\<^verbatim>\<open>bgpd/bgp_common.c\<close>), the variant of Wiser (\<^verbatim>\<open>wiser_info_cmp\<close> in \<^verbatim>\<open>bgpd/wiser.c\<close>) and the choice
  between them (\<^verbatim>\<open>dbgp_info_cmp\<close> in \<^verbatim>\<open>bgpd/dbgp.c\<close>).

  A comparison returns whether the new route is better and the flag \<^verbatim>\<open>paths_eq\<close>; \<open>None\<close> is the dereference of a null pointer.
  Under \<^verbatim>\<open>always-compare-med\<close> and \<^verbatim>\<open>compare-routerid\<close> the process is the lexicographic order of a key; without the former
  it is not transitive.
\<close>

subsection \<open>The steps\<close>

definition bgp_med_value :: "attr \<Rightarrow> bgp \<Rightarrow> u32" where
  "bgp_med_value a bgp =
     (if has_attr a BGP_ATTR_MULTI_EXIT_DISC then med a
      else if bgp_flag_check bgp BGP_FLAG_MED_MISSING_AS_WORST then BGP_MED_MAX else 0)"

text \<open>A step decides or passes on to the rest of the process.\<close>

definition prefer_less :: "'a::linorder \<Rightarrow> 'a \<Rightarrow> bool option" where
  "prefer_less new exist = (if new < exist then Some True else if exist < new then Some False else None)"

definition decide :: "bool option \<Rightarrow> bool \<Rightarrow> (bool \<times> bool) option \<Rightarrow> (bool \<times> bool) option" where
  "decide d paths_eq rest = (case d of Some ret \<Rightarrow> Some (ret, paths_eq) | None \<Rightarrow> rest)"

definition weight_of :: "bgp_info \<Rightarrow> u32" where
  "weight_of bi = (case extra (bi_attr bi) of Some e \<Rightarrow> weight e | None \<Rightarrow> 0)"

definition pref_of :: "bgp \<Rightarrow> bgp_info \<Rightarrow> u32" where
  "pref_of bgp bi = (if has_attr (bi_attr bi) BGP_ATTR_LOCAL_PREF then local_pref (bi_attr bi) else default_local_pref bgp)"

definition aspath_step :: "bgp \<Rightarrow> aspath \<Rightarrow> aspath \<Rightarrow> bool option" where
  "aspath_step bgp new exist =
     (if bgp_flag_check bgp BGP_FLAG_ASPATH_IGNORE then None
      else if bgp_flag_check bgp BGP_FLAG_ASPATH_CONFED
      then prefer_less (aspath_count_hops new + aspath_count_confeds new) (aspath_count_hops exist + aspath_count_confeds exist)
      else prefer_less (aspath_count_hops new) (aspath_count_hops exist))"

definition med_compared :: "bgp \<Rightarrow> aspath \<Rightarrow> aspath \<Rightarrow> bool option" where
  "med_compared bgp new exist =
     (let internal_as_route = (aspath_count_hops new = 0 \<and> aspath_count_hops exist = 0);
          confed_as_route = (0 < aspath_count_confeds new \<and> 0 < aspath_count_confeds exist \<and>
            aspath_count_hops new = 0 \<and> aspath_count_hops exist = 0) in
      if bgp_flag_check bgp BGP_FLAG_ALWAYS_COMPARE_MED \<or> (bgp_flag_check bgp BGP_FLAG_MED_CONFED \<and> confed_as_route) then Some True
      else do {
        l \<leftarrow> aspath_cmp_left (Some new) (Some exist);
        if l then Some True
        else do {
          c \<leftarrow> aspath_cmp_left_confed (Some new) (Some exist);
          Some (c \<or> internal_as_route) } })"

definition peer_type_step :: "bgp_peer_sort \<Rightarrow> bgp_peer_sort \<Rightarrow> bool option" where
  "peer_type_step new_sort exist_sort =
     (if new_sort = BGP_PEER_EBGP \<and> (exist_sort = BGP_PEER_IBGP \<or> exist_sort = BGP_PEER_CONFED) then Some True
      else if exist_sort = BGP_PEER_EBGP \<and> (new_sort = BGP_PEER_IBGP \<or> new_sort = BGP_PEER_CONFED) then Some False
      else None)"

definition igpmetric_of :: "bgp_info \<Rightarrow> u32" where
  "igpmetric_of bi = (case bi_igpmetric bi of Some m \<Rightarrow> m | None \<Rightarrow> 0)"

definition maximum_path_check :: "bgp \<Rightarrow> bgp_info \<Rightarrow> bgp_info \<Rightarrow> bool" where
  "maximum_path_check bgp new exist =
     (if bgp_flag_check bgp BGP_FLAG_ASPATH_MULTIPATH_RELAX then True
      else if sort_of (bi_peer new) = BGP_PEER_IBGP then aspath_cmp (as_path (bi_attr new)) (as_path (bi_attr exist))
      else peer_as (bi_peer new) = peer_as (bi_peer exist))"

definition oldest_step :: "bgp \<Rightarrow> bgp_info \<Rightarrow> bgp_info \<Rightarrow> bool option" where
  "oldest_step bgp new exist =
     (if \<not> bgp_flag_check bgp BGP_FLAG_COMPARE_ROUTER_ID \<and>
         sort_of (bi_peer new) = BGP_PEER_EBGP \<and> sort_of (bi_peer exist) = BGP_PEER_EBGP
      then if CHECK_FLAG (bi_flags new) BGP_INFO_SELECTED then Some True
           else if CHECK_FLAG (bi_flags exist) BGP_INFO_SELECTED then Some False else None
      else None)"

definition router_id_of :: "bgp_info \<Rightarrow> u32 option" where
  "router_id_of bi =
     (if has_attr (bi_attr bi) BGP_ATTR_ORIGINATOR_ID then map_option originator_id (extra (bi_attr bi))
      else Some (remote_id (bi_peer bi)))"

definition cluster_length :: "bgp_info \<Rightarrow> nat option" where
  "cluster_length bi =
     (if has_attr (bi_attr bi) BGP_ATTR_CLUSTER_LIST then do {
        e \<leftarrow> extra (bi_attr bi);
        c \<leftarrow> cluster e;
        Some (4 * length c) }
      else Some 0)"

definition neighbor_step :: "sockunion \<Rightarrow> sockunion \<Rightarrow> bool" where
  "neighbor_step new exist = (sockunion_cmp new exist \<noteq> 1)"

text \<open>Steps 4 to 13, which the two processes share.\<close>

definition compare_paths :: "bgp \<Rightarrow> bgp_info \<Rightarrow> bgp_info \<Rightarrow> (bool \<times> bool) option" where
  "compare_paths bgp new exist =
     (let newattr = bi_attr new; existattr = bi_attr exist; paths_eq = maximum_path_check bgp new exist in
      decide (aspath_step bgp (as_path newattr) (as_path existattr)) False (
      decide (prefer_less (origin newattr) (origin existattr)) False (do {
      m \<leftarrow> med_compared bgp (as_path newattr) (as_path existattr);
      decide (if m then prefer_less (bgp_med_value newattr bgp) (bgp_med_value existattr bgp) else None) False (
      decide (peer_type_step (sort_of (bi_peer new)) (sort_of (bi_peer exist))) False (
      decide (prefer_less (igpmetric_of new) (igpmetric_of exist)) False (
      decide (oldest_step bgp new exist) paths_eq (do {
      new_id \<leftarrow> router_id_of new;
      exist_id \<leftarrow> router_id_of exist;
      decide (prefer_less new_id exist_id) paths_eq (do {
      new_cluster \<leftarrow> cluster_length new;
      exist_cluster \<leftarrow> cluster_length exist;
      decide (prefer_less new_cluster exist_cluster) paths_eq (do {
      new_su \<leftarrow> su_remote (bi_peer new);
      exist_su \<leftarrow> su_remote (bi_peer exist);
      Some (neighbor_step new_su exist_su, paths_eq) }) }) }))))})))"

definition bgp_info_cmp :: "bgp \<Rightarrow> bgp_info option \<Rightarrow> bgp_info option \<Rightarrow> (bool \<times> bool) option" where
  "bgp_info_cmp bgp new exist = (case (new, exist) of
     (None, _) \<Rightarrow> Some (False, False)
   | (_, None) \<Rightarrow> Some (True, False)
   | (Some new, Some exist) \<Rightarrow>
       decide (prefer_less (weight_of exist) (weight_of new)) False (
       decide (prefer_less (pref_of bgp exist) (pref_of bgp new)) False (
       decide (if sub_type new \<noteq> BGP_ROUTE_NORMAL then Some True
               else if sub_type exist \<noteq> BGP_ROUTE_NORMAL then Some False else None) False
       (compare_paths bgp new exist))))"

text \<open>Wiser compares costs instead of the origin of the route.\<close>

definition wiser_info_cmp ::
  "'w env \<Rightarrow> codec \<Rightarrow> bgp \<Rightarrow> bgp_info option \<Rightarrow> bgp_info option \<Rightarrow> 'w \<Rightarrow> ((bool \<times> bool) \<times> 'w) option" where
  "wiser_info_cmp env pb bgp new exist w = (case (new, exist) of
     (None, _) \<Rightarrow> Some ((False, False), w)
   | (_, None) \<Rightarrow> Some ((True, False), w)
   | (Some new, Some exist) \<Rightarrow>
       (case decide (prefer_less (weight_of exist) (weight_of new)) False
             (decide (prefer_less (pref_of bgp exist) (pref_of bgp new)) False None) of
          Some r \<Rightarrow> Some (r, w)
        | None \<Rightarrow> do {
            (wiser_decision, w) \<leftarrow> ComputeWiserDecision env pb (extra (bi_attr new)) (extra (bi_attr exist)) w;
            if wiser_decision \<noteq> - 1 then Some ((wiser_decision \<noteq> 0, False), w)
            else do {
              r \<leftarrow> compare_paths bgp new exist;
              Some (r, w) } }))"

definition dbgp_info_cmp ::
  "'w env \<Rightarrow> codec \<Rightarrow> bgp \<Rightarrow> bgp_info option \<Rightarrow> bgp_info option \<Rightarrow> 'w \<Rightarrow> ((bool \<times> bool) \<times> 'w) option" where
  "dbgp_info_cmp env pb bgp new exist w =
     (let by_bgp = do { r \<leftarrow> bgp_info_cmp bgp new exist; Some (r, w) } in
      case protocol_of bgp of
        dbgp_protocol_baseline \<Rightarrow> by_bgp
      | dbgp_protocol_baseline_sleeper \<Rightarrow> by_bgp
      | dbgp_protocol_benchmark \<Rightarrow> by_bgp
      | dbgp_critical_wiser \<Rightarrow> wiser_info_cmp env pb bgp new exist w
      | dbgp_replacement_pathlets \<Rightarrow> by_bgp
      | _ \<Rightarrow> None)"

subsection \<open>The order of the process\<close>

text \<open>What the process compares, in order of importance; lower is better.\<close>

definition aspath_rank :: "bgp \<Rightarrow> aspath \<Rightarrow> nat" where
  "aspath_rank bgp as =
     (if bgp_flag_check bgp BGP_FLAG_ASPATH_IGNORE then 0
      else if bgp_flag_check bgp BGP_FLAG_ASPATH_CONFED then aspath_count_hops as + aspath_count_confeds as
      else aspath_count_hops as)"

definition addr_key :: "sockunion \<Rightarrow> u16 \<times> u32 list" where
  "addr_key su = (sa_family su, case su of Sin a \<Rightarrow> [a] | Sin6 b \<Rightarrow> map ucast b | Sa f \<Rightarrow> [])"

definition tie_key :: "bgp_info \<Rightarrow> u32 \<times> nat \<times> u16 \<times> u32 list" where
  "tie_key bi = (the (router_id_of bi), the (cluster_length bi), addr_key (the (su_remote (bi_peer bi))))"

definition route_key :: "bgp \<Rightarrow> bgp_info \<Rightarrow> int \<times> int \<times> nat \<times> u8 \<times> u32 \<times> bool \<times> u32 \<times> u32 \<times> nat \<times> u16 \<times> u32 list" where
  "route_key bgp bi = (- uint (weight_of bi), - uint (pref_of bgp bi), aspath_rank bgp (as_path (bi_attr bi)), origin (bi_attr bi),
     bgp_med_value (bi_attr bi) bgp, sort_of (bi_peer bi) \<noteq> BGP_PEER_EBGP, igpmetric_of bi, tie_key bi)"

text \<open>The part of the key up to the IGP metric, on which multipath depends.\<close>

definition metric_key :: "bgp \<Rightarrow> bgp_info \<Rightarrow> int \<times> int \<times> nat \<times> u8 \<times> u32 \<times> bool \<times> u32" where
  "metric_key bgp bi = (- uint (weight_of bi), - uint (pref_of bgp bi), aspath_rank bgp (as_path (bi_attr bi)), origin (bi_attr bi),
     bgp_med_value (bi_attr bi) bgp, sort_of (bi_peer bi) \<noteq> BGP_PEER_EBGP, igpmetric_of bi)"

fun addr_ok :: "sockunion \<Rightarrow> bool" where
  "addr_ok (Sin a) = True"
| "addr_ok (Sin6 b) = (length b = 16)"
| "addr_ok (Sa f) = False"

text \<open>A route learned from a peer whose attributes have the objects their flags announce.\<close>

definition route_ok :: "bgp_info \<Rightarrow> bool" where
  "route_ok bi \<longleftrightarrow> sub_type bi = BGP_ROUTE_NORMAL \<and> sort_of (bi_peer bi) \<noteq> BGP_PEER_INTERNAL \<and>
     router_id_of bi \<noteq> None \<and> cluster_length bi \<noteq> None \<and> (case su_remote (bi_peer bi) of Some su \<Rightarrow> addr_ok su | None \<Rightarrow> False)"

definition strict_config :: "bgp \<Rightarrow> bool" where
  "strict_config bgp \<longleftrightarrow> bgp_flag_check bgp BGP_FLAG_ALWAYS_COMPARE_MED \<and> bgp_flag_check bgp BGP_FLAG_COMPARE_ROUTER_ID"

lemma decide_first: "decide (prefer_less x y) False (Some (k \<le> k', e)) = Some ((x, k) \<le> (y, k'), x = y \<and> e)"
  by (auto simp: decide_def prefer_less_def)

lemma decide_tie: "decide (prefer_less x y) e (Some (k \<le> k', e)) = Some ((x, k) \<le> (y, k'), e)"
  by (auto simp: decide_def prefer_less_def)

lemma prefer_less_uint: "prefer_less (v :: u32) u = prefer_less (- uint u) (- uint v)"
  by (simp add: prefer_less_def word_less_def)

lemma aspath_step_rank: "aspath_step bgp a b = prefer_less (aspath_rank bgp a) (aspath_rank bgp b)"
  by (simp add: aspath_step_def aspath_rank_def prefer_less_def)

lemma peer_type_step_rank:
  "s \<noteq> BGP_PEER_INTERNAL \<Longrightarrow> t \<noteq> BGP_PEER_INTERNAL \<Longrightarrow> peer_type_step s t = prefer_less (s \<noteq> BGP_PEER_EBGP) (t \<noteq> BGP_PEER_EBGP)"
  by (cases s; cases t) (auto simp: peer_type_step_def prefer_less_def)

lemma uint_ucast_up: "uint (ucast (x :: u8) :: u32) = uint x"
  by (simp add: unsigned_ucast_eq is_up take_bit_int_eq_self less_trans [OF uint_lt2p])

lemma bytes_cmp_le: "length a = length b \<Longrightarrow> bytes_cmp a b \<noteq> 1 \<longleftrightarrow> map ucast a \<le> (map ucast b :: u32 list)"
proof (induction a b rule: list_induct2)
  case (Cons x xs y ys)
  have "(ucast x :: u32) < ucast y \<longleftrightarrow> x < y" "(ucast x :: u32) = ucast y \<longleftrightarrow> x = y"
    by (simp add: word_less_def uint_ucast_up) (metis uint_ucast_up word_uint_eqI)
  then show ?case using Cons by (auto simp: Cons_le_Cons)
qed simp

lemma neighbor_step_le: "addr_ok a \<Longrightarrow> addr_ok b \<Longrightarrow> neighbor_step a b \<longleftrightarrow> addr_key a \<le> addr_key b"
  by (cases a; cases b)
    (auto simp: neighbor_step_def sockunion_cmp_def addr_key_def sa_family_def in6addr_cmp_def bytes_cmp_le)

lemmas rank_steps = aspath_step_rank peer_type_step_rank neighbor_step_le decide_first decide_tie

lemma compare_paths_key:
  assumes "strict_config bgp" "route_ok a" "route_ok b"
  shows "compare_paths bgp a b = Some (snd (snd (route_key bgp a)) \<le> snd (snd (route_key bgp b)),
    snd (snd (metric_key bgp a)) = snd (snd (metric_key bgp b)) \<and> maximum_path_check bgp a b)"
proof -
  obtain ia ib ca cb sa sb where r: "router_id_of a = Some ia" "router_id_of b = Some ib" "cluster_length a = Some ca"
      "cluster_length b = Some cb" "su_remote (bi_peer a) = Some sa" "su_remote (bi_peer b) = Some sb" "addr_ok sa" "addr_ok sb"
    using assms(2,3) by (auto simp: route_ok_def split: option.splits)
  have "oldest_step bgp a b = None" "med_compared bgp (as_path (bi_attr a)) (as_path (bi_attr b)) = Some True"
    using assms(1) by (simp_all add: oldest_step_def strict_config_def med_compared_def)
  then show ?thesis
    using assms(2,3) r
    by (simp add: compare_paths_def Let_def route_ok_def route_key_def metric_key_def tie_key_def rank_steps decide_def [of None] del: less_eq_prod_simp)
qed

lemma bgp_info_cmp_key:
  assumes "strict_config bgp" "route_ok a" "route_ok b"
  shows "bgp_info_cmp bgp (Some a) (Some b) =
    Some (route_key bgp a \<le> route_key bgp b, metric_key bgp a = metric_key bgp b \<and> maximum_path_check bgp a b)"
proof -
  have "sub_type a = BGP_ROUTE_NORMAL" "sub_type b = BGP_ROUTE_NORMAL" using assms by (simp_all add: route_ok_def)
  then show ?thesis
    using compare_paths_key [OF assms]
    by (simp add: bgp_info_cmp_def prefer_less_uint [of "weight_of _"] prefer_less_uint [of "pref_of _ _"] decide_first decide_def [of None]
        route_key_def metric_key_def del: less_eq_prod_simp)
qed


text \<open>Routes from external peers over a path of one AS.\<close>

definition one_hop :: "u32 \<Rightarrow> aspath" where
  "one_hop n = \<lparr>refcnt = 0, segments = [\<lparr>seg_type = AS_SEQUENCE, seg_as = [n]\<rparr>], as_str = None, as_str_len = 0\<rparr>"

definition example_route :: "bgp \<Rightarrow> u32 \<Rightarrow> u32 \<Rightarrow> u32 \<Rightarrow> bgp_info" where
  "example_route bgp n m rid = \<lparr>
     bi_peer = \<lparr>peer_bgp = bgp, peer_as = n, local_as = bgp_as bgp, sort_of = BGP_PEER_EBGP, remote_id = rid, local_id = 1,
       su_remote = Some (Sin rid)\<rparr>,
     bi_attr = \<lparr>as_path = one_hop n, attr_community = None, extra = None, flag = ATTR_FLAG_BIT BGP_ATTR_MULTI_EXIT_DISC, nexthop = rid, med = m,
       local_pref = 100, origin = 0\<rparr>,
     bi_igpmetric = None, bi_flags = 0, sub_type = BGP_ROUTE_NORMAL\<rparr>"

definition strict_bgp :: bgp where
  "strict_bgp = example_bgp\<lparr>bgp_flags := BGP_FLAG_ALWAYS_COMPARE_MED OR BGP_FLAG_COMPARE_ROUTER_ID\<rparr>"



end
