(* ===== verification/Bgp_Mpath.thy ===== *)
theory Bgp_Mpath
  imports Bgp_Decision
begin

text \<open>
  The multipath set of a best route (\<^verbatim>\<open>bgpd/bgp_mpath.c\<close>) at the level of its pointers, and its refinement of lists.

  Routes live in a store of addresses.  A route owns at most one \<^verbatim>\<open>struct bgp_info_mpath\<close>, so the pointers \<^verbatim>\<open>mp_next\<close> and \<^verbatim>\<open>mp_prev\<close>
  are the addresses of the owners (the field \<^verbatim>\<open>mp_info\<close>); the dereference of an address or a structure that is not there is \<open>None\<close>.
  The routes of a node, which \<^verbatim>\<open>next\<close> and \<^verbatim>\<open>prev\<close> chain, are the list of their addresses.  Peers have addresses as well, for
  their counters.  Debugging output is left out.
\<close>

subsection \<open>Routes\<close>

record bgp_info_mpath =
  mp_next :: "nat option"
  mp_prev :: "nat option"
  mp_count :: u32
  mp_attr :: "attr option"

record rib_route =
  ri :: bgp_info
  ri_lock :: int
  ri_peer :: nat
  ri_mpath :: "bgp_info_mpath option"

record rib =
  rn_info :: "nat \<Rightarrow> nat list"
  rn_lock :: "nat \<Rightarrow> nat"
  routes :: "nat \<Rightarrow> rib_route option"
  pcount :: "nat \<Rightarrow> u64"
  peer_locks :: "nat \<Rightarrow> int"
  table_main :: bool
  peer_self :: nat

definition update_route :: "nat \<Rightarrow> (rib_route \<Rightarrow> rib_route) \<Rightarrow> rib \<Rightarrow> rib option" where
  "update_route i f s = do { r \<leftarrow> routes s i; Some (s\<lparr>routes := (routes s)(i \<mapsto> f r)\<rparr>) }"

definition update_mpath :: "nat \<Rightarrow> (bgp_info_mpath \<Rightarrow> bgp_info_mpath) \<Rightarrow> rib \<Rightarrow> rib option" where
  "update_mpath i f s = do {
     r \<leftarrow> routes s i;
     m \<leftarrow> ri_mpath r;
     Some (s\<lparr>routes := (routes s)(i \<mapsto> r\<lparr>ri_mpath := Some (f m)\<rparr>)\<rparr>) }"

definition route_flags :: "rib_route \<Rightarrow> u16" where
  "route_flags r = bi_flags (ri r)"

definition with_flags :: "(u16 \<Rightarrow> u16) \<Rightarrow> rib_route \<Rightarrow> rib_route" where
  "with_flags f r = r\<lparr>ri := (ri r)\<lparr>bi_flags := f (route_flags r)\<rparr>\<rparr>"

abbreviation SET_FLAGS :: "u16 \<Rightarrow> nat \<Rightarrow> rib \<Rightarrow> rib option" where
  "SET_FLAGS f i \<equiv> update_route i (with_flags (\<lambda>v. SET_FLAG v f))"

abbreviation UNSET_FLAGS :: "u16 \<Rightarrow> nat \<Rightarrow> rib \<Rightarrow> rib option" where
  "UNSET_FLAGS f i \<equiv> update_route i (with_flags (\<lambda>v. UNSET_FLAG v f))"

subsection \<open>Configuration\<close>

abbreviation BGP_DEFAULT_MAXPATHS :: u16 where "BGP_DEFAULT_MAXPATHS \<equiv> 1"
abbreviation AFI_MAX :: nat where "AFI_MAX \<equiv> 3"
abbreviation SAFI_MAX :: nat where "SAFI_MAX \<equiv> 5"

definition bgp_maximum_paths_set :: "bgp option \<Rightarrow> nat \<Rightarrow> nat \<Rightarrow> bgp_peer_sort \<Rightarrow> u16 \<Rightarrow> int \<times> bgp option" where
  "bgp_maximum_paths_set bgp afi safi peertype n = (case bgp of
     None \<Rightarrow> (- 1, None)
   | Some b \<Rightarrow>
       if AFI_MAX \<le> afi \<or> SAFI_MAX \<le> safi then (- 1, bgp)
       else let put = (\<lambda>f. b\<lparr>maxpaths := (maxpaths b)[afi := (maxpaths b ! afi)[safi := f (maxpaths b ! afi ! safi)]]\<rparr>) in
         case peertype of
           BGP_PEER_IBGP \<Rightarrow> (0, Some (put (\<lambda>c. c\<lparr>maxpaths_ibgp := n\<rparr>)))
         | BGP_PEER_EBGP \<Rightarrow> (0, Some (put (\<lambda>c. c\<lparr>maxpaths_ebgp := n\<rparr>)))
         | _ \<Rightarrow> (- 1, bgp))"

definition bgp_maximum_paths_unset :: "bgp option \<Rightarrow> nat \<Rightarrow> nat \<Rightarrow> bgp_peer_sort \<Rightarrow> int \<times> bgp option" where
  "bgp_maximum_paths_unset bgp afi safi peertype = bgp_maximum_paths_set bgp afi safi peertype BGP_DEFAULT_MAXPATHS"

subsection \<open>The order of multipaths\<close>

text \<open>\<^verbatim>\<open>IPV4_ADDR_CMP\<close> and \<^verbatim>\<open>IPV6_ADDR_CMP\<close> compare bytes in network order.\<close>

definition addr4_cmp :: "u32 \<Rightarrow> u32 \<Rightarrow> int" where
  "addr4_cmp a b = (if a < b then - 1 else if b < a then 1 else 0)"

definition bgp_info_nexthop_cmp :: "bgp_info \<Rightarrow> bgp_info \<Rightarrow> int" where
  "bgp_info_nexthop_cmp bi1 bi2 =
     (let compare = addr4_cmp (nexthop (bi_attr bi1)) (nexthop (bi_attr bi2)) in
      if compare \<noteq> 0 then compare
      else case (extra (bi_attr bi1), extra (bi_attr bi2)) of
        (Some ae1, Some ae2) \<Rightarrow>
          if mp_nexthop_len ae1 = mp_nexthop_len ae2 then
            if mp_nexthop_len ae1 = 4 \<or> mp_nexthop_len ae1 = 12 then addr4_cmp (mp_nexthop_global_in ae1) (mp_nexthop_global_in ae2)
            else if mp_nexthop_len ae1 = 16 then in6addr_cmp (mp_nexthop_global ae1) (mp_nexthop_global ae2)
            else if mp_nexthop_len ae1 = 32 then
              let c = in6addr_cmp (mp_nexthop_global ae1) (mp_nexthop_global ae2) in
              if c = 0 then in6addr_cmp (mp_nexthop_local ae1) (mp_nexthop_local ae2) else c
            else compare
          else compare
      | _ \<Rightarrow> compare)"

definition bgp_info_mpath_cmp :: "bgp_info \<Rightarrow> bgp_info \<Rightarrow> int option" where
  "bgp_info_mpath_cmp bi1 bi2 =
     (let compare = bgp_info_nexthop_cmp bi1 bi2 in
      if compare \<noteq> 0 then Some compare
      else do {
        su1 \<leftarrow> su_remote (bi_peer bi1);
        su2 \<leftarrow> su_remote (bi_peer bi2);
        Some (sockunion_cmp su1 su2) })"

text \<open>The list of candidates is a sorted list of the library (\<^verbatim>\<open>listnode_add_sort\<close>): a candidate goes before the first one
  that it is less than.\<close>

fun bgp_mp_list_add :: "rib \<Rightarrow> nat list \<Rightarrow> nat \<Rightarrow> nat list option" where
  "bgp_mp_list_add s [] mpinfo = Some [mpinfo]"
| "bgp_mp_list_add s (x # xs) mpinfo = do {
     r \<leftarrow> routes s mpinfo;
     rx \<leftarrow> routes s x;
     c \<leftarrow> bgp_info_mpath_cmp (ri r) (ri rx);
     if c < 0 then Some (mpinfo # x # xs)
     else do { ys \<leftarrow> bgp_mp_list_add s xs mpinfo; Some (x # ys) } }"

subsection \<open>The linked list\<close>

definition bgp_info_mpath_new :: bgp_info_mpath where
  "bgp_info_mpath_new = \<lparr>mp_next = None, mp_prev = None, mp_count = 0, mp_attr = None\<rparr>"

definition bgp_info_mpath_get :: "nat \<Rightarrow> rib \<Rightarrow> (bgp_info_mpath \<times> rib) option" where
  "bgp_info_mpath_get binfo s = do {
     r \<leftarrow> routes s binfo;
     case ri_mpath r of
       Some m \<Rightarrow> Some (m, s)
     | None \<Rightarrow> Some (bgp_info_mpath_new, s\<lparr>routes := (routes s)(binfo \<mapsto> r\<lparr>ri_mpath := Some bgp_info_mpath_new\<rparr>)\<rparr>) }"

definition bgp_info_mpath_enqueue :: "nat \<Rightarrow> nat \<Rightarrow> rib \<Rightarrow> rib option" where
  "bgp_info_mpath_enqueue prev_info binfo s = do {
     (prev, s) \<leftarrow> bgp_info_mpath_get prev_info s;
     (mpath, s) \<leftarrow> bgp_info_mpath_get binfo s;
     s \<leftarrow> update_mpath binfo (\<lambda>m. m\<lparr>mp_next := mp_next prev, mp_prev := Some prev_info\<rparr>) s;
     (prev, s) \<leftarrow> bgp_info_mpath_get prev_info s;
     s \<leftarrow> (case mp_next prev of None \<Rightarrow> Some s | Some n \<Rightarrow> update_mpath n (\<lambda>m. m\<lparr>mp_prev := Some binfo\<rparr>) s);
     s \<leftarrow> update_mpath prev_info (\<lambda>m. m\<lparr>mp_next := Some binfo\<rparr>) s;
     SET_FLAGS BGP_INFO_MULTIPATH binfo s }"

definition bgp_info_mpath_dequeue :: "nat \<Rightarrow> rib \<Rightarrow> rib option" where
  "bgp_info_mpath_dequeue binfo s = do {
     r \<leftarrow> routes s binfo;
     case ri_mpath r of
       None \<Rightarrow> Some s
     | Some mpath \<Rightarrow> do {
         s \<leftarrow> (case mp_prev mpath of None \<Rightarrow> Some s | Some p \<Rightarrow> update_mpath p (\<lambda>m. m\<lparr>mp_next := mp_next mpath\<rparr>) s);
         (mpath, s) \<leftarrow> bgp_info_mpath_get binfo s;
         s \<leftarrow> (case mp_next mpath of None \<Rightarrow> Some s | Some n \<Rightarrow> update_mpath n (\<lambda>m. m\<lparr>mp_prev := mp_prev mpath\<rparr>) s);
         s \<leftarrow> update_mpath binfo (\<lambda>m. m\<lparr>mp_next := None, mp_prev := None\<rparr>) s;
         UNSET_FLAGS BGP_INFO_MULTIPATH binfo s } }"

definition bgp_info_mpath_next :: "nat \<Rightarrow> rib \<Rightarrow> nat option option" where
  "bgp_info_mpath_next binfo s = do {
     r \<leftarrow> routes s binfo;
     Some (case ri_mpath r of None \<Rightarrow> None | Some m \<Rightarrow> mp_next m) }"

definition bgp_info_mpath_first :: "nat \<Rightarrow> rib \<Rightarrow> nat option option" where
  "bgp_info_mpath_first = bgp_info_mpath_next"

definition bgp_info_mpath_count :: "nat \<Rightarrow> rib \<Rightarrow> u32 option" where
  "bgp_info_mpath_count binfo s = do {
     r \<leftarrow> routes s binfo;
     Some (case ri_mpath r of None \<Rightarrow> 0 | Some m \<Rightarrow> mp_count m) }"

definition bgp_info_mpath_count_set :: "nat \<Rightarrow> u32 \<Rightarrow> rib \<Rightarrow> rib option" where
  "bgp_info_mpath_count_set binfo n s = do {
     r \<leftarrow> routes s binfo;
     if n = 0 \<and> ri_mpath r = None then Some s
     else do {
       (_, s) \<leftarrow> bgp_info_mpath_get binfo s;
       update_mpath binfo (\<lambda>m. m\<lparr>mp_count := n\<rparr>) s } }"

definition bgp_info_mpath_attr :: "nat \<Rightarrow> rib \<Rightarrow> attr option option" where
  "bgp_info_mpath_attr binfo s = do {
     r \<leftarrow> routes s binfo;
     Some (case ri_mpath r of None \<Rightarrow> None | Some m \<Rightarrow> mp_attr m) }"

definition bgp_info_mpath_attr_set :: "nat \<Rightarrow> attr option \<Rightarrow> rib \<Rightarrow> rib option" where
  "bgp_info_mpath_attr_set binfo a s = do {
     r \<leftarrow> routes s binfo;
     if a = None \<and> ri_mpath r = None then Some s
     else do {
       (_, s) \<leftarrow> bgp_info_mpath_get binfo s;
       update_mpath binfo (\<lambda>m. m\<lparr>mp_attr := a\<rparr>) s } }"

subsection \<open>Synchronising the list with the candidates\<close>

definition nexthop_differs :: "nat option \<Rightarrow> nat \<Rightarrow> rib \<Rightarrow> bool option" where
  "nexthop_differs prev_mpath mpath s = do {
     p \<leftarrow> prev_mpath;
     r1 \<leftarrow> routes s p;
     r2 \<leftarrow> routes s mpath;
     Some (bgp_info_nexthop_cmp (ri r1) (ri r2) \<noteq> 0) }"

definition mpath_less :: "nat \<Rightarrow> nat \<Rightarrow> rib \<Rightarrow> bool option" where
  "mpath_less i j s = do {
     r1 \<leftarrow> routes s i;
     r2 \<leftarrow> routes s j;
     c \<leftarrow> bgp_info_mpath_cmp (ri r1) (ri r2);
     Some (c < 0) }"

text \<open>The walk through both lists.  The nodes of the list of candidates are deleted as they are visited, so it is the rest of
  the list.  The update of \<^verbatim>\<open>next_mpath\<close> in the last branch has no effect, because the next iteration sets it again.\<close>

partial_function (option) mpath_walk ::
  "u16 \<Rightarrow> nat option \<Rightarrow> nat list \<Rightarrow> nat option \<Rightarrow> nat option \<Rightarrow> u16 \<Rightarrow> bool \<Rightarrow> rib \<Rightarrow> (u16 \<times> bool \<times> rib) option" where
  "mpath_walk limit new_best mp_list cur_mpath prev_mpath mpath_count mpath_changed s =
     (if mp_list = [] \<and> cur_mpath = None then Some (mpath_count, mpath_changed, s)
      else if cur_mpath = None \<and> limit \<le> mpath_count then Some (mpath_count, mpath_changed, s)
      else do {
        next_mpath \<leftarrow> (case cur_mpath of None \<Rightarrow> Some None | Some cur \<Rightarrow> bgp_info_mpath_next cur s);
        if mp_list \<noteq> [] \<and> cur_mpath = Some (hd mp_list) then do {
          s \<leftarrow> bgp_info_mpath_dequeue (hd mp_list) s;
          keep \<leftarrow> (if mpath_count < limit then nexthop_differs prev_mpath (hd mp_list) s else Some False);
          if keep then do {
            prev \<leftarrow> prev_mpath;
            s \<leftarrow> bgp_info_mpath_enqueue prev (hd mp_list) s;
            mpath_walk limit new_best (tl mp_list) next_mpath cur_mpath (mpath_count + 1) mpath_changed s }
          else mpath_walk limit new_best (tl mp_list) next_mpath prev_mpath mpath_count True s }
        else do {
          purge \<leftarrow> (case cur_mpath of
              None \<Rightarrow> Some False
            | Some cur \<Rightarrow> if mp_list = [] then Some True else mpath_less cur (hd mp_list) s);
          if purge then do {
            cur \<leftarrow> cur_mpath;
            s \<leftarrow> bgp_info_mpath_dequeue cur s;
            mpath_walk limit new_best mp_list next_mpath prev_mpath mpath_count True s }
          else do {
            add \<leftarrow> (if mpath_count < limit \<and> new_best \<noteq> Some (hd mp_list) then nexthop_differs prev_mpath (hd mp_list) s else Some False);
            if add then do {
              prev \<leftarrow> prev_mpath;
              s \<leftarrow> bgp_info_mpath_dequeue (hd mp_list) s;
              s \<leftarrow> bgp_info_mpath_enqueue prev (hd mp_list) s;
              mpath_walk limit new_best (tl mp_list) cur_mpath (Some (hd mp_list)) (mpath_count + 1) True s }
            else mpath_walk limit new_best (tl mp_list) cur_mpath prev_mpath mpath_count mpath_changed s } } })"

text \<open>The part of \<^verbatim>\<open>bgp_info_mpath_update\<close> before the walk takes both best routes off their lists.  The old count is
  kept in 16 bits.\<close>

definition detach_new_best :: "nat option \<Rightarrow> nat option \<Rightarrow> rib \<Rightarrow> rib option" where
  "detach_new_best new_best old_best s = (case new_best of
     None \<Rightarrow> Some s
   | Some b \<Rightarrow> if new_best \<noteq> old_best then bgp_info_mpath_dequeue b s else Some s)"

definition detach_old_best :: "nat option \<Rightarrow> rib \<Rightarrow> (nat option \<times> u16 \<times> rib) option" where
  "detach_old_best old_best s = (case old_best of
     None \<Rightarrow> Some (None, 0, s)
   | Some b \<Rightarrow> do {
       cur_mpath \<leftarrow> bgp_info_mpath_first b s;
       n \<leftarrow> bgp_info_mpath_count b s;
       s \<leftarrow> bgp_info_mpath_count_set b 0 s;
       s \<leftarrow> bgp_info_mpath_dequeue b s;
       Some (cur_mpath, ucast n, s) })"

definition maxpaths_for :: "bgp_maxpaths_cfg \<Rightarrow> nat \<Rightarrow> rib \<Rightarrow> u16 option" where
  "maxpaths_for mpath_cfg b s = do {
     r \<leftarrow> routes s b;
     Some (if sort_of (bi_peer (ri r)) = BGP_PEER_IBGP then maxpaths_ibgp mpath_cfg else maxpaths_ebgp mpath_cfg) }"

definition bgp_info_mpath_update :: "nat option \<Rightarrow> nat option \<Rightarrow> nat list \<Rightarrow> bgp_maxpaths_cfg \<Rightarrow> rib \<Rightarrow> rib option" where
  "bgp_info_mpath_update new_best old_best mp_list mpath_cfg s = do {
     s \<leftarrow> detach_new_best new_best old_best s;
     limit \<leftarrow> (case new_best of None \<Rightarrow> Some BGP_DEFAULT_MAXPATHS | Some b \<Rightarrow> maxpaths_for mpath_cfg b s);
     (cur_mpath, old_mpath_count, s) \<leftarrow> detach_old_best old_best s;
     (mpath_count, mpath_changed, s) \<leftarrow>
       mpath_walk limit new_best mp_list cur_mpath new_best (if new_best = None then 0 else 1) False s;
     case new_best of
       None \<Rightarrow> Some s
     | Some b \<Rightarrow> do {
         s \<leftarrow> bgp_info_mpath_count_set b (ucast mpath_count - 1) s;
         n \<leftarrow> bgp_info_mpath_count b s;
         if mpath_changed \<or> n \<noteq> ucast old_mpath_count then SET_FLAGS BGP_INFO_MULTIPATH_CHG b s else Some s } }"

partial_function (option) dequeue_all :: "nat option \<Rightarrow> rib \<Rightarrow> rib option" where
  "dequeue_all mpinfo s = (case mpinfo of
     None \<Rightarrow> Some s
   | Some i \<Rightarrow> do {
       mpnext \<leftarrow> bgp_info_mpath_next i s;
       s \<leftarrow> bgp_info_mpath_dequeue i s;
       dequeue_all mpnext s })"

definition bgp_mp_dmed_deselect :: "nat option \<Rightarrow> rib \<Rightarrow> rib option" where
  "bgp_mp_dmed_deselect dmed_best s = (case dmed_best of
     None \<Rightarrow> Some s
   | Some b \<Rightarrow> do {
       mpinfo \<leftarrow> bgp_info_mpath_first b s;
       s \<leftarrow> dequeue_all mpinfo s;
       s \<leftarrow> bgp_info_mpath_count_set b 0 s;
       s \<leftarrow> UNSET_FLAGS BGP_INFO_MULTIPATH_CHG b s;
       mpinfo \<leftarrow> bgp_info_mpath_first b s;
       zassert (mpinfo = None);
       Some s })"

subsection \<open>The aggregated attribute\<close>

text \<open>Attributes and the objects they point to are interned: two pointers are equal exactly when the comparison function of their
  hash table accepts the objects.\<close>

definition same_object :: "('a \<Rightarrow> 'a \<Rightarrow> bool) \<Rightarrow> 'a option \<Rightarrow> 'a option \<Rightarrow> bool" where
  "same_object cmp p q = (case (p, q) of (None, None) \<Rightarrow> True | (Some x, Some y) \<Rightarrow> cmp x y | _ \<Rightarrow> False)"

definition cluster_hash_cmp :: "u32 list \<Rightarrow> u32 list \<Rightarrow> bool" where
  "cluster_hash_cmp c1 c2 \<longleftrightarrow> length c1 = length c2 \<and> c1 = c2"

definition transit_hash_cmp :: "transit \<Rightarrow> transit \<Rightarrow> bool" where
  "transit_hash_cmp t1 t2 \<longleftrightarrow> t_length t1 = t_length t2 \<and> map_option (take (t_length t1)) (t_val t1) = map_option (take (t_length t1)) (t_val t2)"

definition attrhash_cmp :: "attr \<Rightarrow> attr \<Rightarrow> bool" where
  "attrhash_cmp attr1 attr2 =
     (if flag attr1 = flag attr2 \<and> origin attr1 = origin attr2 \<and> nexthop attr1 = nexthop attr2 \<and>
         aspath_cmp (as_path attr1) (as_path attr2) \<and> community_cmp (attr_community attr1) (attr_community attr2) \<and>
         med attr1 = med attr2 \<and> local_pref attr1 = local_pref attr2
      then case (extra attr1, extra attr2) of
          (Some ae1, Some ae2) \<Rightarrow>
            aggregator_as ae1 = aggregator_as ae2 \<and> aggregator_addr ae1 = aggregator_addr ae2 \<and> weight ae1 = weight ae2 \<and>
            mp_nexthop_len ae1 = mp_nexthop_len ae2 \<and> mp_nexthop_global ae1 = mp_nexthop_global ae2 \<and>
            mp_nexthop_local ae1 = mp_nexthop_local ae2 \<and> mp_nexthop_global_in ae1 = mp_nexthop_global_in ae2 \<and>
            same_object ecommunity_cmp (attr_ecommunity ae1) (attr_ecommunity ae2) \<and>
            same_object cluster_hash_cmp (cluster ae1) (cluster ae2) \<and> same_object transit_hash_cmp (transit ae1) (transit ae2) \<and>
            originator_id ae1 = originator_id ae2
        | (None, None) \<Rightarrow> True
        | _ \<Rightarrow> False
      else False)"

abbreviation BGP_ATTR_COMMUNITIES :: nat where "BGP_ATTR_COMMUNITIES \<equiv> 8"
abbreviation BGP_ATTR_EXT_COMMUNITIES :: nat where "BGP_ATTR_EXT_COMMUNITIES \<equiv> 16"

definition merge_communities :: "community option \<Rightarrow> community option \<Rightarrow> community option" where
  "merge_communities com mp = (case (com, mp) of
     (_, None) \<Rightarrow> com
   | (Some c, Some m) \<Rightarrow> community_uniq_sort (Some (community_merge c m))
   | (None, Some m) \<Rightarrow> Some (community_dup m))"

definition merge_ecommunities :: "ecommunity option \<Rightarrow> ecommunity option \<Rightarrow> ecommunity option" where
  "merge_ecommunities ecom mp = (case (ecom, mp) of
     (_, None) \<Rightarrow> ecom
   | (Some c, Some m) \<Rightarrow> ecommunity_uniq_sort (Some (ecommunity_merge c m))
   | (None, Some m) \<Rightarrow> Some (ecommunity_dup m))"

definition ecommunity_of :: "attr \<Rightarrow> ecommunity option" where
  "ecommunity_of a = (case extra a of None \<Rightarrow> None | Some ae \<Rightarrow> attr_ecommunity ae)"

partial_function (option) aggregate_loop ::
  "nat option \<Rightarrow> rib \<Rightarrow> aspath \<Rightarrow> u8 \<Rightarrow> community option \<Rightarrow> ecommunity option \<Rightarrow>
   (aspath \<times> u8 \<times> community option \<times> ecommunity option) option" where
  "aggregate_loop mpinfo s as org com ecom = (case mpinfo of
     None \<Rightarrow> Some (as, org, com, ecom)
   | Some i \<Rightarrow> do {
       r \<leftarrow> routes s i;
       as \<leftarrow> aspath_aggregate as (as_path (bi_attr (ri r)));
       next \<leftarrow> bgp_info_mpath_next i s;
       aggregate_loop next s as (if org < origin (bi_attr (ri r)) then origin (bi_attr (ri r)) else org)
         (merge_communities com (attr_community (bi_attr (ri r)))) (merge_ecommunities ecom (ecommunity_of (bi_attr (ri r)))) })"

partial_function (option) any_attr_changed :: "nat option \<Rightarrow> rib \<Rightarrow> bool option" where
  "any_attr_changed mpinfo s = (case mpinfo of
     None \<Rightarrow> Some False
   | Some i \<Rightarrow> do {
       r \<leftarrow> routes s i;
       if CHECK_FLAG (route_flags r) BGP_INFO_ATTR_CHANGED then Some True
       else do { next \<leftarrow> bgp_info_mpath_next i s; any_attr_changed next s } })"

text \<open>The attribute of the best route with the merged path, origin and communities, and without next hops.\<close>

definition aggregate_attr :: "nat \<Rightarrow> rib \<Rightarrow> attr option" where
  "aggregate_attr new_best s = do {
     r \<leftarrow> routes s new_best;
     let a = bi_attr (ri r);
     first \<leftarrow> bgp_info_mpath_first new_best s;
     (as, org, com, ecom) \<leftarrow> aggregate_loop first s (aspath_dup (as_path a)) (origin a) (map_option community_dup (attr_community a))
       (map_option ecommunity_dup (ecommunity_of a));
     let a = a\<lparr>as_path := as, origin := org\<rparr>;
     let a = (case com of None \<Rightarrow> a
       | Some c \<Rightarrow> a\<lparr>attr_community := Some c, flag := flag a OR ATTR_FLAG_BIT BGP_ATTR_COMMUNITIES\<rparr>);
     let a = (case ecom of None \<Rightarrow> a
       | Some c \<Rightarrow> (let (ae, a) = bgp_attr_extra_get a in
           a\<lparr>extra := Some (ae\<lparr>attr_ecommunity := Some c\<rparr>), flag := flag a OR ATTR_FLAG_BIT BGP_ATTR_EXT_COMMUNITIES\<rparr>));
     Some (a\<lparr>nexthop := 0, extra := map_option (\<lambda>ae. ae\<lparr>mp_nexthop_global := replicate 16 0\<rparr>) (extra a)\<rparr>) }"

definition drop_aggregate :: "nat \<Rightarrow> bool \<Rightarrow> rib \<Rightarrow> rib option" where
  "drop_aggregate i changed s = do {
     old_attr \<leftarrow> bgp_info_mpath_attr i s;
     if old_attr = None then Some s
     else do {
       s \<leftarrow> bgp_info_mpath_attr_set i None s;
       if changed then SET_FLAGS BGP_INFO_ATTR_CHANGED i s else Some s } }"

definition aggregate_unchanged :: "nat \<Rightarrow> nat option \<Rightarrow> rib \<Rightarrow> bool option" where
  "aggregate_unchanged b old_best s = do {
     r \<leftarrow> routes s b;
     if \<not> CHECK_FLAG (route_flags r) BGP_INFO_MULTIPATH_CHG \<and> old_best = Some b then
       if CHECK_FLAG (route_flags r) BGP_INFO_ATTR_CHANGED then Some False
       else do {
         first \<leftarrow> bgp_info_mpath_first b s;
         attr_chg \<leftarrow> any_attr_changed first s;
         Some (\<not> attr_chg) }
     else Some False }"

definition bgp_info_mpath_aggregate_update :: "nat option \<Rightarrow> nat option \<Rightarrow> rib \<Rightarrow> rib option" where
  "bgp_info_mpath_aggregate_update new_best old_best s = do {
     s \<leftarrow> (case old_best of
         Some old \<Rightarrow> if old_best \<noteq> new_best then drop_aggregate old False s else Some s
       | None \<Rightarrow> Some s);
     case new_best of
       None \<Rightarrow> Some s
     | Some b \<Rightarrow> do {
         n \<leftarrow> bgp_info_mpath_count b s;
         if n = 0 then drop_aggregate b True s
         else do {
           unchanged \<leftarrow> aggregate_unchanged b old_best s;
           old_attr \<leftarrow> bgp_info_mpath_attr b s;
           if unchanged then do { zassert (old_attr \<noteq> None); Some s }
           else do {
             new_attr \<leftarrow> aggregate_attr b s;
             if same_object attrhash_cmp (Some new_attr) old_attr then Some s
             else do {
               s \<leftarrow> bgp_info_mpath_attr_set b (Some new_attr) s;
               SET_FLAGS BGP_INFO_ATTR_CHANGED b s } } } } }"

subsection \<open>What the operations do to the links\<close>

text \<open>The links of a store, the routes on a list, and all that the list operations leave alone.\<close>

definition mpath_of :: "rib \<Rightarrow> nat \<Rightarrow> bgp_info_mpath option" where
  "mpath_of s i = do { r \<leftarrow> routes s i; ri_mpath r }"

definition next_of :: "rib \<Rightarrow> nat \<Rightarrow> nat option" where
  "next_of s i = do { m \<leftarrow> mpath_of s i; mp_next m }"

definition prev_of :: "rib \<Rightarrow> nat \<Rightarrow> nat option" where
  "prev_of s i = do { m \<leftarrow> mpath_of s i; mp_prev m }"

definition has_mpath :: "rib \<Rightarrow> nat \<Rightarrow> bool" where
  "has_mpath s i \<longleftrightarrow> mpath_of s i \<noteq> None"

definition flagged :: "u16 \<Rightarrow> rib \<Rightarrow> nat \<Rightarrow> bool" where
  "flagged f s i \<longleftrightarrow> (case routes s i of None \<Rightarrow> False | Some r \<Rightarrow> CHECK_FLAG (route_flags r) f)"

abbreviation multipath :: "rib \<Rightarrow> nat \<Rightarrow> bool" where
  "multipath \<equiv> flagged BGP_INFO_MULTIPATH"

definition count_of :: "rib \<Rightarrow> nat \<Rightarrow> u32" where
  "count_of s i = (case mpath_of s i of None \<Rightarrow> 0 | Some m \<Rightarrow> mp_count m)"

definition aggregate_of :: "rib \<Rightarrow> nat \<Rightarrow> attr option" where
  "aggregate_of s i = do { m \<leftarrow> mpath_of s i; mp_attr m }"

definition strip :: "rib_route \<Rightarrow> rib_route" where
  "strip r = with_flags (\<lambda>f. UNSET_FLAG f BGP_INFO_MULTIPATH) (r\<lparr>ri_mpath := None\<rparr>)"

definition rest_of :: "rib \<Rightarrow> rib" where
  "rest_of s = s\<lparr>routes := \<lambda>i. map_option strip (routes s i)\<rparr>"

definition obs :: "rib \<Rightarrow> (nat \<Rightarrow> nat option) \<times> (nat \<Rightarrow> nat option) \<times> (nat \<Rightarrow> bool) \<times> (nat \<Rightarrow> bool) \<times> (nat \<Rightarrow> u32) \<times> (nat \<Rightarrow> attr option) \<times> rib" where
  "obs s = (next_of s, prev_of s, has_mpath s, multipath s, count_of s, aggregate_of s, rest_of s)"

lemmas view_defs = obs_def next_of_def prev_of_def has_mpath_def mpath_of_def flagged_def count_of_def aggregate_of_def rest_of_def

lemma BGP_INFO_MULTIPATH_nonzero [simp]: "BGP_INFO_MULTIPATH \<noteq> 0"
  by simp

lemma UNSET_SET_FLAG [simp]: "UNSET_FLAG (SET_FLAG v f) f = UNSET_FLAG v f" "UNSET_FLAG (UNSET_FLAG v f) f = UNSET_FLAG v f"
  by (auto simp: UNSET_FLAG_def SET_FLAG_def intro!: bit_word_eqI simp: bit_simps)

lemma CHECK_SET_FLAG [simp]: "f \<noteq> 0 \<Longrightarrow> CHECK_FLAG (SET_FLAG v f) f" "\<not> CHECK_FLAG (UNSET_FLAG v f) f"
proof -
  assume "f \<noteq> 0"
  moreover have "(v OR f) AND f = f" by (auto intro!: bit_word_eqI simp: bit_simps)
  ultimately show "CHECK_FLAG (SET_FLAG v f) f" by (simp add: CHECK_FLAG_def SET_FLAG_def)
next
  have "(v AND NOT f) AND f = 0" by (auto intro!: bit_word_eqI simp: bit_simps)
  then show "\<not> CHECK_FLAG (UNSET_FLAG v f) f" by (simp add: CHECK_FLAG_def UNSET_FLAG_def)
qed

lemma obs_update:
  "obs (s\<lparr>routes := (routes s)(i \<mapsto> r)\<rparr>) =
     ((next_of s)(i := do { m \<leftarrow> ri_mpath r; mp_next m }), (prev_of s)(i := do { m \<leftarrow> ri_mpath r; mp_prev m }), (has_mpath s)(i := ri_mpath r \<noteq> None),
      (multipath s)(i := CHECK_FLAG (route_flags r) BGP_INFO_MULTIPATH), (count_of s)(i := case ri_mpath r of None \<Rightarrow> 0 | Some m \<Rightarrow> mp_count m),
      (aggregate_of s)(i := do { m \<leftarrow> ri_mpath r; mp_attr m }), (rest_of s)\<lparr>routes := (routes (rest_of s))(i \<mapsto> strip r)\<rparr>)"
  by (simp add: view_defs strip_def fun_eq_iff)

lemma obs_at:
  assumes "routes s i = Some r"
  shows "next_of s i = do { m \<leftarrow> ri_mpath r; mp_next m }" "prev_of s i = do { m \<leftarrow> ri_mpath r; mp_prev m }" "has_mpath s i \<longleftrightarrow> ri_mpath r \<noteq> None"
    "multipath s i \<longleftrightarrow> CHECK_FLAG (route_flags r) BGP_INFO_MULTIPATH" "count_of s i = (case ri_mpath r of None \<Rightarrow> 0 | Some m \<Rightarrow> mp_count m)"
    "aggregate_of s i = do { m \<leftarrow> ri_mpath r; mp_attr m }" "routes (rest_of s) i = Some (strip r)"
  using assms by (simp_all add: view_defs strip_def)

lemma rest_upd_same: "routes (rest_of s) i = Some r \<Longrightarrow> (rest_of s)\<lparr>routes := (routes (rest_of s))(i \<mapsto> r)\<rparr> = rest_of s"
  by (simp add: fun_upd_idem)

lemma strip_simps [simp]:
  "strip (r\<lparr>ri_mpath := m\<rparr>) = strip r" "strip (with_flags (\<lambda>v. SET_FLAG v BGP_INFO_MULTIPATH) r) = strip r"
  "strip (with_flags (\<lambda>v. UNSET_FLAG v BGP_INFO_MULTIPATH) r) = strip r"
  by (simp_all add: strip_def with_flags_def route_flags_def)

lemma with_flags_simps [simp]:
  "ri_mpath (with_flags f r) = ri_mpath r" "route_flags (with_flags f r) = f (route_flags r)" "route_flags (r\<lparr>ri_mpath := m\<rparr>) = route_flags r"
  by (simp_all add: with_flags_def route_flags_def)

lemma update_mpath_view:
  assumes "has_mpath s i" "\<And>m. mp_count (f m) = mp_count m \<and> mp_attr (f m) = mp_attr m"
  obtains s' m where "update_mpath i f s = Some s'" "mpath_of s i = Some m"
    "obs s' = ((next_of s)(i := mp_next (f m)), (prev_of s)(i := mp_prev (f m)), has_mpath s, multipath s, count_of s, aggregate_of s, rest_of s)"
proof -
  obtain r m where r: "routes s i = Some r" "ri_mpath r = Some m"
    using assms(1) by (auto simp: has_mpath_def mpath_of_def bind_eq_Some_conv)
  then show ?thesis
    using assms(2) obs_at [OF r(1)] by (intro that) (auto simp: update_mpath_def obs_update mpath_of_def rest_upd_same intro!: fun_upd_idem)
qed

lemma mpath_get_view:
  assumes "routes s i \<noteq> None"
  obtains s' m where "bgp_info_mpath_get i s = Some (m, s')" "mp_next m = next_of s i" "mp_prev m = prev_of s i"
    "obs s' = (next_of s, prev_of s, (has_mpath s)(i := True), multipath s, count_of s, aggregate_of s, rest_of s)"
proof -
  obtain r where r: "routes s i = Some r" using assms by blast
  note at = obs_at [OF r]
  show ?thesis
  proof (cases "ri_mpath r")
    case None
    then show ?thesis using r at
      by (intro that) (auto simp: bgp_info_mpath_get_def obs_update bgp_info_mpath_new_def rest_upd_same intro!: fun_upd_idem)
  next
    case (Some m)
    then show ?thesis using r at
      by (intro that) (auto simp: bgp_info_mpath_get_def obs_def fun_upd_idem)
  qed
qed

lemma multipath_flag_view:
  assumes "routes s i \<noteq> None"
  shows "\<exists>s'. SET_FLAGS BGP_INFO_MULTIPATH i s = Some s' \<and>
      obs s' = (next_of s, prev_of s, has_mpath s, (multipath s)(i := True), count_of s, aggregate_of s, rest_of s)"
    and "\<exists>s'. UNSET_FLAGS BGP_INFO_MULTIPATH i s = Some s' \<and>
      obs s' = (next_of s, prev_of s, has_mpath s, (multipath s)(i := False), count_of s, aggregate_of s, rest_of s)"
proof -
  obtain r where r: "routes s i = Some r" using assms by blast
  show "\<exists>s'. SET_FLAGS BGP_INFO_MULTIPATH i s = Some s' \<and>
      obs s' = (next_of s, prev_of s, has_mpath s, (multipath s)(i := True), count_of s, aggregate_of s, rest_of s)"
    "\<exists>s'. UNSET_FLAGS BGP_INFO_MULTIPATH i s = Some s' \<and>
      obs s' = (next_of s, prev_of s, has_mpath s, (multipath s)(i := False), count_of s, aggregate_of s, rest_of s)"
    using r obs_at [OF r] by (auto simp: update_route_def obs_update rest_upd_same intro!: fun_upd_idem)
qed

text \<open>The links of a store are consistent: the two directions are inverse to each other, and a route with the flag has links.\<close>

definition inverse_maps :: "('a \<Rightarrow> 'b option) \<Rightarrow> ('b \<Rightarrow> 'a option) \<Rightarrow> bool" where
  "inverse_maps n v \<longleftrightarrow> (\<forall>i j. n i = Some j \<longleftrightarrow> v j = Some i)"

definition mpaths_ok :: "rib \<Rightarrow> bool" where
  "mpaths_ok s \<longleftrightarrow> inverse_maps (next_of s) (prev_of s) \<and> (\<forall>i. multipath s i \<longrightarrow> has_mpath s i)"

definition unlink :: "nat \<Rightarrow> (nat \<Rightarrow> nat option) \<Rightarrow> nat \<Rightarrow> nat option" where
  "unlink i n k = (if k = i then None else if n k = Some i then n i else n k)"

lemma inverse_unlink: "inverse_maps n v \<Longrightarrow> inverse_maps (unlink i n) (unlink i v)"
  unfolding inverse_maps_def unlink_def by (auto split: if_splits) (metis option.inject)+

lemma unlink_at:
  assumes "inverse_maps n v"
  shows "unlink i n = (case v i of None \<Rightarrow> n | Some p \<Rightarrow> n(p := n i))(i := None)"
    and "unlink i v = (case n i of None \<Rightarrow> v | Some p \<Rightarrow> v(p := v i))(i := None)"
  using assms by (auto simp: inverse_maps_def unlink_def fun_eq_iff split: option.splits) (metis option.inject option.distinct(1))+

lemma linked_has_mpath: "next_of s i = Some j \<Longrightarrow> has_mpath s i" "prev_of s i = Some j \<Longrightarrow> has_mpath s i"
  by (auto simp: next_of_def prev_of_def has_mpath_def bind_eq_Some_conv)

lemma has_mpath_route: "has_mpath s i \<Longrightarrow> routes s i \<noteq> None"
  by (auto simp: has_mpath_def mpath_of_def bind_eq_Some_conv)

lemma rest_routes: "rest_of s' = rest_of s \<Longrightarrow> routes s' i = None \<longleftrightarrow> routes s i = None"
  by (drule arg_cong [where f = "\<lambda>s. routes s i = None"]) (simp add: rest_of_def)

text \<open>Setting one end of a link, where there is something at that end.\<close>

definition upd_at :: "'a option \<Rightarrow> 'b \<Rightarrow> ('a \<Rightarrow> 'b) \<Rightarrow> 'a \<Rightarrow> 'b" where
  "upd_at p v f = (case p of None \<Rightarrow> f | Some i \<Rightarrow> f(i := v))"

lemma set_next_view:
  assumes "\<forall>i. p = Some i \<longrightarrow> has_mpath s i"
  obtains s' where "(case p of None \<Rightarrow> Some s | Some i \<Rightarrow> update_mpath i (\<lambda>m. m\<lparr>mp_next := v\<rparr>) s) = Some s'"
    "obs s' = (upd_at p v (next_of s), prev_of s, has_mpath s, multipath s, count_of s, aggregate_of s, rest_of s)"
proof (cases p)
  case (Some i)
  with assms have "has_mpath s i" by simp
  from update_mpath_view [OF this, of "\<lambda>m. m\<lparr>mp_next := v\<rparr>"] show ?thesis
    using that Some by (auto simp: prev_of_def fun_upd_idem upd_at_def)
qed (use that in \<open>simp add: obs_def upd_at_def\<close>)

lemma set_prev_view:
  assumes "\<forall>i. p = Some i \<longrightarrow> has_mpath s i"
  obtains s' where "(case p of None \<Rightarrow> Some s | Some i \<Rightarrow> update_mpath i (\<lambda>m. m\<lparr>mp_prev := v\<rparr>) s) = Some s'"
    "obs s' = (next_of s, upd_at p v (prev_of s), has_mpath s, multipath s, count_of s, aggregate_of s, rest_of s)"
proof (cases p)
  case (Some i)
  with assms have "has_mpath s i" by simp
  from update_mpath_view [OF this, of "\<lambda>m. m\<lparr>mp_prev := v\<rparr>"] show ?thesis
    using that Some by (auto simp: next_of_def fun_upd_idem upd_at_def)
qed (use that in \<open>simp add: obs_def upd_at_def\<close>)

lemma mpath_dequeue_view:
  assumes "mpaths_ok s" "routes s i \<noteq> None"
  obtains s' where "bgp_info_mpath_dequeue i s = Some s'"
    "obs s' = (unlink i (next_of s), unlink i (prev_of s), has_mpath s, (multipath s)(i := False), count_of s, aggregate_of s, rest_of s)"
proof -
  obtain r where r: "routes s i = Some r" using assms(2) by blast
  note at = obs_at [OF r]
  have inv: "inverse_maps (next_of s) (prev_of s)" using assms(1) by (simp add: mpaths_ok_def)
  show ?thesis
  proof (cases "ri_mpath r")
    case None
    then have "unlink i (next_of s) = next_of s" "unlink i (prev_of s) = prev_of s" "multipath s i = False"
      using at assms(1) unlink_at [OF inv, of i] by (auto simp: mpaths_ok_def fun_upd_idem)
    then show ?thesis using None r by (intro that [of s]) (auto simp: bgp_info_mpath_dequeue_def obs_def fun_upd_idem)
  next
    case (Some m)
    let ?n1 = "upd_at (prev_of s i) (next_of s i) (next_of s)"
    have m: "mp_next m = next_of s i" "mp_prev m = prev_of s i" "has_mpath s i" using at Some by auto
    have ends: "\<forall>p. prev_of s i = Some p \<longrightarrow> has_mpath s p" "\<forall>p. next_of s i = Some p \<longrightarrow> has_mpath s p"
      using inv linked_has_mpath by (auto simp: inverse_maps_def)
    obtain s1 where s1: "(case mp_prev m of None \<Rightarrow> Some s | Some p \<Rightarrow> update_mpath p (\<lambda>k. k\<lparr>mp_next := mp_next m\<rparr>) s) = Some s1"
        "obs s1 = (?n1, prev_of s, has_mpath s, multipath s, count_of s, aggregate_of s, rest_of s)"
      using set_next_view [OF ends(1), of "mp_next m"] unfolding m by blast
    have "routes s1 i \<noteq> None" using m s1(2) has_mpath_route by (auto simp: obs_def)
    then obtain s2 m2 where s2: "bgp_info_mpath_get i s1 = Some (m2, s2)" "mp_next m2 = next_of s i" "mp_prev m2 = prev_of s i"
        "obs s2 = (?n1, prev_of s, has_mpath s, multipath s, count_of s, aggregate_of s, rest_of s)"
      using s1(2) m inv by (elim mpath_get_view) (auto simp: obs_def inverse_maps_def fun_upd_idem upd_at_def split: option.splits if_splits)
    have "\<forall>p. next_of s i = Some p \<longrightarrow> has_mpath s2 p" using ends s2(4) by (simp add: obs_def)
    from set_prev_view [OF this, of "mp_prev m2"] obtain s3 where
      s3: "(case mp_next m2 of None \<Rightarrow> Some s2 | Some p \<Rightarrow> update_mpath p (\<lambda>k. k\<lparr>mp_prev := mp_prev m2\<rparr>) s2) = Some s3"
        "obs s3 = (?n1, upd_at (next_of s i) (prev_of s i) (prev_of s), has_mpath s, multipath s, count_of s, aggregate_of s, rest_of s)"
      using s2 by (auto simp: obs_def)
    have "has_mpath s3 i" using m s3(2) by (simp add: obs_def)
    from update_mpath_view [OF this, of "\<lambda>k. k\<lparr>mp_next := None, mp_prev := None\<rparr>"] obtain s4 where
      s4: "update_mpath i (\<lambda>k. k\<lparr>mp_next := None, mp_prev := None\<rparr>) s3 = Some s4"
        "obs s4 = (unlink i (next_of s), unlink i (prev_of s), has_mpath s, multipath s, count_of s, aggregate_of s, rest_of s)"
      using s3(2) by (auto simp: obs_def unlink_at [OF inv] upd_at_def)
    have "routes s4 i \<noteq> None" using m s4(2) has_mpath_route by (auto simp: obs_def)
    from multipath_flag_view(2) [OF this] show ?thesis
      using s1(1) s2(1) s3(1) s4 Some r m that by (auto simp: bgp_info_mpath_dequeue_def obs_def)
  qed
qed

lemma mpath_enqueue_view:
  assumes "mpaths_ok s" "routes s p \<noteq> None" "routes s i \<noteq> None" "p \<noteq> i" "next_of s p = None" "next_of s i = None" "prev_of s i = None"
  obtains s' where "bgp_info_mpath_enqueue p i s = Some s'"
    "obs s' = ((next_of s)(p \<mapsto> i), (prev_of s)(i \<mapsto> p), (has_mpath s)(p := True, i := True), (multipath s)(i := True),
       count_of s, aggregate_of s, rest_of s)"
proof -
  obtain s1 m1 where s1: "bgp_info_mpath_get p s = Some (m1, s1)" "mp_next m1 = None"
      "obs s1 = (next_of s, prev_of s, (has_mpath s)(p := True), multipath s, count_of s, aggregate_of s, rest_of s)"
    using assms(2,5) by (elim mpath_get_view) auto
  have "routes s1 i \<noteq> None" using assms(3) s1(3) rest_routes [of s1 s i] by (simp add: obs_def)
  then obtain s2 m2 where s2: "bgp_info_mpath_get i s1 = Some (m2, s2)"
      "obs s2 = (next_of s, prev_of s, (has_mpath s)(p := True, i := True), multipath s, count_of s, aggregate_of s, rest_of s)"
    using s1(3) by (elim mpath_get_view) (auto simp: obs_def)
  have "has_mpath s2 i" using s2(2) by (simp add: obs_def)
  from update_mpath_view [OF this, of "\<lambda>m. m\<lparr>mp_next := mp_next m1, mp_prev := Some p\<rparr>"] obtain s3 where
    s3: "update_mpath i (\<lambda>m. m\<lparr>mp_next := mp_next m1, mp_prev := Some p\<rparr>) s2 = Some s3"
      "obs s3 = (next_of s, (prev_of s)(i \<mapsto> p), (has_mpath s)(p := True, i := True), multipath s, count_of s, aggregate_of s, rest_of s)"
    using s2(2) s1(2) assms(6) by (auto simp: obs_def fun_upd_idem)
  have "routes s3 p \<noteq> None" using s3(2) has_mpath_route [of s3 p] by (simp add: obs_def)
  then obtain s4 m4 where s4: "bgp_info_mpath_get p s3 = Some (m4, s4)" "mp_next m4 = None"
      "obs s4 = (next_of s, (prev_of s)(i \<mapsto> p), (has_mpath s)(p := True, i := True), multipath s, count_of s, aggregate_of s, rest_of s)"
    using s3(2) assms(4,5) by (elim mpath_get_view) (auto simp: obs_def fun_eq_iff)
  have "\<forall>j. Some p = Some j \<longrightarrow> has_mpath s4 j" using s4(3) assms(4) by (auto simp: obs_def)
  from set_next_view [OF this, of "Some i"] obtain s5 where s5: "update_mpath p (\<lambda>m. m\<lparr>mp_next := Some i\<rparr>) s4 = Some s5"
      "obs s5 = ((next_of s)(p \<mapsto> i), (prev_of s)(i \<mapsto> p), (has_mpath s)(p := True, i := True), multipath s, count_of s, aggregate_of s, rest_of s)"
    using s4(3) by (auto simp: obs_def upd_at_def)
  have "routes s5 i \<noteq> None" using s5(2) has_mpath_route [of s5 i] by (simp add: obs_def)
  from multipath_flag_view(1) [OF this] show ?thesis
    using s1(1) s2(1) s3(1) s4(1,2) s5 that by (auto simp: bgp_info_mpath_enqueue_def obs_def)
qed

subsection \<open>Lists of links\<close>

fun path :: "(nat \<Rightarrow> nat option) \<Rightarrow> nat option \<Rightarrow> nat list \<Rightarrow> bool" where
  "path n c [] \<longleftrightarrow> c = None"
| "path n c (x # xs) \<longleftrightarrow> c = Some x \<and> path n (n x) xs"

lemma path_last: "path n c xs \<Longrightarrow> xs \<noteq> [] \<Longrightarrow> n (last xs) = None"
  by (induction xs arbitrary: c) (auto split: if_splits)

lemma path_upd [simp]: "p \<notin> set xs \<Longrightarrow> path (n(p := v)) c xs = path n c xs"
  by (induction xs arbitrary: c) auto

lemma path_snoc: "path n c xs \<Longrightarrow> xs \<noteq> [] \<Longrightarrow> distinct (xs @ [x]) \<Longrightarrow> n x = None \<Longrightarrow> path (n(last xs \<mapsto> x)) c (xs @ [x])"
proof (induction xs arbitrary: c)
  case (Cons a xs)
  then show ?case by (cases "xs = []") auto
qed simp

lemma path_unlink_other: "path n c xs \<Longrightarrow> x \<notin> set xs \<Longrightarrow> path (unlink x n) c xs"
proof (induction xs arbitrary: c)
  case (Cons a xs)
  then have "n a \<noteq> Some x" by (cases xs) auto
  then show ?case using Cons by (auto simp: unlink_def)
qed simp

lemma path_unlink: "path n c xs \<Longrightarrow> distinct xs \<Longrightarrow> c \<noteq> Some x \<Longrightarrow> path (unlink x n) c (removeAll x xs)"
proof (induction xs arbitrary: c)
  case (Cons a xs)
  show ?case
  proof (cases "n a = Some x")
    case True
    then obtain ys where "xs = x # ys" "x \<notin> set ys" "path n (n x) ys" using Cons.prems by (cases xs) auto
    then show ?thesis using Cons.prems True path_unlink_other [of n "n x" ys x] by (auto simp: unlink_def [of x n a])
  next
    case False
    then show ?thesis using Cons by (auto simp: unlink_def)
  qed
qed simp

text \<open>What the operations on the list keep, and routes that the walk can compare.\<close>

definition same_rest :: "rib \<Rightarrow> rib \<Rightarrow> bool" where
  "same_rest s s' \<longleftrightarrow> rest_of s' = rest_of s \<and> aggregate_of s' = aggregate_of s"

definition comparable :: "rib \<Rightarrow> nat \<Rightarrow> bool" where
  "comparable s x \<longleftrightarrow> (\<exists>r. routes s x = Some r \<and> su_remote (bi_peer (ri r)) \<noteq> None)"

lemma same_rest_refl [simp]: "same_rest s s" and same_rest_trans [trans]: "same_rest s t \<Longrightarrow> same_rest t v \<Longrightarrow> same_rest s v"
  by (simp_all add: same_rest_def)

lemma same_rest_route:
  assumes "same_rest s s'"
  shows "map_option (\<lambda>r. (bi_attr (ri r), bi_peer (ri r))) (routes s' i) = map_option (\<lambda>r. (bi_attr (ri r), bi_peer (ri r))) (routes s i)"
proof -
  have "map_option strip (routes s' i) = map_option strip (routes s i)"
    using assms unfolding same_rest_def by (auto dest!: arg_cong [where f = "\<lambda>s. routes s i"] simp: rest_of_def)
  moreover have "bi_attr (ri (strip r)) = bi_attr (ri r)" "bi_peer (ri (strip r)) = bi_peer (ri r)" for r
    by (simp_all add: strip_def with_flags_def)
  ultimately show ?thesis by (cases "routes s i"; cases "routes s' i") (simp_all, metis)
qed

lemma same_rest_comparable: "same_rest s s' \<Longrightarrow> comparable s' x = comparable s x"
  using same_rest_route [of s s' x] by (cases "routes s x"; cases "routes s' x") (auto simp: comparable_def)

lemma nexthop_cmp_attr: "bi_attr a = bi_attr a' \<Longrightarrow> bi_attr b = bi_attr b' \<Longrightarrow> bgp_info_nexthop_cmp a b = bgp_info_nexthop_cmp a' b'"
  by (simp only: bgp_info_nexthop_cmp_def)

lemma same_rest_differs: "same_rest s s' \<Longrightarrow> nexthop_differs p x s' = nexthop_differs p x s"
  using same_rest_route [of s s' x] same_rest_route [of s s' "the p"]
  by (cases "routes s x"; cases "routes s' x"; cases "routes s (the p)"; cases "routes s' (the p)"; cases p)
    (auto simp: nexthop_differs_def cong: nexthop_cmp_attr)

lemma nexthop_differs_total: "comparable s p \<Longrightarrow> comparable s x \<Longrightarrow> \<exists>d. nexthop_differs (Some p) x s = Some d"
  by (auto simp: comparable_def nexthop_differs_def)

lemma mpath_less_total: "comparable s x \<Longrightarrow> comparable s y \<Longrightarrow> \<exists>d. mpath_less x y s = Some d"
  by (auto simp: comparable_def mpath_less_def bgp_info_mpath_cmp_def Let_def)

lemma mpath_next_total: "comparable s x \<Longrightarrow> bgp_info_mpath_next x s = Some (next_of s x)"
  by (auto simp: comparable_def bgp_info_mpath_next_def next_of_def mpath_of_def split: option.splits)

lemma dequeue_step:
  assumes "mpaths_ok s" "comparable s x"
  obtains s' where "bgp_info_mpath_dequeue x s = Some s'" "mpaths_ok s'" "same_rest s s'" "multipath s' = (multipath s)(x := False)"
    "next_of s' = unlink x (next_of s)" "prev_of s' x = None"
proof -
  have "routes s x \<noteq> None" using assms(2) by (auto simp: comparable_def)
  from mpath_dequeue_view [OF assms(1) this] obtain s' where s': "bgp_info_mpath_dequeue x s = Some s'"
    "obs s' = (unlink x (next_of s), unlink x (prev_of s), has_mpath s, (multipath s)(x := False), count_of s, aggregate_of s, rest_of s)" .
  have "mpaths_ok s'" using s'(2) assms(1) inverse_unlink by (auto simp: mpaths_ok_def obs_def)
  then show ?thesis using s' by (intro that [of s']) (auto simp: obs_def same_rest_def unlink_def [of x _ x])
qed

lemma enqueue_step:
  assumes "mpaths_ok s" "comparable s p" "comparable s x" "p \<noteq> x" "next_of s p = None" "next_of s x = None" "prev_of s x = None"
  obtains s' where "bgp_info_mpath_enqueue p x s = Some s'" "mpaths_ok s'" "same_rest s s'" "multipath s' = (multipath s)(x := True)"
    "next_of s' = (next_of s)(p \<mapsto> x)"
proof -
  have "routes s p \<noteq> None" "routes s x \<noteq> None" using assms(2,3) by (auto simp: comparable_def)
  from mpath_enqueue_view [OF assms(1) this assms(4-7)] obtain s' where s': "bgp_info_mpath_enqueue p x s = Some s'"
    "obs s' = ((next_of s)(p \<mapsto> x), (prev_of s)(x \<mapsto> p), (has_mpath s)(p := True, x := True), (multipath s)(x := True),
       count_of s, aggregate_of s, rest_of s)" .
  have "inverse_maps ((next_of s)(p \<mapsto> x)) ((prev_of s)(x \<mapsto> p))"
    using assms(1,5,7) by (auto simp: mpaths_ok_def inverse_maps_def) (metis option.distinct(1))+
  then have "mpaths_ok s'" using s'(2) assms(1) by (auto simp: mpaths_ok_def obs_def)
  then show ?thesis using s' by (intro that [of s']) (auto simp: obs_def same_rest_def)
qed

subsection \<open>The walk as a choice from the candidates\<close>

text \<open>From the candidates in order, those with a next hop other than that of the route chosen before, until there are enough.\<close>

fun mpath_pick :: "(nat \<Rightarrow> nat \<Rightarrow> bool) \<Rightarrow> nat \<Rightarrow> nat \<Rightarrow> nat \<Rightarrow> nat list \<Rightarrow> nat list" where
  "mpath_pick differs 0 best prev xs = []"
| "mpath_pick differs k best prev [] = []"
| "mpath_pick differs (Suc k) best prev (x # xs) =
     (if x \<noteq> best \<and> differs prev x then x # mpath_pick differs k best x xs else mpath_pick differs (Suc k) best prev xs)"

definition differs_in :: "rib \<Rightarrow> nat \<Rightarrow> nat \<Rightarrow> bool" where
  "differs_in s p x \<longleftrightarrow> nexthop_differs (Some p) x s = Some True"

text \<open>The new list after the best route \<open>b\<close>, the rest of the old list and the rest of the candidates.\<close>

definition walk_ok :: "nat \<Rightarrow> nat list \<Rightarrow> nat option \<Rightarrow> nat list \<Rightarrow> nat list \<Rightarrow> rib \<Rightarrow> bool" where
  "walk_ok b new cur olds mps s \<longleftrightarrow> mpaths_ok s \<and> path (next_of s) (Some b) (b # new) \<and> path (next_of s) cur olds \<and>
     distinct (b # new @ olds) \<and> distinct mps \<and> set mps \<inter> set new = {} \<and> (\<forall>x\<in>set (b # new @ olds @ mps). comparable s x)"

lemma walk_dequeue:
  assumes "walk_ok b new cur olds mps s" "x \<in> set (olds @ mps)" "x \<notin> set (b # new)"
  obtains s' where "bgp_info_mpath_dequeue x s = Some s'" "same_rest s s'" "multipath s' = (multipath s)(x := False)"
    "next_of s' x = None" "prev_of s' x = None" "cur \<noteq> Some x \<Longrightarrow> walk_ok b new cur (removeAll x olds) mps s'"
    "cur = Some x \<Longrightarrow> walk_ok b new (next_of s x) (tl olds) mps s'"
proof -
  have ok: "mpaths_ok s" "path (next_of s) (Some b) (b # new)" "path (next_of s) cur olds" "distinct (b # new)" "distinct olds"
    "\<forall>x\<in>set (b # new @ olds @ mps). comparable s x" using assms(1) by (auto simp: walk_ok_def)
  have "comparable s x" using ok(6) assms(2) by auto
  from dequeue_step [OF ok(1) this] obtain s' where s': "bgp_info_mpath_dequeue x s = Some s'" "mpaths_ok s'" "same_rest s s'"
    "multipath s' = (multipath s)(x := False)" "next_of s' = unlink x (next_of s)" "prev_of s' x = None" .
  have new: "path (next_of s') (Some b) (b # new)" using path_unlink_other [OF ok(2) assms(3)] s'(5) by simp
  show ?thesis
  proof (rule that [OF s'(1,3,4) _ s'(6)])
    show "next_of s' x = None" using s'(5) by (simp add: unlink_def [of x _ x])
    show "walk_ok b new cur (removeAll x olds) mps s'" if "cur \<noteq> Some x"
      using that new s' path_unlink [OF ok(3,5)] assms(1) same_rest_comparable [OF s'(3)] by (auto simp: walk_ok_def distinct_removeAll)
    show "walk_ok b new (next_of s x) (tl olds) mps s'" if x: "cur = Some x"
    proof -
      obtain os where os: "olds = x # os" "x \<notin> set os" "path (next_of s) (next_of s x) os"
        using x ok(3,5) by (cases olds) auto
      then show ?thesis
        using new s' path_unlink_other [OF os(3,2)] assms(1) same_rest_comparable [OF s'(3)] by (auto simp: walk_ok_def)
    qed
  qed
qed

lemma walk_enqueue:
  assumes "walk_ok b new cur olds (x # mps) s" "x \<noteq> b" "x \<notin> set olds" "next_of s x = None" "prev_of s x = None"
  obtains s' where "bgp_info_mpath_enqueue (last (b # new)) x s = Some s'" "same_rest s s'" "multipath s' = (multipath s)(x := True)"
    "walk_ok b (new @ [x]) cur olds mps s'"
proof -
  have ok: "mpaths_ok s" "path (next_of s) (Some b) (b # new)" "path (next_of s) cur olds" "distinct (b # new @ [x])"
    "\<forall>x\<in>set (b # new @ olds @ x # mps). comparable s x" using assms(1,2) by (auto simp: walk_ok_def)
  have last: "last (b # new) \<in> set (b # new)" by (rule last_in_set) simp
  have "comparable s (last (b # new))" "comparable s x" using ok(5) last by auto
  moreover have "last (b # new) \<noteq> x" "next_of s (last (b # new)) = None" using ok(4) last path_last [OF ok(2)] by auto
  ultimately obtain s' where s': "bgp_info_mpath_enqueue (last (b # new)) x s = Some s'"
    "mpaths_ok s'" "same_rest s s'" "multipath s' = (multipath s)(x := True)" "next_of s' = (next_of s)(last (b # new) \<mapsto> x)"
    by (rule enqueue_step [OF ok(1) _ _ _ _ assms(4,5)])
  have "path (next_of s') (Some b) (b # new @ [x])"
    using path_snoc [OF ok(2) _ _ assms(4)] ok(4) s'(5) by simp
  moreover have "last (b # new) \<notin> set olds" using last assms(1) by (auto simp: walk_ok_def)
  ultimately have "walk_ok b (new @ [x]) cur olds mps s'"
    using ok s' assms same_rest_comparable [OF s'(3)] by (auto simp: walk_ok_def)
  then show ?thesis using that s' by blast
qed

definition walk_gives :: "u16 \<Rightarrow> nat \<Rightarrow> nat list \<Rightarrow> nat option \<Rightarrow> nat list \<Rightarrow> nat list \<Rightarrow> u16 \<Rightarrow> bool \<Rightarrow> rib \<Rightarrow> nat list \<Rightarrow> bool" where
  "walk_gives limit b new cur olds mps cnt chg s xs \<longleftrightarrow>
     (\<exists>s' chg'. mpath_walk limit (Some b) mps cur (Some (last (b # new))) cnt chg s = Some (cnt + of_nat (length xs), chg', s') \<and>
        mpaths_ok s' \<and> same_rest s s' \<and> path (next_of s') (Some b) (b # new @ xs) \<and>
        multipath s' = (\<lambda>x. x \<in> set xs \<or> x \<notin> set olds \<and> multipath s x) \<and> (chg' \<or> \<not> chg \<and> olds = xs))"

lemma walk_last: "walk_ok b new cur olds mps s \<Longrightarrow> comparable s (last (b # new))"
  using last_in_set [of "b # new"] by (auto simp: walk_ok_def)

lemma walk_comparable: "walk_ok b new cur olds mps s \<Longrightarrow> x \<in> set (olds @ mps) \<Longrightarrow> comparable s x"
  by (auto simp: walk_ok_def)

text \<open>A route that was and remains a multipath.\<close>

lemma walk_keep:
  assumes ok: "walk_ok b new (Some x) (x # os) (x # ms) s" and keep: "cnt < limit" "differs_in s (last (b # new)) x"
    and rest: "\<And>s'. walk_ok b (new @ [x]) (next_of s x) os ms s' \<Longrightarrow> same_rest s s' \<Longrightarrow>
      walk_gives limit b (new @ [x]) (next_of s x) os ms (cnt + 1) chg s' xs"
  shows "walk_gives limit b new (Some x) (x # os) (x # ms) cnt chg s (x # xs)"
proof -
  have x: "x \<notin> set (b # new)" "x \<notin> set os" "x \<noteq> b" using ok by (auto simp: walk_ok_def)
  obtain s1 where s1: "bgp_info_mpath_dequeue x s = Some s1" "same_rest s s1" "multipath s1 = (multipath s)(x := False)"
      "next_of s1 x = None" "prev_of s1 x = None" "walk_ok b new (next_of s x) os (x # ms) s1"
    using walk_dequeue [OF ok _ x(1)] by force
  from walk_enqueue [OF s1(6) x(3) x(2) s1(4,5)] obtain s2 where s2: "bgp_info_mpath_enqueue (last (b # new)) x s1 = Some s2"
      "same_rest s1 s2" "multipath s2 = (multipath s1)(x := True)" "walk_ok b (new @ [x]) (next_of s x) os ms s2" .
  have "same_rest s s2" using s1(2) s2(2) by (rule same_rest_trans)
  note IH = rest [OF s2(4) this]
  moreover have "nexthop_differs (Some (last (b # new))) x s1 = Some True"
    using keep(2) same_rest_differs [OF s1(2)] by (simp add: differs_in_def)
  moreover have "bgp_info_mpath_next x s = Some (next_of s x)" using walk_comparable [OF ok] by (intro mpath_next_total) simp
  ultimately show ?thesis
    using keep(1) s1 s2 x same_rest_trans [OF \<open>same_rest s s2\<close>]
    unfolding walk_gives_def mpath_walk.simps [of limit "Some b" "x # ms" "Some x"]
    by (auto simp: fun_eq_iff add.assoc)
qed

text \<open>A route that was a multipath and is no longer chosen, or no longer a candidate.\<close>

lemma walk_lose:
  assumes ok: "walk_ok b new (Some x) (x # os) (x # ms) s" and lose: "\<not> (cnt < limit \<and> differs_in s (last (b # new)) x)"
    and rest: "\<And>s'. walk_ok b new (next_of s x) os ms s' \<Longrightarrow> same_rest s s' \<Longrightarrow>
      walk_gives limit b new (next_of s x) os ms cnt True s' xs"
  shows "walk_gives limit b new (Some x) (x # os) (x # ms) cnt chg s xs"
proof -
  have x: "x \<notin> set (b # new)" "x \<notin> set os" using ok by (auto simp: walk_ok_def)
  obtain s1 where s1: "bgp_info_mpath_dequeue x s = Some s1" "same_rest s s1" "multipath s1 = (multipath s)(x := False)"
      "walk_ok b new (next_of s x) os (x # ms) s1"
    using walk_dequeue [OF ok _ x(1)] by force
  then have "walk_ok b new (next_of s x) os ms s1" by (auto simp: walk_ok_def)
  note IH = rest [OF this s1(2)]
  moreover have "cnt < limit \<Longrightarrow> nexthop_differs (Some (last (b # new))) x s1 = Some False"
    using lose same_rest_differs [OF s1(2)] nexthop_differs_total [OF walk_last [OF ok] walk_comparable [OF ok], of x]
    by (auto simp: differs_in_def)
  moreover have "bgp_info_mpath_next x s = Some (next_of s x)" using walk_comparable [OF ok] by (intro mpath_next_total) simp
  ultimately show ?thesis
    using s1 x same_rest_trans [OF s1(2)]
    unfolding walk_gives_def mpath_walk.simps [of limit "Some b" "x # ms" "Some x"] by (auto simp: fun_eq_iff)
qed

lemma walk_purge:
  assumes ok: "walk_ok b new (Some x) (x # os) mps s" and purge: "mps = [] \<or> x \<noteq> hd mps \<and> mpath_less x (hd mps) s = Some True"
    and rest: "\<And>s'. walk_ok b new (next_of s x) os mps s' \<Longrightarrow> same_rest s s' \<Longrightarrow>
      walk_gives limit b new (next_of s x) os mps cnt True s' xs"
  shows "walk_gives limit b new (Some x) (x # os) mps cnt chg s xs"
proof -
  have x: "x \<notin> set (b # new)" "x \<notin> set os" using ok by (auto simp: walk_ok_def)
  obtain s1 where s1: "bgp_info_mpath_dequeue x s = Some s1" "same_rest s s1" "multipath s1 = (multipath s)(x := False)"
      "walk_ok b new (next_of s x) os mps s1"
    using walk_dequeue [OF ok _ x(1)] by force
  note IH = rest [OF s1(4,2)]
  moreover have "bgp_info_mpath_next x s = Some (next_of s x)" using walk_comparable [OF ok] by (intro mpath_next_total) simp
  ultimately show ?thesis
    using s1 x purge same_rest_trans [OF s1(2)]
    unfolding walk_gives_def mpath_walk.simps [of limit "Some b" mps "Some x"] by (auto simp: fun_eq_iff)
qed

text \<open>A candidate that was not at this place of the list.\<close>

definition no_purge :: "nat option \<Rightarrow> nat \<Rightarrow> rib \<Rightarrow> bool" where
  "no_purge cur x s \<longleftrightarrow> (case cur of None \<Rightarrow> True | Some c \<Rightarrow> c \<noteq> x \<and> mpath_less c x s = Some False)"

lemma walk_add:
  assumes ok: "walk_ok b new cur olds (x # ms) s" and "no_purge cur x s"
    and add: "cnt < limit" "x \<noteq> b" "differs_in s (last (b # new)) x"
    and rest: "\<And>s'. walk_ok b (new @ [x]) cur (removeAll x olds) ms s' \<Longrightarrow> same_rest s s' \<Longrightarrow>
      walk_gives limit b (new @ [x]) cur (removeAll x olds) ms (cnt + 1) True s' xs"
  shows "walk_gives limit b new cur olds (x # ms) cnt chg s (x # xs)"
proof -
  have x: "x \<notin> set (b # new)" "cur \<noteq> Some x" using ok assms(2) add(2) by (auto simp: walk_ok_def no_purge_def)
  obtain s1 where s1: "bgp_info_mpath_dequeue x s = Some s1" "same_rest s s1" "multipath s1 = (multipath s)(x := False)"
      "next_of s1 x = None" "prev_of s1 x = None" "walk_ok b new cur (removeAll x olds) (x # ms) s1"
    using walk_dequeue [OF ok _ x(1)] x(2) by force
  from walk_enqueue [OF s1(6) add(2) _ s1(4,5)] obtain s2 where s2: "bgp_info_mpath_enqueue (last (b # new)) x s1 = Some s2"
      "same_rest s1 s2" "multipath s2 = (multipath s1)(x := True)" "walk_ok b (new @ [x]) cur (removeAll x olds) ms s2" by auto
  have "same_rest s s2" using s1(2) s2(2) by (rule same_rest_trans)
  note IH = rest [OF s2(4) this]
  moreover have "\<exists>n. (case cur of None \<Rightarrow> Some None | Some c \<Rightarrow> bgp_info_mpath_next c s) = Some n"
    using walk_comparable [OF ok] ok mpath_next_total by (cases olds) (auto simp: walk_ok_def split: option.splits)
  ultimately show ?thesis
    using assms(2) add s1 s2 x same_rest_trans [OF \<open>same_rest s s2\<close>]
    unfolding walk_gives_def mpath_walk.simps [of limit "Some b" "x # ms" cur]
    by (auto simp: fun_eq_iff add.assoc differs_in_def no_purge_def split: option.splits)
qed

lemma walk_skip:
  assumes ok: "walk_ok b new cur olds (x # ms) s" and "no_purge cur x s" "cur \<noteq> None \<or> cnt < limit"
    and skip: "\<not> (cnt < limit \<and> x \<noteq> b \<and> differs_in s (last (b # new)) x)"
    and rest: "walk_gives limit b new cur olds ms cnt chg s xs"
  shows "walk_gives limit b new cur olds (x # ms) cnt chg s xs"
proof -
  have "x \<noteq> b \<Longrightarrow> cnt < limit \<Longrightarrow> nexthop_differs (Some (last (b # new))) x s = Some False"
    using skip nexthop_differs_total [OF walk_last [OF ok] walk_comparable [OF ok], of x] by (auto simp: differs_in_def)
  moreover have "\<exists>n. (case cur of None \<Rightarrow> Some None | Some c \<Rightarrow> bgp_info_mpath_next c s) = Some n"
    using walk_comparable [OF ok] ok mpath_next_total by (cases olds) (auto simp: walk_ok_def split: option.splits)
  ultimately show ?thesis
    using assms(2,3) rest unfolding walk_gives_def mpath_walk.simps [of limit "Some b" "x # ms" cur]
    by (auto simp: no_purge_def split: option.splits)
qed

lemma mpath_pick_Nil [simp]: "mpath_pick d k b p [] = []"
  by (cases k) auto

lemma mpath_pick_Cons:
  "x \<noteq> b \<Longrightarrow> d p x \<Longrightarrow> 0 < k \<Longrightarrow> mpath_pick d k b p (x # xs) = x # mpath_pick d (k - 1) b x xs"
  "\<not> (x \<noteq> b \<and> d p x \<and> 0 < k) \<Longrightarrow> mpath_pick d k b p (x # xs) = mpath_pick d k b p xs"
  by (cases k; auto)+

lemma walk_stop:
  assumes "walk_ok b new None [] mps s" "mps = [] \<or> limit \<le> cnt"
  shows "walk_gives limit b new None [] mps cnt chg s []"
  using assms by (auto simp: walk_gives_def mpath_walk.simps [of limit "Some b" mps None] walk_ok_def)

definition walk_picks :: "u16 \<Rightarrow> nat \<Rightarrow> nat list \<Rightarrow> nat option \<Rightarrow> nat list \<Rightarrow> nat list \<Rightarrow> u16 \<Rightarrow> bool \<Rightarrow> rib \<Rightarrow> bool" where
  "walk_picks limit b new cur olds mps cnt chg s \<longleftrightarrow>
     walk_gives limit b new cur olds mps cnt chg s (mpath_pick (differs_in s) (unat limit - unat cnt) b (last (b # new)) mps)"

lemma same_rest_differs_in: "same_rest s s' \<Longrightarrow> differs_in s' = differs_in s"
  by (simp add: differs_in_def fun_eq_iff same_rest_differs)

lemma unat_room:
  fixes cnt limit :: u16
  shows "cnt < limit \<Longrightarrow> unat limit - unat (cnt + 1) = unat limit - unat cnt - 1" "0 < unat limit - unat cnt \<longleftrightarrow> cnt < limit"
proof -
  assume "cnt < limit"
  then have "unat (cnt + 1) = unat cnt + 1" using unsigned_less [of limit, where 'a = nat] by (simp add: word_less_nat_alt flip: unat_add_lem [of cnt 1, simplified])
  then show "unat limit - unat (cnt + 1) = unat limit - unat cnt - 1" by simp
qed (simp add: word_less_nat_alt)

lemma walk_same:
  assumes ok: "walk_ok b new (Some x) (x # os) (x # ms) s"
    and rest: "\<And>new' cnt' chg' s'. walk_ok b new' (next_of s x) os ms s' \<Longrightarrow> walk_picks limit b new' (next_of s x) os ms cnt' chg' s'"
  shows "walk_picks limit b new (Some x) (x # os) (x # ms) cnt chg s"
proof (cases "cnt < limit \<and> differs_in s (last (b # new)) x")
  case True
  have "walk_gives limit b (new @ [x]) (next_of s x) os ms (cnt + 1) chg s' (mpath_pick (differs_in s) (unat limit - unat cnt - 1) b x ms)"
    if "walk_ok b (new @ [x]) (next_of s x) os ms s'" "same_rest s s'" for s'
    using rest [OF that(1), of "cnt + 1" chg] same_rest_differs_in [OF that(2)] unat_room True by (simp add: walk_picks_def)
  from walk_keep [OF ok _ _ this] show ?thesis
    using True ok unat_room by (auto simp: walk_picks_def walk_ok_def mpath_pick_Cons(1))
next
  case False
  have IH: "walk_gives limit b new (next_of s x) os ms cnt True s' (mpath_pick (differs_in s) (unat limit - unat cnt) b (last (b # new)) ms)"
    if "walk_ok b new (next_of s x) os ms s'" "same_rest s s'" for s'
    using rest [OF that(1)] same_rest_differs_in [OF that(2)] by (simp add: walk_picks_def)
  have "\<not> (x \<noteq> b \<and> differs_in s (last (b # new)) x \<and> 0 < unat limit - unat cnt)" using False unat_room by auto
  from walk_lose [OF ok False IH] mpath_pick_Cons(2) [of x b "differs_in s", OF this] show ?thesis
    by (simp add: walk_picks_def)
qed

lemma walk_other:
  assumes ok: "walk_ok b new cur olds (x # ms) s" and "no_purge cur x s" "cur \<noteq> None \<or> cnt < limit"
    and rest: "\<And>new' olds' cnt' chg' s'. length olds' \<le> length olds \<Longrightarrow> walk_ok b new' cur olds' ms s' \<Longrightarrow>
      walk_picks limit b new' cur olds' ms cnt' chg' s'"
  shows "walk_picks limit b new cur olds (x # ms) cnt chg s"
proof (cases "cnt < limit \<and> x \<noteq> b \<and> differs_in s (last (b # new)) x")
  case True
  have "walk_gives limit b (new @ [x]) cur (removeAll x olds) ms (cnt + 1) True s'
      (mpath_pick (differs_in s) (unat limit - unat cnt - 1) b x ms)"
    if "walk_ok b (new @ [x]) cur (removeAll x olds) ms s'" "same_rest s s'" for s'
    using rest [OF _ that(1), of "cnt + 1" True] same_rest_differs_in [OF that(2)] unat_room True
    by (simp add: walk_picks_def length_removeAll_less_eq)
  from walk_add [OF ok assms(2) _ _ _ this] show ?thesis
    using True unat_room by (auto simp: walk_picks_def mpath_pick_Cons(1))
next
  case False
  have "walk_ok b new cur olds ms s" using ok by (auto simp: walk_ok_def)
  then have "walk_gives limit b new cur olds ms cnt chg s (mpath_pick (differs_in s) (unat limit - unat cnt) b (last (b # new)) ms)"
    using rest [of olds new] by (simp add: walk_picks_def)
  note skip = walk_skip [OF ok assms(2,3) False this]
  have "\<not> (x \<noteq> b \<and> differs_in s (last (b # new)) x \<and> 0 < unat limit - unat cnt)" using False unat_room by auto
  from skip mpath_pick_Cons(2) [of x b "differs_in s", OF this] show ?thesis by (simp add: walk_picks_def)
qed

lemma mpath_walk_picks: "walk_ok b new cur olds mps s \<Longrightarrow> walk_picks limit b new cur olds mps cnt chg s"
proof (induction "length mps + length olds" arbitrary: new cur olds mps s cnt chg rule: less_induct)
  case less
  note ok = less.prems
  consider (stop) "cur = None" "mps = [] \<or> limit \<le> cnt"
    | (purge) c where "cur = Some c" "mps = [] \<or> c \<noteq> hd mps \<and> mpath_less c (hd mps) s = Some True"
    | (same) x ms where "cur = Some x" "mps = x # ms"
    | (other) x ms where "mps = x # ms" "no_purge cur x s" "cur \<noteq> None \<or> cnt < limit"
  proof (cases cur; cases mps)
    fix c x ms
    assume *: "cur = Some c" "mps = x # ms"
    then have "comparable s c" "comparable s x" using ok by (auto simp: walk_ok_def) (cases olds; simp)
    then obtain d where "mpath_less c x s = Some d" using mpath_less_total by blast
    then show ?thesis using * that by (cases "c = x"; cases d) (auto simp: no_purge_def)
  qed (use that in \<open>cases "limit \<le> cnt"; auto simp: no_purge_def not_le\<close>)+
  then show ?case
  proof cases
    case stop
    then have "olds = []" using ok by (cases olds) (auto simp: walk_ok_def)
    moreover have "mpath_pick (differs_in s) (unat limit - unat cnt) b (last (b # new)) mps = []"
      using stop unat_room(2) [of limit cnt] by (auto simp: not_less)
    ultimately show ?thesis using walk_stop [of b new mps s limit cnt chg] ok stop by (simp add: walk_picks_def)
  next
    case purge
    then obtain os where os: "olds = c # os" using ok by (cases olds) (auto simp: walk_ok_def)
    have "walk_gives limit b new (next_of s c) os mps cnt True s' (mpath_pick (differs_in s) (unat limit - unat cnt) b (last (b # new)) mps)"
      if "walk_ok b new (next_of s c) os mps s'" "same_rest s s'" for s'
      using less.hyps [OF _ that(1)] same_rest_differs_in [OF that(2)] os by (simp add: walk_picks_def)
    from walk_purge [OF _ purge(2) this] show ?thesis using ok os purge(1) by (simp add: walk_picks_def)
  next
    case same
    then obtain os where os: "olds = x # os" using ok by (cases olds) (auto simp: walk_ok_def)
    then show ?thesis using walk_same [of b new x os ms s limit] less.hyps ok same by simp
  next
    case other
    show ?thesis using walk_other [of b new cur olds x ms s] less.hyps ok other by simp
  qed
qed

subsection \<open>The update as a choice from the candidates\<close>

lemma mpath_pick_length: "length (mpath_pick d k b p xs) \<le> k"
  by (induction d k b p xs rule: mpath_pick.induct) auto

lemma mpath_pick_subset: "set (mpath_pick d k b p xs) \<subseteq> set xs - {b}"
  by (induction d k b p xs rule: mpath_pick.induct) auto

lemma count_set_view:
  assumes "mpaths_ok s" "routes s i \<noteq> None"
  obtains s' where "bgp_info_mpath_count_set i n s = Some s'" "mpaths_ok s'" "next_of s' = next_of s" "multipath s' = multipath s"
    "count_of s' = (count_of s)(i := n)" "same_rest s s'"
proof -
  obtain r where r: "routes s i = Some r" using assms(2) by blast
  note at = obs_at [OF r]
  show ?thesis
  proof (cases "ri_mpath r")
    case None
    show ?thesis
    proof (cases "n = 0")
      case True
      then show ?thesis using None r at assms that [of s] by (simp add: bgp_info_mpath_count_set_def fun_upd_idem)
    next
      case False
      let ?s = "s\<lparr>routes := (routes s)(i \<mapsto> r\<lparr>ri_mpath := Some (bgp_info_mpath_new\<lparr>mp_count := n\<rparr>)\<rparr>)\<rparr>"
      have "obs ?s = (next_of s, prev_of s, (has_mpath s)(i := True), multipath s, (count_of s)(i := n), aggregate_of s, rest_of s)"
        using None at by (auto simp: obs_update bgp_info_mpath_new_def rest_upd_same intro!: fun_upd_idem)
      moreover have "bgp_info_mpath_count_set i n s = Some ?s"
        using None r False by (simp add: bgp_info_mpath_count_set_def bgp_info_mpath_get_def update_mpath_def)
      ultimately show ?thesis using assms(1) that [of ?s] by (auto simp: mpaths_ok_def obs_def same_rest_def)
    qed
  next
    case (Some m)
    let ?s = "s\<lparr>routes := (routes s)(i \<mapsto> r\<lparr>ri_mpath := Some (m\<lparr>mp_count := n\<rparr>)\<rparr>)\<rparr>"
    have "obs ?s = (next_of s, prev_of s, has_mpath s, multipath s, (count_of s)(i := n), aggregate_of s, rest_of s)"
      using Some at by (auto simp: obs_update rest_upd_same intro!: fun_upd_idem)
    moreover have "bgp_info_mpath_count_set i n s = Some ?s"
      using Some r by (simp add: bgp_info_mpath_count_set_def bgp_info_mpath_get_def update_mpath_def)
    ultimately show ?thesis using assms(1) that [of ?s] by (auto simp: mpaths_ok_def obs_def same_rest_def)
  qed
qed

lemma mpath_count_of: "routes s i \<noteq> None \<Longrightarrow> bgp_info_mpath_count i s = Some (count_of s i)"
  by (auto simp: bgp_info_mpath_count_def count_of_def mpath_of_def)

lemma mpath_first_of: "comparable s i \<Longrightarrow> bgp_info_mpath_first i s = Some (next_of s i)"
  by (simp add: bgp_info_mpath_first_def mpath_next_total)

text \<open>Changes of other flags.\<close>

lemma CHECK_FLAG_other:
  assumes "f AND g = 0"
  shows "CHECK_FLAG (SET_FLAG v f) g = CHECK_FLAG v g" "CHECK_FLAG (UNSET_FLAG v f) g = CHECK_FLAG v g"
proof -
  have bits: "\<not> (bit f n \<and> bit g n)" for n
    using arg_cong [OF assms, of "\<lambda>w. bit w n"] by (simp add: bit_simps)
  have "(v OR f) AND g = v AND g" "(v AND NOT f) AND g = v AND g" using bits by (auto intro!: bit_word_eqI simp: bit_simps)
  then show "CHECK_FLAG (SET_FLAG v f) g = CHECK_FLAG v g" "CHECK_FLAG (UNSET_FLAG v f) g = CHECK_FLAG v g"
    by (simp_all add: CHECK_FLAG_def SET_FLAG_def UNSET_FLAG_def)
qed

lemma other_flag_view:
  assumes "routes s i \<noteq> None" "f \<noteq> 0" "f AND BGP_INFO_MULTIPATH = 0"
  obtains s' where "SET_FLAGS f i s = Some s'" "next_of s' = next_of s" "prev_of s' = prev_of s" "has_mpath s' = has_mpath s"
    "multipath s' = multipath s" "count_of s' = count_of s" "aggregate_of s' = aggregate_of s" "flagged f s' i"
proof -
  obtain r where r: "routes s i = Some r" using assms(1) by blast
  let ?s = "s\<lparr>routes := (routes s)(i \<mapsto> with_flags (\<lambda>v. SET_FLAG v f) r)\<rparr>"
  have "SET_FLAGS f i s = Some ?s" "flagged f ?s i" using r assms(2) by (simp_all add: update_route_def flagged_def)
  moreover have "obs ?s = (next_of s, prev_of s, has_mpath s, multipath s, count_of s, aggregate_of s, rest_of ?s)"
    using obs_at [OF r] obs_update [of s i "with_flags (\<lambda>v. SET_FLAG v f) r"] CHECK_FLAG_other(1) [OF assms(3)]
    by (auto simp: obs_def fun_upd_idem)
  ultimately show ?thesis using that [of ?s] by (auto simp: obs_def)
qed

definition old_list :: "rib \<Rightarrow> nat option \<Rightarrow> nat list \<Rightarrow> bool" where
  "old_list s old olds \<longleftrightarrow> (case old of
     None \<Rightarrow> olds = []
   | Some i \<Rightarrow> path (next_of s) (Some i) (i # olds) \<and> distinct (i # olds) \<and> (\<forall>x\<in>set (i # olds). comparable s x))"

lemma detach_new_best_view:
  assumes "mpaths_ok s" "comparable s b" "old_list s old olds"
  obtains s' where "detach_new_best (Some b) old s = Some s'" "mpaths_ok s'" "same_rest s s'" "old = Some b \<or> next_of s' b = None"
    "multipath s' = (if old = Some b then multipath s else (multipath s)(b := False))" "old_list s' old (removeAll b olds)"
proof (cases "old = Some b")
  case True
  then have "removeAll b olds = olds" using assms(3) by (simp add: old_list_def)
  then show ?thesis using assms(1,3) True that [of s] by (simp add: detach_new_best_def)
next
  case False
  from dequeue_step [OF assms(1,2)] obtain s' where s': "bgp_info_mpath_dequeue b s = Some s'" "mpaths_ok s'" "same_rest s s'"
    "multipath s' = (multipath s)(b := False)" "next_of s' = unlink b (next_of s)" "prev_of s' b = None" .
  have "old_list s' old (removeAll b olds)"
  proof (cases old)
    case (Some i)
    then have "path (unlink b (next_of s)) (Some i) (removeAll b (i # olds))"
      using assms(3) False by (intro path_unlink) (auto simp: old_list_def)
    then show ?thesis
      using assms(3) Some False s'(5) same_rest_comparable [OF s'(3)] by (auto simp: old_list_def distinct_removeAll)
  qed (use assms(3) in \<open>simp add: old_list_def\<close>)
  then show ?thesis using s' False that [of s'] by (simp add: detach_new_best_def unlink_def [of b _ b])
qed

lemma detach_old_best_view:
  assumes "mpaths_ok s" "comparable s b" "old_list s old olds" "old = Some b \<or> next_of s b = None" "b \<notin> set olds"
  obtains cur n s' where "detach_old_best old s = Some (cur, n, s')" "mpaths_ok s'" "same_rest s s'" "path (next_of s') cur olds"
    "next_of s' b = None" "multipath s' = (\<lambda>x. Some x \<noteq> old \<and> multipath s x)"
proof (cases old)
  case None
  then show ?thesis using assms that [of None 0 s] by (simp add: detach_old_best_def old_list_def)
next
  case (Some i)
  then have i: "comparable s i" "path (next_of s) (next_of s i) olds" "i \<notin> set olds" "routes s i \<noteq> None"
    using assms(3) by (auto simp: old_list_def comparable_def)
  from count_set_view [OF assms(1) i(4), of 0] obtain s1 where s1: "bgp_info_mpath_count_set i 0 s = Some s1" "mpaths_ok s1"
    "next_of s1 = next_of s" "multipath s1 = multipath s" "count_of s1 = (count_of s)(i := 0)" "same_rest s s1" .
  have "comparable s1 i" using i(1) same_rest_comparable [OF s1(6)] by simp
  from dequeue_step [OF s1(2) this] obtain s' where s': "bgp_info_mpath_dequeue i s1 = Some s'" "mpaths_ok s'" "same_rest s1 s'"
    "multipath s' = (multipath s1)(i := False)" "next_of s' = unlink i (next_of s1)" "prev_of s' i = None" .
  have "next_of s' b = None" using s'(5) s1(3) assms(4) Some by (auto simp: unlink_def)
  moreover have "path (next_of s') (next_of s i) olds" using path_unlink_other [OF i(2,3)] s'(5) s1(3) by simp
  moreover have "detach_old_best old s = Some (next_of s i, ucast (count_of s i), s')"
    using s' s1 Some mpath_first_of [OF i(1)] mpath_count_of [OF i(4)] by (simp add: detach_old_best_def)
  moreover have "multipath s' = (\<lambda>x. Some x \<noteq> old \<and> multipath s x)" using s'(4) s1(4) Some by (simp add: fun_eq_iff)
  ultimately show ?thesis using that s'(2) same_rest_trans [OF s1(6) s'(3)] by blast
qed

lemma ucast_count: "n + 1 < 2 ^ 16 \<Longrightarrow> ucast (1 + of_nat n :: u16) - 1 = (of_nat n :: u32)"
proof -
  assume "n + 1 < 2 ^ 16"
  then have "ucast (of_nat (Suc n) :: u16) = (of_nat (Suc n) :: u32)" by (simp add: unsigned_of_nat take_bit_nat_eq_self del: of_nat_Suc)
  then show ?thesis by simp
qed

lemma mpath_finish_view:
  assumes "mpaths_ok s" "routes s b \<noteq> None"
  obtains s' where "(do {
      s \<leftarrow> bgp_info_mpath_count_set b k s;
      n \<leftarrow> bgp_info_mpath_count b s;
      if chg \<or> n \<noteq> m then SET_FLAGS BGP_INFO_MULTIPATH_CHG b s else Some s }) = Some s'" "mpaths_ok s'" "next_of s' = next_of s"
    "multipath s' = multipath s" "count_of s' b = k" "aggregate_of s' = aggregate_of s" "\<not> chg \<or> flagged BGP_INFO_MULTIPATH_CHG s' b"
    "routes s' b \<noteq> None"
proof -
  from count_set_view [OF assms] obtain s1 where s1: "bgp_info_mpath_count_set b k s = Some s1" "mpaths_ok s1" "next_of s1 = next_of s"
    "multipath s1 = multipath s" "count_of s1 = (count_of s)(b := k)" "same_rest s s1" .
  have b: "routes s1 b \<noteq> None" using assms(2) s1(6) rest_routes [of s1 s b] by (simp add: same_rest_def)
  show ?thesis
  proof (cases "chg \<or> k \<noteq> m")
    case True
    have "BGP_INFO_MULTIPATH_CHG \<noteq> 0" "BGP_INFO_MULTIPATH_CHG AND BGP_INFO_MULTIPATH = 0" by code_simp+
    from other_flag_view [OF b this] obtain s' where s': "SET_FLAGS BGP_INFO_MULTIPATH_CHG b s1 = Some s'" "next_of s' = next_of s1"
      "prev_of s' = prev_of s1" "has_mpath s' = has_mpath s1" "multipath s' = multipath s1" "count_of s' = count_of s1"
      "aggregate_of s' = aggregate_of s1" "flagged BGP_INFO_MULTIPATH_CHG s' b" .
    moreover have "routes s' b \<noteq> None" using s'(8) by (cases "routes s' b") (simp_all add: flagged_def)
    ultimately show ?thesis using s1 True mpath_count_of [OF b] that [of s'] by (simp add: mpaths_ok_def same_rest_def)
  next
    case False
    then show ?thesis using s1 b mpath_count_of [OF b] that [of s1] by (simp add: same_rest_def)
  qed
qed

lemma mpath_update_picks:
  assumes ok: "mpaths_ok s" and cmp: "\<forall>x\<in>set (b # mps). comparable s x" and old: "old_list s old olds" and mps: "distinct mps"
    and limit: "maxpaths_for cfg b s = Some limit" and xs: "xs = mpath_pick (differs_in s) (unat limit - 1) b b mps"
  obtains s' where "bgp_info_mpath_update (Some b) old mps cfg s = Some s'" "mpaths_ok s'" "path (next_of s') (Some b) (b # xs)"
    "multipath s' = (\<lambda>x. x \<in> set xs \<or> x \<notin> set (b # olds) \<and> Some x \<noteq> old \<and> multipath s x)"
    "count_of s' b = of_nat (length xs)" "aggregate_of s' = aggregate_of s" "xs = removeAll b olds \<or> flagged BGP_INFO_MULTIPATH_CHG s' b"
    "routes s' b \<noteq> None"
proof -
  have b: "comparable s b" "routes s b \<noteq> None" using cmp by (auto simp: comparable_def)
  from detach_new_best_view [OF ok b(1) old] obtain s1 where s1: "detach_new_best (Some b) old s = Some s1" "mpaths_ok s1"
    "same_rest s s1" "old = Some b \<or> next_of s1 b = None" "multipath s1 = (if old = Some b then multipath s else (multipath s)(b := False))"
    "old_list s1 old (removeAll b olds)" .
  have b1: "comparable s1 b" using b(1) same_rest_comparable [OF s1(3)] by simp
  have lim: "maxpaths_for cfg b s1 = Some limit"
    using limit same_rest_route [OF s1(3), of b] by (cases "routes s b"; cases "routes s1 b") (auto simp: maxpaths_for_def)
  obtain cur n s2 where s2: "detach_old_best old s1 = Some (cur, n, s2)" "mpaths_ok s2" "same_rest s1 s2"
    "path (next_of s2) cur (removeAll b olds)" "next_of s2 b = None" "multipath s2 = (\<lambda>x. Some x \<noteq> old \<and> multipath s1 x)"
    by (rule detach_old_best_view [OF s1(2) b1 s1(6,4)]) auto
  have same: "same_rest s s2" using same_rest_trans [OF s1(3) s2(3)] .
  have "walk_ok b [] cur (removeAll b olds) mps s2"
    using s2(2,4,5) old mps cmp by (auto simp: walk_ok_def same_rest_comparable [OF same] old_list_def distinct_removeAll split: option.splits)
  from mpath_walk_picks [OF this, of limit 1 False] obtain s3 chg where
    s3: "mpath_walk limit (Some b) mps cur (Some b) 1 False s2 = Some (1 + of_nat (length xs), chg, s3)" "mpaths_ok s3" "same_rest s2 s3"
      "path (next_of s3) (Some b) (b # xs)" "multipath s3 = (\<lambda>x. x \<in> set xs \<or> x \<notin> set (removeAll b olds) \<and> multipath s2 x)"
      "chg \<or> removeAll b olds = xs"
    using xs same_rest_differs_in [OF same] by (auto simp: walk_picks_def walk_gives_def)
  have "routes s3 b \<noteq> None" using b(1) same_rest_comparable [OF same_rest_trans [OF same s3(3)], of b] by (auto simp: comparable_def)
  from mpath_finish_view [OF s3(2) this, of "ucast (1 + of_nat (length xs) :: u16) - 1" chg "ucast n"] obtain s' where
    s': "(do {
        s \<leftarrow> bgp_info_mpath_count_set b (ucast (1 + of_nat (length xs) :: u16) - 1) s3;
        m \<leftarrow> bgp_info_mpath_count b s;
        if chg \<or> m \<noteq> ucast n then SET_FLAGS BGP_INFO_MULTIPATH_CHG b s else Some s }) = Some s'" "mpaths_ok s'" "next_of s' = next_of s3"
      "multipath s' = multipath s3" "count_of s' b = ucast (1 + of_nat (length xs) :: u16) - 1" "aggregate_of s' = aggregate_of s3"
      "\<not> chg \<or> flagged BGP_INFO_MULTIPATH_CHG s' b" "routes s' b \<noteq> None" .
  have "bgp_info_mpath_update (Some b) old mps cfg s = Some s'"
    using s1(1) lim s2(1) s3(1) s'(1) by (simp add: bgp_info_mpath_update_def)
  moreover have "ucast (1 + of_nat (length xs) :: u16) - 1 = (of_nat (length xs) :: u32)"
    using mpath_pick_length [of "differs_in s" "unat limit - 1" b b mps] unsigned_less [of limit, where 'a = nat] xs
    by (intro ucast_count) simp
  moreover have "multipath s' = (\<lambda>x. x \<in> set xs \<or> x \<notin> set (b # olds) \<and> Some x \<noteq> old \<and> multipath s x)"
    unfolding s'(4) s3(5) s2(6) s1(5) by (auto simp: fun_eq_iff)
  moreover have "aggregate_of s' = aggregate_of s" using s'(6) same s3(3) by (simp add: same_rest_def)
  ultimately show ?thesis using s'(2,3,5,7,8) s3(4,6) that [of s'] by auto
qed

text \<open>C8.  The update of the multipath set walks through the old list and the sorted candidates in parallel, on linked lists that it takes apart and
  rebuilds, and always ends.  The new list of the best route holds the first candidates, other than the best route itself, whose
  next hop differs from that of the one before, as many as \<^verbatim>\<open>maximum-paths\<close> allows.  Exactly these are flagged among the routes of both lists and the two
  best routes, the count is right, the links of all lists stay consistent, and a set that differs from the old one is flagged as changed.\<close>

theorem multipath_set_is_choice:
  assumes "mpaths_ok s" "\<forall>x\<in>set (b # mps). comparable s x" "old_list s old olds" "distinct mps" "maxpaths_for cfg b s = Some limit"
  shows "\<exists>s'. bgp_info_mpath_update (Some b) old mps cfg s = Some s' \<and> mpaths_ok s' \<and>
    (let xs = mpath_pick (differs_in s) (unat limit - 1) b b mps in
     path (next_of s') (Some b) (b # xs) \<and> (\<forall>x. multipath s' x \<longleftrightarrow> x \<in> set xs \<or> x \<notin> set (b # olds) \<and> Some x \<noteq> old \<and> multipath s x) \<and>
     bgp_info_mpath_count b s' = Some (of_nat (length xs)) \<and> (xs = removeAll b olds \<or> flagged BGP_INFO_MULTIPATH_CHG s' b))"
proof -
  let ?xs = "mpath_pick (differs_in s) (unat limit - 1) b b mps"
  from mpath_update_picks [OF assms refl] obtain s' where s': "bgp_info_mpath_update (Some b) old mps cfg s = Some s'" "mpaths_ok s'"
    "path (next_of s') (Some b) (b # ?xs)" "multipath s' = (\<lambda>x. x \<in> set ?xs \<or> x \<notin> set (b # olds) \<and> Some x \<noteq> old \<and> multipath s x)"
    "count_of s' b = of_nat (length ?xs)" "aggregate_of s' = aggregate_of s" "?xs = removeAll b olds \<or> flagged BGP_INFO_MULTIPATH_CHG s' b"
    "routes s' b \<noteq> None" .
  then show ?thesis using s' mpath_count_of [of s' b] by (auto simp: Let_def)
qed

text \<open>Route 1 with route 2 as multipath.\<close>

definition mpath_route :: "u32 \<Rightarrow> u16 \<Rightarrow> bgp_info_mpath option \<Rightarrow> rib_route" where
  "mpath_route n f m = \<lparr>ri = (example_route strict_bgp 7 0 n)\<lparr>bi_flags := f\<rparr>, ri_lock = 1, ri_peer = unat n, ri_mpath = m\<rparr>"

definition two_paths :: rib where
  "two_paths = \<lparr>rn_info = \<lambda>_. [1, 2, 3], rn_lock = \<lambda>_. 1,
     routes = [1 \<mapsto> mpath_route 1 0 (Some (bgp_info_mpath_new\<lparr>mp_next := Some 2, mp_count := 1\<rparr>)),
       2 \<mapsto> mpath_route 2 BGP_INFO_MULTIPATH (Some (bgp_info_mpath_new\<lparr>mp_prev := Some 1\<rparr>)), 3 \<mapsto> mpath_route 3 0 None],
     pcount = \<lambda>_. 0, peer_locks = \<lambda>_. 1, table_main = True, peer_self = 0\<rparr>"

lemma two_paths_links: "next_of two_paths = [1 \<mapsto> 2]" "prev_of two_paths = [2 \<mapsto> 1]" "mpaths_ok two_paths"
proof -
  show n: "next_of two_paths = [1 \<mapsto> 2]" and p: "prev_of two_paths = [2 \<mapsto> 1]"
    by (auto simp: next_of_def prev_of_def mpath_of_def two_paths_def mpath_route_def bgp_info_mpath_new_def)
  have "multipath two_paths i \<Longrightarrow> has_mpath two_paths i" for i
    by (auto simp: flagged_def has_mpath_def mpath_of_def two_paths_def mpath_route_def route_flags_def CHECK_FLAG_def split: if_splits)
  then show "mpaths_ok two_paths" by (auto simp: mpaths_ok_def inverse_maps_def n p)
qed

theorem multipath_set_is_choice_witness:
  "\<exists>s'. bgp_info_mpath_update (Some 3) (Some 1) [1, 2, 3] \<lparr>maxpaths_ebgp = 3, maxpaths_ibgp = 1\<rparr> two_paths = Some s' \<and>
     path (next_of s') (Some 3) [3, 1, 2] \<and> multipath s' 1 \<and> multipath s' 2 \<and> \<not> multipath s' 3 \<and> flagged BGP_INFO_MULTIPATH_CHG s' 3"
proof -
  have cmp: "comparable two_paths 1" "comparable two_paths 2" "comparable two_paths 3"
    by (simp_all add: comparable_def two_paths_def mpath_route_def example_route_def)
  have "\<forall>x\<in>set (3 # [1, 2, 3]). comparable two_paths x" using cmp by simp
  moreover have "old_list two_paths (Some 1) [2]" using cmp by (simp add: old_list_def two_paths_links)
  moreover have "maxpaths_for \<lparr>maxpaths_ebgp = 3, maxpaths_ibgp = 1\<rparr> 3 two_paths = Some 3"
    by (simp add: maxpaths_for_def two_paths_def mpath_route_def example_route_def)
  moreover have "differs_in two_paths 3 1" "differs_in two_paths 1 2"
    by (simp_all add: differs_in_def nexthop_differs_def two_paths_def mpath_route_def example_route_def bgp_info_nexthop_cmp_def addr4_cmp_def)
  then have "mpath_pick (differs_in two_paths) (unat (3 :: u16) - 1) 3 3 [1, 2, 3] = [1, 2]"
    using mpath_pick_Cons(1) [of 1 3 "differs_in two_paths" 3 2] mpath_pick_Cons(1) [of 2 3 "differs_in two_paths" 1 1] by simp
  ultimately show ?thesis
    using multipath_set_is_choice [OF two_paths_links(3), of 3 "[1, 2, 3]" "Some 1" "[2]" "\<lparr>maxpaths_ebgp = 3, maxpaths_ibgp = 1\<rparr>" 3]
    by (auto simp: Let_def)
qed

end
