(* ===== verification/Bgp_Rib.thy ===== *)
theory Bgp_Rib
  imports Bgp_Mpath
begin

text \<open>
  The operations on the routes of a table and the prefix counts of the peers (\<^verbatim>\<open>bgpd/bgp_route.c\<close>).

  The state is that of one table.  The tests of \<^verbatim>\<open>bgp_pcount_adjust\<close> that its pointers are not null hold by the types.  A node is
  deleted by the table (\<open>Ztable\<close>) when its last lock goes; here only the count is kept, and a peer is freed when its count reaches zero, which no
  operation on routes can observe.
\<close>

subsection \<open>Operations\<close>

definition BGP_INFO_UNUSEABLE :: u16 where
  "BGP_INFO_UNUSEABLE = BGP_INFO_HISTORY OR BGP_INFO_DAMPED OR BGP_INFO_REMOVED"

definition BGP_INFO_HOLDDOWN :: "rib_route \<Rightarrow> bool" where
  "BGP_INFO_HOLDDOWN r \<longleftrightarrow> \<not> CHECK_FLAG (route_flags r) BGP_INFO_VALID \<or> CHECK_FLAG (route_flags r) BGP_INFO_UNUSEABLE"

definition peer_lock :: "nat \<Rightarrow> rib \<Rightarrow> rib option" where
  "peer_lock p s = do { zassert (0 \<le> peer_locks s p); Some (s\<lparr>peer_locks := (peer_locks s)(p := peer_locks s p + 1)\<rparr>) }"

definition peer_unlock :: "nat \<Rightarrow> rib \<Rightarrow> rib option" where
  "peer_unlock p s = do { zassert (0 < peer_locks s p); Some (s\<lparr>peer_locks := (peer_locks s)(p := peer_locks s p - 1)\<rparr>) }"

definition bgp_lock_node :: "nat \<Rightarrow> rib \<Rightarrow> rib" where
  "bgp_lock_node rn s = s\<lparr>rn_lock := (rn_lock s)(rn := rn_lock s rn + 1)\<rparr>"

definition bgp_unlock_node :: "nat \<Rightarrow> rib \<Rightarrow> rib option" where
  "bgp_unlock_node rn s = do { zassert (0 < rn_lock s rn); Some (s\<lparr>rn_lock := (rn_lock s)(rn := rn_lock s rn - 1)\<rparr>) }"

text \<open>Freeing a route gives back its attribute and its multipath structure with it.\<close>

definition bgp_info_free :: "nat \<Rightarrow> rib \<Rightarrow> rib option" where
  "bgp_info_free binfo s = do {
     r \<leftarrow> routes s binfo;
     s \<leftarrow> peer_unlock (ri_peer r) s;
     Some (s\<lparr>routes := (routes s)(binfo := None)\<rparr>) }"

definition bgp_info_lock :: "nat \<Rightarrow> rib \<Rightarrow> rib option" where
  "bgp_info_lock binfo = update_route binfo (\<lambda>r. r\<lparr>ri_lock := ri_lock r + 1\<rparr>)"

definition bgp_info_unlock :: "nat \<Rightarrow> rib \<Rightarrow> rib option" where
  "bgp_info_unlock binfo s = do {
     r \<leftarrow> routes s binfo;
     zassert (0 < ri_lock r);
     s \<leftarrow> update_route binfo (\<lambda>r. r\<lparr>ri_lock := ri_lock r - 1\<rparr>) s;
     if ri_lock r - 1 = 0 then bgp_info_free binfo s else Some s }"

definition bgp_info_add :: "nat \<Rightarrow> nat \<Rightarrow> rib \<Rightarrow> rib option" where
  "bgp_info_add rn i s = do {
     s \<leftarrow> bgp_info_lock i (s\<lparr>rn_info := (rn_info s)(rn := i # rn_info s rn)\<rparr>);
     r \<leftarrow> routes s i;
     peer_lock (ri_peer r) (bgp_lock_node rn s) }"

definition bgp_info_reap :: "nat \<Rightarrow> nat \<Rightarrow> rib \<Rightarrow> rib option" where
  "bgp_info_reap rn i s = do {
     s \<leftarrow> bgp_info_mpath_dequeue i (s\<lparr>rn_info := (rn_info s)(rn := remove1 i (rn_info s rn))\<rparr>);
     s \<leftarrow> bgp_info_unlock i s;
     bgp_unlock_node rn s }"

text \<open>An attempt to decrement a count of zero only logs a warning.\<close>

definition bgp_pcount_adjust :: "nat \<Rightarrow> rib \<Rightarrow> rib option" where
  "bgp_pcount_adjust i s = do {
     r \<leftarrow> routes s i;
     if \<not> table_main s \<or> ri_peer r = peer_self s then Some s
     else if BGP_INFO_HOLDDOWN r \<and> CHECK_FLAG (route_flags r) BGP_INFO_COUNTED then do {
       s \<leftarrow> UNSET_FLAGS BGP_INFO_COUNTED i s;
       Some (if pcount s (ri_peer r) \<noteq> 0 then s\<lparr>pcount := (pcount s)(ri_peer r := pcount s (ri_peer r) - 1)\<rparr> else s) }
     else if \<not> BGP_INFO_HOLDDOWN r \<and> \<not> CHECK_FLAG (route_flags r) BGP_INFO_COUNTED then do {
       s \<leftarrow> SET_FLAGS BGP_INFO_COUNTED i s;
       Some (s\<lparr>pcount := (pcount s)(ri_peer r := pcount s (ri_peer r) + 1)\<rparr>) }
     else Some s }"

definition bgp_info_set_flag :: "nat \<Rightarrow> u16 \<Rightarrow> rib \<Rightarrow> rib option" where
  "bgp_info_set_flag i f s = do {
     s \<leftarrow> SET_FLAGS f i s;
     if \<not> CHECK_FLAG f (BGP_INFO_VALID OR BGP_INFO_UNUSEABLE) then Some s else bgp_pcount_adjust i s }"

definition bgp_info_unset_flag :: "nat \<Rightarrow> u16 \<Rightarrow> rib \<Rightarrow> rib option" where
  "bgp_info_unset_flag i f s = do {
     s \<leftarrow> UNSET_FLAGS f i s;
     if \<not> CHECK_FLAG f (BGP_INFO_VALID OR BGP_INFO_UNUSEABLE) then Some s else bgp_pcount_adjust i s }"

definition bgp_info_delete :: "nat \<Rightarrow> rib \<Rightarrow> rib option" where
  "bgp_info_delete i s = do {
     s \<leftarrow> bgp_info_set_flag i BGP_INFO_REMOVED s;
     UNSET_FLAGS BGP_INFO_VALID i s }"

definition bgp_info_restore :: "nat \<Rightarrow> rib \<Rightarrow> rib option" where
  "bgp_info_restore i s = do {
     s \<leftarrow> bgp_info_unset_flag i BGP_INFO_REMOVED s;
     SET_FLAGS BGP_INFO_VALID i s }"

subsection \<open>Prefix counts\<close>

abbreviation counted :: "rib \<Rightarrow> nat \<Rightarrow> bool" where
  "counted \<equiv> flagged BGP_INFO_COUNTED"

definition usable :: "rib \<Rightarrow> nat \<Rightarrow> bool" where
  "usable s i \<longleftrightarrow> (case routes s i of None \<Rightarrow> False | Some r \<Rightarrow> \<not> BGP_INFO_HOLDDOWN r)"

definition routes_of :: "rib \<Rightarrow> nat \<Rightarrow> nat set" where
  "routes_of s p = {i. \<exists>r. routes s i = Some r \<and> ri_peer r = p}"

text \<open>A route counts when it is usable and was learned from another peer for the main table.\<close>

definition counts :: "rib \<Rightarrow> nat \<Rightarrow> bool" where
  "counts s i \<longleftrightarrow> table_main s \<and> i \<notin> routes_of s (peer_self s) \<and> usable s i"

definition marks_ok :: "rib \<Rightarrow> bool" where
  "marks_ok s \<longleftrightarrow> finite (dom (routes s)) \<and> card (dom (routes s)) < 2 ^ 64 \<and>
     (\<forall>p. table_main s \<longrightarrow> p \<noteq> peer_self s \<longrightarrow> pcount s p = of_nat (card {i \<in> routes_of s p. counted s i}))"

definition counts_ok :: "rib \<Rightarrow> bool" where
  "counts_ok s \<longleftrightarrow> marks_ok s \<and> (\<forall>i. counted s i \<longleftrightarrow> counts s i)"

lemma with_flags_more [simp]: "ri_peer (with_flags g r) = ri_peer r" "ri_lock (with_flags g r) = ri_lock r"
  by (simp_all add: with_flags_def)

lemma views_pcount [simp]:
  "routes_of (s\<lparr>pcount := v\<rparr>) = routes_of s" "flagged f (s\<lparr>pcount := v\<rparr>) = flagged f s" "usable (s\<lparr>pcount := v\<rparr>) = usable s"
  by (auto simp: routes_of_def flagged_def usable_def)

lemma flag_update:
  assumes "routes s i = Some r" "s' = s\<lparr>routes := (routes s)(i \<mapsto> with_flags g r)\<rparr>"
  shows "routes_of s' = routes_of s" "dom (routes s') = dom (routes s)"
    "flagged f s' = (flagged f s)(i := CHECK_FLAG (g (route_flags r)) f)" "usable s' = (usable s)(i := \<not> BGP_INFO_HOLDDOWN (with_flags g r))"
  using assms by (auto simp: routes_of_def flagged_def usable_def fun_eq_iff)

lemma marks_ok_cong:
  assumes "marks_ok s" "dom (routes s') = dom (routes s)" "routes_of s' = routes_of s" "counted s' = counted s" "pcount s' = pcount s"
    "table_main s' = table_main s" "peer_self s' = peer_self s"
  shows "marks_ok s'"
  using assms by (simp add: marks_ok_def)

lemma counted_card:
  assumes "marks_ok s" "i \<in> routes_of s p"
  shows "finite {i \<in> routes_of s p. counted s i}" "card {i \<in> routes_of s p. counted s i} < 2 ^ 64"
proof -
  have "{i \<in> routes_of s p. counted s i} \<subseteq> dom (routes s)" by (auto simp: routes_of_def)
  then show "finite {i \<in> routes_of s p. counted s i}" "card {i \<in> routes_of s p. counted s i} < 2 ^ 64"
    using assms(1) finite_subset card_mono [of "dom (routes s)" "{i \<in> routes_of s p. counted s i}"] by (auto simp: marks_ok_def)
qed

text \<open>The number of marked routes of the peers when one mark changes.\<close>

lemma pcount_mark:
  assumes ok: "marks_ok s" and r: "routes s i = Some r" "ri_peer r = p" and main: "table_main s" "p \<noteq> peer_self s"
    and s': "s' = s\<lparr>routes := (routes s)(i \<mapsto> with_flags g r)\<rparr>" and change: "CHECK_FLAG (g (route_flags r)) BGP_INFO_COUNTED \<longleftrightarrow> \<not> counted s i"
  shows "marks_ok (s'\<lparr>pcount := (pcount s)(p := if counted s i then pcount s p - 1 else pcount s p + 1)\<rparr>)"
    and "counted s i \<Longrightarrow> pcount s p \<noteq> 0"
proof -
  let ?A = "{i \<in> routes_of s p. counted s i}" and ?s = "s'\<lparr>pcount := (pcount s)(p := if counted s i then pcount s p - 1 else pcount s p + 1)\<rparr>"
  note upd = flag_update [OF r(1) s']
  have i: "i \<in> routes_of s p" using r by (simp add: routes_of_def)
  note A = counted_card [OF ok i]
  have same: "routes_of ?s = routes_of s" "dom (routes ?s) = dom (routes s)" "counted ?s = (counted s)(i := \<not> counted s i)"
    using upd change by auto
  have "{j \<in> routes_of s p. counted ?s j} = (if counted s i then ?A - {i} else insert i ?A)" using i same(3) by auto
  moreover have "{j \<in> routes_of s q. counted ?s j} = {j \<in> routes_of s q. counted s j}" if "q \<noteq> p" for q
    using that same(3) r by (auto simp: routes_of_def)
  moreover have "0 < card ?A" if "counted s i" using i that A(1) by (auto simp: card_gt_0_iff)
  ultimately show "marks_ok ?s"
    using ok main s' A(1) i same(1,2) by (auto simp: marks_ok_def of_nat_diff card_Diff_singleton_if Suc_le_eq)
  show "pcount s p \<noteq> 0" if "counted s i"
  proof -
    have "0 < card ?A" using i that A(1) by (auto simp: card_gt_0_iff)
    then show ?thesis using ok main A(2) by (simp add: marks_ok_def word_of_nat_eq_0_iff nat_dvd_not_less)
  qed
qed

lemma COUNTED_nonzero [simp]: "BGP_INFO_COUNTED \<noteq> 0"
  by simp

lemma holddown_COUNTED [simp]:
  "BGP_INFO_HOLDDOWN (with_flags (\<lambda>v. SET_FLAG v BGP_INFO_COUNTED) r) = BGP_INFO_HOLDDOWN r"
  "BGP_INFO_HOLDDOWN (with_flags (\<lambda>v. UNSET_FLAG v BGP_INFO_COUNTED) r) = BGP_INFO_HOLDDOWN r"
proof -
  have "BGP_INFO_COUNTED AND BGP_INFO_VALID = 0" "BGP_INFO_COUNTED AND BGP_INFO_UNUSEABLE = 0" by code_simp+
  then show "BGP_INFO_HOLDDOWN (with_flags (\<lambda>v. SET_FLAG v BGP_INFO_COUNTED) r) = BGP_INFO_HOLDDOWN r"
    "BGP_INFO_HOLDDOWN (with_flags (\<lambda>v. UNSET_FLAG v BGP_INFO_COUNTED) r) = BGP_INFO_HOLDDOWN r"
    by (simp_all add: BGP_INFO_HOLDDOWN_def CHECK_FLAG_other)
qed

lemma pcount_adjust_counts:
  assumes ok: "marks_ok s" and r: "routes s i = Some r" and others: "\<forall>j. j \<noteq> i \<longrightarrow> (counted s j \<longleftrightarrow> counts s j)"
    and self: "counted s i \<longrightarrow> table_main s \<and> ri_peer r \<noteq> peer_self s"
  obtains s' where "bgp_pcount_adjust i s = Some s'" "counts_ok s'" "usable s' = usable s" "routes_of s' = routes_of s"
    "table_main s' = table_main s" "peer_self s' = peer_self s" "rn_info s' = rn_info s"
proof -
  have i: "usable s i \<longleftrightarrow> \<not> BGP_INFO_HOLDDOWN r" "counted s i \<longleftrightarrow> CHECK_FLAG (route_flags r) BGP_INFO_COUNTED"
    "i \<in> routes_of s (peer_self s) \<longleftrightarrow> ri_peer r = peer_self s"
    using r by (simp_all add: usable_def flagged_def routes_of_def)
  show ?thesis
  proof (cases "\<not> table_main s \<or> ri_peer r = peer_self s \<or> (counted s i \<longleftrightarrow> usable s i)")
    case True
    then have "bgp_pcount_adjust i s = Some s" using r i by (auto simp: bgp_pcount_adjust_def)
    moreover have "counted s i \<longleftrightarrow> counts s i" using True i self by (auto simp: counts_def)
    then have "counts_ok s" using ok others by (metis counts_ok_def)
    ultimately show ?thesis using that by blast
  next
    case False
    define g where "g = (if counted s i then (\<lambda>v. UNSET_FLAG v BGP_INFO_COUNTED) else (\<lambda>v. SET_FLAG v BGP_INFO_COUNTED))"
    define n where "n = (if counted s i then pcount s (ri_peer r) - 1 else pcount s (ri_peer r) + 1)"
    define t where "t = s\<lparr>routes := (routes s)(i \<mapsto> with_flags g r), pcount := (pcount s)(ri_peer r := n)\<rparr>"
    have g: "CHECK_FLAG (g (route_flags r)) BGP_INFO_COUNTED \<longleftrightarrow> \<not> counted s i" "BGP_INFO_HOLDDOWN (with_flags g r) = BGP_INFO_HOLDDOWN r"
      by (simp_all add: g_def)
    have m: "marks_ok t" "counted s i \<Longrightarrow> pcount s (ri_peer r) \<noteq> 0"
      using pcount_mark [where g = g, OF ok r refl _ _ refl g(1)] False by (auto simp: t_def n_def)
    have same: "usable t = usable s" "routes_of t = routes_of s" "counted t = (counted s)(i := \<not> counted s i)"
      using flag_update [OF r refl, where g = g] i(1) g by (simp_all add: t_def fun_upd_idem)
    have "bgp_pcount_adjust i s = Some t"
      using r i m(2) False by (cases "counted s i") (auto simp: bgp_pcount_adjust_def update_route_def t_def g_def n_def)
    moreover have "counts_ok t"
      using m(1) others False same i by (auto simp: counts_ok_def counts_def t_def)
    ultimately show ?thesis using same by (intro that [of t]) (simp_all add: t_def)
  qed
qed

text \<open>All marks but perhaps that of one route are right.\<close>

definition counts_but :: "rib \<Rightarrow> nat \<Rightarrow> bool" where
  "counts_but s i \<longleftrightarrow> marks_ok s \<and> (\<forall>j. j \<noteq> i \<longrightarrow> (counted s j \<longleftrightarrow> counts s j)) \<and>
     (counted s i \<longrightarrow> table_main s \<and> i \<notin> routes_of s (peer_self s))"

lemma counts_ok_but: "counts_ok s \<Longrightarrow> counts_but s i"
  by (auto simp: counts_ok_def counts_but_def counts_def)

lemma adjust_counts:
  assumes "counts_but s i" "routes s i \<noteq> None"
  obtains s' where "bgp_pcount_adjust i s = Some s'" "counts_ok s'" "usable s' = usable s" "routes_of s' = routes_of s"
    "table_main s' = table_main s" "peer_self s' = peer_self s" "rn_info s' = rn_info s"
proof -
  obtain r where r: "routes s i = Some r" using assms(2) by blast
  have "marks_ok s" "\<forall>j. j \<noteq> i \<longrightarrow> (counted s j \<longleftrightarrow> counts s j)" "counted s i \<longrightarrow> table_main s \<and> ri_peer r \<noteq> peer_self s"
    using assms(1) r by (auto simp: counts_but_def routes_of_def)
  then show ?thesis by (rule pcount_adjust_counts [OF _ r]) (rule that)
qed

text \<open>A change of other flags keeps the marks, and keeps them right when it does not touch usability.\<close>

lemma flag_keeps_but:
  assumes "counts_but s i" "routes s i = Some r" "CHECK_FLAG (g (route_flags r)) BGP_INFO_COUNTED = CHECK_FLAG (route_flags r) BGP_INFO_COUNTED"
    and s': "s' = s\<lparr>routes := (routes s)(i \<mapsto> with_flags g r)\<rparr>"
  shows "counts_but s' i" "counts_ok s \<Longrightarrow> BGP_INFO_HOLDDOWN (with_flags g r) = BGP_INFO_HOLDDOWN r \<Longrightarrow> counts_ok s'"
proof -
  note upd = flag_update [OF assms(2) s']
  have c: "counted s' = counted s" using upd(3) [of BGP_INFO_COUNTED] assms(2,3) by (auto simp: flagged_def fun_eq_iff)
  have m: "marks_ok s" "\<And>j. j \<noteq> i \<Longrightarrow> counted s j \<longleftrightarrow> counts s j" using assms(1) by (simp_all add: counts_but_def)
  have m': "marks_ok s'" using marks_ok_cong [OF m(1) upd(2,1) c] s' by simp
  have others: "counts s' j = counts s j" if "j \<noteq> i" for j using that upd(1,4) s' by (simp add: counts_def)
  then show "counts_but s' i" using assms(1) m' c upd(1) s' by (simp add: counts_but_def)
  show "counts_ok s'" if "counts_ok s" "BGP_INFO_HOLDDOWN (with_flags g r) = BGP_INFO_HOLDDOWN r"
  proof -
    have "usable s' = usable s" using upd(4) that(2) assms(2) by (auto simp: usable_def fun_eq_iff)
    then show ?thesis using that(1) m' c upd(1) s' by (simp add: counts_ok_def counts_def)
  qed
qed

definition keeps_marks :: "u16 \<Rightarrow> bool" where
  "keeps_marks f \<longleftrightarrow> f AND BGP_INFO_COUNTED = 0"

lemma not_usability:
  assumes "\<not> CHECK_FLAG f (BGP_INFO_VALID OR BGP_INFO_UNUSEABLE)"
  shows "BGP_INFO_HOLDDOWN (with_flags (\<lambda>v. SET_FLAG v f) r) = BGP_INFO_HOLDDOWN r"
    "BGP_INFO_HOLDDOWN (with_flags (\<lambda>v. UNSET_FLAG v f) r) = BGP_INFO_HOLDDOWN r"
proof -
  have "f AND (BGP_INFO_VALID OR BGP_INFO_UNUSEABLE) = 0" using assms by (simp add: CHECK_FLAG_def)
  then have "f AND BGP_INFO_VALID = 0" "f AND BGP_INFO_UNUSEABLE = 0" by (simp_all add: bit.conj_disj_distrib or_eq_0_iff)
  then show "BGP_INFO_HOLDDOWN (with_flags (\<lambda>v. SET_FLAG v f) r) = BGP_INFO_HOLDDOWN r"
    "BGP_INFO_HOLDDOWN (with_flags (\<lambda>v. UNSET_FLAG v f) r) = BGP_INFO_HOLDDOWN r"
    by (simp_all add: BGP_INFO_HOLDDOWN_def CHECK_FLAG_other)
qed

lemma adjust_flags_counts:
  assumes "counts_but s i" "routes s i = Some r" "CHECK_FLAG (g (route_flags r)) BGP_INFO_COUNTED = CHECK_FLAG (route_flags r) BGP_INFO_COUNTED"
  obtains s' where "update_route i (with_flags g) s \<bind> bgp_pcount_adjust i = Some s'" "counts_ok s'"
    "usable s' = (usable s)(i := \<not> BGP_INFO_HOLDDOWN (with_flags g r))" "routes_of s' = routes_of s" "table_main s' = table_main s"
    "peer_self s' = peer_self s"
proof -
  let ?s = "s\<lparr>routes := (routes s)(i \<mapsto> with_flags g r)\<rparr>"
  have "counts_but ?s i" "routes ?s i \<noteq> None" using flag_keeps_but(1) [where g = g, OF assms refl] by simp_all
  from adjust_counts [OF this] obtain s' where s': "bgp_pcount_adjust i ?s = Some s'" "counts_ok s'" "usable s' = usable ?s"
    "routes_of s' = routes_of ?s" "table_main s' = table_main ?s" "peer_self s' = peer_self ?s" "rn_info s' = rn_info ?s" .
  then show ?thesis using assms(2) flag_update [OF assms(2) refl, where g = g] by (intro that [of s']) (simp_all add: update_route_def)
qed

lemma keeps_marks_check:
  "keeps_marks f \<Longrightarrow> CHECK_FLAG (SET_FLAG v f) BGP_INFO_COUNTED = CHECK_FLAG v BGP_INFO_COUNTED"
  "keeps_marks f \<Longrightarrow> CHECK_FLAG (UNSET_FLAG v f) BGP_INFO_COUNTED = CHECK_FLAG v BGP_INFO_COUNTED"
  by (simp_all add: keeps_marks_def CHECK_FLAG_other)

lemma flag_op_counts:
  assumes ok: "counts_ok s \<or> CHECK_FLAG f (BGP_INFO_VALID OR BGP_INFO_UNUSEABLE)" "counts_but s i" and f: "keeps_marks f"
    and r: "routes s i = Some r"
  shows "\<exists>s'. bgp_info_set_flag i f s = Some s' \<and> counts_ok s' \<and> routes_of s' = routes_of s \<and> table_main s' = table_main s \<and>
      peer_self s' = peer_self s \<and> usable s' = (usable s)(i := \<not> BGP_INFO_HOLDDOWN (with_flags (\<lambda>v. SET_FLAG v f) r))"
    and "\<exists>s'. bgp_info_unset_flag i f s = Some s' \<and> counts_ok s' \<and> routes_of s' = routes_of s \<and> table_main s' = table_main s \<and>
      peer_self s' = peer_self s \<and> usable s' = (usable s)(i := \<not> BGP_INFO_HOLDDOWN (with_flags (\<lambda>v. UNSET_FLAG v f) r))"
proof -
  have *: "\<exists>s'. (do { s \<leftarrow> update_route i (with_flags g) s;
        if \<not> CHECK_FLAG f (BGP_INFO_VALID OR BGP_INFO_UNUSEABLE) then Some s else bgp_pcount_adjust i s }) = Some s' \<and> counts_ok s' \<and>
      routes_of s' = routes_of s \<and> table_main s' = table_main s \<and> peer_self s' = peer_self s \<and>
      usable s' = (usable s)(i := \<not> BGP_INFO_HOLDDOWN (with_flags g r))"
    if g: "CHECK_FLAG (g (route_flags r)) BGP_INFO_COUNTED = CHECK_FLAG (route_flags r) BGP_INFO_COUNTED"
      "\<not> CHECK_FLAG f (BGP_INFO_VALID OR BGP_INFO_UNUSEABLE) \<longrightarrow> BGP_INFO_HOLDDOWN (with_flags g r) = BGP_INFO_HOLDDOWN r" for g
  proof (cases "CHECK_FLAG f (BGP_INFO_VALID OR BGP_INFO_UNUSEABLE)")
    case True
    from adjust_flags_counts [of s i r g, OF ok(2) r g(1)] obtain s' where
      "update_route i (with_flags g) s \<bind> bgp_pcount_adjust i = Some s'" "counts_ok s'"
      "usable s' = (usable s)(i := \<not> BGP_INFO_HOLDDOWN (with_flags g r))" "routes_of s' = routes_of s" "table_main s' = table_main s"
      "peer_self s' = peer_self s" .
    then show ?thesis using True by simp
  next
    case False
    then show ?thesis
      using flag_keeps_but(2) [where g = g, OF ok(2) r g(1) refl] flag_update(1,4) [OF r refl, where g = g] g(2) ok(1) r
      by (simp add: update_route_def)
  qed
  show "\<exists>s'. bgp_info_set_flag i f s = Some s' \<and> counts_ok s' \<and> routes_of s' = routes_of s \<and> table_main s' = table_main s \<and>
      peer_self s' = peer_self s \<and> usable s' = (usable s)(i := \<not> BGP_INFO_HOLDDOWN (with_flags (\<lambda>v. SET_FLAG v f) r))"
    using * [of "\<lambda>v. SET_FLAG v f"] f not_usability keeps_marks_check by (simp add: bgp_info_set_flag_def)
  show "\<exists>s'. bgp_info_unset_flag i f s = Some s' \<and> counts_ok s' \<and> routes_of s' = routes_of s \<and> table_main s' = table_main s \<and>
      peer_self s' = peer_self s \<and> usable s' = (usable s)(i := \<not> BGP_INFO_HOLDDOWN (with_flags (\<lambda>v. UNSET_FLAG v f) r))"
    using * [of "\<lambda>v. UNSET_FLAG v f"] f not_usability keeps_marks_check by (simp add: bgp_info_unset_flag_def)
qed

lemma usability_flags:
  "keeps_marks BGP_INFO_REMOVED" "keeps_marks BGP_INFO_VALID" "CHECK_FLAG BGP_INFO_REMOVED (BGP_INFO_VALID OR BGP_INFO_UNUSEABLE)"
  "CHECK_FLAG BGP_INFO_VALID (BGP_INFO_VALID OR BGP_INFO_UNUSEABLE)"
  by code_simp+

lemma holddown_REMOVED: "BGP_INFO_HOLDDOWN (with_flags (\<lambda>v. SET_FLAG v BGP_INFO_REMOVED) r)"
proof -
  have "(v OR BGP_INFO_REMOVED) AND BGP_INFO_UNUSEABLE \<noteq> 0" for v
  proof -
    have "bit ((v OR BGP_INFO_REMOVED) AND BGP_INFO_UNUSEABLE) 9"
      by (simp add: bit_simps BGP_INFO_UNUSEABLE_def)
    then show ?thesis by force
  qed
  then show ?thesis by (simp add: BGP_INFO_HOLDDOWN_def CHECK_FLAG_def SET_FLAG_def)
qed

lemma holddown_not_VALID: "BGP_INFO_HOLDDOWN (with_flags (\<lambda>v. UNSET_FLAG v BGP_INFO_VALID) r)"
  by (simp add: BGP_INFO_HOLDDOWN_def)

lemma usable_route: "routes s i = Some r \<Longrightarrow> usable s i \<longleftrightarrow> \<not> BGP_INFO_HOLDDOWN r"
  by (simp add: usable_def)

lemma routes_of_route: "routes_of s' = routes_of s \<Longrightarrow> routes s' i = None \<longleftrightarrow> routes s i = None"
proof -
  have "(\<exists>p. i \<in> routes_of s p) \<longleftrightarrow> routes s i \<noteq> None" for s by (auto simp: routes_of_def)
  from this [of s] this [of s'] show "routes_of s' = routes_of s \<Longrightarrow> ?thesis" by (simp del: not_None_eq)
qed

lemma delete_counts:
  assumes "counts_ok s" "routes s i \<noteq> None"
  shows "\<exists>s'. bgp_info_delete i s = Some s' \<and> counts_ok s' \<and> routes_of s' = routes_of s \<and> usable s' = (usable s)(i := False)"
proof -
  obtain r where r: "routes s i = Some r" using assms(2) by blast
  obtain s1 where s1: "bgp_info_set_flag i BGP_INFO_REMOVED s = Some s1" "counts_ok s1" "routes_of s1 = routes_of s"
      "usable s1 = (usable s)(i := False)"
    using flag_op_counts(1) [OF _ counts_ok_but [OF assms(1)] usability_flags(1) r] assms(1) holddown_REMOVED by auto
  obtain r1 where r1: "routes s1 i = Some r1" using routes_of_route [OF s1(3), of i] r by auto
  let ?g = "\<lambda>v. UNSET_FLAG v BGP_INFO_VALID"
  let ?s = "s1\<lparr>routes := (routes s1)(i \<mapsto> with_flags ?g r1)\<rparr>"
  have "BGP_INFO_HOLDDOWN (with_flags ?g r1) = BGP_INFO_HOLDDOWN r1"
    using usable_route [OF r1] s1(4) holddown_not_VALID by simp
  then have "counts_ok ?s"
    using flag_keeps_but(2) [where g = ?g, OF counts_ok_but [OF s1(2)] r1 _ refl s1(2)] keeps_marks_check(2) usability_flags(2) by simp
  moreover have "usable ?s = (usable s)(i := False)" "routes_of ?s = routes_of s"
    using flag_update [OF r1 refl, where g = ?g] s1(3,4) holddown_not_VALID by simp_all
  ultimately show ?thesis using s1(1) r1 by (simp add: bgp_info_delete_def update_route_def)
qed

text \<open>After a restoration the mark of the route may be wrong, until its flag \<^verbatim>\<open>BGP_INFO_VALID\<close> is set once more.\<close>

lemma restore_counts:
  assumes "counts_ok s" "routes s i \<noteq> None"
  shows "\<exists>s'. bgp_info_restore i s = Some s' \<and> counts_but s' i \<and> routes_of s' = routes_of s"
proof -
  obtain r where r: "routes s i = Some r" using assms(2) by blast
  obtain s1 where s1: "bgp_info_unset_flag i BGP_INFO_REMOVED s = Some s1" "counts_ok s1" "routes_of s1 = routes_of s"
    using flag_op_counts(2) [OF _ counts_ok_but [OF assms(1)] usability_flags(1) r] assms(1) by auto
  obtain r1 where r1: "routes s1 i = Some r1" using routes_of_route [OF s1(3), of i] r by auto
  let ?g = "\<lambda>v. SET_FLAG v BGP_INFO_VALID"
  let ?s = "s1\<lparr>routes := (routes s1)(i \<mapsto> with_flags ?g r1)\<rparr>"
  have "counts_but ?s i"
    using flag_keeps_but(1) [where g = ?g, OF counts_ok_but [OF s1(2)] r1 _ refl] keeps_marks_check(1) usability_flags(2) by simp
  moreover have "routes_of ?s = routes_of s" using flag_update(1) [OF r1 refl, where g = ?g] s1(3) by simp
  ultimately show ?thesis using s1(1) r1 by (simp add: bgp_info_restore_def update_route_def)
qed

text \<open>What the counts depend on.\<close>

definition count_view :: "rib \<Rightarrow> nat set \<times> (nat \<Rightarrow> nat set) \<times> (nat \<Rightarrow> bool) \<times> (nat \<Rightarrow> bool) \<times> (nat \<Rightarrow> u64) \<times> bool \<times> nat" where
  "count_view s = (dom (routes s), routes_of s, counted s, usable s, pcount s, table_main s, peer_self s)"

lemma counts_ok_view: "count_view s' = count_view s \<Longrightarrow> counts_ok s' = counts_ok s"
  by (simp add: count_view_def counts_ok_def marks_ok_def counts_def)

lemma update_route_view:
  assumes "update_route i f s = Some s'"
    "\<And>r. ri_peer (f r) = ri_peer r \<and> CHECK_FLAG (route_flags (f r)) BGP_INFO_COUNTED = CHECK_FLAG (route_flags r) BGP_INFO_COUNTED \<and>
       BGP_INFO_HOLDDOWN (f r) = BGP_INFO_HOLDDOWN r"
  shows "count_view s' = count_view s"
proof -
  obtain r where r: "routes s i = Some r" "s' = s\<lparr>routes := (routes s)(i \<mapsto> f r)\<rparr>"
    using assms(1) by (auto simp: update_route_def bind_eq_Some_conv)
  then show ?thesis using assms(2) by (auto simp: count_view_def routes_of_def flagged_def usable_def fun_eq_iff)
qed

lemma update_mpath_as_route:
  "update_mpath i f s = Some s' \<Longrightarrow> update_route i (\<lambda>r. r\<lparr>ri_mpath := map_option f (ri_mpath r)\<rparr>) s = Some s'"
  by (auto simp: update_mpath_def update_route_def bind_eq_Some_conv)

lemma holddown_mpath [simp]: "BGP_INFO_HOLDDOWN (r\<lparr>ri_mpath := m\<rparr>) = BGP_INFO_HOLDDOWN r"
  "BGP_INFO_HOLDDOWN (r\<lparr>ri_lock := l\<rparr>) = BGP_INFO_HOLDDOWN r" "route_flags (r\<lparr>ri_lock := l\<rparr>) = route_flags r"
  by (simp_all add: BGP_INFO_HOLDDOWN_def route_flags_def)

lemma update_mpath_count_view: "update_mpath i f s = Some s' \<Longrightarrow> count_view s' = count_view s"
  by (drule update_mpath_as_route, erule update_route_view) simp

lemma mpath_get_count_view: "bgp_info_mpath_get i s = Some (m, s') \<Longrightarrow> count_view s' = count_view s"
proof -
  assume *: "bgp_info_mpath_get i s = Some (m, s')"
  then obtain r where r: "routes s i = Some r" by (auto simp: bgp_info_mpath_get_def bind_eq_Some_conv)
  have "s' = s \<or> update_route i (\<lambda>r. r\<lparr>ri_mpath := Some bgp_info_mpath_new\<rparr>) s = Some s'"
    using * r by (cases "ri_mpath r") (auto simp: bgp_info_mpath_get_def update_route_def)
  then show ?thesis using update_route_view [of i "\<lambda>r. r\<lparr>ri_mpath := Some bgp_info_mpath_new\<rparr>" s s'] by auto
qed

lemma multipath_flag_count_view:
  "SET_FLAGS BGP_INFO_MULTIPATH i s = Some s' \<Longrightarrow> count_view s' = count_view s"
  "UNSET_FLAGS BGP_INFO_MULTIPATH i s = Some s' \<Longrightarrow> count_view s' = count_view s"
proof -
  have f: "keeps_marks BGP_INFO_MULTIPATH" "\<not> CHECK_FLAG BGP_INFO_MULTIPATH (BGP_INFO_VALID OR BGP_INFO_UNUSEABLE)" by code_simp+
  show "SET_FLAGS BGP_INFO_MULTIPATH i s = Some s' \<Longrightarrow> count_view s' = count_view s"
    "UNSET_FLAGS BGP_INFO_MULTIPATH i s = Some s' \<Longrightarrow> count_view s' = count_view s"
    by (erule update_route_view, simp add: keeps_marks_check [OF f(1)] not_usability [OF f(2)])+
qed

lemma link_count_view: "(case p of None \<Rightarrow> Some s | Some i \<Rightarrow> update_mpath i f s) = Some s' \<Longrightarrow> count_view s' = count_view s"
  by (cases p) (auto dest: update_mpath_count_view)

lemma dequeue_count_view:
  assumes "bgp_info_mpath_dequeue i s = Some s'"
  shows "count_view s' = count_view s"
proof -
  obtain r where r: "routes s i = Some r" using assms by (auto simp: bgp_info_mpath_dequeue_def bind_eq_Some_conv)
  show ?thesis
  proof (cases "ri_mpath r")
    case (Some m)
    then show ?thesis using assms r
      by (auto simp: bgp_info_mpath_dequeue_def bind_eq_Some_conv
          dest!: link_count_view update_mpath_count_view mpath_get_count_view multipath_flag_count_view)
  qed (use assms r in \<open>simp add: bgp_info_mpath_dequeue_def\<close>)
qed

lemma drop_route_counts:
  assumes "counts_ok s" "\<not> usable s i"
  shows "counts_ok (s\<lparr>routes := (routes s)(i := None)\<rparr>)"
proof -
  let ?s = "s\<lparr>routes := (routes s)(i := None)\<rparr>"
  have not: "\<not> counted s i" using assms by (simp add: counts_ok_def counts_def)
  have views: "routes_of ?s p = routes_of s p - {i}" "counted ?s = (counted s)(i := False)" "usable ?s = (usable s)(i := False)" for p
    by (auto simp: routes_of_def flagged_def usable_def fun_eq_iff split: if_splits)
  have "{j \<in> routes_of ?s p. counted ?s j} = {j \<in> routes_of s p. counted s j}" for p using not views by auto
  moreover have "finite (dom (routes ?s))" "card (dom (routes ?s)) \<le> card (dom (routes s))"
    using assms(1) by (auto simp: counts_ok_def marks_ok_def intro: card_mono)
  ultimately have "marks_ok ?s" using assms(1) by (auto simp: counts_ok_def marks_ok_def)
  then show ?thesis using assms not views by (auto simp: counts_ok_def counts_def)
qed

lemma new_route_counts:
  assumes "counts_ok s" "routes s i = None" "card (dom (routes s)) + 1 < 2 ^ 64" "\<not> CHECK_FLAG (route_flags r) BGP_INFO_COUNTED"
    "BGP_INFO_HOLDDOWN r \<or> ri_peer r = peer_self s"
  shows "counts_ok (s\<lparr>routes := (routes s)(i \<mapsto> r)\<rparr>)"
proof -
  let ?s = "s\<lparr>routes := (routes s)(i \<mapsto> r)\<rparr>"
  have views: "routes_of ?s p = (if ri_peer r = p then insert i (routes_of s p) else routes_of s p)" "counted ?s = counted s"
      "usable ?s = (usable s)(i := \<not> BGP_INFO_HOLDDOWN r)" "i \<notin> routes_of s p" "\<not> counted s i" for p
    using assms(2,4) by (auto simp: routes_of_def flagged_def usable_def fun_eq_iff split: if_splits)
  have "{j \<in> routes_of ?s p. counted ?s j} = {j \<in> routes_of s p. counted s j}" for p using views by auto
  moreover have "finite (dom (routes ?s))" "card (dom (routes ?s)) < 2 ^ 64"
    using assms(1-3) by (auto simp: counts_ok_def marks_ok_def card_insert_if domIff)
  ultimately have "marks_ok ?s" using assms(1) by (auto simp: counts_ok_def marks_ok_def)
  then show ?thesis using assms(1,5) views by (auto simp: counts_ok_def counts_def)
qed

lemma views_more [simp]:
  "count_view (s\<lparr>peer_locks := v\<rparr>) = count_view s" "count_view (s\<lparr>rn_lock := w\<rparr>) = count_view s" "count_view (s\<lparr>rn_info := x\<rparr>) = count_view s"
  by (auto simp: count_view_def routes_of_def flagged_def usable_def)

lemma lock_count_view: "update_route i (\<lambda>r. r\<lparr>ri_lock := f (ri_lock r)\<rparr>) s = Some s' \<Longrightarrow> count_view s' = count_view s"
  by (erule update_route_view) simp

lemma add_counts:
  assumes "counts_ok s" "bgp_info_add rn i s = Some s'"
  shows "counts_ok s'"
proof -
  obtain s1 p l where s1: "update_route i (\<lambda>r. r\<lparr>ri_lock := ri_lock r + 1\<rparr>) (s\<lparr>rn_info := (rn_info s)(rn := i # rn_info s rn)\<rparr>) = Some s1"
      "s' = s1\<lparr>rn_lock := l, peer_locks := p\<rparr>"
    using assms(2) by (auto simp: bgp_info_add_def bgp_info_lock_def bgp_lock_node_def peer_lock_def zassert_def bind_eq_Some_conv split: if_splits)
  then show ?thesis using lock_count_view [OF s1(1)] assms(1) counts_ok_view [of s' s] by simp
qed

lemma reap_counts:
  assumes "counts_ok s" "\<not> usable s i" "bgp_info_reap rn i s = Some s'"
  shows "counts_ok s'"
proof -
  obtain s1 s2 where s1: "bgp_info_mpath_dequeue i (s\<lparr>rn_info := (rn_info s)(rn := remove1 i (rn_info s rn))\<rparr>) = Some s1"
      and s2: "bgp_info_unlock i s1 = Some s2" "bgp_unlock_node rn s2 = Some s'"
    using assms(3) by (auto simp: bgp_info_reap_def bind_eq_Some_conv)
  have v1: "count_view s1 = count_view s" using dequeue_count_view [OF s1] by simp
  obtain s3 where s3: "update_route i (\<lambda>r. r\<lparr>ri_lock := ri_lock r - 1\<rparr>) s1 = Some s3" "s2 = s3 \<or> bgp_info_free i s3 = Some s2"
    using s2(1) by (auto simp: bgp_info_unlock_def bind_eq_Some_conv zassert_def split: if_splits)
  have v3: "count_view s3 = count_view s" using lock_count_view [OF s3(1)] v1 by simp
  then have "counts_ok s3" "\<not> usable s3 i" using assms(1,2) counts_ok_view [OF v3] by (auto simp: count_view_def)
  then have "counts_ok s2" using s3(2)
  proof (elim disjE)
    assume *: "bgp_info_free i s3 = Some s2" and ok: "counts_ok s3" "\<not> usable s3 i"
    then obtain t p where t: "t = s3\<lparr>peer_locks := p\<rparr>" "s2 = t\<lparr>routes := (routes t)(i := None)\<rparr>"
      by (auto simp: bgp_info_free_def peer_unlock_def bind_eq_Some_conv zassert_def split: if_splits)
    have "counts_ok t" "\<not> usable t i" using ok t(1) counts_ok_view [of t s3] by (auto simp: usable_def)
    then show ?thesis using t(2) drop_route_counts by blast
  qed simp
  then show ?thesis using s2(2) counts_ok_view [of s' s2] by (auto simp: bgp_unlock_node_def zassert_def bind_eq_Some_conv split: if_splits)
qed

text \<open>The ways in which the table changes.  A route that is added again before its removal was processed is restored and
  then marked as valid.\<close>

inductive rib_step :: "rib \<Rightarrow> rib \<Rightarrow> bool" where
  new: "routes s i = None \<Longrightarrow> card (dom (routes s)) + 1 < 2 ^ 64 \<Longrightarrow> \<not> CHECK_FLAG (route_flags r) BGP_INFO_COUNTED \<Longrightarrow>
    BGP_INFO_HOLDDOWN r \<or> ri_peer r = peer_self s \<Longrightarrow> rib_step s (s\<lparr>routes := (routes s)(i \<mapsto> r)\<rparr>)"
| add: "bgp_info_add rn i s = Some s' \<Longrightarrow> rib_step s s'"
| set_flag: "keeps_marks f \<Longrightarrow> bgp_info_set_flag i f s = Some s' \<Longrightarrow> rib_step s s'"
| unset_flag: "keeps_marks f \<Longrightarrow> bgp_info_unset_flag i f s = Some s' \<Longrightarrow> rib_step s s'"
| delete: "bgp_info_delete i s = Some s' \<Longrightarrow> rib_step s s'"
| add_again: "bgp_info_restore i s = Some t \<Longrightarrow> bgp_info_set_flag i BGP_INFO_VALID t = Some s' \<Longrightarrow> rib_step s s'"
| reap: "\<not> usable s i \<Longrightarrow> bgp_info_reap rn i s = Some s' \<Longrightarrow> rib_step s s'"

lemma flag_route:
  "bgp_info_set_flag i f s = Some s' \<Longrightarrow> routes s i \<noteq> None" "bgp_info_unset_flag i f s = Some s' \<Longrightarrow> routes s i \<noteq> None"
  by (auto simp: bgp_info_set_flag_def bgp_info_unset_flag_def update_route_def bind_eq_Some_conv)

lemma rib_step_counts: "rib_step s s' \<Longrightarrow> counts_ok s \<Longrightarrow> counts_ok s'"
proof (induction rule: rib_step.induct)
  case (set_flag f i s s')
  then obtain r where "routes s i = Some r" using flag_route(1) by blast
  from flag_op_counts(1) [OF _ counts_ok_but [OF set_flag.prems] set_flag.hyps(1) this] set_flag show ?case by auto
next
  case (unset_flag f i s s')
  then obtain r where "routes s i = Some r" using flag_route(2) by blast
  from flag_op_counts(2) [OF _ counts_ok_but [OF unset_flag.prems] unset_flag.hyps(1) this] unset_flag show ?case by auto
next
  case (delete i s s')
  then have "routes s i \<noteq> None" using flag_route(1) by (fastforce simp: bgp_info_delete_def bind_eq_Some_conv)
  then show ?case using delete_counts [OF delete.prems, of i] delete.hyps by auto
next
  case (add_again i s t s')
  then have "routes s i \<noteq> None" using flag_route(2) by (fastforce simp: bgp_info_restore_def bind_eq_Some_conv)
  then have t: "counts_but t i" using restore_counts [OF add_again.prems, of i] add_again.hyps(1) by auto
  obtain r where "routes t i = Some r" using flag_route(1) [OF add_again.hyps(2)] by blast
  from flag_op_counts(1) [OF _ t usability_flags(2) this] show ?case using add_again.hyps(2) usability_flags(4) by auto
qed (auto intro: new_route_counts add_counts reap_counts)

lemma rib_steps_counts: "rib_step\<^sup>*\<^sup>* s s' \<Longrightarrow> counts_ok s \<Longrightarrow> counts_ok s'"
  by (induction rule: rtranclp_induct) (auto dest: rib_step_counts)

definition empty_rib :: rib where
  "empty_rib = \<lparr>rn_info = \<lambda>_. [], rn_lock = \<lambda>_. 1, routes = \<lambda>_. None, pcount = \<lambda>_. 0, peer_locks = \<lambda>_. 1, table_main = True, peer_self = 0\<rparr>"

lemma empty_rib_counts: "counts_ok empty_rib"
  by (simp add: counts_ok_def marks_ok_def counts_def empty_rib_def routes_of_def flagged_def usable_def)

lemma counts_card:
  assumes ok: "counts_ok s" and "table_main s" "p \<noteq> peer_self s"
  shows "pcount s p = of_nat (card {i \<in> routes_of s p. usable s i}) \<and> card {i \<in> routes_of s p. usable s i} < 2 ^ 64"
proof -
  have "{i \<in> routes_of s p. usable s i} = {i \<in> routes_of s p. counted s i}"
    using assms by (auto simp: counts_ok_def counts_def routes_of_def)
  moreover have "card {i \<in> routes_of s p. counted s i} \<le> card (dom (routes s))"
    using ok by (intro card_mono) (auto simp: counts_ok_def marks_ok_def routes_of_def)
  ultimately show ?thesis using assms by (auto simp: counts_ok_def marks_ok_def)
qed

text \<open>C9.  However routes are made, added, flagged, deleted, restored and then marked valid, and reaped once they are unusable, from the empty main
  table on the prefix count of a peer is the number of its routes that are valid and not damped, in history or removed.  Fewer than
  \<open>2 ^ 64\<close> routes exist, and the flag of counted routes is changed only by the counting itself.\<close>

theorem prefix_counts_exact:
  assumes "rib_step\<^sup>*\<^sup>* empty_rib s" "table_main s" "p \<noteq> peer_self s"
  shows "pcount s p = of_nat (card {i \<in> routes_of s p. usable s i}) \<and> card {i \<in> routes_of s p. usable s i} < 2 ^ 64"
  using counts_card [OF rib_steps_counts [OF assms(1) empty_rib_counts] assms(2,3)] .

text \<open>A route of peer 7 that becomes valid.\<close>

definition learned_route :: "u16 \<Rightarrow> rib_route" where
  "learned_route f = \<lparr>ri = (example_route strict_bgp 7 0 7)\<lparr>bi_flags := f\<rparr>, ri_lock = 0, ri_peer = 7, ri_mpath = None\<rparr>"

definition valid_rib :: rib where
  "valid_rib = empty_rib\<lparr>routes := [5 \<mapsto> learned_route (BGP_INFO_VALID OR BGP_INFO_COUNTED)], pcount := (\<lambda>_. 0)(7 := 1)\<rparr>"

lemma learned_route_simps [simp]: "route_flags (learned_route f) = f" "ri_peer (learned_route f) = 7"
  "with_flags g (learned_route f) = learned_route (g f)"
  by (simp_all add: learned_route_def route_flags_def with_flags_def)

lemma learned_route_holddown: "BGP_INFO_HOLDDOWN (learned_route 0)" "\<not> BGP_INFO_HOLDDOWN (learned_route BGP_INFO_VALID)"
  "\<not> BGP_INFO_HOLDDOWN (learned_route (BGP_INFO_VALID OR BGP_INFO_COUNTED))"
  unfolding BGP_INFO_HOLDDOWN_def learned_route_simps by code_simp+

lemma valid_rib_reached: "rib_step\<^sup>*\<^sup>* empty_rib valid_rib"
proof -
  let ?s = "empty_rib\<lparr>routes := [5 \<mapsto> learned_route 0]\<rparr>"
  have "rib_step empty_rib (empty_rib\<lparr>routes := (routes empty_rib)(5 \<mapsto> learned_route 0)\<rparr>)"
    by (rule rib_step.new) (simp_all add: empty_rib_def learned_route_holddown CHECK_FLAG_def)
  moreover have flags: "CHECK_FLAG BGP_INFO_VALID (BGP_INFO_VALID OR BGP_INFO_UNUSEABLE)" "\<not> CHECK_FLAG BGP_INFO_VALID BGP_INFO_COUNTED"
    "SET_FLAG 0 BGP_INFO_VALID = BGP_INFO_VALID" by code_simp+
  have "bgp_info_set_flag 5 BGP_INFO_VALID ?s = Some valid_rib"
    by (simp add: bgp_info_set_flag_def bgp_pcount_adjust_def update_route_def flags learned_route_holddown valid_rib_def empty_rib_def SET_FLAG_def
        fun_eq_iff)
  then have "rib_step ?s valid_rib" by (rule rib_step.set_flag [OF usability_flags(2)])
  ultimately show ?thesis by (simp add: empty_rib_def)
qed

theorem prefix_counts_exact_witness:
  "pcount valid_rib 7 = of_nat (card {i \<in> routes_of valid_rib 7. usable valid_rib i}) \<and> usable valid_rib 5 \<and> pcount valid_rib 7 = 1"
  using prefix_counts_exact [OF valid_rib_reached, of 7] learned_route_holddown(3) by (simp add: valid_rib_def empty_rib_def usable_def)

lemma CHECK_FLAG_or: "CHECK_FLAG v (f OR g) \<longleftrightarrow> CHECK_FLAG v f \<or> CHECK_FLAG v g"
  by (simp add: CHECK_FLAG_def bit.conj_disj_distrib or_eq_0_iff)

lemma disjoint_flags:
  "BGP_INFO_REMOVED AND BGP_INFO_COUNTED = 0" "BGP_INFO_REMOVED AND BGP_INFO_VALID = 0" "BGP_INFO_REMOVED AND BGP_INFO_HISTORY = 0"
  "BGP_INFO_REMOVED AND BGP_INFO_DAMPED = 0" "BGP_INFO_COUNTED AND BGP_INFO_REMOVED = 0" "BGP_INFO_COUNTED AND BGP_INFO_HISTORY = 0"
  "BGP_INFO_COUNTED AND BGP_INFO_DAMPED = 0" "BGP_INFO_VALID AND BGP_INFO_REMOVED = 0" "BGP_INFO_VALID AND BGP_INFO_HISTORY = 0"
  "BGP_INFO_VALID AND BGP_INFO_DAMPED = 0" "BGP_INFO_VALID AND BGP_INFO_COUNTED = 0"
  "BGP_INFO_VALID \<noteq> 0"
  by code_simp+

lemmas flag_checks = CHECK_FLAG_or CHECK_FLAG_other [OF disjoint_flags(1)] CHECK_FLAG_other [OF disjoint_flags(2)]
  CHECK_FLAG_other [OF disjoint_flags(3)] CHECK_FLAG_other [OF disjoint_flags(4)] CHECK_FLAG_other [OF disjoint_flags(5)]
  CHECK_FLAG_other [OF disjoint_flags(6)] CHECK_FLAG_other [OF disjoint_flags(7)] CHECK_FLAG_other [OF disjoint_flags(8)]
  CHECK_FLAG_other [OF disjoint_flags(9)] CHECK_FLAG_other [OF disjoint_flags(10)] CHECK_FLAG_other [OF disjoint_flags(11)] disjoint_flags(12)



end
