(* ===== verification/Best_Path.thy ===== *)
theory Best_Path
  imports Bgp_Rib
begin

text \<open>
  The selection of the best route of a node (\<^verbatim>\<open>bgp_best_selection\<close> in \<^verbatim>\<open>bgpd/bgp_route.c\<close>), with the grouping of \<^verbatim>\<open>deterministic-med\<close>, the
  removal of deleted routes and the choice of multipaths.

  The loops run along the chain of routes of the node.  The comparison of routes may consult the lookup service, so its world is passed
  along.  \<open>None\<close> is a failed assertion, the dereference of a null pointer or an endless loop.
\<close>

subsection \<open>Selection\<close>

definition exist_of :: "nat option \<Rightarrow> rib \<Rightarrow> bgp_info option option" where
  "exist_of i s = (case i of None \<Rightarrow> Some None | Some i \<Rightarrow> do { r \<leftarrow> routes s i; Some (Some (ri r)) })"

definition same_neighbor :: "rib_route \<Rightarrow> rib_route \<Rightarrow> bool option" where
  "same_neighbor r1 r2 = do {
     l \<leftarrow> aspath_cmp_left (Some (as_path (bi_attr (ri r1)))) (Some (as_path (bi_attr (ri r2))));
     if l then Some True else aspath_cmp_left_confed (Some (as_path (bi_attr (ri r1)))) (Some (as_path (bi_attr (ri r2)))) }"

text \<open>The inner loop of \<^verbatim>\<open>deterministic-med\<close>: the best route of the group of \<open>ri1\<close> among the routes after it.\<close>

fun dmed_group :: "'w env \<Rightarrow> codec \<Rightarrow> bgp \<Rightarrow> bool \<Rightarrow> nat \<Rightarrow> nat list \<Rightarrow> nat \<Rightarrow> nat option \<Rightarrow> nat list \<Rightarrow> 'w \<Rightarrow> rib \<Rightarrow>
    (nat \<times> nat option \<times> nat list \<times> 'w \<times> rib) option" where
  "dmed_group env pb bgp do_mpath ri1 [] new_select old_select mp_list w s = Some (new_select, old_select, mp_list, w, s)"
| "dmed_group env pb bgp do_mpath ri1 (ri2 # rest) new_select old_select mp_list w s = do {
     r1 \<leftarrow> routes s ri1;
     r2 \<leftarrow> routes s ri2;
     if CHECK_FLAG (route_flags r2) BGP_INFO_DMED_CHECK \<or> BGP_INFO_HOLDDOWN r2
     then dmed_group env pb bgp do_mpath ri1 rest new_select old_select mp_list w s
     else do {
       same \<leftarrow> same_neighbor r1 r2;
       if \<not> same then dmed_group env pb bgp do_mpath ri1 rest new_select old_select mp_list w s
       else do {
         let old_select = (if CHECK_FLAG (route_flags r2) BGP_INFO_SELECTED then Some ri2 else old_select);
         exist \<leftarrow> exist_of (Some new_select) s;
         ((better, paths_eq), w) \<leftarrow> dbgp_info_cmp env pb bgp (Some (ri r2)) exist w;
         (new_select, mp_list, s) \<leftarrow> (if better then do {
             s \<leftarrow> bgp_info_unset_flag new_select BGP_INFO_DMED_SELECTED s;
             mp_list \<leftarrow> (if do_mpath \<and> \<not> paths_eq then bgp_mp_list_add s [] ri2 else Some mp_list);
             Some (ri2, mp_list, s) }
           else Some (new_select, mp_list, s));
         mp_list \<leftarrow> (if do_mpath \<and> paths_eq then bgp_mp_list_add s mp_list ri2 else Some mp_list);
         s \<leftarrow> bgp_info_set_flag ri2 BGP_INFO_DMED_CHECK s;
         dmed_group env pb bgp do_mpath ri1 rest new_select old_select mp_list w s } } }"

fun dmed_loop :: "'w env \<Rightarrow> codec \<Rightarrow> bgp \<Rightarrow> bgp_maxpaths_cfg \<Rightarrow> bool \<Rightarrow> nat list \<Rightarrow> 'w \<Rightarrow> rib \<Rightarrow> ('w \<times> rib) option" where
  "dmed_loop env pb bgp cfg do_mpath [] w s = Some (w, s)"
| "dmed_loop env pb bgp cfg do_mpath (ri1 # rest) w s = do {
     r1 \<leftarrow> routes s ri1;
     if CHECK_FLAG (route_flags r1) BGP_INFO_DMED_CHECK \<or> BGP_INFO_HOLDDOWN r1 then dmed_loop env pb bgp cfg do_mpath rest w s
     else do {
       mp_list \<leftarrow> (if do_mpath then bgp_mp_list_add s [] ri1 else Some []);
       let old_select = (if CHECK_FLAG (route_flags r1) BGP_INFO_SELECTED then Some ri1 else None);
       (new_select, old_select, mp_list, w, s) \<leftarrow> dmed_group env pb bgp do_mpath ri1 rest ri1 old_select mp_list w s;
       s \<leftarrow> bgp_info_set_flag new_select BGP_INFO_DMED_CHECK s;
       s \<leftarrow> bgp_info_set_flag new_select BGP_INFO_DMED_SELECTED s;
       s \<leftarrow> bgp_info_mpath_update (Some new_select) old_select mp_list cfg s;
       dmed_loop env pb bgp cfg do_mpath rest w s } }"

text \<open>The loop over all routes.  The successor of a route is read before the route is reaped, so the loop runs over the chain as it
  was at the start.\<close>

fun select_loop :: "'w env \<Rightarrow> codec \<Rightarrow> bgp \<Rightarrow> nat \<Rightarrow> bool \<Rightarrow> nat list \<Rightarrow> nat option \<Rightarrow> nat option \<Rightarrow> nat list \<Rightarrow> 'w \<Rightarrow> rib \<Rightarrow>
    (nat option \<times> nat option \<times> nat list \<times> 'w \<times> rib) option" where
  "select_loop env pb bgp rn do_mpath [] new_select old_select mp_list w s = Some (new_select, old_select, mp_list, w, s)"
| "select_loop env pb bgp rn do_mpath (i # rest) new_select old_select mp_list w s = do {
     r \<leftarrow> routes s i;
     let old_select = (if CHECK_FLAG (route_flags r) BGP_INFO_SELECTED then Some i else old_select);
     if BGP_INFO_HOLDDOWN r then do {
       s \<leftarrow> (if CHECK_FLAG (route_flags r) BGP_INFO_REMOVED \<and> Some i \<noteq> old_select then bgp_info_reap rn i s else Some s);
       select_loop env pb bgp rn do_mpath rest new_select old_select mp_list w s }
     else if bgp_flag_check bgp BGP_FLAG_DETERMINISTIC_MED \<and> \<not> CHECK_FLAG (route_flags r) BGP_INFO_DMED_SELECTED then do {
       s \<leftarrow> bgp_info_unset_flag i BGP_INFO_DMED_CHECK s;
       select_loop env pb bgp rn do_mpath rest new_select old_select mp_list w s }
     else do {
       s \<leftarrow> bgp_info_unset_flag i BGP_INFO_DMED_CHECK s;
       s \<leftarrow> bgp_info_unset_flag i BGP_INFO_DMED_SELECTED s;
       new \<leftarrow> exist_of (Some i) s;
       exist \<leftarrow> exist_of new_select s;
       ((better, paths_eq), w) \<leftarrow> dbgp_info_cmp env pb bgp new exist w;
       s \<leftarrow> (if do_mpath \<and> bgp_flag_check bgp BGP_FLAG_DETERMINISTIC_MED
             then bgp_mp_dmed_deselect (if better then new_select else Some i) s else Some s);
       mp_list \<leftarrow> (if better \<and> do_mpath \<and> \<not> paths_eq then bgp_mp_list_add s [] i else Some mp_list);
       mp_list \<leftarrow> (if do_mpath \<and> paths_eq then bgp_mp_list_add s mp_list i else Some mp_list);
       select_loop env pb bgp rn do_mpath rest (if better then Some i else new_select) old_select mp_list w s } }"

text \<open>The result is the pair of the old and the new selected route.\<close>

definition bgp_best_selection ::
  "'w env \<Rightarrow> codec \<Rightarrow> bgp \<Rightarrow> nat \<Rightarrow> bgp_maxpaths_cfg \<Rightarrow> 'w \<Rightarrow> rib \<Rightarrow> ((nat option \<times> nat option) \<times> 'w \<times> rib) option" where
  "bgp_best_selection env pb bgp rn mpath_cfg w s = do {
     let do_mpath = (maxpaths_ebgp mpath_cfg \<noteq> BGP_DEFAULT_MAXPATHS \<or> maxpaths_ibgp mpath_cfg \<noteq> BGP_DEFAULT_MAXPATHS);
     (w, s) \<leftarrow> (if bgp_flag_check bgp BGP_FLAG_DETERMINISTIC_MED
       then dmed_loop env pb bgp mpath_cfg do_mpath (rn_info s rn) w s else Some (w, s));
     (new_select, old_select, mp_list, w, s) \<leftarrow> select_loop env pb bgp rn do_mpath (rn_info s rn) None None [] w s;
     s \<leftarrow> (if \<not> bgp_flag_check bgp BGP_FLAG_DETERMINISTIC_MED
       then bgp_info_mpath_update new_select old_select mp_list mpath_cfg s else Some s);
     s \<leftarrow> bgp_info_mpath_aggregate_update new_select old_select s;
     Some ((old_select, new_select), w, s) }"

subsection \<open>The best route\<close>

text \<open>The routes of a chain that can be selected, and the order of the decision process on them.\<close>

definition candidates :: "rib \<Rightarrow> nat list \<Rightarrow> nat set" where
  "candidates s xs = {i \<in> set xs. usable s i}"

definition key_of :: "bgp \<Rightarrow> rib \<Rightarrow> nat \<Rightarrow> int \<times> int \<times> nat \<times> u8 \<times> u32 \<times> bool \<times> u32 \<times> u32 \<times> nat \<times> u16 \<times> u32 list" where
  "key_of bgp s i = route_key bgp (ri (the (routes s i)))"

text \<open>The routes that the selection takes out of the table: those that were removed, except for the selected one.\<close>

definition reaped :: "rib \<Rightarrow> nat \<Rightarrow> bool" where
  "reaped s i \<longleftrightarrow> flagged BGP_INFO_REMOVED s i \<and> \<not> flagged BGP_INFO_SELECTED s i"

definition last_selected :: "rib \<Rightarrow> nat list \<Rightarrow> nat option \<Rightarrow> nat option" where
  "last_selected s xs old = fold (\<lambda>i old. if flagged BGP_INFO_SELECTED s i then Some i else old) xs old"

text \<open>A chain is in order when its routes exist, hold a lock each on themselves, the node and their peers, and those that are usable can be
  compared.\<close>

definition single_path :: "rib \<Rightarrow> nat \<Rightarrow> bool" where
  "single_path s i \<longleftrightarrow> (\<exists>r. routes s i = Some r \<and> ri_mpath r = None)"

definition chain_ok :: "rib \<Rightarrow> nat \<Rightarrow> nat list \<Rightarrow> bool" where
  "chain_ok s rn xs \<longleftrightarrow> distinct xs \<and> length xs \<le> rn_lock s rn \<and>
     (\<forall>p. int (length (filter (\<lambda>i. i \<in> routes_of s p) xs)) \<le> peer_locks s p) \<and>
     (\<forall>i\<in>set xs. single_path s i \<and> (\<exists>r. routes s i = Some r \<and> 0 < ri_lock r \<and> (usable s i \<longrightarrow> route_ok (ri r))))"

definition plain_bgp :: "bgp \<Rightarrow> bool" where
  "plain_bgp bgp \<longleftrightarrow> strict_config bgp \<and> \<not> bgp_flag_check bgp BGP_FLAG_DETERMINISTIC_MED \<and>
     protocol_of bgp \<in> {dbgp_protocol_baseline, dbgp_protocol_baseline_sleeper, dbgp_protocol_benchmark, dbgp_replacement_pathlets}"

lemma REMOVED_holddown: "CHECK_FLAG (route_flags r) BGP_INFO_REMOVED \<Longrightarrow> BGP_INFO_HOLDDOWN r"
  unfolding BGP_INFO_HOLDDOWN_def BGP_INFO_UNUSEABLE_def CHECK_FLAG_or by simp

lemma unset_dmed:
  assumes "routes s i = Some r" "f = BGP_INFO_DMED_CHECK \<or> f = BGP_INFO_DMED_SELECTED"
  shows "bgp_info_unset_flag i f s = Some (s\<lparr>routes := (routes s)(i \<mapsto> with_flags (\<lambda>v. UNSET_FLAG v f) r)\<rparr>)"
proof -
  have "\<not> CHECK_FLAG BGP_INFO_DMED_CHECK (BGP_INFO_VALID OR BGP_INFO_UNUSEABLE)"
    "\<not> CHECK_FLAG BGP_INFO_DMED_SELECTED (BGP_INFO_VALID OR BGP_INFO_UNUSEABLE)" by code_simp+
  then show ?thesis using assms by (auto simp: bgp_info_unset_flag_def update_route_def)
qed

lemma chain_ok_rest:
  assumes "chain_ok s rn (i # rest)" "\<And>j. j \<in> set rest \<Longrightarrow> routes s' j = routes s j" "length rest \<le> rn_lock s' rn"
    "\<And>p. int (length (filter (\<lambda>i. i \<in> routes_of s p) rest)) \<le> peer_locks s' p"
  shows "chain_ok s' rn rest"
proof -
  have "filter (\<lambda>i. i \<in> routes_of s' p) rest = filter (\<lambda>i. i \<in> routes_of s p) rest" for p
    using assms(2) by (intro filter_cong) (auto simp: routes_of_def)
  moreover have "usable s' j = usable s j" "single_path s' j = single_path s j" if "j \<in> set rest" for j
    using assms(2) [OF that] by (simp_all add: usable_def single_path_def)
  ultimately show ?thesis using assms by (auto simp: chain_ok_def)
qed

lemma chain_ok_tl:
  assumes "chain_ok s rn (i # rest)" "\<And>j. j \<in> set rest \<Longrightarrow> routes s' j = routes s j" "rn_lock s' = rn_lock s" "peer_locks s' = peer_locks s"
  shows "chain_ok s' rn rest"
proof -
  have "int (length (filter (\<lambda>i. i \<in> routes_of s p) (i # rest))) \<le> peer_locks s p" for p using assms(1) by (simp only: chain_ok_def)
  then have "int (length (filter (\<lambda>i. i \<in> routes_of s p) rest)) \<le> peer_locks s p" for p
    by (rule order_trans [rotated]) (cases "i \<in> routes_of s p"; simp)
  moreover have "length rest \<le> rn_lock s rn" using assms(1) by (simp add: chain_ok_def)
  ultimately show ?thesis using chain_ok_rest [OF assms(1,2)] assms(3,4) by simp
qed

lemma reap_step:
  assumes ok: "chain_ok s rn (i # rest)"
  obtains s' where "bgp_info_reap rn i s = Some s'" "chain_ok s' rn rest" "rn_info s' = (rn_info s)(rn := remove1 i (rn_info s rn))"
    "\<forall>j. j \<noteq> i \<longrightarrow> routes s' j = routes s j"
proof -
  obtain r where r: "routes s i = Some r" "ri_mpath r = None" "0 < ri_lock r" using ok by (auto simp: chain_ok_def single_path_def)
  let ?p = "ri_peer r"
  let ?s1 = "s\<lparr>rn_info := (rn_info s)(rn := remove1 i (rn_info s rn))\<rparr>"
  let ?s2 = "if ri_lock r = 1 then ?s1\<lparr>routes := (routes s)(i := None), peer_locks := (peer_locks s)(?p := peer_locks s ?p - 1)\<rparr>
    else ?s1\<lparr>routes := (routes s)(i \<mapsto> r\<lparr>ri_lock := ri_lock r - 1\<rparr>)\<rparr>"
  let ?s3 = "?s2\<lparr>rn_lock := (rn_lock s)(rn := rn_lock s rn - 1)\<rparr>"
  have i: "i \<in> routes_of s p \<longleftrightarrow> p = ?p" for p using r by (auto simp: routes_of_def)
  have all: "int (length (filter (\<lambda>i. i \<in> routes_of s p) (i # rest))) \<le> peer_locks s p" for p using ok by (simp only: chain_ok_def)
  have peers: "int (length (filter (\<lambda>i. i \<in> routes_of s p) rest)) \<le> peer_locks s p - (if p = ?p then 1 else 0)" for p
    using all [of p] i [of p] by (cases "p = ?p") auto
  have locks: "length rest \<le> rn_lock s rn - 1" "0 < rn_lock s rn" using ok by (auto simp: chain_ok_def)
  have peer: "0 < peer_locks s ?p" using peers [of ?p] by simp
  have "bgp_info_reap rn i s = Some ?s3"
    using r locks peer by (auto simp: bgp_info_reap_def bgp_info_mpath_dequeue_def bgp_info_unlock_def bgp_info_free_def update_route_def
        peer_unlock_def bgp_unlock_node_def zassert_def)
  moreover have "chain_ok ?s3 rn rest"
  proof (rule chain_ok_rest [OF ok])
    show "length rest \<le> rn_lock ?s3 rn" using locks by simp
    show "int (length (filter (\<lambda>i. i \<in> routes_of s p) rest)) \<le> peer_locks ?s3 p" for p using peers [of p] by (auto split: if_splits)
    show "routes ?s3 j = routes s j" if "j \<in> set rest" for j using that ok by (auto simp: chain_ok_def)
  qed
  ultimately show ?thesis by (intro that [of ?s3]) auto
qed

definition best_of :: "bgp \<Rightarrow> rib \<Rightarrow> nat set \<Rightarrow> nat option \<Rightarrow> bool" where
  "best_of bgp s cs new \<longleftrightarrow> (case new of None \<Rightarrow> cs = {} | Some m \<Rightarrow> m \<in> cs \<and> (\<forall>j\<in>cs. key_of bgp s m \<le> key_of bgp s j))"

lemma best_of_cong: "(\<And>j. j \<in> cs \<Longrightarrow> key_of bgp s' j = key_of bgp s j) \<Longrightarrow> best_of bgp s' cs new = best_of bgp s cs new"
  by (auto simp: best_of_def split: option.splits)

lemma best_of_insert:
  assumes "best_of bgp s (insert a cs) new" "key_of bgp s a \<le> key_of bgp s b"
  shows "best_of bgp s (insert a (insert b cs)) new"
  using assms by (auto simp: best_of_def split: option.splits intro: order_trans)

lemma same_routes_views:
  assumes "\<And>j. j \<in> set xs \<Longrightarrow> routes s' j = routes s j"
  shows "candidates s' xs = candidates s xs" "last_selected s' xs old = last_selected s xs old"
proof -
  show "candidates s' xs = candidates s xs" using assms by (auto simp: candidates_def usable_def)
  show "last_selected s' xs old = last_selected s xs old"
    unfolding last_selected_def using assms by (intro fold_cong) (auto simp: flagged_def fun_eq_iff)
qed

lemma with_flags_key [simp]: "route_key bgp (ri (with_flags g r)) = route_key bgp (ri r)" "route_ok (ri (with_flags g r)) = route_ok (ri r)"
  by (simp_all add: with_flags_def route_key_def route_ok_def weight_of_def pref_of_def igpmetric_of_def tie_key_def router_id_of_def cluster_length_def)

lemma plain_cmp:
  assumes "plain_bgp bgp" "route_ok a" "\<And>b. exist = Some b \<Longrightarrow> route_ok b"
  shows "\<exists>eq. dbgp_info_cmp env pb bgp (Some a) exist w =
    Some ((case exist of None \<Rightarrow> True | Some b \<Rightarrow> route_key bgp a \<le> route_key bgp b, eq), w)"
proof (cases exist)
  case None
  then show ?thesis using assms(1) by (auto simp: dbgp_info_cmp_def bgp_info_cmp_def plain_bgp_def)
next
  case (Some b)
  then show ?thesis using assms bgp_info_cmp_key [of bgp a b] by (auto simp: dbgp_info_cmp_def plain_bgp_def simp del: less_eq_prod_simp)
qed

text \<open>A usable route is compared with the best one so far.\<close>

lemma select_step:
  assumes plain: "plain_bgp bgp" and ok: "chain_ok s rn (i # rest)" and use: "usable s i"
    and new: "\<forall>n. new = Some n \<longrightarrow> n \<noteq> i \<and> (\<exists>r. routes s n = Some r \<and> route_ok (ri r))"
  obtains s' new' where "select_loop env pb bgp rn False (i # rest) new old mps w s =
      select_loop env pb bgp rn False rest (Some new') (if flagged BGP_INFO_SELECTED s i then Some i else old) mps w s'"
    "chain_ok s' rn rest" "rn_info s' = rn_info s" "\<forall>j. j \<noteq> i \<longrightarrow> routes s' j = routes s j" "key_of bgp s' i = key_of bgp s i"
    "\<exists>r. routes s' i = Some r \<and> route_ok (ri r)" "single_path s' i"
    "new' = i \<or> new = Some new'" "key_of bgp s new' \<le> key_of bgp s i" "\<forall>n. new = Some n \<longrightarrow> key_of bgp s new' \<le> key_of bgp s n"
proof -
  obtain r where r: "routes s i = Some r" "ri_mpath r = None" "route_ok (ri r)" "\<not> BGP_INFO_HOLDDOWN r"
    using ok use by (auto simp: chain_ok_def single_path_def usable_def)
  define r' where "r' = with_flags (\<lambda>v. UNSET_FLAG v BGP_INFO_DMED_SELECTED) (with_flags (\<lambda>v. UNSET_FLAG v BGP_INFO_DMED_CHECK) r)"
  define s' where "s' = s\<lparr>routes := (routes s)(i \<mapsto> r')\<rparr>"
  have r': "ri_mpath r' = None" "route_ok (ri r')" "route_key bgp (ri r') = route_key bgp (ri r)" using r by (simp_all add: r'_def)
  obtain t where unset: "bgp_info_unset_flag i BGP_INFO_DMED_CHECK s = Some t" "bgp_info_unset_flag i BGP_INFO_DMED_SELECTED t = Some s'"
    using r(1) by (simp add: unset_dmed s'_def r'_def)
  obtain exist where exist: "exist_of new s' = Some exist" "\<And>b. exist = Some b \<Longrightarrow> route_ok b" "exist = None \<longleftrightarrow> new = None"
      "\<And>n b. new = Some n \<Longrightarrow> exist = Some b \<Longrightarrow> route_key bgp b = key_of bgp s n"
    using new by (cases new) (fastforce simp: exist_of_def s'_def key_of_def)+
  have "\<exists>eq. dbgp_info_cmp env pb bgp (Some (ri r')) exist w =
      Some ((case exist of None \<Rightarrow> True | Some b \<Rightarrow> route_key bgp (ri r') \<le> route_key bgp b, eq), w)"
    by (rule plain_cmp [OF plain r'(2) exist(2)])
  then obtain eq where eq: "dbgp_info_cmp env pb bgp (Some (ri r')) exist w =
      Some ((case exist of None \<Rightarrow> True | Some b \<Rightarrow> route_key bgp (ri r') \<le> route_key bgp b, eq), w)" ..
  define better where "better = (case exist of None \<Rightarrow> True | Some b \<Rightarrow> route_key bgp (ri r') \<le> route_key bgp b)"
  define new' where "new' = (if better then i else the new)"
  have key: "key_of bgp s i = route_key bgp (ri r')" using r(1) r'(3) by (simp add: key_of_def)
  have better: "\<not> better \<Longrightarrow> new = Some new' \<and> key_of bgp s new' \<le> key_of bgp s i" "better \<Longrightarrow> \<forall>n. new = Some n \<longrightarrow> key_of bgp s i \<le> key_of bgp s n"
    using exist(3,4) key by (auto simp: better_def new'_def split: option.splits simp del: less_eq_prod_simp)
  have "select_loop env pb bgp rn False (i # rest) new old mps w s =
      select_loop env pb bgp rn False rest (Some new') (if flagged BGP_INFO_SELECTED s i then Some i else old) mps w s'"
  proof -
    have "(if better then Some i else new) = Some new'" using better(1) by (auto simp: new'_def)
    moreover have "exist_of (Some i) s' = Some (Some (ri r'))" by (simp add: exist_of_def s'_def)
    moreover have "flagged BGP_INFO_SELECTED s i \<longleftrightarrow> CHECK_FLAG (route_flags r) BGP_INFO_SELECTED" using r(1) by (simp add: flagged_def)
    moreover have "\<not> bgp_flag_check bgp BGP_FLAG_DETERMINISTIC_MED" using plain by (simp add: plain_bgp_def)
    ultimately show ?thesis using r(1,4) exist(1) eq unset by (simp add: better_def Let_def)
  qed
  moreover have "chain_ok s' rn rest"
    using ok by (intro chain_ok_tl [OF ok]) (auto simp: s'_def chain_ok_def)
  moreover have "single_path s' i" "\<exists>r. routes s' i = Some r \<and> route_ok (ri r)" "key_of bgp s' i = key_of bgp s i"
    using r'(1,2) key by (simp_all add: s'_def single_path_def key_of_def)
  moreover have "new' = i \<or> new = Some new'" "key_of bgp s new' \<le> key_of bgp s i" "\<forall>n. new = Some n \<longrightarrow> key_of bgp s new' \<le> key_of bgp s n"
  proof -
    have "new = Some new' \<and> key_of bgp s new' \<le> key_of bgp s i" if "\<not> better" using better(1) that by blast
    then show "new' = i \<or> new = Some new'" "key_of bgp s new' \<le> key_of bgp s i" by (auto simp: new'_def simp del: less_eq_prod_simp)
    show "\<forall>n. new = Some n \<longrightarrow> key_of bgp s new' \<le> key_of bgp s n"
      by (cases better) (use better in \<open>simp_all add: new'_def del: less_eq_prod_simp\<close>)
  qed
  ultimately show ?thesis by (intro that [of new' s']) (simp_all add: s'_def del: less_eq_prod_simp)
qed

text \<open>What the rest of the loop achieves, from the best and the old route so far.\<close>

definition select_pre :: "rib \<Rightarrow> nat \<Rightarrow> nat list \<Rightarrow> nat option \<Rightarrow> nat option \<Rightarrow> bool" where
  "select_pre s rn xs new old \<longleftrightarrow> chain_ok s rn xs \<and> distinct (rn_info s rn) \<and>
     (\<forall>n. new = Some n \<longrightarrow> n \<notin> set xs \<and> single_path s n \<and> (\<exists>r. routes s n = Some r \<and> route_ok (ri r))) \<and>
     (\<forall>n. old = Some n \<longrightarrow> n \<notin> set xs \<and> single_path s n)"

definition select_post :: "bgp \<Rightarrow> rib \<Rightarrow> nat \<Rightarrow> nat list \<Rightarrow> nat option \<Rightarrow> nat option \<Rightarrow> nat option \<Rightarrow> rib \<Rightarrow> bool" where
  "select_post bgp s rn xs new old new' s' \<longleftrightarrow>
     rn_info s' = (rn_info s)(rn := filter (\<lambda>i. \<not> (i \<in> set xs \<and> reaped s i)) (rn_info s rn)) \<and>
     best_of bgp s (set_option new \<union> candidates s xs) new' \<and>
     (\<forall>n. new' = Some n \<longrightarrow> single_path s' n) \<and> (\<forall>n. last_selected s xs old = Some n \<longrightarrow> single_path s' n)"

lemma last_selected_Cons: "last_selected s (i # xs) old = last_selected s xs (if flagged BGP_INFO_SELECTED s i then Some i else old)"
  by (simp add: last_selected_def)

lemma same_route_views:
  "routes s' j = routes s j \<Longrightarrow> reaped s' j = reaped s j" "routes s' j = routes s j \<Longrightarrow> single_path s' j = single_path s j"
  "routes s' j = routes s j \<Longrightarrow> key_of bgp s' j = key_of bgp s j"
  by (simp_all add: reaped_def flagged_def single_path_def key_of_def)

lemma usable_not_reaped: "usable s i \<Longrightarrow> \<not> reaped s i"
  using REMOVED_holddown by (auto simp: usable_def reaped_def flagged_def split: option.splits)

lemma post_usable:
  assumes "usable s i" "i \<notin> set rest" and same: "\<forall>j. j \<noteq> i \<longrightarrow> routes s1 j = routes s j" "rn_info s1 = rn_info s" "key_of bgp s1 i = key_of bgp s i"
    and n1: "n1 = i \<or> new = Some n1" "key_of bgp s n1 \<le> key_of bgp s i" "\<forall>n. new = Some n \<longrightarrow> key_of bgp s n1 \<le> key_of bgp s n"
    and post: "select_post bgp s1 rn rest (Some n1) (if flagged BGP_INFO_SELECTED s i then Some i else old) new' s'"
  shows "select_post bgp s rn (i # rest) new old new' s'"
proof -
  have rest: "routes s1 j = routes s j" if "j \<in> set rest" for j using that assms(2) same(1) by auto
  note views = same_routes_views [of rest s1 s, OF rest]
  have keys: "key_of bgp s1 j = key_of bgp s j" for j using same by (cases "j = i") (auto intro: same_route_views(3))
  have "best_of bgp s (insert n1 (candidates s rest)) new'"
    using post views(1) keys best_of_cong [of "insert n1 (candidates s rest)" bgp s1 s new'] by (simp add: select_post_def)
  moreover have "candidates s (i # rest) = insert i (candidates s rest)" using assms(1) by (auto simp: candidates_def)
  ultimately have "best_of bgp s (set_option new \<union> candidates s (i # rest)) new'"
    using n1 best_of_insert [of bgp s n1 "candidates s rest" new'] by (cases new) (auto simp: insert_commute simp del: less_eq_prod_simp)
  moreover have "rn_info s' = (rn_info s)(rn := filter (\<lambda>j. \<not> (j \<in> set (i # rest) \<and> reaped s j)) (rn_info s rn))"
  proof -
    have "(j \<in> set rest \<and> reaped s1 j) = (j \<in> set (i # rest) \<and> reaped s j)" for j
      using rest same_route_views(1) [of s1 j s] usable_not_reaped [OF assms(1)] by auto
    then show ?thesis using post same(2) by (simp add: select_post_def)
  qed
  ultimately show ?thesis using post views(2) by (simp add: select_post_def last_selected_Cons)
qed

lemma post_unusable:
  assumes "\<not> usable s i" "i \<notin> set rest" "distinct (rn_info s rn)" and same: "\<forall>j. j \<noteq> i \<longrightarrow> routes s1 j = routes s j"
    "rn_info s1 = (rn_info s)(rn := if reaped s i then remove1 i (rn_info s rn) else rn_info s rn)" and new: "\<forall>n. new = Some n \<longrightarrow> n \<noteq> i"
    and post: "select_post bgp s1 rn rest new (if flagged BGP_INFO_SELECTED s i then Some i else old) new' s'"
  shows "select_post bgp s rn (i # rest) new old new' s'"
proof -
  have rest: "routes s1 j = routes s j" if "j \<in> set rest" for j using that assms(2) same(1) by auto
  note views = same_routes_views [of rest s1 s, OF rest]
  have keys: "key_of bgp s1 j = key_of bgp s j" if "j \<noteq> i" for j using same(1) that by (auto intro: same_route_views(3))
  have "j \<noteq> i" if "j \<in> set_option new \<union> candidates s rest" for j using that new assms(2) by (auto simp: candidates_def)
  then have "best_of bgp s (set_option new \<union> candidates s rest) new'"
    using post views(1) keys best_of_cong [of "set_option new \<union> candidates s rest" bgp s1 s new'] by (simp add: select_post_def)
  moreover have "candidates s (i # rest) = candidates s rest" using assms(1) by (auto simp: candidates_def)
  moreover have "rn_info s' = (rn_info s)(rn := filter (\<lambda>j. \<not> (j \<in> set (i # rest) \<and> reaped s j)) (rn_info s rn))"
  proof -
    have "(j \<in> set rest \<and> reaped s1 j) = (j \<in> set rest \<and> reaped s j)" for j using rest same_route_views(1) [of s1 j s] by auto
    moreover have "filter (\<lambda>j. \<not> (j \<in> set rest \<and> reaped s j)) (if reaped s i then remove1 i (rn_info s rn) else rn_info s rn) =
        filter (\<lambda>j. \<not> (j \<in> set (i # rest) \<and> reaped s j)) (rn_info s rn)"
      using assms(2,3) by (auto simp: distinct_remove1_removeAll removeAll_filter_not_eq intro!: filter_cong)
    ultimately show ?thesis using post same(2) by (simp add: select_post_def)
  qed
  ultimately show ?thesis using post views(2) by (simp add: select_post_def last_selected_Cons)
qed

lemma pre_step:
  assumes pre: "select_pre s rn (i # rest) new old" and "chain_ok s1 rn rest" "\<forall>j. j \<noteq> i \<longrightarrow> routes s1 j = routes s j" "distinct (rn_info s1 rn)"
    "\<forall>n. new1 = Some n \<longrightarrow> new = Some n \<or> n = i \<and> single_path s1 i \<and> (\<exists>r. routes s1 i = Some r \<and> route_ok (ri r))"
    "flagged BGP_INFO_SELECTED s i \<longrightarrow> single_path s1 i"
  shows "select_pre s1 rn rest new1 (if flagged BGP_INFO_SELECTED s i then Some i else old)"
proof -
  have i: "i \<notin> set rest" using pre by (auto simp: select_pre_def chain_ok_def)
  have new: "n \<noteq> i" "n \<notin> set rest" "single_path s1 n" "\<exists>r. routes s1 n = Some r \<and> route_ok (ri r)" if "new = Some n" for n
    using pre that assms(3) by (auto simp: select_pre_def single_path_def)
  have old: "n \<notin> set rest" "single_path s1 n" if "old = Some n" for n
    using pre that assms(3) by (auto simp: select_pre_def single_path_def)
  show ?thesis using assms(2,4,5,6) i new old by (auto simp: select_pre_def)
qed

lemma last_selected_step:
  assumes "i \<notin> set rest" "\<forall>j. j \<noteq> i \<longrightarrow> routes s1 j = routes s j"
  shows "last_selected s1 rest (if flagged BGP_INFO_SELECTED s i then Some i else old) = last_selected s (i # rest) old"
  unfolding last_selected_Cons by (rule same_routes_views(2)) (use assms in auto)

lemma select_unusable:
  assumes pre: "select_pre s rn (i # rest) new old" and "\<not> usable s i"
  shows "\<exists>s1. select_loop env pb bgp rn False (i # rest) new old mps w s =
      select_loop env pb bgp rn False rest new (if flagged BGP_INFO_SELECTED s i then Some i else old) mps w s1 \<and>
    chain_ok s1 rn rest \<and> rn_info s1 = (rn_info s)(rn := if reaped s i then remove1 i (rn_info s rn) else rn_info s rn) \<and>
    (\<forall>j. j \<noteq> i \<longrightarrow> routes s1 j = routes s j) \<and> (flagged BGP_INFO_SELECTED s i \<longrightarrow> single_path s1 i)"
proof -
  have ok: "chain_ok s rn (i # rest)" and single: "single_path s i" using pre by (auto simp: select_pre_def chain_ok_def)
  obtain r where r: "routes s i = Some r" "BGP_INFO_HOLDDOWN r" using single assms(2) by (auto simp: single_path_def usable_def)
  have flags: "flagged f s i \<longleftrightarrow> CHECK_FLAG (route_flags r) f" for f using r by (simp add: flagged_def)
  have old: "old \<noteq> Some i" using pre by (auto simp: select_pre_def)
  show ?thesis
  proof (cases "reaped s i")
    case True
    obtain s1 where "bgp_info_reap rn i s = Some s1" "chain_ok s1 rn rest" "rn_info s1 = (rn_info s)(rn := remove1 i (rn_info s rn))"
      "\<forall>j. j \<noteq> i \<longrightarrow> routes s1 j = routes s j" by (rule reap_step [OF ok])
    then show ?thesis using True r old flags by (auto simp: reaped_def Let_def)
  next
    case False
    moreover have "chain_ok s rn rest" by (rule chain_ok_tl [OF ok]) simp_all
    ultimately show ?thesis using r old flags single by (intro exI [of _ s]) (auto simp: reaped_def Let_def)
  qed
qed

lemma select_loop_best:
  assumes plain: "plain_bgp bgp" and "select_pre s rn xs new old"
  shows "\<exists>new' s'. select_loop env pb bgp rn False xs new old mps w s = Some (new', last_selected s xs old, mps, w, s') \<and>
    select_post bgp s rn xs new old new' s'"
  using assms(2)
proof (induction xs arbitrary: new old s)
  case Nil
  then show ?case by (auto simp: last_selected_def candidates_def best_of_def select_pre_def select_post_def split: option.splits)
next
  case (Cons i rest)
  have ok: "chain_ok s rn (i # rest)" "i \<notin> set rest" "single_path s i" "distinct (rn_info s rn)"
    using Cons.prems by (auto simp: select_pre_def chain_ok_def)
  let ?old = "if flagged BGP_INFO_SELECTED s i then Some i else old"
  obtain r where r: "routes s i = Some r" using ok(3) by (auto simp: single_path_def)
  have flags: "flagged f s i \<longleftrightarrow> CHECK_FLAG (route_flags r) f" for f using r by (simp add: flagged_def)
  have new: "\<forall>n. new = Some n \<longrightarrow> n \<noteq> i \<and> (\<exists>r. routes s n = Some r \<and> route_ok (ri r))" using Cons.prems by (auto simp: select_pre_def)
  show ?case
  proof (cases "usable s i")
    case True
    obtain s1 n1 where s1: "select_loop env pb bgp rn False (i # rest) new old mps w s = select_loop env pb bgp rn False rest (Some n1) ?old mps w s1"
      "chain_ok s1 rn rest" "rn_info s1 = rn_info s" "\<forall>j. j \<noteq> i \<longrightarrow> routes s1 j = routes s j" "key_of bgp s1 i = key_of bgp s i"
      "\<exists>r. routes s1 i = Some r \<and> route_ok (ri r)" "single_path s1 i"
      "n1 = i \<or> new = Some n1" "key_of bgp s n1 \<le> key_of bgp s i" "\<forall>n. new = Some n \<longrightarrow> key_of bgp s n1 \<le> key_of bgp s n"
      by (rule select_step [OF plain ok(1) True new])
    have "select_pre s1 rn rest (Some n1) ?old" using s1(2-8) ok(4) by (intro pre_step [OF Cons.prems]) auto
    from Cons.IH [OF this] obtain new' s' where s': "select_loop env pb bgp rn False rest (Some n1) ?old mps w s1 =
        Some (new', last_selected s1 rest ?old, mps, w, s')" "select_post bgp s1 rn rest (Some n1) ?old new' s'" by blast
    have "last_selected s1 rest ?old = last_selected s (i # rest) old"
      by (rule last_selected_step [OF ok(2) s1(4)])
    then show ?thesis using s1(1) s'(1) post_usable [OF True ok(2) s1(4,3,5,8,9,10) s'(2)] by auto
  next
    case False
    obtain s1 where s1: "select_loop env pb bgp rn False (i # rest) new old mps w s = select_loop env pb bgp rn False rest new ?old mps w s1"
      "chain_ok s1 rn rest" "rn_info s1 = (rn_info s)(rn := if reaped s i then remove1 i (rn_info s rn) else rn_info s rn)"
      "\<forall>j. j \<noteq> i \<longrightarrow> routes s1 j = routes s j" "flagged BGP_INFO_SELECTED s i \<longrightarrow> single_path s1 i"
      using select_unusable [OF Cons.prems False] by metis
    have "select_pre s1 rn rest new ?old" using s1(2-5) ok(4) by (intro pre_step [OF Cons.prems]) auto
    from Cons.IH [OF this] obtain new' s' where s': "select_loop env pb bgp rn False rest new ?old mps w s1 =
        Some (new', last_selected s1 rest ?old, mps, w, s')" "select_post bgp s1 rn rest new ?old new' s'" by blast
    have "last_selected s1 rest ?old = last_selected s (i # rest) old"
      by (rule last_selected_step [OF ok(2) s1(4)])
    moreover have "\<forall>n. new = Some n \<longrightarrow> n \<noteq> i" using new by blast
    ultimately show ?thesis using s1(1) s'(1) post_unusable [OF False ok(2,4) s1(4,3) _ s'(2)] by auto
  qed
qed

text \<open>Without multipaths the rest of the selection does nothing.\<close>

lemma single_path_mpath:
  assumes "single_path s i"
  shows "bgp_info_mpath_dequeue i s = Some s" "bgp_info_mpath_first i s = Some None" "bgp_info_mpath_count i s = Some 0"
    "bgp_info_mpath_count_set i 0 s = Some s" "bgp_info_mpath_attr i s = Some None" "maxpaths_for cfg i s \<noteq> None"
  using assms by (auto simp: single_path_def bgp_info_mpath_dequeue_def bgp_info_mpath_first_def bgp_info_mpath_next_def bgp_info_mpath_count_def
      bgp_info_mpath_count_set_def bgp_info_mpath_attr_def maxpaths_for_def)

lemma single_path_update:
  assumes "\<forall>n. new = Some n \<longrightarrow> single_path s n" "\<forall>n. old = Some n \<longrightarrow> single_path s n"
  shows "bgp_info_mpath_update new old [] cfg s = Some s" "bgp_info_mpath_aggregate_update new old s = Some s"
proof -
  have detach: "detach_new_best new old s = Some s" "detach_old_best old s = Some (None, 0, s)"
    using assms single_path_mpath by (auto simp: detach_new_best_def detach_old_best_def split: option.splits)
  have walk: "mpath_walk limit new [] None new cnt chg s = Some (cnt, chg, s)" for limit cnt chg by (simp add: mpath_walk.simps)
  show "bgp_info_mpath_update new old [] cfg s = Some s"
  proof (cases new)
    case None
    then show ?thesis using detach walk by (simp add: bgp_info_mpath_update_def)
  next
    case (Some n)
    then obtain limit where "maxpaths_for cfg n s = Some limit" using assms(1) single_path_mpath(6) by blast
    then show ?thesis using Some assms(1) detach walk single_path_mpath(3,4) [of s n] by (simp add: bgp_info_mpath_update_def)
  qed
  show "bgp_info_mpath_aggregate_update new old s = Some s"
    using assms single_path_mpath by (auto simp: bgp_info_mpath_aggregate_update_def drop_aggregate_def split: option.splits)
qed


text \<open>A chain of a selected route, a better one and a removed one.\<close>

definition plain_example :: bgp where
  "plain_example = strict_bgp\<lparr>protocol_of := dbgp_protocol_baseline\<rparr>"

definition example_chain :: rib where
  "example_chain = empty_rib\<lparr>rn_info := (\<lambda>_. [1, 2, 3]), rn_lock := (\<lambda>_. 4), peer_locks := (\<lambda>_. 4),
     routes := [1 \<mapsto> \<lparr>ri = (example_route plain_example 1 20 1)\<lparr>bi_flags := BGP_INFO_VALID OR BGP_INFO_SELECTED\<rparr>, ri_lock = 1, ri_peer = 1, ri_mpath = None\<rparr>,
       2 \<mapsto> \<lparr>ri = (example_route plain_example 2 10 2)\<lparr>bi_flags := BGP_INFO_VALID\<rparr>, ri_lock = 1, ri_peer = 2, ri_mpath = None\<rparr>,
       3 \<mapsto> \<lparr>ri = (example_route plain_example 3 0 3)\<lparr>bi_flags := BGP_INFO_REMOVED\<rparr>, ri_lock = 1, ri_peer = 3, ri_mpath = None\<rparr>]\<rparr>"

lemma example_chain_facts:
  "plain_bgp plain_example" "chain_ok example_chain 0 [1, 2, 3]" "candidates example_chain [1, 2, 3] = {1, 2}"
  "last_selected example_chain [1, 2, 3] None = Some 1" "filter (\<lambda>i. \<not> reaped example_chain i) [1, 2, 3] = [1, 2]"
  "\<not> key_of plain_example example_chain 1 \<le> key_of plain_example example_chain 2"
proof -
  show "plain_bgp plain_example" unfolding plain_bgp_def by code_simp
  have ok: "route_ok (example_route plain_example n m k \<lparr>bi_flags := f\<rparr>)" for n m k f
    by (simp add: route_ok_def example_route_def router_id_of_def cluster_length_def has_attr_def ATTR_FLAG_BIT_def)
  have peers: "int (length (filter P [1, 2, 3 :: nat])) \<le> 4" for P by simp
  show "chain_ok example_chain 0 [1, 2, 3]"
    using ok peers by (simp add: chain_ok_def example_chain_def empty_rib_def single_path_def)
  have use: "usable example_chain 1" "usable example_chain 2" "\<not> usable example_chain 3" by code_simp+
  then show "candidates example_chain [1, 2, 3] = {1, 2}" by (auto simp: candidates_def)
  show "last_selected example_chain [1, 2, 3] None = Some 1" "filter (\<lambda>i. \<not> reaped example_chain i) [1, 2, 3] = [1, 2]"
    "\<not> key_of plain_example example_chain 1 \<le> key_of plain_example example_chain 2" by code_simp+
qed


end
