(* ===== verification/Linklist.thy ===== *)
theory Linklist
  imports Quagga_Prelude
begin

text \<open>
  The doubly linked lists of the library (\<^verbatim>\<open>lib/linklist.c\<close>, \<^verbatim>\<open>lib/linklist.h\<close>) at the level of their pointers, and
  their refinement of Isabelle lists.

  A list is kept together with the memory of its nodes: \<open>mem\<close> maps the addresses in use to nodes and \<open>brk\<close> is an address from which on
  all are free.  A null pointer is \<open>None\<close>, the dereference of an address that is not in use is an error.  Data are pointers
  other than null, as the assertions of the functions demand.  A loop along the links is a partial function: it has no value on
  a cycle.
\<close>

subsection \<open>Nodes and lists\<close>

record 'a listnode =
  ln_next :: "nat option"
  ln_prev :: "nat option"
  ln_data :: 'a

record 'a llist =
  head :: "nat option"
  tail :: "nat option"
  count :: u32
  mem :: "nat \<Rightarrow> 'a listnode option"
  brk :: nat

definition set_next :: "nat \<Rightarrow> nat option \<Rightarrow> 'a llist \<Rightarrow> 'a llist option" where
  "set_next a v l = do { n \<leftarrow> mem l a; Some (l\<lparr>mem := (mem l)(a \<mapsto> n\<lparr>ln_next := v\<rparr>)\<rparr>) }"

definition set_prev :: "nat \<Rightarrow> nat option \<Rightarrow> 'a llist \<Rightarrow> 'a llist option" where
  "set_prev a v l = do { n \<leftarrow> mem l a; Some (l\<lparr>mem := (mem l)(a \<mapsto> n\<lparr>ln_prev := v\<rparr>)\<rparr>) }"

text \<open>The pointer to the successor of \<open>po\<close> in the list is the head of the list when there is no \<open>po\<close>, and symmetrically.\<close>

definition link_next :: "nat option \<Rightarrow> nat option \<Rightarrow> 'a llist \<Rightarrow> 'a llist option" where
  "link_next po v l = (case po of Some a \<Rightarrow> set_next a v l | None \<Rightarrow> Some (l\<lparr>head := v\<rparr>))"

definition link_prev :: "nat option \<Rightarrow> nat option \<Rightarrow> 'a llist \<Rightarrow> 'a llist option" where
  "link_prev po v l = (case po of Some a \<Rightarrow> set_prev a v l | None \<Rightarrow> Some (l\<lparr>tail := v\<rparr>))"

definition list_new :: "'a llist" where
  "list_new = \<lparr>head = None, tail = None, count = 0, mem = \<lambda>_. None, brk = 0\<rparr>"

definition listnode_new :: "'a \<Rightarrow> 'a llist \<Rightarrow> nat \<times> 'a llist" where
  "listnode_new val l =
     (brk l, l\<lparr>mem := (mem l)(brk l \<mapsto> \<lparr>ln_next = None, ln_prev = None, ln_data = val\<rparr>), brk := brk l + 1\<rparr>)"

definition listnode_free :: "nat \<Rightarrow> 'a llist \<Rightarrow> 'a llist" where
  "listnode_free a l = l\<lparr>mem := (mem l)(a := None)\<rparr>"

subsection \<open>Adding\<close>

definition listnode_add :: "'a llist \<Rightarrow> 'a \<Rightarrow> 'a llist option" where
  "listnode_add l val =
     (let (node, l) = listnode_new val l in do {
        l \<leftarrow> set_prev node (tail l) l;
        l \<leftarrow> (if head l = None then Some (l\<lparr>head := Some node\<rparr>) else do { t \<leftarrow> tail l; set_next t (Some node) l });
        Some (l\<lparr>tail := Some node, count := count l + 1\<rparr>) })"

partial_function (option) first_after :: "('a \<Rightarrow> 'a \<Rightarrow> int) \<Rightarrow> 'a \<Rightarrow> 'a llist \<Rightarrow> nat option \<Rightarrow> nat option option" where
  "first_after cmp val l n = (case n of
     None \<Rightarrow> Some None
   | Some a \<Rightarrow> do {
       nd \<leftarrow> mem l a;
       if cmp val (ln_data nd) < 0 then Some (Some a) else first_after cmp val l (ln_next nd) })"

definition listnode_add_sort :: "('a \<Rightarrow> 'a \<Rightarrow> int) option \<Rightarrow> 'a llist \<Rightarrow> 'a \<Rightarrow> 'a llist option" where
  "listnode_add_sort cmp l val =
     (let (new, l) = listnode_new val l in do {
        n \<leftarrow> (case cmp of Some cmp \<Rightarrow> first_after cmp val l (head l) | None \<Rightarrow> Some None);
        case n of
          Some n \<Rightarrow> do {
            l \<leftarrow> set_next new (Some n) l;
            nd \<leftarrow> mem l n;
            l \<leftarrow> set_prev new (ln_prev nd) l;
            l \<leftarrow> link_next (ln_prev nd) (Some new) l;
            l \<leftarrow> set_prev n (Some new) l;
            Some (l\<lparr>count := count l + 1\<rparr>) }
        | None \<Rightarrow> do {
            l \<leftarrow> set_prev new (tail l) l;
            l \<leftarrow> link_next (tail l) (Some new) l;
            Some (l\<lparr>tail := Some new, count := count l + 1\<rparr>) } })"

definition listnode_add_after :: "'a llist \<Rightarrow> nat option \<Rightarrow> 'a \<Rightarrow> 'a llist option" where
  "listnode_add_after l pp val =
     (let (nn, l) = listnode_new val l in
      case pp of
        None \<Rightarrow> do {
          l \<leftarrow> link_prev (head l) (Some nn) l;
          l \<leftarrow> set_next nn (head l) l;
          l \<leftarrow> set_prev nn None l;
          Some (l\<lparr>head := Some nn, count := count l + 1\<rparr>) }
      | Some p \<Rightarrow> do {
          pn \<leftarrow> mem l p;
          l \<leftarrow> link_prev (ln_next pn) (Some nn) l;
          pn \<leftarrow> mem l p;
          l \<leftarrow> set_next nn (ln_next pn) l;
          l \<leftarrow> set_prev nn (Some p) l;
          l \<leftarrow> set_next p (Some nn) l;
          Some (l\<lparr>count := count l + 1\<rparr>) })"

definition list_add_node_prev :: "'a llist \<Rightarrow> nat \<Rightarrow> 'a \<Rightarrow> 'a llist option" where
  "list_add_node_prev l current val =
     (let (node, l) = listnode_new val l in do {
        l \<leftarrow> set_next node (Some current) l;
        cn \<leftarrow> mem l current;
        l \<leftarrow> link_next (ln_prev cn) (Some node) l;
        cn \<leftarrow> mem l current;
        l \<leftarrow> set_prev node (ln_prev cn) l;
        l \<leftarrow> set_prev current (Some node) l;
        Some (l\<lparr>count := count l + 1\<rparr>) })"

definition list_add_node_next :: "'a llist \<Rightarrow> nat \<Rightarrow> 'a \<Rightarrow> 'a llist option" where
  "list_add_node_next l current val =
     (let (node, l) = listnode_new val l in do {
        l \<leftarrow> set_prev node (Some current) l;
        cn \<leftarrow> mem l current;
        l \<leftarrow> link_prev (ln_next cn) (Some node) l;
        cn \<leftarrow> mem l current;
        l \<leftarrow> set_next node (ln_next cn) l;
        l \<leftarrow> set_next current (Some node) l;
        Some (l\<lparr>count := count l + 1\<rparr>) })"

subsection \<open>Removing\<close>

definition LISTNODE_DETACH :: "'a llist \<Rightarrow> nat \<Rightarrow> 'a llist option" where
  "LISTNODE_DETACH l n = do {
     nd \<leftarrow> mem l n;
     l \<leftarrow> link_next (ln_prev nd) (ln_next nd) l;
     nd \<leftarrow> mem l n;
     l \<leftarrow> link_prev (ln_next nd) (ln_prev nd) l;
     Some (l\<lparr>count := count l - 1\<rparr>) }"

definition LISTNODE_ATTACH :: "'a llist \<Rightarrow> nat \<Rightarrow> 'a llist option" where
  "LISTNODE_ATTACH l n = do {
     l \<leftarrow> set_prev n (tail l) l;
     l \<leftarrow> set_next n None l;
     l \<leftarrow> (if head l = None then Some (l\<lparr>head := Some n\<rparr>) else do { t \<leftarrow> tail l; set_next t (Some n) l });
     Some (l\<lparr>tail := Some n, count := count l + 1\<rparr>) }"

definition listnode_move_to_tail :: "'a llist \<Rightarrow> nat \<Rightarrow> 'a llist option" where
  "listnode_move_to_tail l n = do { l \<leftarrow> LISTNODE_DETACH l n; LISTNODE_ATTACH l n }"

definition list_delete_node :: "'a llist \<Rightarrow> nat \<Rightarrow> 'a llist option" where
  "list_delete_node l node = do {
     l \<leftarrow> LISTNODE_DETACH l node;
     Some (listnode_free node l) }"

partial_function (option) listnode_delete_from :: "'a llist \<Rightarrow> 'a \<Rightarrow> nat option \<Rightarrow> 'a llist option" where
  "listnode_delete_from l val node = (case node of
     None \<Rightarrow> Some l
   | Some a \<Rightarrow> do {
       nd \<leftarrow> mem l a;
       if ln_data nd = val then list_delete_node l a else listnode_delete_from l val (ln_next nd) })"

definition listnode_delete :: "'a llist \<Rightarrow> 'a \<Rightarrow> 'a llist option" where
  "listnode_delete l val = listnode_delete_from l val (head l)"

text \<open>The callback \<^verbatim>\<open>del\<close> is called on the data in order: the result lists its calls.\<close>

partial_function (option) delete_nodes :: "'a llist \<Rightarrow> nat option \<Rightarrow> ('a list \<times> 'a llist) option" where
  "delete_nodes l node = (case node of
     None \<Rightarrow> Some ([], l)
   | Some a \<Rightarrow> do {
       nd \<leftarrow> mem l a;
       (ds, l) \<leftarrow> delete_nodes (listnode_free a l) (ln_next nd);
       Some (ln_data nd # ds, l) })"

definition list_delete_all_node :: "'a llist \<Rightarrow> ('a list \<times> 'a llist) option" where
  "list_delete_all_node l = do {
     (ds, l) \<leftarrow> delete_nodes l (head l);
     Some (ds, l\<lparr>head := None, tail := None, count := 0\<rparr>) }"

subsection \<open>Reading\<close>

definition listnode_head :: "'a llist \<Rightarrow> 'a option option" where
  "listnode_head l = (case head l of None \<Rightarrow> Some None | Some a \<Rightarrow> do { nd \<leftarrow> mem l a; Some (Some (ln_data nd)) })"

partial_function (option) lookup_from :: "'a llist \<Rightarrow> 'a \<Rightarrow> nat option \<Rightarrow> nat option option" where
  "lookup_from l d node = (case node of
     None \<Rightarrow> Some None
   | Some a \<Rightarrow> do {
       nd \<leftarrow> mem l a;
       if d = ln_data nd then Some (Some a) else lookup_from l d (ln_next nd) })"

definition listnode_lookup :: "'a llist \<Rightarrow> 'a \<Rightarrow> nat option option" where
  "listnode_lookup l d = lookup_from l d (head l)"

partial_function (option) add_all :: "'a llist \<Rightarrow> 'a llist \<Rightarrow> nat option \<Rightarrow> 'a llist option" where
  "add_all l m n = (case n of
     None \<Rightarrow> Some l
   | Some a \<Rightarrow> do {
       nd \<leftarrow> mem m a;
       l \<leftarrow> listnode_add l (ln_data nd);
       add_all l m (ln_next nd) })"

definition list_add_list :: "'a llist \<Rightarrow> 'a llist \<Rightarrow> 'a llist option" where
  "list_add_list l m = add_all l m (head m)"

subsection \<open>Representation\<close>

text \<open>\<open>dseg m p ns n\<close>: the nodes \<open>ns\<close>, addresses with their data, are linked in both directions, preceded by \<open>p\<close> and followed by \<open>n\<close>.\<close>

definition first_of :: "(nat \<times> 'a) list \<Rightarrow> nat option \<Rightarrow> nat option" where
  "first_of ns n = (case ns of [] \<Rightarrow> n | (a, _) # _ \<Rightarrow> Some a)"

definition last_of :: "nat option \<Rightarrow> (nat \<times> 'a) list \<Rightarrow> nat option" where
  "last_of p ns = (if ns = [] then p else Some (fst (last ns)))"

fun dseg :: "(nat \<Rightarrow> 'a listnode option) \<Rightarrow> nat option \<Rightarrow> (nat \<times> 'a) list \<Rightarrow> nat option \<Rightarrow> bool" where
  "dseg m p [] n = True"
| "dseg m p ((a, x) # ns) n = (m a = Some \<lparr>ln_next = first_of ns n, ln_prev = p, ln_data = x\<rparr> \<and> dseg m (Some a) ns n)"

abbreviation addrs :: "(nat \<times> 'a) list \<Rightarrow> nat set" where
  "addrs ns \<equiv> fst ` set ns"

definition linked :: "'a llist \<Rightarrow> (nat \<times> 'a) list \<Rightarrow> bool" where
  "linked l ns \<longleftrightarrow> head l = first_of ns None \<and> tail l = last_of None ns \<and> dseg (mem l) None ns None \<and> distinct (map fst ns)"

definition repr :: "'a llist \<Rightarrow> (nat \<times> 'a) list \<Rightarrow> bool" where
  "repr l ns \<longleftrightarrow> linked l ns \<and> count l = of_nat (length ns) \<and> (\<forall>a. brk l \<le> a \<longrightarrow> mem l a = None)"

lemma first_of_simps [simp]: "first_of [] n = n" "first_of ((a, x) # ns) n = Some a" "first_of (ns @ ms) n = first_of ns (first_of ms n)"
  by (auto simp: first_of_def split: list.splits)

lemma last_of_simps [simp]: "last_of p [] = p" "last_of p (ns @ ms) = last_of (last_of p ns) ms" "last_of p [(a, x)] = Some a"
  "last_of p ((a, x) # ns) = last_of (Some a) ns"
  by (auto simp: last_of_def)

lemma dseg_append [simp]: "dseg m p (ns @ ms) n \<longleftrightarrow> dseg m p ns (first_of ms n) \<and> dseg m (last_of p ns) ms n"
  by (induction ns arbitrary: p) auto

lemma dseg_frame: "\<forall>a\<in>addrs ns. m' a = m a \<Longrightarrow> dseg m' p ns n = dseg m p ns n"
  by (induction ns arbitrary: p) auto

lemma dseg_update [simp]: "a \<notin> addrs ns \<Longrightarrow> dseg (m(a := v)) p ns n = dseg m p ns n"
  by (rule dseg_frame) auto

lemma dseg_mem: "dseg m p ns n \<Longrightarrow> a \<in> addrs ns \<Longrightarrow> m a \<noteq> None"
  by (induction ns arbitrary: p) force+

text \<open>The two halves of a list while the links between them are changed: the last node of the first half points to \<open>n\<close>, the first node
  of the second half back to \<open>p\<close>.\<close>

definition parts :: "'a llist \<Rightarrow> (nat \<times> 'a) list \<Rightarrow> nat option \<Rightarrow> nat option \<Rightarrow> (nat \<times> 'a) list \<Rightarrow> bool" where
  "parts l xs n p ys \<longleftrightarrow> dseg (mem l) None xs n \<and> dseg (mem l) p ys None \<and> head l = first_of xs n \<and> tail l = last_of p ys \<and>
     distinct (map fst (xs @ ys))"

lemma linked_append: "linked l (xs @ ys) \<longleftrightarrow> parts l xs (first_of ys None) (last_of None xs) ys"
  by (auto simp: linked_def parts_def)

lemma linked_insert:
  "linked l (xs @ (a, x) # ys) \<longleftrightarrow> parts l xs (Some a) (Some a) ys \<and> a \<notin> addrs (xs @ ys) \<and>
     mem l a = Some \<lparr>ln_next = first_of ys None, ln_prev = last_of None xs, ln_data = x\<rparr>"
  by (auto simp: linked_def parts_def)

lemma parts_mem:
  "parts l xs n p ys \<Longrightarrow> a \<notin> addrs (xs @ ys) \<Longrightarrow> parts (l\<lparr>mem := (mem l)(a := v)\<rparr>) xs n p ys"
  by (auto simp: parts_def image_Un)

lemma parts_more [simp]: "parts (l\<lparr>count := c\<rparr>) xs n p ys = parts l xs n p ys" "parts (l\<lparr>brk := b\<rparr>) xs n p ys = parts l xs n p ys"
  by (simp_all add: parts_def)

text \<open>What a change of the links between the halves leaves alone.\<close>

definition same_outside :: "(nat \<times> 'a) list \<Rightarrow> 'a llist \<Rightarrow> 'a llist \<Rightarrow> bool" where
  "same_outside ns l l' \<longleftrightarrow> brk l' = brk l \<and> count l' = count l \<and> (\<forall>a. a \<notin> addrs ns \<longrightarrow> mem l' a = mem l a)"

lemma link_next_parts:
  assumes "parts l xs n p ys"
  obtains l' where "link_next (last_of None xs) v l = Some l'" "parts l' xs v p ys" "same_outside xs l l'"
proof (cases xs rule: rev_cases)
  case Nil
  then show ?thesis using that [of "l\<lparr>head := v\<rparr>"] assms by (simp add: link_next_def parts_def same_outside_def)
next
  case (snoc zs z)
  obtain a x where z: "z = (a, x)" by fastforce
  have m: "mem l a = Some \<lparr>ln_next = n, ln_prev = last_of None zs, ln_data = x\<rparr>" using assms snoc z by (simp add: parts_def)
  let ?l = "l\<lparr>mem := (mem l)(a \<mapsto> \<lparr>ln_next = v, ln_prev = last_of None zs, ln_data = x\<rparr>)\<rparr>"
  have "link_next (last_of None xs) v l = Some ?l" using snoc z m by (simp add: link_next_def set_next_def)
  moreover have "parts ?l xs v p ys" using assms snoc z by (auto simp: parts_def)
  ultimately show ?thesis using that snoc z by (auto simp: same_outside_def)
qed

lemma link_prev_parts:
  assumes "parts l xs n p ys"
  obtains l' where "link_prev (first_of ys None) v l = Some l'" "parts l' xs n v ys" "same_outside ys l l'"
proof (cases ys)
  case Nil
  then show ?thesis using that [of "l\<lparr>tail := v\<rparr>"] assms by (simp add: link_prev_def parts_def same_outside_def)
next
  case (Cons z zs)
  obtain a x where z: "z = (a, x)" by fastforce
  have m: "mem l a = Some \<lparr>ln_next = first_of zs None, ln_prev = p, ln_data = x\<rparr>" using assms Cons z by (simp add: parts_def)
  let ?l = "l\<lparr>mem := (mem l)(a \<mapsto> \<lparr>ln_next = first_of zs None, ln_prev = v, ln_data = x\<rparr>)\<rparr>"
  have "link_prev (first_of ys None) v l = Some ?l" using Cons z m by (simp add: link_prev_def set_prev_def)
  moreover have "parts ?l xs n v ys" using assms Cons z by (auto simp: parts_def)
  ultimately show ?thesis using that Cons z by (auto simp: same_outside_def)
qed

definition free_above :: "'a llist \<Rightarrow> bool" where
  "free_above l \<longleftrightarrow> (\<forall>a. brk l \<le> a \<longrightarrow> mem l a = None)"

lemma repr_alt: "repr l ns \<longleftrightarrow> linked l ns \<and> count l = of_nat (length ns) \<and> free_above l"
  by (simp add: repr_def free_above_def)

lemma free_above_same:
  assumes "parts l xs n p ys" "same_outside zs l l'" "set zs \<subseteq> set (xs @ ys)" "free_above l"
  shows "free_above l'"
proof -
  have "mem l a \<noteq> None" if a: "a \<in> addrs zs" for a
  proof -
    have "a \<in> addrs xs \<or> a \<in> addrs ys" using a assms(3) by (auto simp: image_iff)
    then show ?thesis using assms(1) dseg_mem unfolding parts_def by blast
  qed
  then show ?thesis using assms(2,4) unfolding free_above_def same_outside_def by metis
qed

text \<open>A fresh node beside a list, and the list with the node linked in.\<close>

lemma listnode_new_parts:
  assumes "repr l (xs @ ys)" "listnode_new v l = (b, l0)"
  shows "parts l0 xs (first_of ys None) (last_of None xs) ys" "b \<notin> addrs (xs @ ys)" "free_above l0" "b < brk l0"
    "mem l0 b = Some \<lparr>ln_next = None, ln_prev = None, ln_data = v\<rparr>" "count l0 = of_nat (length (xs @ ys))" "head l0 = head l" "tail l0 = tail l"
proof -
  have p: "parts l xs (first_of ys None) (last_of None xs) ys" and f: "free_above l" using assms(1) by (simp_all add: repr_alt linked_append)
  have "mem l (brk l) = None" using f by (simp add: free_above_def)
  then have "brk l \<notin> addrs xs" "brk l \<notin> addrs ys" using p dseg_mem unfolding parts_def by blast+
  then show n: "b \<notin> addrs (xs @ ys)" using assms(2) by (auto simp: listnode_new_def)
  show "parts l0 xs (first_of ys None) (last_of None xs) ys"
    using parts_mem [OF p, of b] n assms(2) by (auto simp: listnode_new_def)
  show "free_above l0" "b < brk l0" "mem l0 b = Some \<lparr>ln_next = None, ln_prev = None, ln_data = v\<rparr>" "count l0 = of_nat (length (xs @ ys))"
    "head l0 = head l" "tail l0 = tail l"
    using assms f by (auto simp: listnode_new_def free_above_def repr_alt)
qed

lemma repr_insertI:
  assumes "parts l xs (Some b) (Some b) ys" "b \<notin> addrs (xs @ ys)" "free_above l" "count l = of_nat (length (xs @ ys)) + 1"
    "mem l b = Some \<lparr>ln_next = first_of ys None, ln_prev = last_of None xs, ln_data = v\<rparr>"
  shows "repr l (xs @ (b, v) # ys)"
  using assms by (simp add: repr_alt linked_insert)

lemma free_above_update: "free_above l \<Longrightarrow> a < brk l \<Longrightarrow> free_above (l\<lparr>mem := (mem l)(a \<mapsto> n)\<rparr>)"
  by (auto simp: free_above_def)

text \<open>Linking a node whose own pointers are set between two halves: the successor pointer of the first half, then the predecessor
  pointer of the second.\<close>

lemma link_between:
  assumes "parts l xs n p ys" "free_above l" "b \<notin> addrs (xs @ ys)" "count l = of_nat (length (xs @ ys))"
    "mem l b = Some \<lparr>ln_next = first_of ys None, ln_prev = last_of None xs, ln_data = v\<rparr>"
  shows "\<exists>l1 l2. link_next (last_of None xs) (Some b) l = Some l1 \<and> parts l1 xs (Some b) p ys \<and> same_outside xs l l1 \<and>
    link_prev (first_of ys None) (Some b) l1 = Some l2 \<and> repr (l2\<lparr>count := count l2 + 1\<rparr>) (xs @ (b, v) # ys)"
proof -
  obtain l1 where 1: "link_next (last_of None xs) (Some b) l = Some l1" "parts l1 xs (Some b) p ys" "same_outside xs l l1"
    using link_next_parts [OF assms(1)] by blast
  obtain l2 where 2: "link_prev (first_of ys None) (Some b) l1 = Some l2" "parts l2 xs (Some b) (Some b) ys" "same_outside ys l1 l2"
    using link_prev_parts [OF 1(2)] by blast
  have "free_above l1" using free_above_same [OF assms(1) 1(3) _ assms(2)] by auto
  then have "free_above l2" using free_above_same [OF 1(2) 2(3)] by auto
  moreover have "mem l2 b = mem l b" "count l2 = count l" using assms(3) 1(3) 2(3) by (auto simp: same_outside_def image_Un)
  ultimately have "repr (l2\<lparr>count := count l2 + 1\<rparr>) (xs @ (b, v) # ys)"
    using assms 2(2) by (intro repr_insertI) (auto simp: free_above_def)
  then show ?thesis using 1 2 by blast
qed

lemma listnode_add_repr:
  assumes "repr l ns"
  shows "\<exists>l' b. listnode_add l v = Some l' \<and> repr l' (ns @ [(b, v)])"
proof -
  obtain b l0 where new: "listnode_new v l = (b, l0)" by fastforce
  note N = listnode_new_parts [of l ns "[]", simplified, OF assms new]
  let ?l = "l0\<lparr>mem := (mem l0)(b \<mapsto> \<lparr>ln_next = None, ln_prev = last_of None ns, ln_data = v\<rparr>)\<rparr>"
  have p: "parts ?l ns None (last_of None ns) []" using parts_mem [OF N(1)] N(2) by simp
  obtain l1 l2 where l: "link_next (last_of None ns) (Some b) ?l = Some l1" "parts l1 ns (Some b) (last_of None ns) []"
      "link_prev None (Some b) l1 = Some l2" "repr (l2\<lparr>count := count l2 + 1\<rparr>) (ns @ [(b, v)])"
    using link_between [OF p, of b v] N free_above_update [of l0 b] by auto
  have t: "tail l0 = last_of None ns" "head l0 = None \<longleftrightarrow> ns = []"
    using N(1) by (cases ns; auto simp: parts_def)+
  have "(if head ?l = None then Some (?l\<lparr>head := Some b\<rparr>) else do { t \<leftarrow> tail ?l; set_next t (Some b) ?l }) = Some l1"
    using l(1) t by (auto simp: link_next_def last_of_def)
  moreover have "set_prev b (tail l0) l0 = Some ?l" using N t by (simp add: set_prev_def)
  ultimately have "listnode_add l v = Some (l1\<lparr>tail := Some b, count := count l1 + 1\<rparr>)"
    unfolding listnode_add_def new by simp
  moreover have "l2 = l1\<lparr>tail := Some b\<rparr>" using l(3) by (simp add: link_prev_def)
  ultimately show ?thesis using l(4) by auto
qed

lemma first_after_dseg:
  "dseg (mem l) p ns None \<Longrightarrow>
     first_after cmp v l (first_of ns None) = Some (first_of (dropWhile (\<lambda>z. \<not> cmp v (snd z) < 0) ns) None)"
proof (induction ns arbitrary: p)
  case (Cons z ns)
  then show ?case by (cases z) (subst first_after.simps; auto)
qed (simp add: first_after.simps)

text \<open>The abstract operation: insert before the first element that is greater.\<close>

definition insert_sorted :: "('a \<Rightarrow> 'a \<Rightarrow> int) option \<Rightarrow> 'a \<Rightarrow> 'a list \<Rightarrow> 'a list" where
  "insert_sorted cmp v xs = (case cmp of
     None \<Rightarrow> xs @ [v]
   | Some cmp \<Rightarrow> takeWhile (\<lambda>x. \<not> cmp v x < 0) xs @ v # dropWhile (\<lambda>x. \<not> cmp v x < 0) xs)"

lemma listnode_add_sort_repr:
  fixes l :: "'a llist"
  assumes "repr l ns"
  shows "\<exists>l' ns'. listnode_add_sort cmp l v = Some l' \<and> repr l' ns' \<and> map snd ns' = insert_sorted cmp v (map snd ns)"
proof -
  obtain b l0 where new: "listnode_new v l = (b, l0)" by fastforce
  define Q where "Q = (case cmp of Some c \<Rightarrow> \<lambda>z :: nat \<times> 'a. \<not> c v (snd z) < 0 | None \<Rightarrow> \<lambda>_. True)"
  define xs where "xs = takeWhile Q ns"
  define ys where "ys = dropWhile Q ns"
  have [simp]: "dropWhile (\<lambda>_. True) zs = []" "takeWhile (\<lambda>_. True) zs = zs" for zs :: "'b list" by (induction zs) auto
  have split: "ns = xs @ ys" by (simp add: xs_def ys_def)
  note N = listnode_new_parts [OF assms [unfolded split] new]
  have "linked l0 (xs @ ys)" using N(1) by (simp add: linked_append)
  then have h: "head l0 = first_of ns None" "dseg (mem l0) None ns None" "tail l0 = last_of None ns" by (simp_all add: linked_def split)
  have find: "(case cmp of Some c \<Rightarrow> first_after c v l0 (head l0) | None \<Rightarrow> Some None) = Some (first_of ys None)"
    using first_after_dseg [OF h(2)] h(1) by (cases cmp) (simp_all add: ys_def Q_def)
  let ?l = "l0\<lparr>mem := (mem l0)(b \<mapsto> \<lparr>ln_next = first_of ys None, ln_prev = last_of None xs, ln_data = v\<rparr>)\<rparr>"
  have p: "parts ?l xs (first_of ys None) (last_of None xs) ys" using parts_mem [OF N(1,2)] .
  obtain l1 l2 where l: "link_next (last_of None xs) (Some b) ?l = Some l1" "parts l1 xs (Some b) (last_of None xs) ys"
      "link_prev (first_of ys None) (Some b) l1 = Some l2" "repr (l2\<lparr>count := count l2 + 1\<rparr>) (xs @ (b, v) # ys)"
    using link_between [OF p, of b v] N free_above_update [of l0 b] by auto
  have "listnode_add_sort cmp l v = Some (l2\<lparr>count := count l2 + 1\<rparr>)"
  proof (cases ys)
    case Nil
    then have "set_prev b (tail l0) l0 = Some ?l" using N(5) h(3) split by (simp add: set_prev_def)
    then show ?thesis using Nil l(1,3) h(3) split find by (auto simp: listnode_add_sort_def new link_prev_def)
  next
    case (Cons z zs)
    obtain n y where z: "z = (n, y)" by fastforce
    have nb: "n \<noteq> b" and m: "mem l0 n = Some \<lparr>ln_next = first_of zs None, ln_prev = last_of None xs, ln_data = y\<rparr>"
      using N(1,2) Cons z by (auto simp: parts_def)
    let ?k = "l0\<lparr>mem := (mem l0)(b \<mapsto> \<lparr>ln_next = Some n, ln_prev = None, ln_data = v\<rparr>)\<rparr>"
    have "set_next b (Some n) l0 = Some ?k" "set_prev b (last_of None xs) ?k = Some ?l"
      using N(5) Cons z by (simp_all add: set_next_def set_prev_def)
    then show ?thesis using Cons z nb m find l(1,3) by (simp add: listnode_add_sort_def new link_prev_def)
  qed
  moreover have "map snd (xs @ (b, v) # ys) = insert_sorted cmp v (map snd ns)"
    by (auto simp: insert_sorted_def xs_def ys_def Q_def takeWhile_map dropWhile_map comp_def split: option.splits)
  ultimately show ?thesis using l(4) by blast
qed

lemma LISTNODE_DETACH_parts:
  assumes "repr l (xs @ (a, x) # ys)"
  obtains l' where "LISTNODE_DETACH l a = Some l'" "parts l' xs (first_of ys None) (last_of None xs) ys" "a \<notin> addrs (xs @ ys)"
    "free_above l'" "count l' = of_nat (length (xs @ ys))" "mem l' a = mem l a" "a < brk l'"
proof -
  have P: "parts l xs (Some a) (Some a) ys" "a \<notin> addrs (xs @ ys)" "free_above l"
    and m: "mem l a = Some \<lparr>ln_next = first_of ys None, ln_prev = last_of None xs, ln_data = x\<rparr>"
    using assms by (simp_all add: repr_alt linked_insert)
  obtain l1 where 1: "link_next (last_of None xs) (first_of ys None) l = Some l1" "parts l1 xs (first_of ys None) (Some a) ys" "same_outside xs l l1"
    using link_next_parts [OF P(1)] by blast
  obtain l2 where 2: "link_prev (first_of ys None) (last_of None xs) l1 = Some l2" "parts l2 xs (first_of ys None) (last_of None xs) ys"
      "same_outside ys l1 l2"
    using link_prev_parts [OF 1(2)] by blast
  have "free_above l1" using free_above_same [OF P(1) 1(3) _ P(3)] by auto
  then have f: "free_above l2" using free_above_same [OF 1(2) 2(3)] by auto
  have same: "mem l1 a = mem l a" "mem l2 a = mem l a" "count l2 = count l" using P(2) 1(3) 2(3) by (auto simp: same_outside_def image_Un)
  then have "LISTNODE_DETACH l a = Some (l2\<lparr>count := count l2 - 1\<rparr>)" using m 1(1) 2(1) by (simp add: LISTNODE_DETACH_def)
  moreover have "count l2 - 1 = of_nat (length (xs @ ys))" using assms same by (simp add: repr_def)
  moreover have "a < brk l2" using f same(2) m unfolding free_above_def by (metis linorder_not_less option.distinct(1))
  ultimately show ?thesis using that [of "l2\<lparr>count := count l2 - 1\<rparr>"] 2(2) P(2) f same by (auto simp: free_above_def)
qed

lemma list_delete_node_repr:
  assumes "repr l (xs @ (a, x) # ys)"
  shows "\<exists>l'. list_delete_node l a = Some l' \<and> repr l' (xs @ ys)"
proof -
  obtain l' where l': "LISTNODE_DETACH l a = Some l'" "parts l' xs (first_of ys None) (last_of None xs) ys" "a \<notin> addrs (xs @ ys)"
      "free_above l'" "count l' = of_nat (length (xs @ ys))"
    using LISTNODE_DETACH_parts [OF assms] by metis
  then show ?thesis
    using parts_mem [OF l'(2,3), of None]
    by (auto simp: list_delete_node_def listnode_free_def repr_alt linked_append free_above_def)
qed

lemma listnode_delete_from_repr:
  "repr l (xs @ ys) \<Longrightarrow> v \<notin> set (map snd xs) \<Longrightarrow>
     \<exists>l' ns'. listnode_delete_from l v (first_of ys None) = Some l' \<and> repr l' ns' \<and> map snd ns' = map snd xs @ remove1 v (map snd ys)"
proof (induction ys arbitrary: xs)
  case Nil
  then show ?case by (auto simp: listnode_delete_from.simps)
next
  case (Cons z ys)
  obtain a x where z: "z = (a, x)" by fastforce
  have m: "mem l a = Some \<lparr>ln_next = first_of ys None, ln_prev = last_of None xs, ln_data = x\<rparr>"
    using Cons.prems z by (simp add: repr_alt linked_insert)
  show ?case
  proof (cases "x = v")
    case True
    obtain l' where "list_delete_node l a = Some l'" "repr l' (xs @ ys)" using Cons.prems z list_delete_node_repr [of l xs a x ys] by auto
    moreover from this have "\<exists>ns'. repr l' ns' \<and> map snd ns' = map snd xs @ map snd ys" by (intro exI [of _ "xs @ ys"]) simp
    ultimately show ?thesis using True z m by (subst listnode_delete_from.simps) simp
  next
    case False
    then have "\<exists>l' ns'. listnode_delete_from l v (first_of ys None) = Some l' \<and> repr l' ns' \<and>
        map snd ns' = map snd (xs @ [z]) @ remove1 v (map snd ys)"
      using Cons.IH [of "xs @ [z]"] Cons.prems z by auto
    then show ?thesis using False z m by (subst listnode_delete_from.simps) auto
  qed
qed

lemma listnode_delete_repr:
  "repr l ns \<Longrightarrow> \<exists>l' ns'. listnode_delete l v = Some l' \<and> repr l' ns' \<and> map snd ns' = remove1 v (map snd ns)"
  using listnode_delete_from_repr [of l "[]" ns v] by (simp add: listnode_delete_def repr_alt linked_def)

lemma listnode_move_to_tail_repr:
  assumes "repr l (xs @ (a, x) # ys)"
  shows "\<exists>l'. listnode_move_to_tail l a = Some l' \<and> repr l' (xs @ ys @ [(a, x)])"
proof -
  have "mem l a = Some \<lparr>ln_next = first_of ys None, ln_prev = last_of None xs, ln_data = x\<rparr>"
    using assms by (simp add: repr_alt linked_insert)
  then obtain l0 where l0: "LISTNODE_DETACH l a = Some l0" "parts l0 xs (first_of ys None) (last_of None xs) ys" "a \<notin> addrs (xs @ ys)"
      "free_above l0" "count l0 = of_nat (length (xs @ ys))"
      "mem l0 a = Some \<lparr>ln_next = first_of ys None, ln_prev = last_of None xs, ln_data = x\<rparr>" "a < brk l0"
    using LISTNODE_DETACH_parts [OF assms] by metis
  define ns where "ns = xs @ ys"
  let ?l = "l0\<lparr>mem := (mem l0)(a \<mapsto> \<lparr>ln_next = None, ln_prev = last_of None ns, ln_data = x\<rparr>)\<rparr>"
  have q: "parts l0 ns None (last_of None ns) []" using l0(2) linked_append [of l0 xs ys] linked_append [of l0 ns "[]"] by (simp add: ns_def)
  have p: "parts ?l ns None (last_of None ns) []" using parts_mem [OF q, of a] l0(3) by (simp add: ns_def)
  have a: "a \<notin> addrs (ns @ [])" "count ?l = of_nat (length (ns @ []))" using l0(3,5) by (simp_all add: ns_def)
  obtain l1 l2 where l: "link_next (last_of None ns) (Some a) ?l = Some l1" "link_prev None (Some a) l1 = Some l2"
      "repr (l2\<lparr>count := count l2 + 1\<rparr>) (ns @ [(a, x)])"
    using link_between [OF p free_above_update [OF l0(4,7)] a, of x] by auto
  have t: "tail l0 = last_of None ns" "head l0 = None \<longleftrightarrow> ns = []" using p by (cases ns; auto simp: parts_def)+
  then have "(if head ?l = None then Some (?l\<lparr>head := Some a\<rparr>) else do { t \<leftarrow> tail ?l; set_next t (Some a) ?l }) = Some l1"
    using l(1) by (auto simp: link_next_def last_of_def)
  moreover let ?k = "l0\<lparr>mem := (mem l0)(a \<mapsto> \<lparr>ln_next = first_of ys None, ln_prev = last_of None ns, ln_data = x\<rparr>)\<rparr>"
  have "set_prev a (tail l0) l0 = Some ?k" "set_next a None ?k = Some ?l" using l0(6) t by (simp_all add: set_prev_def set_next_def)
  moreover have "l2 = l1\<lparr>tail := Some a\<rparr>" using l(2) by (simp add: link_prev_def)
  ultimately have "LISTNODE_ATTACH l0 a = Some (l2\<lparr>count := count l2 + 1\<rparr>)" unfolding LISTNODE_ATTACH_def by simp
  then show ?thesis using l0(1) l(3) by (auto simp: listnode_move_to_tail_def ns_def)
qed

text \<open>Linking in behind a node, the predecessor pointer of the second half first.\<close>

lemma link_behind:
  assumes "parts l (xs @ [(a, x)]) (first_of ys None) (Some a) ys" "free_above l" "b \<notin> addrs (xs @ (a, x) # ys)" "b < brk l"
    "count l = of_nat (length (xs @ (a, x) # ys))"
  shows "\<exists>l1 l2. link_prev (first_of ys None) (Some b) l = Some l1 \<and> mem l1 b = mem l b \<and> mem l1 a = mem l a \<and>
    set_next a (Some b) (l1\<lparr>mem := (mem l1)(b \<mapsto> \<lparr>ln_next = first_of ys None, ln_prev = Some a, ln_data = v\<rparr>)\<rparr>) = Some l2 \<and>
    repr (l2\<lparr>count := count l2 + 1\<rparr>) (xs @ (a, x) # (b, v) # ys)"
proof -
  have b: "b \<notin> addrs ((xs @ [(a, x)]) @ ys)" using assms(3) by auto
  obtain l1 where 1: "link_prev (first_of ys None) (Some b) l = Some l1" "parts l1 (xs @ [(a, x)]) (first_of ys None) (Some b) ys" "same_outside ys l l1"
    using link_prev_parts [OF assms(1)] by blast
  have mem1: "mem l1 b = mem l b" "mem l1 a = mem l a" "count l1 = count l" "brk l1 = brk l"
    using 1(3) assms(1,3) by (auto simp: same_outside_def parts_def image_Un)
  let ?m = "l1\<lparr>mem := (mem l1)(b \<mapsto> \<lparr>ln_next = first_of ys None, ln_prev = Some a, ln_data = v\<rparr>)\<rparr>"
  have p2: "parts ?m (xs @ [(a, x)]) (first_of ys None) (Some b) ys" using parts_mem [OF 1(2) b] .
  obtain l2 where 2: "link_next (Some a) (Some b) ?m = Some l2" "parts l2 (xs @ [(a, x)]) (Some b) (Some b) ys" "same_outside (xs @ [(a, x)]) ?m l2"
    using link_next_parts [OF p2] by auto
  have f1: "free_above l1" using free_above_same [OF assms(1) 1(3) _ assms(2)] by auto
  then have "free_above l2" using free_above_same [OF p2 2(3)] free_above_update [OF f1, of b] assms(4) mem1 by auto
  moreover have "mem l2 b = mem ?m b" "count l2 = count l" using 2(3) b mem1 by (auto simp: same_outside_def image_Un)
  ultimately have "repr (l2\<lparr>count := count l2 + 1\<rparr>) ((xs @ [(a, x)]) @ (b, v) # ys)"
    using 2(2) b assms(5) by (intro repr_insertI) (auto simp: free_above_def)
  then show ?thesis using 1(1) 2(1) mem1 by (auto simp: link_next_def)
qed

lemma list_add_node_next_repr:
  assumes "repr l (xs @ (a, x) # ys)"
  shows "\<exists>l' b. list_add_node_next l a v = Some l' \<and> repr l' (xs @ (a, x) # (b, v) # ys)"
proof -
  obtain b l0 where new: "listnode_new v l = (b, l0)" by fastforce
  have ns: "xs @ (a, x) # ys = (xs @ [(a, x)]) @ ys" by simp
  note N = listnode_new_parts [OF assms [unfolded ns] new]
  have ab: "a \<noteq> b" and m: "mem l0 a = Some \<lparr>ln_next = first_of ys None, ln_prev = last_of None xs, ln_data = x\<rparr>"
    using N(1,2) by (auto simp: parts_def)
  let ?l = "l0\<lparr>mem := (mem l0)(b \<mapsto> \<lparr>ln_next = None, ln_prev = Some a, ln_data = v\<rparr>)\<rparr>"
  have p: "parts ?l (xs @ [(a, x)]) (first_of ys None) (Some a) ys" using parts_mem [OF N(1,2)] by simp
  have "\<exists>l1 l2. link_prev (first_of ys None) (Some b) ?l = Some l1 \<and> mem l1 b = mem ?l b \<and> mem l1 a = mem ?l a \<and>
    set_next a (Some b) (l1\<lparr>mem := (mem l1)(b \<mapsto> \<lparr>ln_next = first_of ys None, ln_prev = Some a, ln_data = v\<rparr>)\<rparr>) = Some l2 \<and>
    repr (l2\<lparr>count := count l2 + 1\<rparr>) (xs @ (a, x) # (b, v) # ys)"
    using N by (intro link_behind [OF p]) (auto simp: free_above_update)
  then obtain l1 l2 where l: "link_prev (first_of ys None) (Some b) ?l = Some l1" "mem l1 b = mem ?l b" "mem l1 a = mem ?l a"
    "set_next a (Some b) (l1\<lparr>mem := (mem l1)(b \<mapsto> \<lparr>ln_next = first_of ys None, ln_prev = Some a, ln_data = v\<rparr>)\<rparr>) = Some l2"
    "repr (l2\<lparr>count := count l2 + 1\<rparr>) (xs @ (a, x) # (b, v) # ys)" by blast
  have "set_prev b (Some a) l0 = Some ?l" using N(5) by (simp add: set_prev_def)
  moreover have "set_next b (first_of ys None) l1 = Some (l1\<lparr>mem := (mem l1)(b \<mapsto> \<lparr>ln_next = first_of ys None, ln_prev = Some a, ln_data = v\<rparr>)\<rparr>)"
    using l(2) by (simp add: set_next_def)
  ultimately have "list_add_node_next l a v = Some (l2\<lparr>count := count l2 + 1\<rparr>)"
    using new m ab l(1,3,4) by (simp add: list_add_node_next_def)
  then show ?thesis using l(5) by auto
qed

lemma listnode_add_after_repr:
  assumes "repr l (xs @ (a, x) # ys)"
  shows "\<exists>l' b. listnode_add_after l (Some a) v = Some l' \<and> repr l' (xs @ (a, x) # (b, v) # ys)"
proof -
  obtain b l0 where new: "listnode_new v l = (b, l0)" by fastforce
  have ns: "xs @ (a, x) # ys = (xs @ [(a, x)]) @ ys" by simp
  note N = listnode_new_parts [OF assms [unfolded ns] new]
  have m: "mem l0 a = Some \<lparr>ln_next = first_of ys None, ln_prev = last_of None xs, ln_data = x\<rparr>" using N(1) by (auto simp: parts_def)
  have p: "parts l0 (xs @ [(a, x)]) (first_of ys None) (Some a) ys" using N(1) by simp
  have "\<exists>l1 l2. link_prev (first_of ys None) (Some b) l0 = Some l1 \<and> mem l1 b = mem l0 b \<and> mem l1 a = mem l0 a \<and>
    set_next a (Some b) (l1\<lparr>mem := (mem l1)(b \<mapsto> \<lparr>ln_next = first_of ys None, ln_prev = Some a, ln_data = v\<rparr>)\<rparr>) = Some l2 \<and>
    repr (l2\<lparr>count := count l2 + 1\<rparr>) (xs @ (a, x) # (b, v) # ys)"
    using N by (intro link_behind [OF p]) auto
  then obtain l1 l2 where l: "link_prev (first_of ys None) (Some b) l0 = Some l1" "mem l1 b = mem l0 b" "mem l1 a = mem l0 a"
    "set_next a (Some b) (l1\<lparr>mem := (mem l1)(b \<mapsto> \<lparr>ln_next = first_of ys None, ln_prev = Some a, ln_data = v\<rparr>)\<rparr>) = Some l2"
    "repr (l2\<lparr>count := count l2 + 1\<rparr>) (xs @ (a, x) # (b, v) # ys)" by blast
  let ?k = "l1\<lparr>mem := (mem l1)(b \<mapsto> \<lparr>ln_next = first_of ys None, ln_prev = None, ln_data = v\<rparr>)\<rparr>"
  have "set_next b (first_of ys None) l1 = Some ?k"
    "set_prev b (Some a) ?k = Some (l1\<lparr>mem := (mem l1)(b \<mapsto> \<lparr>ln_next = first_of ys None, ln_prev = Some a, ln_data = v\<rparr>)\<rparr>)"
    using l(2) N(5) by (simp_all add: set_next_def set_prev_def)
  then have "listnode_add_after l (Some a) v = Some (l2\<lparr>count := count l2 + 1\<rparr>)"
    using new m l(1,3,4) by (simp add: listnode_add_after_def)
  then show ?thesis using l(5) by auto
qed

lemma list_add_node_prev_repr:
  assumes "repr l (xs @ (a, x) # ys)"
  shows "\<exists>l' b. list_add_node_prev l a v = Some l' \<and> repr l' (xs @ (b, v) # (a, x) # ys)"
proof -
  obtain b l0 where new: "listnode_new v l = (b, l0)" by fastforce
  note N = listnode_new_parts [OF assms new]
  have ab: "a \<noteq> b" and m: "mem l0 a = Some \<lparr>ln_next = first_of ys None, ln_prev = last_of None xs, ln_data = x\<rparr>"
    using N(1,2) by (auto simp: parts_def)
  let ?l = "l0\<lparr>mem := (mem l0)(b \<mapsto> \<lparr>ln_next = Some a, ln_prev = None, ln_data = v\<rparr>)\<rparr>"
  have p: "parts ?l xs (Some a) (last_of None xs) ((a, x) # ys)" using parts_mem [OF N(1,2)] by simp
  obtain l1 where 1: "link_next (last_of None xs) (Some b) ?l = Some l1" "parts l1 xs (Some b) (last_of None xs) ((a, x) # ys)" "same_outside xs ?l l1"
    using link_next_parts [OF p] by blast
  have mem1: "mem l1 b = mem ?l b" "mem l1 a = mem ?l a" "count l1 = count l0" "brk l1 = brk l0"
    using 1(3) N(1,2) by (auto simp: same_outside_def parts_def image_Un)
  let ?m = "l1\<lparr>mem := (mem l1)(b \<mapsto> \<lparr>ln_next = Some a, ln_prev = last_of None xs, ln_data = v\<rparr>)\<rparr>"
  have p2: "parts ?m xs (Some b) (last_of None xs) ((a, x) # ys)" using parts_mem [OF 1(2) N(2)] .
  obtain l2 where 2: "link_prev (Some a) (Some b) ?m = Some l2" "parts l2 xs (Some b) (Some b) ((a, x) # ys)" "same_outside ((a, x) # ys) ?m l2"
    using link_prev_parts [OF p2] by auto
  have f1: "free_above l1" using free_above_same [OF p 1(3)] free_above_update [OF N(3,4)] by auto
  then have "free_above l2" using free_above_same [OF p2 2(3)] free_above_update [OF f1, of b] N(4) mem1 by auto
  moreover have "mem l2 b = mem ?m b" "count l2 = count l0" using 2(3) N(2) mem1 by (auto simp: same_outside_def image_Un)
  ultimately have "repr (l2\<lparr>count := count l2 + 1\<rparr>) (xs @ (b, v) # (a, x) # ys)"
    using 2(2) N(2,6) by (intro repr_insertI) (auto simp: free_above_def)
  moreover have "list_add_node_prev l a v = Some (l2\<lparr>count := count l2 + 1\<rparr>)"
    using new N(5) m ab 1(1) 2(1) mem1 by (auto simp: list_add_node_prev_def set_prev_def set_next_def link_prev_def)
  ultimately show ?thesis by auto
qed

lemma listnode_add_after_front_repr:
  assumes "repr l ns"
  shows "\<exists>l' b. listnode_add_after l None v = Some l' \<and> repr l' ((b, v) # ns)"
proof -
  obtain b l0 where new: "listnode_new v l = (b, l0)" by fastforce
  note N = listnode_new_parts [of l "[]" ns, simplified, OF assms new]
  obtain l1 where 1: "link_prev (first_of ns None) (Some b) l0 = Some l1" "parts l1 [] (first_of ns None) (Some b) ns" "same_outside ns l0 l1"
    using link_prev_parts [OF N(1)] by blast
  have h: "head l0 = first_of ns None" "head l1 = first_of ns None" using N(1) 1(2) by (simp_all add: parts_def)
  have m1: "mem l1 b = mem l0 b" "count l1 = count l0" "brk l1 = brk l0" using 1(3) N(2) by (auto simp: same_outside_def)
  let ?l = "l1\<lparr>mem := (mem l1)(b \<mapsto> \<lparr>ln_next = first_of ns None, ln_prev = None, ln_data = v\<rparr>)\<rparr>"
  have f: "free_above l1" using free_above_same [OF N(1) 1(3) _ N(3)] by auto
  have "repr (?l\<lparr>head := Some b, count := count l1 + 1\<rparr>) ([] @ (b, v) # ns)"
    using parts_mem [OF 1(2), of b] N m1 f by (intro repr_insertI) (auto simp: parts_def free_above_def)
  moreover have "listnode_add_after l None v = Some (?l\<lparr>head := Some b, count := count l1 + 1\<rparr>)"
    using new h 1(1) m1(1) N(5) by (simp add: listnode_add_after_def set_next_def set_prev_def)
  ultimately show ?thesis by auto
qed

lemma delete_nodes_dseg:
  "dseg (mem l) p ns None \<Longrightarrow> distinct (map fst ns) \<Longrightarrow>
     delete_nodes l (first_of ns None) = Some (map snd ns, l\<lparr>mem := \<lambda>a. if a \<in> addrs ns then None else mem l a\<rparr>)"
proof (induction ns arbitrary: l p)
  case Nil
  then show ?case by (simp add: delete_nodes.simps)
next
  case (Cons z ns)
  obtain a x where z: "z = (a, x)" by fastforce
  let ?l = "listnode_free a l"
  have "dseg (mem ?l) (Some a) ns None" using Cons.prems z by (auto simp: listnode_free_def)
  then have "delete_nodes ?l (first_of ns None) = Some (map snd ns, ?l\<lparr>mem := \<lambda>b. if b \<in> addrs ns then None else mem ?l b\<rparr>)"
    using Cons z by auto
  moreover have "?l\<lparr>mem := \<lambda>b. if b \<in> addrs ns then None else mem ?l b\<rparr> = l\<lparr>mem := \<lambda>b. if b \<in> addrs (z # ns) then None else mem l b\<rparr>"
    using z by (simp add: listnode_free_def) (rule arg_cong [where f = "\<lambda>m. l\<lparr>mem := m\<rparr>"], auto simp: listnode_free_def)
  ultimately show ?case using Cons.prems z by (subst delete_nodes.simps) auto
qed

lemma list_delete_all_node_repr:
  assumes "repr l ns"
  shows "\<exists>l'. list_delete_all_node l = Some (map snd ns, l') \<and> repr l' []"
proof -
  have "delete_nodes l (head l) = Some (map snd ns, l\<lparr>mem := \<lambda>a. if a \<in> addrs ns then None else mem l a\<rparr>)"
    using assms delete_nodes_dseg [of l None ns] by (simp add: repr_def linked_def)
  then show ?thesis using assms by (auto simp: list_delete_all_node_def repr_def linked_def)
qed

text \<open>Looking up finds the node of the first element with the data.\<close>

lemma listnode_lookup_repr:
  assumes "repr l ns"
  shows "listnode_lookup l d = Some (map_option fst (find (\<lambda>z. snd z = d) ns))"
proof -
  have "dseg (mem l) p ms None \<Longrightarrow> lookup_from l d (first_of ms None) = Some (map_option fst (find (\<lambda>z. snd z = d) ms))" for p ms
    by (induction ms arbitrary: p) (auto simp: lookup_from.simps)
  from this [of None ns] show ?thesis using assms by (simp add: listnode_lookup_def repr_def linked_def)
qed

lemma listnode_head_repr:
  "repr l ns \<Longrightarrow> listnode_head l = Some (case ns of [] \<Rightarrow> None | (_, x) # _ \<Rightarrow> Some x)"
  by (cases ns) (auto simp: listnode_head_def repr_def linked_def)

lemma list_add_list_repr:
  assumes "repr l ns" "repr m ms"
  shows "\<exists>l' ns'. list_add_list l m = Some l' \<and> repr l' ns' \<and> map snd ns' = map snd ns @ map snd ms"
proof -
  have "dseg (mem m) p ms None \<Longrightarrow> repr l ns \<Longrightarrow>
      \<exists>l' ns'. add_all l m (first_of ms None) = Some l' \<and> repr l' ns' \<and> map snd ns' = map snd ns @ map snd ms" for p
  proof (induction ms arbitrary: p l ns)
    case Nil
    then show ?case by (auto simp: add_all.simps)
  next
    case (Cons z ms)
    obtain a x where z: "z = (a, x)" by fastforce
    obtain l1 b where 1: "listnode_add l x = Some l1" "repr l1 (ns @ [(b, x)])" using listnode_add_repr [OF Cons.prems(2)] by blast
    then show ?case using Cons.IH [of "Some a" l1 "ns @ [(b, x)]"] Cons.prems(1) z by (subst add_all.simps) auto
  qed
  then show ?thesis using assms by (auto simp: list_add_list_def repr_def linked_def)
qed

subsection \<open>Runs of operations\<close>

datatype 'a list_op = Add 'a | Add_Sort 'a | Add_First 'a | Delete 'a | Add_List "'a list" | Clear

definition of_list :: "'a list \<Rightarrow> 'a llist option" where
  "of_list xs = fold (\<lambda>x l. Option.bind l (\<lambda>l. listnode_add l x)) xs (Some list_new)"

fun apply_op :: "('a \<Rightarrow> 'a \<Rightarrow> int) option \<Rightarrow> 'a list_op \<Rightarrow> 'a llist \<Rightarrow> 'a llist option" where
  "apply_op cmp (Add x) l = listnode_add l x"
| "apply_op cmp (Add_Sort x) l = listnode_add_sort cmp l x"
| "apply_op cmp (Add_First x) l = listnode_add_after l None x"
| "apply_op cmp (Delete x) l = listnode_delete l x"
| "apply_op cmp (Add_List xs) l = do { m \<leftarrow> of_list xs; list_add_list l m }"
| "apply_op cmp Clear l = map_option snd (list_delete_all_node l)"

fun abs_op :: "('a \<Rightarrow> 'a \<Rightarrow> int) option \<Rightarrow> 'a list_op \<Rightarrow> 'a list \<Rightarrow> 'a list" where
  "abs_op cmp (Add x) xs = xs @ [x]"
| "abs_op cmp (Add_Sort x) xs = insert_sorted cmp x xs"
| "abs_op cmp (Add_First x) xs = x # xs"
| "abs_op cmp (Delete x) xs = remove1 x xs"
| "abs_op cmp (Add_List ys) xs = xs @ ys"
| "abs_op cmp Clear xs = []"

fun run_ops :: "('a \<Rightarrow> 'a \<Rightarrow> int) option \<Rightarrow> 'a list_op list \<Rightarrow> 'a llist \<Rightarrow> 'a llist option" where
  "run_ops cmp [] l = Some l"
| "run_ops cmp (op # ops) l = do { l \<leftarrow> apply_op cmp op l; run_ops cmp ops l }"

lemma list_new_repr: "repr list_new []"
  by (simp add: repr_def linked_def list_new_def)

lemma of_list_repr: "\<exists>l ns. of_list xs = Some l \<and> repr l ns \<and> map snd ns = xs"
proof (induction xs rule: rev_induct)
  case Nil
  then show ?case using list_new_repr by (auto simp: of_list_def)
next
  case (snoc x xs)
  then obtain l ns where l: "of_list xs = Some l" "repr l ns" "map snd ns = xs" by blast
  obtain l' b where "listnode_add l x = Some l'" "repr l' (ns @ [(b, x)])" using listnode_add_repr [OF l(2)] by blast
  moreover have "map snd (ns @ [(b, x)]) = xs @ [x]" using l(3) by simp
  ultimately show ?case using l(1) unfolding of_list_def by fastforce
qed

lemma apply_op_repr:
  assumes "repr l ns"
  shows "\<exists>l' ns'. apply_op cmp op l = Some l' \<and> repr l' ns' \<and> map snd ns' = abs_op cmp op (map snd ns)"
proof (cases op)
  case (Add x)
  then show ?thesis using listnode_add_repr [OF assms, of x] by fastforce
next
  case (Add_Sort x)
  then show ?thesis using listnode_add_sort_repr [OF assms] by simp
next
  case (Add_First x)
  then show ?thesis using listnode_add_after_front_repr [OF assms, of x] by fastforce
next
  case (Delete x)
  then show ?thesis using listnode_delete_repr [OF assms] by simp
next
  case (Add_List xs)
  obtain m ms where "of_list xs = Some m" "repr m ms" "map snd ms = xs" using of_list_repr by blast
  then show ?thesis using Add_List list_add_list_repr [OF assms, of m ms] by simp
next
  case Clear
  then show ?thesis using list_delete_all_node_repr [OF assms] by auto
qed

text \<open>C13.  Linked lists.  Any sequence of additions at either end, sorted insertions, deletions, concatenations and clearings on
  a new list runs without an invalid dereference and leaves properly linked nodes that hold the list which the same
  operations on Isabelle lists give; the counter is its length modulo the width of an \<^verbatim>\<open>unsigned int\<close>.\<close>

theorem linklist_refines_list:
  "\<exists>l ns. run_ops cmp ops list_new = Some l \<and> repr l ns \<and> map snd ns = fold (abs_op cmp) ops [] \<and>
     count l = of_nat (length (fold (abs_op cmp) ops []))"
proof -
  have "repr l ns \<Longrightarrow> \<exists>l' ns'. run_ops cmp ops l = Some l' \<and> repr l' ns' \<and> map snd ns' = fold (abs_op cmp) ops (map snd ns)" for l ns
  proof (induction ops arbitrary: l ns)
    case (Cons op ops)
    obtain l1 ns1 where "apply_op cmp op l = Some l1" "repr l1 ns1" "map snd ns1 = abs_op cmp op (map snd ns)"
      using apply_op_repr [OF Cons.prems] by blast
    then show ?case using Cons.IH [of l1 ns1] by simp
  qed auto
  from this [OF list_new_repr] show ?thesis by (metis length_map list.map(1) repr_def)
qed

end
