(* ===== verification/Bgp_Session.thy ===== *)
theory Bgp_Session
  imports Bgp_Types Zstream
begin

text \<open>
  The session with a neighbour: the part of \<^verbatim>\<open>struct peer\<close> that the state machine of \<^verbatim>\<open>bgpd/bgp_fsm.c\<close> reads and changes, the messages it sends
  (\<^verbatim>\<open>bgpd/bgp_packet.c\<close>, \<^verbatim>\<open>bgpd/bgp_open.c\<close>), the clearing of its routes (\<^verbatim>\<open>bgpd/bgp_route.c\<close>) and how a session is stopped and deleted.

  A timer is the delay it was started with while it runs.  The events of the session in the queue of the event loop are a list, and so are the
  packets in the output queue, each a message type and the bytes after the header.  What the operating system answers to the calls of one event is the
  record \<open>sys\<close>: \<open>rand\<close>, the clock, \<open>write\<close>, \<open>socket\<close>, \<open>connect\<close> and the addresses of a socket, and with them which tables hold routes of the
  peer.  Reference counts of peers, log messages, MRT dumps and the names of ORF prefix lists are left out.  \<open>None\<close> is a failed assertion, a null
  pointer or an index out of bounds.
\<close>

subsection \<open>Data\<close>

datatype fsm_status = Idle | Connect | Active | OpenSent | OpenConfirm | Established | Clearing | Deleted

datatype fsm_event = BGP_Start | BGP_Stop | TCP_connection_open | TCP_connection_closed | TCP_connection_open_failed
| TCP_fatal_error | ConnectRetry_timer_expired | Hold_Timer_expired | KeepAlive_timer_expired | Receive_OPEN_message
| Receive_KEEPALIVE_message | Receive_UPDATE_message | Receive_NOTIFICATION_message | Clearing_Completed

datatype timer = t_start | t_connect | t_holdtime | t_keepalive | t_asorig | t_routeadv | t_pmax_restart | t_gr_restart | t_gr_stale

datatype connect_result = connect_error | connect_success | connect_in_progress

record sys =
  rand_value :: nat
  bgp_clock :: int
  write_result :: int
  socket_result :: int
  connect_status :: connect_result
  sockname :: "sockunion option"
  peername :: "sockunion option"
  has_routes :: "nat \<Rightarrow> nat \<Rightarrow> bool"

record bgp_times =
  default_holdtime :: u32
  default_keepalive :: u32
  restart_time :: u32
  stalepath_time :: u32
  t_startup :: bool

text \<open>Fields with an entry per address family are functions of the two family numbers.  Of the incoming prefix list of a family \<open>orf_entries\<close> has the
  bytes that \<^verbatim>\<open>prefix_bgp_orf_entry\<close> writes for it.\<close>

record session = peer +
  bgp_times :: bgp_times
  change_local_as :: u32
  ibuf :: "stream option"
  obuf :: "(u8 \<times> u8 list) list option"
  work :: "stream option"
  status :: fsm_status
  ostatus :: fsm_status
  fd :: int
  uptime :: int
  resettime :: int
  su_local :: "sockunion option"
  afc :: "nat \<Rightarrow> nat \<Rightarrow> bool"
  afc_nego :: "nat \<Rightarrow> nat \<Rightarrow> bool"
  afc_adv :: "nat \<Rightarrow> nat \<Rightarrow> bool"
  afc_recv :: "nat \<Rightarrow> nat \<Rightarrow> bool"
  cap :: u16
  af_cap :: "nat \<Rightarrow> nat \<Rightarrow> u16"
  flags :: u32
  nsf :: "nat \<Rightarrow> nat \<Rightarrow> bool"
  af_flags :: "nat \<Rightarrow> nat \<Rightarrow> u32"
  sflags :: u16
  af_sflags :: "nat \<Rightarrow> nat \<Rightarrow> u16"
  config :: u32
  holdtime :: u32
  keepalive :: u32
  v_start :: u32
  v_connect :: u32
  v_holdtime :: u32
  v_keepalive :: u32
  v_routeadv :: u32
  v_gr_restart :: u32
  t_read :: bool
  t_write :: bool
  timers :: "timer \<Rightarrow> u32 option"
  clear_pending :: bool
  update_time :: int
  keepalive_in :: u32
  notify_out :: u32
  established :: u32
  dropped :: u32
  synctime :: int
  notify :: "(u8 \<times> u8) option"
  packet_size :: nat
  orf_entries :: "nat \<Rightarrow> nat \<Rightarrow> u8 list option"
  orf_plist :: "nat \<Rightarrow> nat \<Rightarrow> bool"
  last_reset :: nat
  events :: "fsm_event list"
  stale_cleared :: "(nat \<times> nat) list"
  announced_all :: nat

abbreviation (input) SAFI_MPLS_VPN :: nat where "SAFI_MPLS_VPN \<equiv> 4"
abbreviation (input) SAFI_MPLS_LABELED_VPN :: nat where "SAFI_MPLS_LABELED_VPN \<equiv> 128"
abbreviation (input) PEER_CAP_REFRESH_ADV :: u16 where "PEER_CAP_REFRESH_ADV \<equiv> 0x1"
abbreviation (input) PEER_CAP_REFRESH_NEW_RCV :: u16 where "PEER_CAP_REFRESH_NEW_RCV \<equiv> 0x4"
abbreviation (input) PEER_CAP_DYNAMIC_ADV :: u16 where "PEER_CAP_DYNAMIC_ADV \<equiv> 0x8"
abbreviation (input) PEER_CAP_RESTART_ADV :: u16 where "PEER_CAP_RESTART_ADV \<equiv> 0x20"
abbreviation (input) PEER_CAP_AS4_ADV :: u16 where "PEER_CAP_AS4_ADV \<equiv> 0x80"
abbreviation (input) PEER_CAP_RESTART_BIT_ADV :: u16 where "PEER_CAP_RESTART_BIT_ADV \<equiv> 0x200"
abbreviation (input) PEER_CAP_ORF_PREFIX_SM_ADV :: u16 where "PEER_CAP_ORF_PREFIX_SM_ADV \<equiv> 0x1"
abbreviation (input) PEER_CAP_ORF_PREFIX_RM_ADV :: u16 where "PEER_CAP_ORF_PREFIX_RM_ADV \<equiv> 0x2"
abbreviation (input) PEER_CAP_ORF_PREFIX_SM_RCV :: u16 where "PEER_CAP_ORF_PREFIX_SM_RCV \<equiv> 0x4"
abbreviation (input) PEER_CAP_ORF_PREFIX_RM_RCV :: u16 where "PEER_CAP_ORF_PREFIX_RM_RCV \<equiv> 0x8"
abbreviation (input) PEER_CAP_ORF_PREFIX_SM_OLD_RCV :: u16 where "PEER_CAP_ORF_PREFIX_SM_OLD_RCV \<equiv> 0x10"
abbreviation (input) PEER_CAP_ORF_PREFIX_RM_OLD_RCV :: u16 where "PEER_CAP_ORF_PREFIX_RM_OLD_RCV \<equiv> 0x20"
abbreviation (input) PEER_CAP_RESTART_AF_RCV :: u16 where "PEER_CAP_RESTART_AF_RCV \<equiv> 0x40"
abbreviation (input) PEER_CAP_RESTART_AF_PRESERVE_RCV :: u16 where "PEER_CAP_RESTART_AF_PRESERVE_RCV \<equiv> 0x80"
abbreviation (input) PEER_FLAG_PASSIVE :: u32 where "PEER_FLAG_PASSIVE \<equiv> 0x1"
abbreviation (input) PEER_FLAG_SHUTDOWN :: u32 where "PEER_FLAG_SHUTDOWN \<equiv> 0x2"
abbreviation (input) PEER_FLAG_DONT_CAPABILITY :: u32 where "PEER_FLAG_DONT_CAPABILITY \<equiv> 0x4"
abbreviation (input) PEER_FLAG_DYNAMIC_CAPABILITY :: u32 where "PEER_FLAG_DYNAMIC_CAPABILITY \<equiv> 0x20"
abbreviation (input) PEER_FLAG_ORF_PREFIX_SM :: u32 where "PEER_FLAG_ORF_PREFIX_SM \<equiv> 0x1000"
abbreviation (input) PEER_FLAG_ORF_PREFIX_RM :: u32 where "PEER_FLAG_ORF_PREFIX_RM \<equiv> 0x2000"
abbreviation (input) PEER_STATUS_ACCEPT_PEER :: u16 where "PEER_STATUS_ACCEPT_PEER \<equiv> 0x1"
abbreviation (input) PEER_STATUS_PREFIX_OVERFLOW :: u16 where "PEER_STATUS_PREFIX_OVERFLOW \<equiv> 0x2"
abbreviation (input) PEER_STATUS_CAPABILITY_OPEN :: u16 where "PEER_STATUS_CAPABILITY_OPEN \<equiv> 0x4"
abbreviation (input) PEER_STATUS_NSF_MODE :: u16 where "PEER_STATUS_NSF_MODE \<equiv> 0x20"
abbreviation (input) PEER_STATUS_NSF_WAIT :: u16 where "PEER_STATUS_NSF_WAIT \<equiv> 0x40"
abbreviation (input) PEER_STATUS_ORF_PREFIX_SEND :: u16 where "PEER_STATUS_ORF_PREFIX_SEND \<equiv> 0x1"
abbreviation (input) PEER_STATUS_ORF_WAIT_REFRESH :: u16 where "PEER_STATUS_ORF_WAIT_REFRESH \<equiv> 0x2"
abbreviation (input) PEER_CONFIG_TIMER :: u32 where "PEER_CONFIG_TIMER \<equiv> 0x2"
abbreviation (input) BGP_FLAG_GRACEFUL_RESTART :: u16 where "BGP_FLAG_GRACEFUL_RESTART \<equiv> 0x1000"

text \<open>The loops over all families, with \<^verbatim>\<open>SAFI_MAX\<close> or \<^verbatim>\<open>SAFI_RESERVED_3\<close> as the end of the inner one.\<close>

abbreviation all_afs :: "(nat \<times> nat) list" where
  "all_afs \<equiv> [(1, 1), (1, 2), (1, 3), (1, 4), (2, 1), (2, 2), (2, 3), (2, 4)]"

abbreviation nsf_afs :: "(nat \<times> nat) list" where
  "nsf_afs \<equiv> [(1, 1), (1, 2), (2, 1), (2, 2)]"

definition af_set :: "(nat \<Rightarrow> nat \<Rightarrow> 'a) \<Rightarrow> nat \<Rightarrow> nat \<Rightarrow> 'a \<Rightarrow> nat \<Rightarrow> nat \<Rightarrow> 'a" where
  "af_set f afi safi v = f(afi := (f afi)(safi := v))"

definition af_reset :: "(nat \<times> nat) list \<Rightarrow> 'a \<Rightarrow> (nat \<Rightarrow> nat \<Rightarrow> 'a) \<Rightarrow> nat \<Rightarrow> nat \<Rightarrow> 'a" where
  "af_reset afs v f = fold (\<lambda>(afi, safi) f. af_set f afi safi v) afs f"

subsection \<open>Timers, threads and events\<close>

definition BGP_TIMER_ON :: "timer \<Rightarrow> u32 \<Rightarrow> session \<Rightarrow> session" where
  "BGP_TIMER_ON t v p = (if timers p t = None \<and> status p \<noteq> Deleted then p\<lparr>timers := (timers p)(t \<mapsto> v)\<rparr> else p)"

definition BGP_TIMER_OFF :: "timer \<Rightarrow> session \<Rightarrow> session" where
  "BGP_TIMER_OFF t p = p\<lparr>timers := (timers p)(t := None)\<rparr>"

definition BGP_READ_ON :: "session \<Rightarrow> session" where
  "BGP_READ_ON p = (if \<not> t_read p \<and> status p \<noteq> Deleted then p\<lparr>t_read := True\<rparr> else p)"

definition BGP_WRITE_ON :: "session \<Rightarrow> session" where
  "BGP_WRITE_ON p = (if \<not> t_write p \<and> status p \<noteq> Deleted then p\<lparr>t_write := True\<rparr> else p)"

definition BGP_EVENT_ADD :: "fsm_event \<Rightarrow> session \<Rightarrow> session" where
  "BGP_EVENT_ADD e p = (if status p \<noteq> Deleted then p\<lparr>events := events p @ [e]\<rparr> else p)"

abbreviation BGP_EVENT_FLUSH :: "session \<Rightarrow> session" where
  "BGP_EVENT_FLUSH p \<equiv> p\<lparr>events := []\<rparr>"

subsection \<open>Messages\<close>

abbreviation (input) BGP_MSG_OPEN :: u8 where "BGP_MSG_OPEN \<equiv> 1"
abbreviation (input) BGP_MSG_NOTIFY :: u8 where "BGP_MSG_NOTIFY \<equiv> 3"
abbreviation (input) BGP_MSG_KEEPALIVE :: u8 where "BGP_MSG_KEEPALIVE \<equiv> 4"
abbreviation (input) BGP_MSG_ROUTE_REFRESH_NEW :: u8 where "BGP_MSG_ROUTE_REFRESH_NEW \<equiv> 5"
abbreviation (input) BGP_MSG_ROUTE_REFRESH_OLD :: u8 where "BGP_MSG_ROUTE_REFRESH_OLD \<equiv> 128"
abbreviation (input) BGP_NOTIFY_HOLD_ERR :: u8 where "BGP_NOTIFY_HOLD_ERR \<equiv> 4"
abbreviation (input) BGP_NOTIFY_FSM_ERR :: u8 where "BGP_NOTIFY_FSM_ERR \<equiv> 5"
abbreviation (input) BGP_NOTIFY_CEASE_ADMIN_SHUTDOWN :: u8 where "BGP_NOTIFY_CEASE_ADMIN_SHUTDOWN \<equiv> 2"
abbreviation (input) BGP_NOTIFY_CEASE_ADMIN_RESET :: u8 where "BGP_NOTIFY_CEASE_ADMIN_RESET \<equiv> 4"
abbreviation (input) BGP_NOTIFY_CEASE_CONFIG_CHANGE :: u8 where "BGP_NOTIFY_CEASE_CONFIG_CHANGE \<equiv> 6"
abbreviation (input) PEER_DOWN_USER_SHUTDOWN :: nat where "PEER_DOWN_USER_SHUTDOWN \<equiv> 11"
abbreviation (input) PEER_DOWN_USER_RESET :: nat where "PEER_DOWN_USER_RESET \<equiv> 12"
abbreviation (input) PEER_DOWN_NOTIFY_SEND :: nat where "PEER_DOWN_NOTIFY_SEND \<equiv> 14"
abbreviation (input) PEER_DOWN_NEIGHBOR_DELETE :: nat where "PEER_DOWN_NEIGHBOR_DELETE \<equiv> 16"
abbreviation (input) BGP_INIT_START_TIMER :: u32 where "BGP_INIT_START_TIMER \<equiv> 5"
abbreviation (input) BGP_OPEN_OPT_CAP :: u8 where "BGP_OPEN_OPT_CAP \<equiv> 2"
abbreviation (input) CAPABILITY_CODE_ORF :: u8 where "CAPABILITY_CODE_ORF \<equiv> 3"
abbreviation (input) CAPABILITY_CODE_ORF_OLD :: u8 where "CAPABILITY_CODE_ORF_OLD \<equiv> 130"
abbreviation (input) ORF_TYPE_PREFIX :: u8 where "ORF_TYPE_PREFIX \<equiv> 64"
abbreviation (input) ORF_TYPE_PREFIX_OLD :: u8 where "ORF_TYPE_PREFIX_OLD \<equiv> 128"
abbreviation (input) REFRESH_IMMEDIATE :: u8 where "REFRESH_IMMEDIATE \<equiv> 1"

text \<open>The bytes of a packet on the wire: the marker, the total length and the type before the message.\<close>

definition packet_bytes :: "u8 \<times> u8 list \<Rightarrow> u8 list" where
  "packet_bytes m = replicate 16 0xff @ put16 (of_nat (19 + length (snd m))) @ fst m # snd m"

definition bgp_packet_add :: "u8 \<times> u8 list \<Rightarrow> session \<Rightarrow> session option" where
  "bgp_packet_add m p = do { q \<leftarrow> obuf p; Some (p\<lparr>obuf := Some (q @ [m])\<rparr>) }"

definition bgp_keepalive_send :: "session \<Rightarrow> session option" where
  "bgp_keepalive_send p = do { p \<leftarrow> bgp_packet_add (BGP_MSG_KEEPALIVE, []) p; Some (BGP_WRITE_ON p) }"

definition double_start :: "session \<Rightarrow> session" where
  "double_start p = p\<lparr>v_start := (if 60 * 2 \<le> v_start p * 2 then 60 * 2 else v_start p * 2)\<rparr>"

definition bgp_write_notify :: "sys \<Rightarrow> session \<Rightarrow> session option" where
  "bgp_write_notify S p = do {
     q \<leftarrow> obuf p;
     case q of
       [] \<Rightarrow> Some p
     | m # _ \<Rightarrow>
         if write_result S \<le> 0 then Some (BGP_EVENT_ADD TCP_fatal_error p)
         else do {
           zassert (fst m = BGP_MSG_NOTIFY);
           let p = p\<lparr>notify_out := notify_out p + 1\<rparr>;
           Some (BGP_EVENT_ADD BGP_Stop (double_start p)) } }"

definition bgp_notify_send_with_data :: "sys \<Rightarrow> u8 \<Rightarrow> u8 \<Rightarrow> u8 list \<Rightarrow> session \<Rightarrow> session option" where
  "bgp_notify_send_with_data S code sub_code d p = do {
     zassert (obuf p \<noteq> None);
     p \<leftarrow> bgp_packet_add (BGP_MSG_NOTIFY, code # sub_code # d) (p\<lparr>obuf := Some []\<rparr>);
     let p = (if sub_code = BGP_NOTIFY_CEASE_CONFIG_CHANGE then p
        else if sub_code = BGP_NOTIFY_CEASE_ADMIN_RESET then p\<lparr>last_reset := PEER_DOWN_USER_RESET\<rparr>
        else if sub_code = BGP_NOTIFY_CEASE_ADMIN_SHUTDOWN then p\<lparr>last_reset := PEER_DOWN_USER_SHUTDOWN\<rparr>
        else p\<lparr>last_reset := PEER_DOWN_NOTIFY_SEND\<rparr>);
     bgp_write_notify S (p\<lparr>t_write := False\<rparr>) }"

abbreviation bgp_notify_send :: "sys \<Rightarrow> u8 \<Rightarrow> u8 \<Rightarrow> session \<Rightarrow> session option" where
  "bgp_notify_send S code sub_code \<equiv> bgp_notify_send_with_data S code sub_code []"

text \<open>A route refresh asks for the routes of a family; it carries the entries of the incoming prefix list when there is one.  The family number
  of VPN routes is replaced before \<^verbatim>\<open>af_sflags\<close> is indexed with it, which is out of bounds.\<close>

definition bgp_route_refresh_send :: "nat \<Rightarrow> nat \<Rightarrow> u8 \<Rightarrow> u8 \<Rightarrow> session \<Rightarrow> session option" where
  "bgp_route_refresh_send afi safi orf_type when_to_refresh p = do {
     let plist = orf_entries p afi safi;
     let safi = (if safi = SAFI_MPLS_VPN then SAFI_MPLS_LABELED_VPN else safi);
     let kind = (if CHECK_FLAG (cap p) PEER_CAP_REFRESH_NEW_RCV then BGP_MSG_ROUTE_REFRESH_NEW else BGP_MSG_ROUTE_REFRESH_OLD);
     let body = put16 (of_nat afi) @ [0, of_nat safi];
     (body, p) \<leftarrow> (case plist of
         Some entries \<Rightarrow> if orf_type = ORF_TYPE_PREFIX \<or> orf_type = ORF_TYPE_PREFIX_OLD then do {
             zassert (safi < 5);
             Some (body @ [when_to_refresh, orf_type] @ put16 (of_nat (length entries)) @ entries,
               p\<lparr>af_sflags := af_set (af_sflags p) afi safi (SET_FLAG (af_sflags p afi safi) PEER_STATUS_ORF_PREFIX_SEND)\<rparr>) }
           else Some (body, p)
       | None \<Rightarrow> Some (body, p));
     p \<leftarrow> bgp_packet_add (kind, body) p;
     Some (BGP_WRITE_ON p) }"

subsection \<open>The OPEN message\<close>

definition as_sent :: "session \<Rightarrow> u32" where
  "as_sent p = (if change_local_as p \<noteq> 0 then change_local_as p else local_as p)"

definition orf_configured :: "session \<Rightarrow> nat \<Rightarrow> nat \<Rightarrow> bool" where
  "orf_configured p afi safi \<longleftrightarrow> CHECK_FLAG (af_flags p afi safi) PEER_FLAG_ORF_PREFIX_SM \<or> CHECK_FLAG (af_flags p afi safi) PEER_FLAG_ORF_PREFIX_RM"

text \<open>An ORF capability.  Its caller has seen one of the two flags, and the family number of VPN routes is replaced before the flags are read.\<close>

definition bgp_open_capability_orf :: "nat \<Rightarrow> nat \<Rightarrow> u8 \<Rightarrow> session \<Rightarrow> (u8 list \<times> session) option" where
  "bgp_open_capability_orf afi safi code p = do {
     let safi = (if safi = SAFI_MPLS_VPN then SAFI_MPLS_LABELED_VPN else safi);
     zassert (safi < 5);
     let sm = CHECK_FLAG (af_flags p afi safi) PEER_FLAG_ORF_PREFIX_SM;
     let rm = CHECK_FLAG (af_flags p afi safi) PEER_FLAG_ORF_PREFIX_RM;
     let adv = (if sm then PEER_CAP_ORF_PREFIX_SM_ADV else 0) OR (if rm then PEER_CAP_ORF_PREFIX_RM_ADV else 0);
     let p = (if sm \<or> rm then p\<lparr>af_cap := af_set (af_cap p) afi safi (SET_FLAG (af_cap p afi safi) adv)\<rparr> else p);
     let orfs = (if sm \<or> rm then [if code = CAPABILITY_CODE_ORF then ORF_TYPE_PREFIX else ORF_TYPE_PREFIX_OLD,
        if sm \<and> rm then 3 else if sm then 2 else 1] else []);
     let orf = put16 (of_nat afi) @ [0, of_nat safi, if sm \<or> rm then 1 else 0] @ orfs;
     Some (BGP_OPEN_OPT_CAP # of_nat (length orf + 2) # code # of_nat (length orf) # orf, p) }"

fun orf_capabilities :: "(nat \<times> nat) list \<Rightarrow> session \<Rightarrow> (u8 list \<times> session) option" where
  "orf_capabilities [] p = Some ([], p)"
| "orf_capabilities ((afi, safi) # afs) p = do {
     (here, p) \<leftarrow> (if orf_configured p afi safi then do {
         (old, p) \<leftarrow> bgp_open_capability_orf afi safi CAPABILITY_CODE_ORF_OLD p;
         (new, p) \<leftarrow> bgp_open_capability_orf afi safi CAPABILITY_CODE_ORF p;
         Some (old @ new, p) }
       else Some ([], p));
     (rest, p) \<leftarrow> orf_capabilities afs p;
     Some (here @ rest, p) }"

definition mp_capability :: "session \<Rightarrow> nat \<times> nat \<Rightarrow> u8 list" where
  "mp_capability p af = (case af of (afi, safi) \<Rightarrow>
     if afc p afi safi
     then [BGP_OPEN_OPT_CAP, 6, 1, 4] @ put16 (of_nat afi) @ [0, if safi = SAFI_MPLS_VPN then 128 else of_nat safi]
     else [])"

definition restart_capability :: "session \<Rightarrow> u8 list" where
  "restart_capability p =
     (let time = (if t_startup (bgp_times p) then SET_FLAG (restart_time (bgp_times p)) 0x8000 else restart_time (bgp_times p));
          afs = (if bgp_flag_check (peer_bgp p) BGP_FLAG_GRACEFUL_RESTART
            then concat (map (\<lambda>(afi, safi). if afc p afi safi then put16 (of_nat afi) @ [of_nat safi, 0] else []) all_afs) else []);
          body = put16 (ucast time) @ afs
      in BGP_OPEN_OPT_CAP # of_nat (length body + 2) # 64 # of_nat (length body) # body)"

text \<open>The multiprotocol families are those the source lists one by one; IPv6 has no VPN.\<close>

abbreviation mp_afs :: "(nat \<times> nat) list" where
  "mp_afs \<equiv> [(1, 1), (1, 2), (1, 4), (2, 1), (2, 2)]"

definition bgp_open_capability :: "session \<Rightarrow> (u8 list \<times> session) option" where
  "bgp_open_capability p =
     (if \<not> CHECK_FLAG (sflags p) PEER_STATUS_CAPABILITY_OPEN \<or> CHECK_FLAG (flags p) PEER_FLAG_DONT_CAPABILITY then Some ([0], p)
      else do {
        let dyn = CHECK_FLAG (flags p) PEER_FLAG_DYNAMIC_CAPABILITY;
        let mp = concat (map (mp_capability p) mp_afs);
        let refresh = [BGP_OPEN_OPT_CAP, 2, 128, 0, BGP_OPEN_OPT_CAP, 2, 2, 0];
        let as4 = [BGP_OPEN_OPT_CAP, 6, 65, 4] @ put32 (as_sent p);
        let caps = [PEER_CAP_REFRESH_ADV, PEER_CAP_AS4_ADV] @ (if dyn then [PEER_CAP_DYNAMIC_ADV] else []) @ [PEER_CAP_RESTART_ADV] @
          (if t_startup (bgp_times p) then [PEER_CAP_RESTART_BIT_ADV] else []);
        (orf, q) \<leftarrow> orf_capabilities all_afs (p\<lparr>cap := fold (\<lambda>f c. SET_FLAG c f) caps (cap p),
          afc_adv := fold (\<lambda>(afi, safi) f. if afc p afi safi then af_set f afi safi True else f) mp_afs (afc_adv p)\<rparr>);
        let opts = mp @ refresh @ as4 @ orf @ (if dyn then [BGP_OPEN_OPT_CAP, 2, 66, 0] else []) @ restart_capability p;
        Some (of_nat (length opts) # opts, q) })"

definition bgp_open_send :: "session \<Rightarrow> session option" where
  "bgp_open_send p = do {
     let send_holdtime = (ucast (if CHECK_FLAG (config p) PEER_CONFIG_TIMER then holdtime p else default_holdtime (bgp_times p)) :: u16);
     let as = as_sent p;
     (opts, p) \<leftarrow> bgp_open_capability p;
     p \<leftarrow> bgp_packet_add (BGP_MSG_OPEN,
       [4] @ put16 (if as \<le> 65535 then ucast as else 23456) @ put16 send_holdtime @ put32 (local_id p) @ opts) p;
     Some (BGP_WRITE_ON p) }"

subsection \<open>Clearing of routes\<close>

text \<open>Clearing a table queues the nodes with routes of the peer; \<open>clear_pending\<close> is the thread of the work queue.  When no node is queued the
  completion function runs at once, otherwise when the queue is done (\<open>clear_queue_done\<close>, the end of \<^verbatim>\<open>work_queue_run\<close>).\<close>

definition bgp_clear_node_complete :: "session \<Rightarrow> session" where
  "bgp_clear_node_complete p = BGP_EVENT_ADD Clearing_Completed p"

definition bgp_clear_route :: "sys \<Rightarrow> nat \<Rightarrow> nat \<Rightarrow> session \<Rightarrow> session" where
  "bgp_clear_route S afi safi p =
     (let p = (if has_routes S afi safi then p\<lparr>clear_pending := True\<rparr> else p)
      in if \<not> clear_pending p then bgp_clear_node_complete p else p)"

definition bgp_clear_route_all :: "sys \<Rightarrow> session \<Rightarrow> session" where
  "bgp_clear_route_all S p = fold (\<lambda>(afi, safi). bgp_clear_route S afi safi) all_afs p"

definition clear_queue_done :: "session \<Rightarrow> session" where
  "clear_queue_done p = bgp_clear_node_complete (p\<lparr>clear_pending := False\<rparr>)"

text \<open>The removal of stale routes is recorded with its family.\<close>

definition bgp_clear_stale_route :: "nat \<Rightarrow> nat \<Rightarrow> session \<Rightarrow> session" where
  "bgp_clear_stale_route afi safi p = p\<lparr>stale_cleared := stale_cleared p @ [(afi, safi)]\<rparr>"

subsection \<open>Status and timers\<close>

definition bgp_fsm_change_status :: "sys \<Rightarrow> fsm_status \<Rightarrow> session \<Rightarrow> session" where
  "bgp_fsm_change_status S st p =
     (let p = (if st = Clearing \<or> st = Deleted then bgp_clear_route_all S p else p) in p\<lparr>ostatus := status p, status := st\<rparr>)"

text \<open>The jitter: undefined for the two times at which the sum or the remainder is.\<close>

definition bgp_start_jitter :: "sys \<Rightarrow> int \<Rightarrow> int option" where
  "bgp_start_jitter S time = do {
     zassert (time \<noteq> - 1 \<and> time < 2 ^ 31 - 1);
     Some (int (rand_value S) mod \<bar>time + 1\<bar> - (if time < 0 then - (- time div 2) else time div 2)) }"

definition BGP_PEER_START_SUPPRESSED :: "session \<Rightarrow> bool" where
  "BGP_PEER_START_SUPPRESSED p \<longleftrightarrow> CHECK_FLAG (flags p) PEER_FLAG_SHUTDOWN \<or> CHECK_FLAG (sflags p) PEER_STATUS_PREFIX_OVERFLOW"

definition peer_active :: "session \<Rightarrow> bool" where
  "peer_active p \<longleftrightarrow> afc p 1 1 \<or> afc p 1 2 \<or> afc p 1 4 \<or> afc p 2 1 \<or> afc p 2 2"

text \<open>A sequence of \<^verbatim>\<open>BGP_TIMER_OFF\<close>.\<close>

definition timers_off :: "timer list \<Rightarrow> session \<Rightarrow> session" where
  "timers_off ts p = fold BGP_TIMER_OFF ts p"

definition timer_when :: "bool \<Rightarrow> timer \<Rightarrow> u32 \<Rightarrow> session \<Rightarrow> session" where
  "timer_when b t v p = (if b then BGP_TIMER_ON t v p else BGP_TIMER_OFF t p)"

definition hold_timers :: "session \<Rightarrow> session" where
  "hold_timers p = (if v_holdtime p = 0 then timers_off [t_holdtime, t_keepalive] p
     else BGP_TIMER_ON t_keepalive (v_keepalive p) (BGP_TIMER_ON t_holdtime (v_holdtime p) p))"

definition bgp_timer_set :: "sys \<Rightarrow> session \<Rightarrow> session option" where
  "bgp_timer_set S p = (case status p of
     Idle \<Rightarrow> do {
       p \<leftarrow> (if BGP_PEER_START_SUPPRESSED p \<or> \<not> peer_active p then Some (BGP_TIMER_OFF t_start p)
         else do {
           jitter \<leftarrow> bgp_start_jitter S (sint (v_start p));
           Some (BGP_TIMER_ON t_start (v_start p + of_int jitter) p) });
       Some (timers_off [t_connect, t_holdtime, t_keepalive, t_asorig, t_routeadv] p) }
   | Connect \<Rightarrow>
       Some (timers_off [t_holdtime, t_keepalive, t_asorig, t_routeadv] (BGP_TIMER_ON t_connect (v_connect p) (BGP_TIMER_OFF t_start p)))
   | Active \<Rightarrow>
       let passive = CHECK_FLAG (flags p) PEER_FLAG_PASSIVE \<or> CHECK_FLAG (sflags p) PEER_STATUS_NSF_WAIT
       in Some (timers_off [t_holdtime, t_keepalive, t_asorig, t_routeadv]
            (timer_when (\<not> passive) t_connect (v_connect p) (BGP_TIMER_OFF t_start p)))
   | OpenSent \<Rightarrow>
       Some (timers_off [t_keepalive, t_asorig, t_routeadv]
         (timer_when (v_holdtime p \<noteq> 0) t_holdtime (v_holdtime p) (timers_off [t_start, t_connect] p)))
   | OpenConfirm \<Rightarrow> Some (timers_off [t_asorig, t_routeadv] (hold_timers (timers_off [t_start, t_connect] p)))
   | Established \<Rightarrow> Some (BGP_TIMER_OFF t_asorig (hold_timers (timers_off [t_start, t_connect] p)))
   | Deleted \<Rightarrow> Some (timers_off [t_gr_restart, t_gr_stale, t_pmax_restart,
        t_start, t_connect, t_holdtime, t_keepalive, t_asorig, t_routeadv] p)
   | Clearing \<Rightarrow> Some (timers_off [t_start, t_connect, t_holdtime, t_keepalive, t_asorig, t_routeadv] p))"

subsection \<open>Stopping a session\<close>

definition drop_established :: "sys \<Rightarrow> session \<Rightarrow> session" where
  "drop_established S p =
     (let p = BGP_TIMER_OFF t_gr_stale (p\<lparr>dropped := dropped p + 1\<rparr>);
          p = (if CHECK_FLAG (sflags p) PEER_STATUS_NSF_WAIT
            then BGP_TIMER_ON t_gr_stale (stalepath_time (bgp_times p)) (BGP_TIMER_ON t_gr_restart (v_gr_restart p) p)
            else p\<lparr>sflags := UNSET_FLAG (sflags p) PEER_STATUS_NSF_MODE, nsf := af_reset nsf_afs False (nsf p)\<rparr>)
      in p\<lparr>resettime := bgp_clock S, uptime := bgp_clock S, synctime := 0\<rparr>)"

text \<open>Events are kept while routes are cleared, because they end the clearing.\<close>

definition leave_status :: "sys \<Rightarrow> session \<Rightarrow> session" where
  "leave_status S p =
     (let p = (if status p \<noteq> Clearing then BGP_EVENT_FLUSH p else p) in if status p = Established then drop_established S p else p)"

definition reset_buffer :: "stream option \<Rightarrow> stream option option" where
  "reset_buffer b = (case b of None \<Rightarrow> Some None | Some s \<Rightarrow> map_option Some (stream_reset s))"

text \<open>The rest of \<^verbatim>\<open>bgp_stop\<close>, with the two buffers after their reset.\<close>

definition close_session :: "stream option \<Rightarrow> stream option \<Rightarrow> session \<Rightarrow> session" where
  "close_session i w p =
     (let p = timers_off [t_start, t_connect, t_holdtime, t_keepalive, t_asorig, t_routeadv] (p\<lparr>t_read := False, t_write := False\<rparr>);
          own = CHECK_FLAG (config p) PEER_CONFIG_TIMER
      in p\<lparr>packet_size := 0, ibuf := i, work := w, obuf := map_option (\<lambda>_. []) (obuf p), fd := (if 0 \<le> fd p then - 1 else fd p),
        afc_nego := af_reset all_afs False (afc_nego p), afc_adv := af_reset all_afs False (afc_adv p),
        afc_recv := af_reset all_afs False (afc_recv p), af_cap := af_reset all_afs 0 (af_cap p),
        af_sflags := af_reset all_afs 0 (af_sflags p), orf_plist := af_reset all_afs False (orf_plist p),
        v_keepalive := (if own then keepalive p else default_keepalive (bgp_times p)),
        v_holdtime := (if own then holdtime p else default_holdtime (bgp_times p)), update_time := 0\<rparr>)"

definition bgp_stop :: "sys \<Rightarrow> session \<Rightarrow> session option" where
  "bgp_stop S p = do {
     i \<leftarrow> reset_buffer (ibuf p);
     w \<leftarrow> reset_buffer (work p);
     Some (close_session i w (leave_status S p)) }"

definition peer_nsf_stop :: "sys \<Rightarrow> session \<Rightarrow> session" where
  "peer_nsf_stop S p =
     (let p = p\<lparr>sflags := UNSET_FLAG (UNSET_FLAG (sflags p) PEER_STATUS_NSF_WAIT) PEER_STATUS_NSF_MODE, nsf := af_reset nsf_afs False (nsf p)\<rparr>
      in bgp_clear_route_all S (timers_off [t_gr_restart, t_gr_stale] p))"

text \<open>The part of the deletion of a peer that concerns its session: it leaves the lists of peers and groups, and its tables and filters are
  freed, elsewhere.\<close>

definition peer_delete :: "sys \<Rightarrow> session \<Rightarrow> session option" where
  "peer_delete S p = do {
     zassert (status p \<noteq> Deleted);
     let p = (if CHECK_FLAG (sflags p) PEER_STATUS_NSF_WAIT then peer_nsf_stop S p else p);
     p \<leftarrow> bgp_stop S (p\<lparr>last_reset := PEER_DOWN_NEIGHBOR_DELETE\<rparr>);
     p \<leftarrow> bgp_timer_set S (bgp_fsm_change_status S Deleted p);
     Some (p\<lparr>ibuf := None, obuf := None, work := None, su_local := None, su_remote := None\<rparr>) }"

subsection \<open>Operations as updates of fields\<close>

lemma field_forms:
  "BGP_TIMER_ON t v p = p\<lparr>timers := (if timers p t = None \<and> status p \<noteq> Deleted then (timers p)(t \<mapsto> v) else timers p)\<rparr>"
  "BGP_TIMER_OFF t p = p\<lparr>timers := (timers p)(t := None)\<rparr>"
  "BGP_READ_ON p = p\<lparr>t_read := (t_read p \<or> status p \<noteq> Deleted)\<rparr>"
  "BGP_WRITE_ON p = p\<lparr>t_write := (t_write p \<or> status p \<noteq> Deleted)\<rparr>"
  "BGP_EVENT_ADD e p = p\<lparr>events := (if status p \<noteq> Deleted then events p @ [e] else events p)\<rparr>"
  by (simp_all add: BGP_TIMER_ON_def BGP_TIMER_OFF_def BGP_READ_ON_def BGP_WRITE_ON_def BGP_EVENT_ADD_def)

lemma timers_off_form: "timers_off ts p = p\<lparr>timers := (\<lambda>t. if t \<in> set ts then None else timers p t)\<rparr>"
  by (induction ts arbitrary: p) (auto simp: timers_off_def field_forms fun_eq_iff intro!: session.fold_congs)

lemma timer_when_form:
  "timer_when b t v p = p\<lparr>timers := (if \<not> b then (timers p)(t := None)
     else if timers p t = None \<and> status p \<noteq> Deleted then (timers p)(t \<mapsto> v) else timers p)\<rparr>"
  by (simp add: timer_when_def field_forms)

lemma hold_timers_form:
  "hold_timers p = p\<lparr>timers := (if v_holdtime p = 0 then (\<lambda>t. if t \<in> {t_holdtime, t_keepalive} then None else timers p t)
     else if status p = Deleted then timers p
     else (\<lambda>t. if timers p t \<noteq> None then timers p t else if t = t_holdtime then Some (v_holdtime p)
       else if t = t_keepalive then Some (v_keepalive p) else None))\<rparr>"
  by (auto simp: hold_timers_def field_forms timers_off_form fun_eq_iff intro!: session.fold_congs)

lemma leave_status_form:
  "leave_status S p = p\<lparr>events := (if status p = Clearing then events p else []), dropped := dropped (leave_status S p),
     timers := timers (leave_status S p), sflags := sflags (leave_status S p), nsf := nsf (leave_status S p),
     resettime := resettime (leave_status S p), uptime := uptime (leave_status S p), synctime := synctime (leave_status S p)\<rparr>"
  by (simp add: leave_status_def drop_established_def field_forms Let_def)

lemma leave_status_fields [simp]:
  "status (leave_status S p) = status p" "events (leave_status S p) = (if status p = Clearing then events p else [])"
  "clear_pending (leave_status S p) = clear_pending p" "flags (leave_status S p) = flags p" "afc (leave_status S p) = afc p"
  "v_start (leave_status S p) = v_start p" "af_flags (leave_status S p) = af_flags p" "af_cap (leave_status S p) = af_cap p"
  "ibuf (leave_status S p) = ibuf p" "work (leave_status S p) = work p" "obuf (leave_status S p) = obuf p" "fd (leave_status S p) = fd p"
  "config (leave_status S p) = config p"
  by (subst leave_status_form, simp)+

lemma close_session_fields [simp]:
  "status (close_session i w p) = status p" "events (close_session i w p) = events p" "clear_pending (close_session i w p) = clear_pending p"
  "flags (close_session i w p) = flags p" "afc (close_session i w p) = afc p" "v_start (close_session i w p) = v_start p"
  "af_flags (close_session i w p) = af_flags p" "af_cap (close_session i w p) = af_reset all_afs 0 (af_cap p)"
  "ibuf (close_session i w p) = i" "work (close_session i w p) = w" "obuf (close_session i w p) = map_option (\<lambda>_. []) (obuf p)"
  "fd (close_session i w p) = (if 0 \<le> fd p then - 1 else fd p)" "\<not> t_read (close_session i w p)" "\<not> t_write (close_session i w p)"
  "timers (close_session i w p) t_start = None"
  by (simp_all add: close_session_def timers_off_form Let_def)

lemma bgp_clear_route_form:
  "bgp_clear_route S afi safi p = p\<lparr>clear_pending := (clear_pending p \<or> has_routes S afi safi),
     events := (if clear_pending p \<or> has_routes S afi safi \<or> status p = Deleted then events p else events p @ [Clearing_Completed])\<rparr>"
  by (simp add: bgp_clear_route_def bgp_clear_node_complete_def field_forms Let_def)

end
