(* ===== verification/Bgp_Fsm.thy ===== *)
theory Bgp_Fsm
  imports Bgp_Session "HOL-Library.Sublist"
begin

text \<open>
  The state machine of a BGP session (\<^verbatim>\<open>bgpd/bgp_fsm.c\<close>): the functions called for events, the transition table, and the timers.

  A function of the table returns its result code and the session; after a negative code the status does not change and the timers are not set.
  The relation \<open>session_step\<close> has the ways in which a session moves: an event from its queue, a timer that expires, an event added by the rest of the daemon
  (sockets, configuration), the negotiation by an OPEN message, and the end of the work queue that clears its routes.
\<close>

subsection \<open>Functions of the table\<close>

abbreviation (input) BGP_NOTIFY_OPEN_ERR :: u8 where "BGP_NOTIFY_OPEN_ERR \<equiv> 2"
abbreviation (input) BGP_NOTIFY_OPEN_BAD_PEER_AS :: u8 where "BGP_NOTIFY_OPEN_BAD_PEER_AS \<equiv> 2"
abbreviation (input) BGP_NOTIFY_OPEN_UNACEP_HOLDTIME :: u8 where "BGP_NOTIFY_OPEN_UNACEP_HOLDTIME \<equiv> 6"

abbreviation (input) PEER_FLAG_OVERRIDE_CAPABILITY :: u32 where "PEER_FLAG_OVERRIDE_CAPABILITY \<equiv> 0x8"

type_synonym fsm_func = "sys \<Rightarrow> session \<Rightarrow> (int \<times> session) option"

definition bgp_ignore :: fsm_func where
  "bgp_ignore S p = Some (0, p)"

definition bgp_stop_event :: fsm_func where
  "bgp_stop_event S p = do { p \<leftarrow> bgp_stop S p; Some (0, p) }"

definition bgp_clearing_completed :: fsm_func where
  "bgp_clearing_completed S p = do { p \<leftarrow> bgp_stop S p; Some (0, BGP_EVENT_FLUSH p) }"

definition bgp_stop_with_error :: fsm_func where
  "bgp_stop_with_error S p = do { p \<leftarrow> bgp_stop S (double_start p); Some (0, p) }"

definition bgp_stop_with_notify :: "u8 \<Rightarrow> u8 \<Rightarrow> fsm_func" where
  "bgp_stop_with_notify code sub_code S p = do {
     p \<leftarrow> bgp_notify_send S code sub_code p;
     if CHECK_FLAG (sflags p) PEER_STATUS_ACCEPT_PEER then do { p \<leftarrow> peer_delete S p; Some (- 1, p) }
     else do { p \<leftarrow> bgp_stop S (p\<lparr>v_start := BGP_INIT_START_TIMER\<rparr>); Some (0, p) } }"

definition bgp_connect_success :: fsm_func where
  "bgp_connect_success S p =
     (if fd p < 0 then Some (- 1, p)
      else do {
        let p = BGP_READ_ON p;
        if CHECK_FLAG (sflags p) PEER_STATUS_ACCEPT_PEER then Some (0, p)
        else do {
          p \<leftarrow> bgp_open_send (p\<lparr>su_local := sockname S, su_remote := peername S\<rparr>);
          Some (0, p) } })"

definition bgp_connect_fail :: fsm_func where
  "bgp_connect_fail S p = do { p \<leftarrow> bgp_stop S p; Some (0, p) }"

text \<open>A connection attempt: \<open>None\<close> is the result \<open>- 1\<close> when there is no socket, which is none of the cases of the caller.\<close>

definition bgp_connect :: "sys \<Rightarrow> session \<Rightarrow> connect_result option \<times> session" where
  "bgp_connect S p =
     (let p = p\<lparr>fd := socket_result S\<rparr> in if fd p < 0 then (None, p) else (Some (connect_status S), p))"

definition bgp_start :: fsm_func where
  "bgp_start S p =
     (if BGP_PEER_START_SUPPRESSED p then Some (- 1, p)
      else let p = p\<lparr>su_local := None, su_remote := None, remote_id := 0, cap := 0\<rparr> in
        if CHECK_FLAG (flags p) PEER_FLAG_PASSIVE then Some (0, BGP_EVENT_ADD TCP_connection_open_failed p)
        else case bgp_connect S p of
            (Some connect_error, p) \<Rightarrow> Some (0, BGP_EVENT_ADD TCP_connection_open_failed p)
          | (Some connect_success, p) \<Rightarrow> Some (0, BGP_EVENT_ADD TCP_connection_open p)
          | (Some connect_in_progress, p) \<Rightarrow> if fd p < 0 then Some (- 1, p) else Some (0, BGP_WRITE_ON (BGP_READ_ON p))
          | (None, p) \<Rightarrow> Some (0, p))"

definition bgp_reconnect :: fsm_func where
  "bgp_reconnect S p = do { p \<leftarrow> bgp_stop S p; (_, p) \<leftarrow> bgp_start S p; Some (0, p) }"

definition bgp_fsm_open :: fsm_func where
  "bgp_fsm_open S p = do { p \<leftarrow> bgp_keepalive_send p; Some (0, BGP_TIMER_OFF t_holdtime p) }"

definition bgp_fsm_keepalive_expire :: fsm_func where
  "bgp_fsm_keepalive_expire S p = do { p \<leftarrow> bgp_keepalive_send p; Some (0, p) }"

definition bgp_fsm_event_error :: fsm_func where
  "bgp_fsm_event_error = bgp_stop_with_notify BGP_NOTIFY_FSM_ERR 0"

definition bgp_fsm_holdtime_expire :: fsm_func where
  "bgp_fsm_holdtime_expire = bgp_stop_with_notify BGP_NOTIFY_HOLD_ERR 0"

definition bgp_fsm_keepalive :: fsm_func where
  "bgp_fsm_keepalive S p = Some (0, BGP_TIMER_OFF t_holdtime (p\<lparr>keepalive_in := keepalive_in p + 1\<rparr>))"

definition bgp_fsm_update :: fsm_func where
  "bgp_fsm_update S p = Some (0, BGP_TIMER_OFF t_holdtime p)"

subsection \<open>Establishing a session\<close>

text \<open>Graceful restart of the families: the stale routes of a family go when its forwarding state was not kept.  The number of families with graceful restart is
  counted.\<close>

definition nsf_family :: "nat \<times> nat \<Rightarrow> nat \<times> session \<Rightarrow> nat \<times> session" where
  "nsf_family af c = (case (af, c) of ((afi, safi), (n, p)) \<Rightarrow>
     if afc_nego p afi safi \<and> CHECK_FLAG (cap p) PEER_CAP_RESTART_ADV \<and> CHECK_FLAG (af_cap p afi safi) PEER_CAP_RESTART_AF_RCV
     then let p = (if nsf p afi safi \<and> \<not> CHECK_FLAG (af_cap p afi safi) PEER_CAP_RESTART_AF_PRESERVE_RCV then bgp_clear_stale_route afi safi p else p)
       in (n + 1, p\<lparr>nsf := af_set (nsf p) afi safi True\<rparr>)
     else let p = (if nsf p afi safi then bgp_clear_stale_route afi safi p else p)
       in (n, p\<lparr>nsf := af_set (nsf p) afi safi False\<rparr>))"

fun send_refreshes :: "(nat \<times> nat) list \<Rightarrow> session \<Rightarrow> session option" where
  "send_refreshes [] p = Some p"
| "send_refreshes ((afi, safi) # afs) p = do {
     p \<leftarrow> (if CHECK_FLAG (af_cap p afi safi) PEER_CAP_ORF_PREFIX_SM_ADV then
         if CHECK_FLAG (af_cap p afi safi) PEER_CAP_ORF_PREFIX_RM_RCV then bgp_route_refresh_send afi safi ORF_TYPE_PREFIX REFRESH_IMMEDIATE p
         else if CHECK_FLAG (af_cap p afi safi) PEER_CAP_ORF_PREFIX_RM_OLD_RCV then bgp_route_refresh_send afi safi ORF_TYPE_PREFIX_OLD REFRESH_IMMEDIATE p
         else Some p
       else Some p);
     send_refreshes afs p }"

definition wait_refresh :: "nat \<times> nat \<Rightarrow> session \<Rightarrow> session" where
  "wait_refresh af p = (case af of (afi, safi) \<Rightarrow>
     if CHECK_FLAG (af_cap p afi safi) PEER_CAP_ORF_PREFIX_RM_ADV \<and>
        (CHECK_FLAG (af_cap p afi safi) PEER_CAP_ORF_PREFIX_SM_RCV \<or> CHECK_FLAG (af_cap p afi safi) PEER_CAP_ORF_PREFIX_SM_OLD_RCV)
     then p\<lparr>af_sflags := af_set (af_sflags p) afi safi (SET_FLAG (af_sflags p afi safi) PEER_STATUS_ORF_WAIT_REFRESH)\<rparr>
     else p)"

definition become_established :: "sys \<Rightarrow> session \<Rightarrow> session" where
  "become_established S p =
     (let p = p\<lparr>sflags := SET_FLAG (sflags p) PEER_STATUS_CAPABILITY_OPEN, notify := None, v_start := BGP_INIT_START_TIMER,
            established := established p + 1\<rparr>;
          p = bgp_fsm_change_status S Established p;
          p = p\<lparr>sflags := UNSET_FLAG (sflags p) PEER_STATUS_NSF_WAIT\<rparr>;
          (nsf_af_count, p) = fold nsf_family nsf_afs (0, p);
          p = (if nsf_af_count \<noteq> 0 then p\<lparr>sflags := SET_FLAG (sflags p) PEER_STATUS_NSF_MODE\<rparr>
            else BGP_TIMER_OFF t_gr_stale (p\<lparr>sflags := UNSET_FLAG (sflags p) PEER_STATUS_NSF_MODE\<rparr>))
      in BGP_TIMER_OFF t_gr_restart p)"

text \<open>The announcement of all routes to the peer is counted.\<close>

definition bgp_establish :: fsm_func where
  "bgp_establish S p = do {
     p \<leftarrow> send_refreshes all_afs ((become_established S p)\<lparr>uptime := bgp_clock S\<rparr>);
     p \<leftarrow> (if v_keepalive p \<noteq> 0 then bgp_keepalive_send p else Some p);
     let p = fold wait_refresh all_afs p;
     Some (0, BGP_TIMER_ON t_routeadv 1 (p\<lparr>announced_all := announced_all p + 1\<rparr>)) }"

subsection \<open>The table\<close>

fun event_number :: "fsm_event \<Rightarrow> nat" where
  "event_number BGP_Start = 1"
| "event_number BGP_Stop = 2"
| "event_number TCP_connection_open = 3"
| "event_number TCP_connection_closed = 4"
| "event_number TCP_connection_open_failed = 5"
| "event_number TCP_fatal_error = 6"
| "event_number ConnectRetry_timer_expired = 7"
| "event_number Hold_Timer_expired = 8"
| "event_number KeepAlive_timer_expired = 9"
| "event_number Receive_OPEN_message = 10"
| "event_number Receive_KEEPALIVE_message = 11"
| "event_number Receive_UPDATE_message = 12"
| "event_number Receive_NOTIFICATION_message = 13"
| "event_number Clearing_Completed = 14"

fun FSM :: "fsm_status \<Rightarrow> (fsm_func \<times> fsm_status) list" where
  "FSM Idle = [(bgp_start, Connect), (bgp_stop_event, Idle), (bgp_stop_event, Idle), (bgp_stop_event, Idle), (bgp_ignore, Idle),
     (bgp_stop_event, Idle), (bgp_ignore, Idle), (bgp_ignore, Idle), (bgp_ignore, Idle), (bgp_ignore, Idle),
     (bgp_ignore, Idle), (bgp_ignore, Idle), (bgp_ignore, Idle), (bgp_ignore, Idle)]"
| "FSM Connect = [(bgp_ignore, Connect), (bgp_stop_event, Idle), (bgp_connect_success, OpenSent), (bgp_stop_event, Idle), (bgp_connect_fail, Active),
     (bgp_connect_fail, Idle), (bgp_reconnect, Connect), (bgp_ignore, Idle), (bgp_ignore, Idle), (bgp_ignore, Idle),
     (bgp_ignore, Idle), (bgp_ignore, Idle), (bgp_stop_event, Idle), (bgp_ignore, Idle)]"
| "FSM Active = [(bgp_ignore, Active), (bgp_stop_event, Idle), (bgp_connect_success, OpenSent), (bgp_stop_event, Idle), (bgp_ignore, Active),
     (bgp_ignore, Idle), (bgp_start, Connect), (bgp_ignore, Idle), (bgp_ignore, Idle), (bgp_ignore, Idle),
     (bgp_ignore, Idle), (bgp_ignore, Idle), (bgp_stop_with_error, Idle), (bgp_ignore, Idle)]"
| "FSM OpenSent = [(bgp_ignore, OpenSent), (bgp_stop_event, Idle), (bgp_stop_event, Active), (bgp_stop_event, Active), (bgp_stop_event, Active),
     (bgp_stop_event, Active), (bgp_ignore, Idle), (bgp_fsm_holdtime_expire, Idle), (bgp_ignore, Idle), (bgp_fsm_open, OpenConfirm),
     (bgp_fsm_event_error, Idle), (bgp_fsm_event_error, Idle), (bgp_stop_with_error, Idle), (bgp_ignore, Idle)]"
| "FSM OpenConfirm = [(bgp_ignore, OpenConfirm), (bgp_stop_event, Idle), (bgp_stop_event, Idle), (bgp_stop_event, Idle), (bgp_stop_event, Idle),
     (bgp_stop_event, Idle), (bgp_ignore, Idle), (bgp_fsm_holdtime_expire, Idle), (bgp_ignore, OpenConfirm), (bgp_ignore, Idle),
     (bgp_establish, Established), (bgp_ignore, Idle), (bgp_stop_with_error, Idle), (bgp_ignore, Idle)]"
| "FSM Established = [(bgp_ignore, Established), (bgp_stop_event, Clearing), (bgp_stop_event, Clearing), (bgp_stop_event, Clearing), (bgp_stop_event, Clearing),
     (bgp_stop_event, Clearing), (bgp_stop_event, Clearing), (bgp_fsm_holdtime_expire, Clearing), (bgp_fsm_keepalive_expire, Established), (bgp_stop_event, Clearing),
     (bgp_fsm_keepalive, Established), (bgp_fsm_update, Established), (bgp_stop_with_error, Clearing), (bgp_ignore, Idle)]"
| "FSM Clearing = [(bgp_ignore, Clearing), (bgp_stop_event, Clearing), (bgp_stop_event, Clearing), (bgp_stop_event, Clearing), (bgp_stop_event, Clearing),
     (bgp_stop_event, Clearing), (bgp_stop_event, Clearing), (bgp_stop_event, Clearing), (bgp_stop_event, Clearing), (bgp_stop_event, Clearing),
     (bgp_stop_event, Clearing), (bgp_stop_event, Clearing), (bgp_stop_event, Clearing), (bgp_clearing_completed, Idle)]"
| "FSM Deleted = replicate 14 (bgp_ignore, Deleted)"

definition bgp_event :: "sys \<Rightarrow> fsm_event \<Rightarrow> session \<Rightarrow> (int \<times> session) option" where
  "bgp_event S e p = do {
     let (func, next) = FSM (status p) ! (event_number e - 1);
     (ret, p) \<leftarrow> func S p;
     if 0 \<le> ret then do {
       let p = (if next \<noteq> status p then bgp_fsm_change_status S next p else p);
       p \<leftarrow> bgp_timer_set S p;
       Some (ret, p) }
     else Some (ret, p) }"

subsection \<open>Timers that expire\<close>

abbreviation expired :: "timer \<Rightarrow> session \<Rightarrow> session" where
  "expired t p \<equiv> p\<lparr>timers := (timers p)(t := None)\<rparr>"

definition bgp_start_timer :: "sys \<Rightarrow> session \<Rightarrow> (int \<times> session) option" where
  "bgp_start_timer S p = bgp_event S BGP_Start (expired t_start p)"

definition bgp_connect_timer :: "sys \<Rightarrow> session \<Rightarrow> (int \<times> session) option" where
  "bgp_connect_timer S p = bgp_event S ConnectRetry_timer_expired (expired t_connect p)"

definition bgp_holdtime_timer :: "sys \<Rightarrow> session \<Rightarrow> (int \<times> session) option" where
  "bgp_holdtime_timer S p = bgp_event S Hold_Timer_expired (expired t_holdtime p)"

definition bgp_keepalive_timer :: "sys \<Rightarrow> session \<Rightarrow> (int \<times> session) option" where
  "bgp_keepalive_timer S p = bgp_event S KeepAlive_timer_expired (expired t_keepalive p)"

definition bgp_routeadv_timer :: "sys \<Rightarrow> session \<Rightarrow> session" where
  "bgp_routeadv_timer S p =
     BGP_TIMER_ON t_routeadv (v_routeadv p) (BGP_WRITE_ON ((expired t_routeadv p)\<lparr>synctime := bgp_clock S\<rparr>))"

definition clear_stale :: "session \<Rightarrow> session" where
  "clear_stale p = fold (\<lambda>(afi, safi) p. if nsf p afi safi then bgp_clear_stale_route afi safi p else p) nsf_afs p"

definition bgp_graceful_restart_timer_expire :: "sys \<Rightarrow> session \<Rightarrow> session option" where
  "bgp_graceful_restart_timer_expire S p =
     (let p = clear_stale (expired t_gr_restart p)
      in bgp_timer_set S (BGP_TIMER_OFF t_gr_stale (p\<lparr>sflags := UNSET_FLAG (sflags p) PEER_STATUS_NSF_WAIT\<rparr>)))"

definition bgp_graceful_stale_timer_expire :: "session \<Rightarrow> session" where
  "bgp_graceful_stale_timer_expire p = clear_stale (expired t_gr_stale p)"

text \<open>The end of \<^verbatim>\<open>bgp_open_receive\<close>: an unacceptable hold time is refused; otherwise the hold time is the smaller one of both sides, and the event is
  added unless the options cannot be parsed.  What the parser of the options finds is an argument: nothing when it fails, otherwise whether a multiprotocol
  capability was sent, the received and negotiated families, the capability flags and the restart time.  Without that capability the configured families are used.\<close>

record open_options =
  has_mp :: bool
  recv_afs :: "nat \<Rightarrow> nat \<Rightarrow> bool"
  nego_afs :: "nat \<Rightarrow> nat \<Rightarrow> bool"
  caps :: u16
  af_caps :: "nat \<Rightarrow> nat \<Rightarrow> u16"
  gr_restart :: u32

definition open_received :: "sys \<Rightarrow> u16 \<Rightarrow> open_options option \<Rightarrow> session \<Rightarrow> (int \<times> session) option" where
  "open_received S time options p =
     (if time < 3 \<and> time \<noteq> 0 then do { p \<leftarrow> bgp_notify_send S BGP_NOTIFY_OPEN_ERR BGP_NOTIFY_OPEN_UNACEP_HOLDTIME p; Some (- 1, p) }
      else do {
        let send_holdtime = (ucast (if CHECK_FLAG (config p) PEER_CONFIG_TIMER then holdtime p else default_holdtime (bgp_times p)) :: u16);
        let v = (ucast (if time < send_holdtime then time else send_holdtime) :: u32);
        let p = p\<lparr>v_holdtime := v, v_keepalive := v div 3\<rparr>;
        case options of
          None \<Rightarrow> do { p \<leftarrow> bgp_notify_send S BGP_NOTIFY_OPEN_ERR BGP_NOTIFY_OPEN_UNACEP_HOLDTIME p; Some (- 1, p) }
        | Some opts \<Rightarrow> do {
            let nego = (if \<not> has_mp opts \<or> CHECK_FLAG (flags p) PEER_FLAG_OVERRIDE_CAPABILITY
              then fold (\<lambda>(afi, safi) f. af_set f afi safi (afc p afi safi)) [(1, 1), (1, 2), (2, 1), (2, 2)] (nego_afs opts) else nego_afs opts);
            let p = p\<lparr>afc_recv := recv_afs opts, afc_nego := nego, cap := caps opts, af_cap := af_caps opts, v_gr_restart := gr_restart opts\<rparr>;
            let p = BGP_EVENT_ADD Receive_OPEN_message (p\<lparr>su_local := sockname S, su_remote := peername S\<rparr>);
            i \<leftarrow> reset_buffer (ibuf p);
            Some (0, p\<lparr>packet_size := 0, ibuf := i\<rparr>) } })"

subsection \<open>Sessions that are in order\<close>

definition buffer_ok :: "stream option \<Rightarrow> bool" where
  "buffer_ok b \<longleftrightarrow> reset_buffer b \<noteq> None"

text \<open>The timers that may run in a status.\<close>

fun allowed :: "fsm_status \<Rightarrow> timer set" where
  "allowed Idle = {t_start, t_pmax_restart, t_gr_restart, t_gr_stale}"
| "allowed Connect = {t_connect, t_pmax_restart, t_gr_restart, t_gr_stale}"
| "allowed Active = {t_connect, t_pmax_restart, t_gr_restart, t_gr_stale}"
| "allowed OpenSent = {t_holdtime, t_pmax_restart, t_gr_restart, t_gr_stale}"
| "allowed OpenConfirm = {t_holdtime, t_keepalive, t_pmax_restart, t_gr_restart, t_gr_stale}"
| "allowed Established = {t_holdtime, t_keepalive, t_routeadv, t_pmax_restart, t_gr_restart, t_gr_stale}"
| "allowed Clearing = {t_pmax_restart, t_gr_restart, t_gr_stale}"
| "allowed Deleted = {}"

definition no_vpn_orf :: "session \<Rightarrow> bool" where
  "no_vpn_orf p \<longleftrightarrow> (\<forall>afi. \<not> orf_configured p afi SAFI_MPLS_VPN \<and> \<not> CHECK_FLAG (af_cap p afi SAFI_MPLS_VPN) PEER_CAP_ORF_PREFIX_SM_ADV)"

text \<open>The start interval lies between 5 and 120 seconds and a start timer between 3 and 180; buffers exist until the session is deleted and are in
  order; ORF is not used for VPN routes.\<close>

definition core :: "session \<Rightarrow> bool" where
  "core p \<longleftrightarrow> 5 \<le> v_start p \<and> v_start p \<le> 120 \<and> (\<forall>d. timers p t_start = Some d \<longrightarrow> 3 \<le> d \<and> d \<le> 180) \<and>
     (status p \<noteq> Deleted \<longrightarrow> obuf p \<noteq> None) \<and> buffer_ok (ibuf p) \<and> buffer_ok (work p) \<and> no_vpn_orf p"

definition session_ok :: "session \<Rightarrow> bool" where
  "session_ok p \<longleftrightarrow> core p \<and> (\<forall>t. timers p t \<noteq> None \<longrightarrow> t \<in> allowed (status p))"

lemma buffer_ok_reset [simp]: "reset_buffer b = Some b' \<Longrightarrow> buffer_ok b'"
  by (auto simp: buffer_ok_def reset_buffer_def stream_reset_def STREAM_VERIFY_SANE_def GETP_VALID_def ENDP_VALID_def split: option.splits)

lemma buffer_ok_None [simp]: "buffer_ok None"
  by (simp add: buffer_ok_def reset_buffer_def)

lemma no_vpn_orf_cong:
  assumes "af_flags q = af_flags p" "\<And>afi. af_cap q afi 4 = af_cap p afi 4 \<or> af_cap q afi 4 = 0" "no_vpn_orf p"
  shows "no_vpn_orf q"
  unfolding no_vpn_orf_def
proof
  fix afi
  show "\<not> orf_configured q afi SAFI_MPLS_VPN \<and> \<not> CHECK_FLAG (af_cap q afi SAFI_MPLS_VPN) PEER_CAP_ORF_PREFIX_SM_ADV"
    using assms(1,3) assms(2) [of afi] by (auto simp: no_vpn_orf_def orf_configured_def CHECK_FLAG_def)
qed

lemma af_reset_all: "af_reset all_afs v f afi 4 = f afi 4 \<or> af_reset all_afs v f afi 4 = v"
  by (simp add: af_reset_def af_set_def)

lemma bgp_stop_facts:
  assumes "core p"
  obtains q where "bgp_stop S p = Some q" "core q" "status q = status p" "events q = (if status p = Clearing then events p else [])"
    "clear_pending q = clear_pending p" "fd q < 0" "\<not> t_read q" "\<not> t_write q" "flags q = flags p" "afc q = afc p" "v_start q = v_start p"
proof -
  obtain i w where b: "reset_buffer (ibuf p) = Some i" "reset_buffer (work p) = Some w" using assms by (auto simp: core_def buffer_ok_def)
  let ?q = "close_session i w (leave_status S p)"
  have q: "bgp_stop S p = Some ?q" using b by (simp add: bgp_stop_def)
  have "no_vpn_orf ?q" using assms af_reset_all [of 0 "af_cap p"] by (intro no_vpn_orf_cong [of ?q p]) (simp_all add: core_def)
  then have "core ?q" using b assms by (simp add: core_def)
  then show ?thesis by (rule that [OF q]) simp_all
qed

lemma start_delay:
  assumes "5 \<le> (v :: u32)" "v \<le> 120"
  obtains j where "bgp_start_jitter S (sint v) = Some j" "3 \<le> v + of_int j" "v + of_int j \<le> 180"
proof -
  define n where "n = unat v"
  have n: "5 \<le> n" "n \<le> 120" "v = of_nat n" using assms by (simp_all add: n_def word_le_nat_alt)
  have "uint v = int n" by (simp add: n_def)
  then have s: "sint v = int n" using n(2) by (simp add: sint_uint signed_take_bit_int_eq_self)
  define r where "r = int (rand_value S) mod (int n + 1)"
  have r: "0 \<le> r" "r \<le> int n" using pos_mod_bound [of "int n + 1" "int (rand_value S)"] by (simp_all add: r_def)
  have "bgp_start_jitter S (sint v) = Some (r - int n div 2)" using n(1,2) by (simp add: bgp_start_jitter_def s r_def)
  moreover
  define m where "m = nat (int n + (r - int n div 2))"
  have m: "int m = int n + (r - int n div 2)" using n(1) r by (simp add: m_def)
  then have "3 \<le> m" "m \<le> 180" using n(1,2) r by linarith+
  moreover have "v + of_int (r - int n div 2) = of_int (int m)" unfolding m n(3) by simp
  moreover have "unat (of_nat m :: u32) = m" using \<open>m \<le> 180\<close> by (simp add: unat_of_nat)
  ultimately show ?thesis by (intro that [of "r - int n div 2"]) (simp_all add: word_le_nat_alt)
qed

text \<open>A session in a status has the timer that leads out of it, unless the configuration keeps it there.\<close>

definition armed :: "session \<Rightarrow> bool" where
  "armed p = (case status p of
     Idle \<Rightarrow> BGP_PEER_START_SUPPRESSED p \<or> \<not> peer_active p \<or> timers p t_start \<noteq> None
   | Connect \<Rightarrow> timers p t_connect \<noteq> None
   | Active \<Rightarrow> BGP_PEER_START_SUPPRESSED p \<or> CHECK_FLAG (flags p) PEER_FLAG_PASSIVE \<or> CHECK_FLAG (sflags p) PEER_STATUS_NSF_WAIT \<or> timers p t_connect \<noteq> None
   | OpenSent \<Rightarrow> v_holdtime p = 0 \<or> timers p t_holdtime \<noteq> None
   | OpenConfirm \<Rightarrow> v_holdtime p = 0 \<or> timers p t_holdtime \<noteq> None
   | Established \<Rightarrow> v_holdtime p = 0 \<or> timers p t_holdtime \<noteq> None
   | Clearing \<Rightarrow> True
   | Deleted \<Rightarrow> True)"

lemma start_step_form:
  "(if b then Some (BGP_TIMER_OFF t_start p) else do { j \<leftarrow> m; Some (BGP_TIMER_ON t_start (f j) p) }) =
   map_option (\<lambda>ts. p\<lparr>timers := ts\<rparr>) (if b then Some ((timers p)(t_start := None))
     else map_option (\<lambda>j. if timers p t_start = None \<and> status p \<noteq> Deleted then (timers p)(t_start \<mapsto> f j) else timers p) m)"
  by (cases m) (simp_all add: field_forms)

lemmas timer_set_simps = bgp_timer_set_def start_step_form field_forms timers_off_form hold_timers_form timer_when_form Let_def

lemma timer_set_form: "bgp_timer_set S p = map_option (\<lambda>q. p\<lparr>timers := timers q\<rparr>) (bgp_timer_set S p)"
  by (cases "status p"; cases "bgp_start_jitter S (sint (v_start p))") (simp_all add: timer_set_simps)

lemma timer_set_frame:
  assumes "bgp_timer_set S p = Some q"
  shows "q = p\<lparr>timers := timers q\<rparr>"
  using timer_set_form [of S p] unfolding assms by simp

lemma timer_set_off:
  "t \<notin> allowed (status p) \<Longrightarrow> map_option (\<lambda>q. timers q t) (bgp_timer_set S p) \<in> {None, Some None}"
  by (cases "status p"; cases "bgp_start_jitter S (sint (v_start p))"; cases t) (simp_all add: timer_set_simps)

lemma timer_set_allowed:
  assumes "bgp_timer_set S p = Some q" "timers q t \<noteq> None"
  shows "t \<in> allowed (status p)"
  using timer_set_off [of t p S] assms by (cases "t \<in> allowed (status p)") simp_all

lemma timer_set_start:
  assumes "bgp_timer_set S p = Some q" "timers q t_start = Some d" "core p"
  shows "3 \<le> d \<and> d \<le> 180"
proof -
  have idle: "status p = Idle" using timer_set_allowed [OF assms(1), of t_start] assms(2) by (cases "status p") auto
  have v: "5 \<le> v_start p" "v_start p \<le> 120" using assms(3) by (simp_all add: core_def)
  obtain j where j: "bgp_start_jitter S (sint (v_start p)) = Some j" "3 \<le> v_start p + of_int j" "v_start p + of_int j \<le> 180"
    by (rule start_delay [OF v])
  show ?thesis
  proof (cases "BGP_PEER_START_SUPPRESSED p \<or> \<not> peer_active p \<or> timers p t_start \<noteq> None")
    case True
    then have "timers p t_start = Some d" using assms(1,2) idle j(1) by (auto simp: timer_set_simps split: if_splits)
    then show ?thesis using assms(3) by (simp add: core_def)
  next
    case False
    then have "d = v_start p + of_int j" using assms(1,2) idle j(1) by (auto simp: timer_set_simps)
    then show ?thesis using j by simp
  qed
qed

lemma timer_set_armed:
  assumes "bgp_timer_set S p = Some q"
  shows "armed q"
proof (cases "status p")
  case Idle
  have f: "status q = status p" "BGP_PEER_START_SUPPRESSED q = BGP_PEER_START_SUPPRESSED p" "peer_active q = peer_active p"
    by (subst timer_set_frame [OF assms], simp add: BGP_PEER_START_SUPPRESSED_def peer_active_def)+
  show ?thesis
  proof (cases "BGP_PEER_START_SUPPRESSED p \<or> \<not> peer_active p")
    case True
    then show ?thesis using Idle f by (auto simp: armed_def)
  next
    case False
    then have "timers q t_start \<noteq> None" using assms Idle by (cases "timers p t_start") (auto simp: timer_set_simps bind_eq_Some_conv)
    then show ?thesis using Idle f by (simp add: armed_def)
  qed
next
  case Connect
  then show ?thesis using assms by (auto simp: timer_set_simps armed_def)
next
  case Active
  then show ?thesis using assms by (auto simp: timer_set_simps armed_def)
next
  case OpenSent
  then show ?thesis using assms by (auto simp: timer_set_simps armed_def)
next
  case OpenConfirm
  then show ?thesis using assms by (auto simp: timer_set_simps armed_def)
next
  case Established
  then show ?thesis using assms by (auto simp: timer_set_simps armed_def)
next
  case Clearing
  then show ?thesis using assms by (auto simp: timer_set_simps armed_def)
next
  case Deleted
  then show ?thesis using assms by (auto simp: timer_set_simps armed_def)
qed

lemma timer_set_facts:
  assumes "core p"
  obtains q where "bgp_timer_set S p = Some q" "session_ok q" "armed q" "q = p\<lparr>timers := timers q\<rparr>"
proof -
  have v: "5 \<le> v_start p" "v_start p \<le> 120" using assms by (simp_all add: core_def)
  obtain j where "bgp_start_jitter S (sint (v_start p)) = Some j" by (rule start_delay [OF v])
  then have "bgp_timer_set S p \<noteq> None" by (cases "status p") (simp_all add: bgp_timer_set_def Let_def)
  then obtain q where q: "bgp_timer_set S p = Some q" by blast
  have f: "q = p\<lparr>timers := timers q\<rparr>" using timer_set_frame [OF q] .
  have "core (p\<lparr>timers := timers q\<rparr>)" using assms by (auto simp add: core_def no_vpn_orf_def orf_configured_def timer_set_start [OF q _ assms])
  moreover have "status q = status p" by (subst f) simp
  ultimately have "session_ok q" using f by (auto simp: session_ok_def intro: timer_set_allowed [OF q])
  then show ?thesis using q f timer_set_armed [OF q] by (intro that)
qed

subsection \<open>The contract of the functions of the table\<close>

lemmas core_defs = core_def no_vpn_orf_def orf_configured_def

lemma core_fields [simp]:
  "core (p\<lparr>events := es\<rparr>) = core p" "core (p\<lparr>clear_pending := c\<rparr>) = core p" "core (p\<lparr>fd := n\<rparr>) = core p" "core (p\<lparr>t_read := b\<rparr>) = core p"
  "core (p\<lparr>t_write := b\<rparr>) = core p" "core (p\<lparr>su_local := a\<rparr>) = core p" "core (p\<lparr>su_remote := a\<rparr>) = core p" "core (p\<lparr>remote_id := r\<rparr>) = core p"
  "core (p\<lparr>cap := k\<rparr>) = core p" "core (p\<lparr>keepalive_in := n'\<rparr>) = core p" "core (p\<lparr>notify_out := n'\<rparr>) = core p" "core (p\<lparr>last_reset := l\<rparr>) = core p"
  "core (p\<lparr>uptime := n\<rparr>) = core p" "core (p\<lparr>synctime := n\<rparr>) = core p" "core (p\<lparr>sflags := k\<rparr>) = core p" "core (p\<lparr>nsf := g\<rparr>) = core p"
  "core (p\<lparr>stale_cleared := sc\<rparr>) = core p" "core (p\<lparr>af_sflags := h\<rparr>) = core p" "core (p\<lparr>announced_all := m\<rparr>) = core p" "core (p\<lparr>afc_adv := g\<rparr>) = core p"
  "core (p\<lparr>notify := nt\<rparr>) = core p" "core (p\<lparr>established := n'\<rparr>) = core p" "core (p\<lparr>ostatus := st\<rparr>) = core p"
  by (simp_all add: core_defs)

lemma core_timer_off [simp]: "core p \<Longrightarrow> core (p\<lparr>timers := (timers p)(t := None)\<rparr>)"
  by (simp add: core_defs)

lemma core_obuf [simp]: "core p \<Longrightarrow> core (p\<lparr>obuf := Some q\<rparr>)"
  by (simp add: core_defs)

lemma double_bounds:
  assumes "5 \<le> (v :: u32)" "v \<le> 120"
  shows "5 \<le> (if 60 * 2 \<le> v * 2 then 60 * 2 else v * 2)" "(if 60 * 2 \<le> v * 2 then 60 * 2 else v * 2) \<le> 120"
proof -
  have "unat (v * 2) = unat v * 2" using assms(2) by (simp add: unat_word_ariths word_le_nat_alt)
  then show "5 \<le> (if 60 * 2 \<le> v * 2 then 60 * 2 else v * 2)" "(if 60 * 2 \<le> v * 2 then 60 * 2 else v * 2) \<le> 120"
    using assms by (auto simp: word_le_nat_alt)
qed

lemma core_double [simp]:
  assumes "core p"
  shows "core (double_start p)"
proof -
  have v: "5 \<le> v_start p" "v_start p \<le> 120" using assms by (simp_all add: core_def)
  show ?thesis using assms double_bounds [OF v] by (simp add: core_defs double_start_def)
qed

text \<open>Clearing the routes signals completion once for every family before the first one with routes.\<close>

definition early :: "sys \<Rightarrow> (nat \<times> nat) list \<Rightarrow> nat" where
  "early S afs = length (takeWhile (\<lambda>(afi, safi). \<not> has_routes S afi safi) afs)"

lemma clear_fold:
  "fold (\<lambda>(afi, safi). bgp_clear_route S afi safi) afs p =
     p\<lparr>clear_pending := (clear_pending p \<or> (\<exists>(afi, safi) \<in> set afs. has_routes S afi safi)),
       events := events p @ (if clear_pending p \<or> status p = Deleted then [] else replicate (early S afs) Clearing_Completed)\<rparr>"
proof (induction afs arbitrary: p)
  case (Cons af afs)
  obtain afi safi where af: "af = (afi, safi)" by (cases af)
  show ?case
    by (cases "has_routes S afi safi"; cases "clear_pending p"; cases "status p = Deleted") (simp_all add: Cons.IH af bgp_clear_route_form [of S afi safi p] early_def)
qed (simp add: early_def)

lemma clear_all_form:
  "bgp_clear_route_all S p =
     p\<lparr>clear_pending := (clear_pending p \<or> (\<exists>(afi, safi) \<in> set all_afs. has_routes S afi safi)),
       events := events p @ (if clear_pending p \<or> status p = Deleted then [] else replicate (early S all_afs) Clearing_Completed)\<rparr>"
  unfolding bgp_clear_route_all_def by (rule clear_fold)

lemma early_none: "early S afs = 0 \<Longrightarrow> afs \<noteq> [] \<Longrightarrow> \<exists>(afi, safi) \<in> set afs. has_routes S afi safi"
  by (cases afs) (auto simp: early_def split: if_splits)

lemma change_status_form:
  "bgp_fsm_change_status S st p = p\<lparr>clear_pending := clear_pending (bgp_fsm_change_status S st p),
     events := events (bgp_fsm_change_status S st p), ostatus := status p, status := st\<rparr>"
  by (simp add: bgp_fsm_change_status_def clear_all_form Let_def del: set_simps(2))

lemma change_status_fields [simp]:
  "status (bgp_fsm_change_status S st p) = st" "timers (bgp_fsm_change_status S st p) = timers p" "v_start (bgp_fsm_change_status S st p) = v_start p"
  "obuf (bgp_fsm_change_status S st p) = obuf p" "ibuf (bgp_fsm_change_status S st p) = ibuf p" "work (bgp_fsm_change_status S st p) = work p"
  "af_flags (bgp_fsm_change_status S st p) = af_flags p" "af_cap (bgp_fsm_change_status S st p) = af_cap p"
  by (subst change_status_form, simp)+

lemma change_status_core: "core p \<Longrightarrow> st = Deleted \<or> status p \<noteq> Deleted \<Longrightarrow> core (bgp_fsm_change_status S st p)"
  by (auto simp: core_defs)

lemma change_status_clearing:
  "status p \<noteq> Deleted \<Longrightarrow> st = Clearing \<Longrightarrow>
   clear_pending (bgp_fsm_change_status S st p) \<or> Clearing_Completed \<in> set (events (bgp_fsm_change_status S st p))"
  by (cases "early S all_afs = 0"; cases "clear_pending p")
    (auto simp: bgp_fsm_change_status_def clear_all_form Let_def dest: early_none simp del: set_simps(2))

lemma core_obuf_Some: "core p \<Longrightarrow> status p \<noteq> Deleted \<Longrightarrow> \<exists>q. obuf p = Some q"
  by (simp add: core_def)

lemma notify_send_facts:
  assumes "core p" "status p \<noteq> Deleted"
  obtains q where "bgp_notify_send_with_data S c s d p = Some q" "core q" "status q = status p" "sflags q = sflags p"
proof -
  obtain m where m: "obuf p = Some m" using core_obuf_Some [OF assms] by blast
  define l where "l = (if s = BGP_NOTIFY_CEASE_CONFIG_CHANGE then last_reset p else if s = BGP_NOTIFY_CEASE_ADMIN_RESET then PEER_DOWN_USER_RESET
    else if s = BGP_NOTIFY_CEASE_ADMIN_SHUTDOWN then PEER_DOWN_USER_SHUTDOWN else PEER_DOWN_NOTIFY_SEND)"
  let ?p = "p\<lparr>obuf := Some [(BGP_MSG_NOTIFY, c # s # d)], last_reset := l, t_write := False\<rparr>"
  have e: "bgp_notify_send_with_data S c s d p = bgp_write_notify S ?p"
    by (simp add: bgp_notify_send_with_data_def bgp_packet_add_def m l_def)
  have c: "core ?p" using assms(1) by simp
  show ?thesis
  proof (cases "write_result S \<le> 0")
    case True
    then have "bgp_write_notify S ?p = Some (BGP_EVENT_ADD TCP_fatal_error ?p)" by (simp add: bgp_write_notify_def)
    then show ?thesis using c by (intro that [of "BGP_EVENT_ADD TCP_fatal_error ?p"]) (simp_all add: e field_forms)
  next
    case False
    let ?q = "BGP_EVENT_ADD BGP_Stop (double_start (?p\<lparr>notify_out := notify_out ?p + 1\<rparr>))"
    have "bgp_write_notify S ?p = Some ?q" using False by (simp add: bgp_write_notify_def)
    moreover have "core ?q" using core_double [of "?p\<lparr>notify_out := notify_out ?p + 1\<rparr>"] c by (simp add: field_forms)
    ultimately show ?thesis by (intro that [of ?q]) (simp_all add: e field_forms double_start_def)
  qed
qed

lemma keepalive_send_facts:
  assumes "core p" "status p \<noteq> Deleted"
  obtains q where "bgp_keepalive_send p = Some q" "core q" "status q = status p"
proof -
  obtain m where m: "obuf p = Some m" using core_obuf_Some [OF assms] by blast
  then have "bgp_keepalive_send p = Some (p\<lparr>obuf := Some (m @ [(BGP_MSG_KEEPALIVE, [])]), t_write := (t_write p \<or> status p \<noteq> Deleted)\<rparr>)"
    by (simp add: bgp_keepalive_send_def bgp_packet_add_def field_forms)
  then show ?thesis by (rule that) (use assms in simp_all)
qed

lemma peer_delete_facts:
  assumes "core p" "status p \<noteq> Deleted"
  obtains q where "peer_delete S p = Some q" "session_ok q" "status q = Deleted"
proof -
  define n where "n = (if CHECK_FLAG (sflags p) PEER_STATUS_NSF_WAIT then peer_nsf_stop S p else p)\<lparr>last_reset := PEER_DOWN_NEIGHBOR_DELETE\<rparr>"
  have n: "core n" "status n \<noteq> Deleted" using assms by (simp_all add: n_def peer_nsf_stop_def Let_def clear_all_form timers_off_form core_defs del: set_simps(2))
  obtain s where s: "bgp_stop S n = Some s" "core s" "status s = status n" by (rule bgp_stop_facts [OF n(1)])
  have "core (bgp_fsm_change_status S Deleted s)" using s(2) change_status_core by blast
  from timer_set_facts [OF this, of S] obtain t where
    t: "bgp_timer_set S (bgp_fsm_change_status S Deleted s) = Some t" "session_ok t" "t = (bgp_fsm_change_status S Deleted s)\<lparr>timers := timers t\<rparr>" by blast
  have "status t = Deleted" by (subst t(3)) simp
  let ?q = "t\<lparr>ibuf := None, obuf := None, work := None, su_local := None, su_remote := None\<rparr>"
  have "peer_delete S p = Some ?q" using assms(2) s(1) t(1) by (simp add: peer_delete_def n_def Let_def)
  moreover have "session_ok ?q" using t(2) \<open>status t = Deleted\<close> by (simp add: session_ok_def core_defs)
  ultimately show ?thesis by (rule that) (simp add: \<open>status t = Deleted\<close>)
qed

text \<open>What sending an OPEN message keeps of a session.\<close>

lemma capability_orf_facts:
  assumes "core p" "safi \<noteq> SAFI_MPLS_VPN" "safi < 5"
  obtains os c where "bgp_open_capability_orf afi safi code p = Some (os, p\<lparr>af_cap := c\<rparr>)" "core (p\<lparr>af_cap := c\<rparr>)" "length os \<le> 11"
proof -
  define c where "c = af_cap (snd (the (bgp_open_capability_orf afi safi code p)))"
  define os where "os = fst (the (bgp_open_capability_orf afi safi code p))"
  have "bgp_open_capability_orf afi safi code p = Some (os, p\<lparr>af_cap := c\<rparr>)" and "\<forall>a. c a 4 = af_cap p a 4" and "length os \<le> 11"
    using assms(2,3) by (simp_all add: c_def os_def bgp_open_capability_orf_def af_set_def Let_def put16_def)
  then show ?thesis using assms(1) by (intro that [of os c]) (simp_all add: core_defs)
qed

lemma orf_capabilities_facts:
  assumes "core p" "\<forall>(afi, safi) \<in> set afs. safi < 5"
  obtains os c where "orf_capabilities afs p = Some (os, p\<lparr>af_cap := c\<rparr>)" "core (p\<lparr>af_cap := c\<rparr>)"
    "length os \<le> 22 * length (filter (\<lambda>(afi, safi). safi \<noteq> SAFI_MPLS_VPN) afs)"
proof -
  have "\<exists>os c. orf_capabilities afs p = Some (os, p\<lparr>af_cap := c\<rparr>) \<and> core (p\<lparr>af_cap := c\<rparr>) \<and>
      length os \<le> 22 * length (filter (\<lambda>(afi, safi). safi \<noteq> SAFI_MPLS_VPN) afs)"
    using assms
  proof (induction afs arbitrary: p)
    case Nil
    then show ?case by (intro exI [of _ "[]"] exI [of _ "af_cap p"]) simp
  next
    case (Cons af afs)
    obtain afi safi where af: "af = (afi, safi)" by (cases af)
    show ?case
    proof (cases "orf_configured p afi safi")
      case True
      have safi: "safi \<noteq> SAFI_MPLS_VPN" "safi < 5" using Cons.prems True af by (auto simp: core_def no_vpn_orf_def)
      obtain o1 c1 where 1: "bgp_open_capability_orf afi safi CAPABILITY_CODE_ORF_OLD p = Some (o1, p\<lparr>af_cap := c1\<rparr>)"
          "core (p\<lparr>af_cap := c1\<rparr>)" "length o1 \<le> 11" by (rule capability_orf_facts [OF Cons.prems(1) safi])
      obtain o2 c2 where 2: "bgp_open_capability_orf afi safi CAPABILITY_CODE_ORF (p\<lparr>af_cap := c1\<rparr>) = Some (o2, p\<lparr>af_cap := c2\<rparr>)"
          "core (p\<lparr>af_cap := c2\<rparr>)" "length o2 \<le> 11" by (rule capability_orf_facts [OF 1(2) safi]) simp
      from Cons.IH [OF 2(2)] Cons.prems(2) obtain os c where
        3: "orf_capabilities afs (p\<lparr>af_cap := c2\<rparr>) = Some (os, p\<lparr>af_cap := c\<rparr>)" "core (p\<lparr>af_cap := c\<rparr>)"
          "length os \<le> 22 * length (filter (\<lambda>(afi, safi). safi \<noteq> SAFI_MPLS_VPN) afs)" by auto
      show ?thesis using True 1(1,3) 2(1,3) 3 safi by (intro exI [of _ "o1 @ o2 @ os"] exI [of _ c]) (simp add: af)
    next
      case False
      from Cons.IH [OF Cons.prems(1)] Cons.prems(2) obtain os c where
        3: "orf_capabilities afs p = Some (os, p\<lparr>af_cap := c\<rparr>)" "core (p\<lparr>af_cap := c\<rparr>)"
          "length os \<le> 22 * length (filter (\<lambda>(afi, safi). safi \<noteq> SAFI_MPLS_VPN) afs)" by auto
      then show ?thesis using False by (intro exI [of _ os] exI [of _ c]) (auto simp: af)
    qed
  qed
  then show ?thesis using that by blast
qed

lemma length_mp_capability: "length (mp_capability p af) \<le> 8"
  by (cases af) (simp add: mp_capability_def put16_def)

lemma length_concat_le: "(\<And>x. x \<in> set xs \<Longrightarrow> length (f x) \<le> n) \<Longrightarrow> length (concat (map f xs)) \<le> n * length xs"
  by (induction xs) (fastforce intro: add_mono)+

lemma length_restart_capability: "length (restart_capability p) \<le> 38"
proof -
  have "length (concat (map (\<lambda>(afi, safi). if afc p afi safi then put16 (of_nat afi) @ [of_nat safi, 0] else []) all_afs)) \<le> 4 * length all_afs"
    by (intro length_concat_le) (auto simp: put16_def)
  then show ?thesis by (simp add: restart_capability_def Let_def put16_def del: concat.simps list.map)
qed

text \<open>The options of an OPEN message always fit the length byte before them.\<close>

lemma open_capability_facts:
  assumes "core p"
  obtains os q where "bgp_open_capability p = Some (os, q)" "core q" "status q = status p" "obuf q = obuf p" "local_id q = local_id p"
    "hd os = of_nat (length os - 1)" "os \<noteq> []" "length os \<le> 231"
proof (cases "\<not> CHECK_FLAG (sflags p) PEER_STATUS_CAPABILITY_OPEN \<or> CHECK_FLAG (flags p) PEER_FLAG_DONT_CAPABILITY")
  case True
  then show ?thesis using assms by (intro that [of "[0]" p]) (simp_all add: bgp_open_capability_def)
next
  case False
  define k where "k = fold (\<lambda>f c. SET_FLAG c f) ([PEER_CAP_REFRESH_ADV, PEER_CAP_AS4_ADV] @
      (if CHECK_FLAG (flags p) PEER_FLAG_DYNAMIC_CAPABILITY then [PEER_CAP_DYNAMIC_ADV] else []) @ [PEER_CAP_RESTART_ADV] @
      (if t_startup (bgp_times p) then [PEER_CAP_RESTART_BIT_ADV] else [])) (cap p)"
  define g where "g = fold (\<lambda>(afi, safi) f. if afc p afi safi then af_set f afi safi True else f) mp_afs (afc_adv p)"
  define r where "r = p\<lparr>cap := k, afc_adv := g\<rparr>"
  have "core r" using assms by (simp add: r_def)
  have afs: "\<forall>(afi, safi) \<in> set all_afs. safi < 5" by simp
  obtain orf c where orf: "orf_capabilities all_afs r = Some (orf, r\<lparr>af_cap := c\<rparr>)" "core (r\<lparr>af_cap := c\<rparr>)"
      "length orf \<le> 22 * length (filter (\<lambda>(afi, safi). safi \<noteq> SAFI_MPLS_VPN) all_afs)"
    by (rule orf_capabilities_facts [OF \<open>core r\<close> afs])
  have l: "length orf \<le> 132" using orf(3) by simp
  define mp where "mp = concat (map (mp_capability p) mp_afs)"
  have "length mp \<le> 8 * length mp_afs" unfolding mp_def by (intro length_concat_le length_mp_capability)
  then have mp: "length mp \<le> 40" by simp
  define opts where "opts = mp @ [BGP_OPEN_OPT_CAP, 2, 128, 0, BGP_OPEN_OPT_CAP, 2, 2, 0] @ ([BGP_OPEN_OPT_CAP, 6, 65, 4] @ put32 (as_sent p)) @ orf @
    (if CHECK_FLAG (flags p) PEER_FLAG_DYNAMIC_CAPABILITY then [BGP_OPEN_OPT_CAP, 2, 66, 0] else []) @ restart_capability p"
  have "bgp_open_capability p = Some (of_nat (length opts) # opts, r\<lparr>af_cap := c\<rparr>)"
    unfolding bgp_open_capability_def Let_def mp_def [symmetric] k_def [symmetric] g_def [symmetric] r_def [symmetric] orf(1)
    using False by (simp only: opts_def if_False bind.bind_lunit prod.case)
  moreover have "length opts \<le> 230" using mp l length_restart_capability [of p] by (simp add: opts_def put32_def)
  ultimately show ?thesis using orf(2) by (intro that [of "of_nat (length opts) # opts" "r\<lparr>af_cap := c\<rparr>"]) (simp_all add: r_def)
qed

lemma open_send_facts:
  assumes "core p" "obuf p = Some m"
  obtains q b os where "bgp_open_send p = Some q" "core q" "status q = status p" "obuf q = Some (m @ [(BGP_MSG_OPEN, b @ os)])"
    "length b = 9" "hd os = of_nat (length os - 1)" "os \<noteq> []" "length os \<le> 231"
proof -
  obtain os r where r: "bgp_open_capability p = Some (os, r)" "core r" "status r = status p" "obuf r = obuf p" "local_id r = local_id p"
    "hd os = of_nat (length os - 1)" "os \<noteq> []" "length os \<le> 231" by (rule open_capability_facts [OF assms(1)])
  define b where "b = [4] @ put16 (if as_sent p \<le> 65535 then ucast (as_sent p) else 23456) @
    put16 (ucast (if CHECK_FLAG (config p) PEER_CONFIG_TIMER then holdtime p else default_holdtime (bgp_times p))) @ put32 (local_id p)"
  have "bgp_open_send p = Some (BGP_WRITE_ON (r\<lparr>obuf := Some (m @ [(BGP_MSG_OPEN, b @ os)])\<rparr>))"
    using r(1,4,5) assms(2) by (simp add: bgp_open_send_def bgp_packet_add_def b_def)
  moreover have "length b = 9" by (simp add: b_def put16_def put32_def del: if_split)
  ultimately show ?thesis using r by (intro that [of "BGP_WRITE_ON (r\<lparr>obuf := Some (m @ [(BGP_MSG_OPEN, b @ os)])\<rparr>)" b os]) (simp_all add: field_forms)
qed

lemma nsf_fold: "\<exists>n' g sc. fold nsf_family afs (n, p) = (n', p\<lparr>nsf := g, stale_cleared := sc\<rparr>)"
proof (induction afs arbitrary: n p)
  case Nil
  show ?case by (intro exI [of _ n] exI [of _ "nsf p"] exI [of _ "stale_cleared p"]) simp
next
  case (Cons af afs)
  have "nsf_family af (n, p) = (fst (nsf_family af (n, p)),
      p\<lparr>nsf := nsf (snd (nsf_family af (n, p))), stale_cleared := stale_cleared (snd (nsf_family af (n, p)))\<rparr>)"
    by (cases af) (simp add: nsf_family_def bgp_clear_stale_route_def Let_def)
  then obtain n' g sc where 1: "nsf_family af (n, p) = (n', p\<lparr>nsf := g, stale_cleared := sc\<rparr>)" by blast
  then show ?case using Cons.IH [of n' "p\<lparr>nsf := g, stale_cleared := sc\<rparr>"] by simp
qed

lemma wait_fold: "\<exists>h. fold wait_refresh afs p = p\<lparr>af_sflags := h\<rparr>"
proof (induction afs arbitrary: p)
  case Nil
  show ?case by (intro exI [of _ "af_sflags p"]) simp
next
  case (Cons af afs)
  have "wait_refresh af p = p\<lparr>af_sflags := af_sflags (wait_refresh af p)\<rparr>" by (cases af) (simp add: wait_refresh_def)
  then obtain h where "wait_refresh af p = p\<lparr>af_sflags := h\<rparr>" by blast
  then show ?case using Cons.IH [of "p\<lparr>af_sflags := h\<rparr>"] by simp
qed

lemma refresh_send_facts:
  assumes "obuf p = Some m" "safi \<noteq> SAFI_MPLS_VPN" "safi < 5"
  obtains h b where "bgp_route_refresh_send afi safi ty w p = Some (p\<lparr>af_sflags := h, obuf := Some (m @ [b]), t_write := (t_write p \<or> status p \<noteq> Deleted)\<rparr>)"
proof (cases "orf_entries p afi safi")
  case None
  then show ?thesis using assms that [of _ "af_sflags p"] by (simp add: bgp_route_refresh_send_def bgp_packet_add_def field_forms Let_def)
next
  case (Some entries)
  show ?thesis
  proof (cases "ty = ORF_TYPE_PREFIX \<or> ty = ORF_TYPE_PREFIX_OLD")
    case True
    then show ?thesis using assms Some that by (auto simp add: bgp_route_refresh_send_def bgp_packet_add_def field_forms Let_def)
  next
    case False
    then show ?thesis using assms Some that [of _ "af_sflags p"] by (simp add: bgp_route_refresh_send_def bgp_packet_add_def field_forms Let_def)
  qed
qed

lemma send_refreshes_facts:
  assumes "core p" "obuf p \<noteq> None" "\<forall>(afi, safi) \<in> set afs. safi < 5"
  obtains q where "send_refreshes afs p = Some q" "core q" "status q = status p" "v_keepalive q = v_keepalive p" "timers q = timers p"
proof -
  have "\<exists>q. send_refreshes afs p = Some q \<and> core q \<and> status q = status p \<and> v_keepalive q = v_keepalive p \<and> timers q = timers p"
    using assms
  proof (induction afs arbitrary: p)
    case (Cons af afs)
    obtain afi safi where af: "af = (afi, safi)" by (cases af)
    obtain m where m: "obuf p = Some m" using Cons.prems(2) by blast
    have afs: "\<forall>(afi, safi) \<in> set afs. safi < 5" using Cons.prems(3) by simp
    show ?case
    proof (cases "CHECK_FLAG (af_cap p afi safi) PEER_CAP_ORF_PREFIX_SM_ADV")
      case True
      have safi: "safi \<noteq> SAFI_MPLS_VPN" "safi < 5" using Cons.prems True af by (auto simp: core_def no_vpn_orf_def)
      have sent: "\<exists>q. bgp_route_refresh_send afi safi ty w p = Some q \<and> core q \<and> obuf q \<noteq> None \<and> status q = status p \<and> v_keepalive q = v_keepalive p \<and>
          timers q = timers p" for ty w
        by (rule refresh_send_facts [OF m safi, of afi ty w]) (use Cons.prems(1) in simp)
      have "\<exists>q1. (if CHECK_FLAG (af_cap p afi safi) PEER_CAP_ORF_PREFIX_RM_RCV then bgp_route_refresh_send afi safi ORF_TYPE_PREFIX REFRESH_IMMEDIATE p
         else if CHECK_FLAG (af_cap p afi safi) PEER_CAP_ORF_PREFIX_RM_OLD_RCV then bgp_route_refresh_send afi safi ORF_TYPE_PREFIX_OLD REFRESH_IMMEDIATE p
         else Some p) = Some q1 \<and> core q1 \<and> obuf q1 \<noteq> None \<and> status q1 = status p \<and> v_keepalive q1 = v_keepalive p \<and> timers q1 = timers p"
        using sent [of ORF_TYPE_PREFIX REFRESH_IMMEDIATE] sent [of ORF_TYPE_PREFIX_OLD REFRESH_IMMEDIATE] Cons.prems(1,2)
        by (simp only: option.inject split: if_split) blast
      then obtain q1 where q1: "(if CHECK_FLAG (af_cap p afi safi) PEER_CAP_ORF_PREFIX_RM_RCV then bgp_route_refresh_send afi safi ORF_TYPE_PREFIX REFRESH_IMMEDIATE p
         else if CHECK_FLAG (af_cap p afi safi) PEER_CAP_ORF_PREFIX_RM_OLD_RCV then bgp_route_refresh_send afi safi ORF_TYPE_PREFIX_OLD REFRESH_IMMEDIATE p
         else Some p) = Some q1" "core q1" "obuf q1 \<noteq> None" "status q1 = status p" "v_keepalive q1 = v_keepalive p" "timers q1 = timers p" by blast
      from Cons.IH [OF q1(2,3) afs] q1(4-6) show ?thesis using True by (simp add: af q1(1))
    next
      case False
      then show ?thesis using Cons.IH [OF Cons.prems(1,2) afs] by (simp add: af)
    qed
  qed simp
  then show ?thesis using that by blast
qed

text \<open>What the dispatcher relies on: a function of the table returns, keeps the session in order and its status, apart from establishing it,
  and after a negative code either has deleted the session or has done nothing.\<close>

locale session_func =
  fixes f :: fsm_func
  assumes returns: "core p \<Longrightarrow> status p \<noteq> Deleted \<Longrightarrow> \<exists>ret q. f S p = Some (ret, q) \<and> core q \<and>
    (0 \<le> ret \<longrightarrow> status q = status p \<or> status q = Established) \<and> (ret < 0 \<longrightarrow> session_ok q \<and> status q = Deleted \<or> q = p)"
begin

lemma dispatch:
  assumes "session_ok p" "status p \<noteq> Deleted" "FSM (status p) ! (event_number e - 1) = (f, next)" "next \<noteq> Deleted"
  shows "\<exists>ret q. bgp_event S e p = Some (ret, q) \<and> session_ok q \<and> (0 \<le> ret \<longrightarrow> status q = next \<and> armed q) \<and>
    (ret < 0 \<longrightarrow> status q = Deleted \<or> q = p) \<and>
    (0 \<le> ret \<and> next = Clearing \<and> status p \<noteq> Clearing \<longrightarrow> clear_pending q \<or> Clearing_Completed \<in> set (events q))"
proof -
  have "core p" using assms(1) by (simp add: session_ok_def)
  from returns [OF this assms(2), of S] obtain ret q where q: "f S p = Some (ret, q)" "core q" "0 \<le> ret \<longrightarrow> status q = status p \<or> status q = Established"
    "ret < 0 \<longrightarrow> session_ok q \<and> status q = Deleted \<or> q = p" by blast
  show ?thesis
  proof (cases "0 \<le> ret")
    case True
    define r where "r = (if next \<noteq> status q then bgp_fsm_change_status S next q else q)"
    have r: "core r" "status r = next" "next = Clearing \<and> status p \<noteq> Clearing \<longrightarrow> clear_pending r \<or> Clearing_Completed \<in> set (events r)"
      using q(2,3) True assms(2,4) change_status_core [of q "next" S] change_status_clearing [of q "next" S] by (auto simp: r_def)
    obtain s where s: "bgp_timer_set S r = Some s" "session_ok s" "armed s" "s = r\<lparr>timers := timers s\<rparr>" by (rule timer_set_facts [OF r(1)])
    have "status s = status r" "clear_pending s = clear_pending r" "events s = events r" by (subst s(4), simp)+
    then show ?thesis using True assms(3) q(1) r s by (simp add: bgp_event_def r_def [symmetric])
  next
    case False
    then show ?thesis using assms(1,3) q(1,4) by (auto simp: bgp_event_def)
  qed
qed

end

interpretation ignored: session_func bgp_ignore
  by unfold_locales (simp add: bgp_ignore_def)

lemma stop_returns: "core p \<Longrightarrow> \<exists>q. bgp_stop S p = Some q \<and> core q \<and> status q = status p"
  by (rule bgp_stop_facts) blast+

lemma session_funcI:
  "(\<And>p S. core p \<Longrightarrow> status p \<noteq> Deleted \<Longrightarrow> \<exists>q. f S p = Some (0, q) \<and> core q \<and> status q = status p) \<Longrightarrow> session_func f"
  by unfold_locales fastforce

interpretation stopped: session_func bgp_stop_event
proof (rule session_funcI)
  fix p and S :: sys
  assume "core p" "status p \<noteq> Deleted"
  from stop_returns [OF this(1), of S] show "\<exists>q. bgp_stop_event S p = Some (0, q) \<and> core q \<and> status q = status p"
    by (auto simp: bgp_stop_event_def)
qed

interpretation failed: session_func bgp_connect_fail
proof (rule session_funcI)
  fix p and S :: sys
  assume "core p" "status p \<noteq> Deleted"
  from stop_returns [OF this(1), of S] show "\<exists>q. bgp_connect_fail S p = Some (0, q) \<and> core q \<and> status q = status p"
    by (auto simp: bgp_connect_fail_def)
qed

interpretation completed: session_func bgp_clearing_completed
proof (rule session_funcI)
  fix p and S :: sys
  assume "core p" "status p \<noteq> Deleted"
  from stop_returns [OF this(1), of S] show "\<exists>q. bgp_clearing_completed S p = Some (0, q) \<and> core q \<and> status q = status p"
    by (auto simp: bgp_clearing_completed_def)
qed

interpretation stopped_error: session_func bgp_stop_with_error
proof
  fix p and S :: sys
  assume p: "core p" "status p \<noteq> Deleted"
  from stop_returns [OF core_double [OF p(1)], of S] obtain q where "bgp_stop S (double_start p) = Some q" "core q" "status q = status (double_start p)" by blast
  then show "\<exists>ret q. bgp_stop_with_error S p = Some (ret, q) \<and> core q \<and> (0 \<le> ret \<longrightarrow> status q = status p \<or> status q = Established) \<and>
      (ret < 0 \<longrightarrow> session_ok q \<and> status q = Deleted \<or> q = p)"
    by (simp add: bgp_stop_with_error_def double_start_def)
qed

lemma notify_func: "session_func (bgp_stop_with_notify c s)"
proof
  fix p and S :: sys
  assume p: "core p" "status p \<noteq> Deleted"
  obtain n where n: "bgp_notify_send S c s p = Some n" "core n" "status n = status p" by (rule notify_send_facts [OF p])
  show "\<exists>ret q. bgp_stop_with_notify c s S p = Some (ret, q) \<and> core q \<and> (0 \<le> ret \<longrightarrow> status q = status p \<or> status q = Established) \<and>
      (ret < 0 \<longrightarrow> session_ok q \<and> status q = Deleted \<or> q = p)"
  proof (cases "CHECK_FLAG (sflags n) PEER_STATUS_ACCEPT_PEER")
    case True
    have "status n \<noteq> Deleted" using n(3) p(2) by simp
    then obtain q where "peer_delete S n = Some q" "session_ok q" "status q = Deleted" by (rule peer_delete_facts [OF n(2)])
    then show ?thesis using True n(1) by (simp add: bgp_stop_with_notify_def session_ok_def)
  next
    case False
    have "core (n\<lparr>v_start := BGP_INIT_START_TIMER\<rparr>)" using n(2) by (simp add: core_defs)
    from stop_returns [OF this, of S] show ?thesis using False n by (auto simp: bgp_stop_with_notify_def)
  qed
qed

interpretation hold_expired: session_func bgp_fsm_holdtime_expire
  unfolding bgp_fsm_holdtime_expire_def by (rule notify_func)

interpretation event_error: session_func bgp_fsm_event_error
  unfolding bgp_fsm_event_error_def by (rule notify_func)

lemma keepalive_returns: "core p \<Longrightarrow> status p \<noteq> Deleted \<Longrightarrow> \<exists>q. bgp_keepalive_send p = Some q \<and> core q \<and> status q = status p"
  by (rule keepalive_send_facts) blast+

interpretation opened: session_func bgp_fsm_open
proof (rule session_funcI)
  fix p and S :: sys
  assume "core p" "status p \<noteq> Deleted"
  from keepalive_returns [OF this] show "\<exists>q. bgp_fsm_open S p = Some (0, q) \<and> core q \<and> status q = status p"
    by (auto simp: bgp_fsm_open_def field_forms)
qed

interpretation keepalive_expired: session_func bgp_fsm_keepalive_expire
proof (rule session_funcI)
  fix p and S :: sys
  assume "core p" "status p \<noteq> Deleted"
  from keepalive_returns [OF this] show "\<exists>q. bgp_fsm_keepalive_expire S p = Some (0, q) \<and> core q \<and> status q = status p"
    by (auto simp: bgp_fsm_keepalive_expire_def)
qed

interpretation alive: session_func bgp_fsm_keepalive
  by unfold_locales (simp add: bgp_fsm_keepalive_def field_forms core_defs)

interpretation updated: session_func bgp_fsm_update
  by unfold_locales (simp add: bgp_fsm_update_def field_forms)

interpretation connected: session_func bgp_connect_success
proof
  fix p and S :: sys
  assume p: "core p" "status p \<noteq> Deleted"
  let ?p = "(BGP_READ_ON p)\<lparr>su_local := sockname S, su_remote := peername S\<rparr>"
  obtain m where "obuf p = Some m" using core_obuf_Some [OF p] by blast
  then have "core ?p" "obuf ?p = Some m" using p(1) by (simp_all add: field_forms)
  then obtain q where "bgp_open_send ?p = Some q" "core q" "status q = status ?p" by (rule open_send_facts)
  then show "\<exists>ret q. bgp_connect_success S p = Some (ret, q) \<and> core q \<and> (0 \<le> ret \<longrightarrow> status q = status p \<or> status q = Established) \<and>
      (ret < 0 \<longrightarrow> session_ok q \<and> status q = Deleted \<or> q = p)"
    using p(1) by (simp add: bgp_connect_success_def field_forms Let_def)
qed

lemma start_returns: "core p \<Longrightarrow> \<exists>ret q. bgp_start S p = Some (ret, q) \<and> core q \<and> status q = status p \<and> (ret < 0 \<longrightarrow> q = p \<and> BGP_PEER_START_SUPPRESSED p)"
  by (cases "connect_status S") (simp_all add: bgp_start_def bgp_connect_def field_forms Let_def)

interpretation started: session_func bgp_start
proof
  fix p and S :: sys
  assume "core p"
  from start_returns [OF this, of S] show "\<exists>ret q. bgp_start S p = Some (ret, q) \<and> core q \<and> (0 \<le> ret \<longrightarrow> status q = status p \<or> status q = Established) \<and>
      (ret < 0 \<longrightarrow> session_ok q \<and> status q = Deleted \<or> q = p)" by blast
qed

interpretation reconnected: session_func bgp_reconnect
proof
  fix p and S :: sys
  assume p: "core p" "status p \<noteq> Deleted"
  from stop_returns [OF p(1), of S] obtain q where q: "bgp_stop S p = Some q" "core q" "status q = status p" by blast
  from start_returns [OF q(2), of S] obtain ret r where "bgp_start S q = Some (ret, r)" "core r" "status r = status q" by blast
  then show "\<exists>ret q. bgp_reconnect S p = Some (ret, q) \<and> core q \<and> (0 \<le> ret \<longrightarrow> status q = status p \<or> status q = Established) \<and>
      (ret < 0 \<longrightarrow> session_ok q \<and> status q = Deleted \<or> q = p)"
    using q by (simp add: bgp_reconnect_def)
qed

lemma become_established_facts:
  assumes "core p" "status p \<noteq> Deleted"
  shows "core (become_established S p)" "status (become_established S p) = Established" "obuf (become_established S p) = obuf p"
proof -
  define e where "e = (let p = bgp_fsm_change_status S Established (p\<lparr>sflags := SET_FLAG (sflags p) PEER_STATUS_CAPABILITY_OPEN, notify := None,
      v_start := BGP_INIT_START_TIMER, established := established p + 1\<rparr>) in p\<lparr>sflags := UNSET_FLAG (sflags p) PEER_STATUS_NSF_WAIT\<rparr>)"
  have e: "core e" "status e = Established" "obuf e = obuf p" using assms by (auto simp: e_def Let_def core_defs)
  obtain n g sc where "fold nsf_family nsf_afs (0, e) = (n, e\<lparr>nsf := g, stale_cleared := sc\<rparr>)" using nsf_fold by blast
  then have "become_established S p = BGP_TIMER_OFF t_gr_restart (if n \<noteq> 0 then e\<lparr>nsf := g, stale_cleared := sc, sflags := SET_FLAG (sflags e) PEER_STATUS_NSF_MODE\<rparr>
      else BGP_TIMER_OFF t_gr_stale (e\<lparr>nsf := g, stale_cleared := sc, sflags := UNSET_FLAG (sflags e) PEER_STATUS_NSF_MODE\<rparr>))"
    unfolding become_established_def e_def Let_def by (simp add: field_forms del: fold_simps)
  then show "core (become_established S p)" "status (become_established S p) = Established" "obuf (become_established S p) = obuf p"
    using e by (simp_all add: field_forms core_defs)
qed

interpretation established: session_func bgp_establish
proof
  fix p and S :: sys
  assume p: "core p" "status p \<noteq> Deleted"
  let ?e = "(become_established S p)\<lparr>uptime := bgp_clock S\<rparr>"
  have e: "core ?e" "obuf ?e \<noteq> None" "\<forall>(afi, safi) \<in> set all_afs. safi < 5" "status ?e = Established"
    using become_established_facts [OF p, of S] core_obuf_Some [OF p] by auto
  obtain q where q: "send_refreshes all_afs ?e = Some q" "core q" "status q = status ?e" by (rule send_refreshes_facts [OF e(1-3)])
  have st: "status q = Established" "status q \<noteq> Deleted" using q(3) e(4) by simp_all
  from keepalive_returns [OF q(2) st(2)] obtain a where "bgp_keepalive_send q = Some a" "core a" "status a = status q" by blast
  then obtain k where k: "(if v_keepalive q \<noteq> 0 then bgp_keepalive_send q else Some q) = Some k" "core k" "status k = Established"
    using q(2) st(1) by (cases "v_keepalive q = 0") auto
  obtain h where "fold wait_refresh all_afs k = k\<lparr>af_sflags := h\<rparr>" using wait_fold by blast
  then have "bgp_establish S p = Some (0, BGP_TIMER_ON t_routeadv 1 (k\<lparr>af_sflags := h, announced_all := announced_all k + 1\<rparr>))"
    using q(1) k(1) by (simp add: bgp_establish_def del: send_refreshes.simps fold_simps)
  then show "\<exists>ret q. bgp_establish S p = Some (ret, q) \<and> core q \<and> (0 \<le> ret \<longrightarrow> status q = status p \<or> status q = Established) \<and>
      (ret < 0 \<longrightarrow> session_ok q \<and> status q = Deleted \<or> q = p)"
    using k(2,3) by (auto simp: field_forms core_defs)
qed

subsection \<open>Events\<close>

lemmas table_funcs = ignored.session_func_axioms stopped.session_func_axioms failed.session_func_axioms completed.session_func_axioms
  stopped_error.session_func_axioms hold_expired.session_func_axioms event_error.session_func_axioms opened.session_func_axioms
  keepalive_expired.session_func_axioms alive.session_func_axioms updated.session_func_axioms connected.session_func_axioms
  started.session_func_axioms reconnected.session_func_axioms established.session_func_axioms

abbreviation next_state :: "fsm_status \<Rightarrow> fsm_event \<Rightarrow> fsm_status" where
  "next_state st e \<equiv> snd (FSM st ! (event_number e - 1))"

lemma FSM_entry:
  assumes "st \<noteq> Deleted"
  shows "session_func (fst (FSM st ! (event_number e - 1)))" "next_state st e \<noteq> Deleted"
  using assms table_funcs by (cases st; cases e; simp)+

lemma event_returns:
  assumes "session_ok p" "status p \<noteq> Deleted"
  shows "\<exists>ret q. bgp_event S e p = Some (ret, q) \<and> session_ok q \<and> (0 \<le> ret \<longrightarrow> status q = next_state (status p) e \<and> armed q) \<and>
    (ret < 0 \<longrightarrow> status q = Deleted \<or> q = p) \<and>
    (0 \<le> ret \<and> next_state (status p) e = Clearing \<and> status p \<noteq> Clearing \<longrightarrow> clear_pending q \<or> Clearing_Completed \<in> set (events q))"
  by (rule session_func.dispatch [OF FSM_entry(1) [OF assms(2), of e] assms _ FSM_entry(2) [OF assms(2), of e]]) simp

lemma event_Deleted:
  assumes "session_ok p" "status p = Deleted"
  shows "\<exists>q. bgp_event S e p = Some (0, q) \<and> session_ok q \<and> status q = Deleted"
proof -
  have "core p" using assms(1) by (simp add: session_ok_def)
  then obtain q where q: "bgp_timer_set S p = Some q" "session_ok q" "q = p\<lparr>timers := timers q\<rparr>" by (rule timer_set_facts)
  have "FSM (status p) ! (event_number e - 1) = (bgp_ignore, Deleted)" using assms(2) by (cases e) simp_all
  moreover have "status q = Deleted" by (subst q(3)) (simp add: assms(2))
  ultimately show ?thesis using q assms(2) by (simp add: bgp_event_def bgp_ignore_def)
qed

text \<open>C11.  Whatever the operating system answers, an event of a session that is in order never fails an assertion and leaves the
  session in order: the start interval stays between 5 and 120 seconds, a start timer between 3 and 180, only the timers of the new status run,
  and the buffers exist.  After a non-negative code the new status is that of the table; after a negative one the status is the old one, or the
  session was deleted.\<close>

theorem session_stays_in_order:
  assumes "session_ok p"
  shows "\<exists>ret q. bgp_event S e p = Some (ret, q) \<and> session_ok q \<and> (0 \<le> ret \<longrightarrow> status q = snd (FSM (status p) ! (event_number e - 1))) \<and>
    (ret < 0 \<longrightarrow> status q = status p \<or> status q = Deleted)"
proof (cases "status p = Deleted")
  case True
  then have "next_state (status p) e = Deleted" by (cases e) simp_all
  then show ?thesis using event_Deleted [OF assms True, of S e] by auto
next
  case False
  from event_returns [OF assms this, of S e] show ?thesis by blast
qed

subsection \<open>Runs of a session\<close>

text \<open>Steps are labelled with the event that the state machine handles, if any.  An OPEN message is only accepted when the capabilities
  it sets respect that ORF is not advertised for VPN routes.\<close>

inductive session_step :: "fsm_event option \<Rightarrow> session \<Rightarrow> session \<Rightarrow> bool" where
  event: "events p = e # es \<Longrightarrow> bgp_event S e (p\<lparr>events := es\<rparr>) = Some (ret, q) \<Longrightarrow> session_step (Some e) p q"
| start_timer: "timers p t_start \<noteq> None \<Longrightarrow> bgp_start_timer S p = Some (ret, q) \<Longrightarrow> session_step (Some BGP_Start) p q"
| connect_timer: "timers p t_connect \<noteq> None \<Longrightarrow> bgp_connect_timer S p = Some (ret, q) \<Longrightarrow> session_step (Some ConnectRetry_timer_expired) p q"
| holdtime_timer: "timers p t_holdtime \<noteq> None \<Longrightarrow> bgp_holdtime_timer S p = Some (ret, q) \<Longrightarrow> session_step (Some Hold_Timer_expired) p q"
| keepalive_timer: "timers p t_keepalive \<noteq> None \<Longrightarrow> bgp_keepalive_timer S p = Some (ret, q) \<Longrightarrow> session_step (Some KeepAlive_timer_expired) p q"
| routeadv_timer: "timers p t_routeadv \<noteq> None \<Longrightarrow> session_step None p (bgp_routeadv_timer S p)"
| restart_timer: "timers p t_gr_restart \<noteq> None \<Longrightarrow> bgp_graceful_restart_timer_expire S p = Some q \<Longrightarrow> session_step None p q"
| stale_timer: "timers p t_gr_stale \<noteq> None \<Longrightarrow> session_step None p (bgp_graceful_stale_timer_expire p)"
| stimulus: "session_step None p (BGP_EVENT_ADD e p)"
| open_message: "\<forall>opts \<in> set_option options. \<forall>afi. \<not> CHECK_FLAG (af_caps opts afi SAFI_MPLS_VPN) PEER_CAP_ORF_PREFIX_SM_ADV \<Longrightarrow>
    status p \<noteq> Deleted \<Longrightarrow> open_received S time options p = Some (ret, q) \<Longrightarrow> session_step None p q"
| cleared: "clear_pending p \<Longrightarrow> session_step None p (clear_queue_done p)"

text \<open>Runs with the events that were handled, the latest last.\<close>

inductive session_run :: "session \<Rightarrow> fsm_event list \<Rightarrow> session \<Rightarrow> bool" for p where
  start: "session_run p [] p"
| step: "session_run p es q \<Longrightarrow> session_step l q r \<Longrightarrow> session_run p (es @ (case l of None \<Rightarrow> [] | Some e \<Rightarrow> [e])) r"

lemma session_ok_fields [simp]:
  "session_ok (p\<lparr>events := es\<rparr>) = session_ok p" "session_ok (p\<lparr>clear_pending := c\<rparr>) = session_ok p" "session_ok (p\<lparr>t_write := b\<rparr>) = session_ok p"
  "session_ok (p\<lparr>synctime := n\<rparr>) = session_ok p" "session_ok (p\<lparr>stale_cleared := sc\<rparr>) = session_ok p"
  by (simp_all add: session_ok_def)

lemma session_ok_expired [simp]: "session_ok p \<Longrightarrow> session_ok (expired t p)"
  by (simp add: session_ok_def)

text \<open>Removing the stale routes only records them.\<close>

lemma clear_stale_form: "\<exists>sc. clear_stale p = p\<lparr>stale_cleared := sc\<rparr>"
proof -
  have "\<exists>sc. fold (\<lambda>(afi, safi) p. if nsf p afi safi then bgp_clear_stale_route afi safi p else p) afs p = p\<lparr>stale_cleared := sc\<rparr>" for afs
  proof (induction afs arbitrary: p)
    case Nil
    show ?case by (intro exI [of _ "stale_cleared p"]) simp
  next
    case (Cons af afs)
    obtain afi safi where af: "af = (afi, safi)" by (cases af)
    show ?case
    proof (cases "nsf p afi safi")
      case True
      then show ?thesis using Cons.IH [of "p\<lparr>stale_cleared := stale_cleared p @ [(afi, safi)]\<rparr>"] by (simp add: af bgp_clear_stale_route_def)
    next
      case False
      then show ?thesis using Cons.IH [of p] by (simp add: af)
    qed
  qed
  then show ?thesis unfolding clear_stale_def by blast
qed

text \<open>What an event does to a session that is in order, and how steps without an event keep its status.\<close>

lemma event_facts:
  assumes "session_ok p" "bgp_event S e p = Some (ret, q)"
  shows "session_ok q" "status p = Deleted \<Longrightarrow> status q = Deleted" "0 \<le> ret \<Longrightarrow> status p \<noteq> Deleted \<Longrightarrow> status q = next_state (status p) e \<and> armed q"
    "ret < 0 \<Longrightarrow> status q = Deleted \<or> q = p"
    "0 \<le> ret \<Longrightarrow> next_state (status p) e = Clearing \<Longrightarrow> status p \<noteq> Clearing \<Longrightarrow> status p \<noteq> Deleted \<Longrightarrow> clear_pending q \<or> Clearing_Completed \<in> set (events q)"
  using event_returns [OF assms(1), of S e] event_Deleted [OF assms(1), of S e] unfolding assms(2) by (cases "status p = Deleted"; auto)+

lemma restart_timer_facts:
  assumes "session_ok p" "bgp_graceful_restart_timer_expire S p = Some q"
  shows "session_ok q \<and> armed q \<and> status q = status p \<and> events q = events p \<and> clear_pending q = clear_pending p"
proof -
  obtain sc where sc: "clear_stale (expired t_gr_restart p) = (expired t_gr_restart p)\<lparr>stale_cleared := sc\<rparr>" using clear_stale_form by blast
  define r where "r = BGP_TIMER_OFF t_gr_stale ((expired t_gr_restart p)\<lparr>stale_cleared := sc, sflags := UNSET_FLAG (sflags p) PEER_STATUS_NSF_WAIT\<rparr>)"
  have "core r" using assms(1) by (simp add: r_def session_ok_def field_forms core_defs)
  then obtain q' where q': "bgp_timer_set S r = Some q'" "session_ok q'" "armed q'" "q' = r\<lparr>timers := timers q'\<rparr>" by (rule timer_set_facts)
  have "bgp_timer_set S r = Some q" using assms(2) by (simp add: bgp_graceful_restart_timer_expire_def sc Let_def r_def)
  then have "q' = q" using q'(1) by simp
  moreover have "status q' = status r" "events q' = events r" "clear_pending q' = clear_pending r" by (subst q'(4), simp)+
  moreover have "status r = status p" "events r = events p" "clear_pending r = clear_pending p" by (simp_all add: r_def field_forms)
  ultimately show ?thesis using q'(2,3) by simp
qed

lemma stale_timer_form: "\<exists>sc. bgp_graceful_stale_timer_expire p = (expired t_gr_stale p)\<lparr>stale_cleared := sc\<rparr>"
  unfolding bgp_graceful_stale_timer_expire_def by (rule clear_stale_form)

lemma notify_frame:
  assumes "bgp_notify_send_with_data S c s d p = Some q"
  shows "timers q = timers p \<and> flags q = flags p \<and> sflags q = sflags p \<and> afc q = afc p \<and> v_holdtime q = v_holdtime p \<and>
    clear_pending q = clear_pending p \<and> set (events p) \<subseteq> set (events q)"
  using assms by (auto simp: bgp_notify_send_with_data_def bgp_packet_add_def bgp_write_notify_def double_start_def BGP_EVENT_ADD_def Let_def
    bind_eq_Some_conv split: if_splits list.splits)

text \<open>Events of a queue that always lead to the timers of a status.\<close>

abbreviation decisive :: "fsm_event set" where
  "decisive \<equiv> {Receive_OPEN_message, BGP_Stop, TCP_fatal_error}"

lemma notify_facts:
  assumes "session_ok p" "status p \<noteq> Deleted" "bgp_notify_send S c s p = Some q"
  shows "session_ok q \<and> status q = status p \<and> clear_pending q = clear_pending p \<and> set (events p) \<subseteq> set (events q) \<and> set (events q) \<inter> decisive \<noteq> {}"
proof -
  have "core p" using assms(1) by (simp add: session_ok_def)
  from notify_send_facts [OF this assms(2)] have "core q \<and> status q = status p" using assms(3) by (metis option.inject)
  moreover have "set (events q) \<inter> decisive \<noteq> {}" using assms(2,3)
    by (auto simp: bgp_notify_send_with_data_def bgp_packet_add_def bgp_write_notify_def double_start_def BGP_EVENT_ADD_def Let_def bind_eq_Some_conv
      split: if_splits list.splits)
  ultimately show ?thesis using notify_frame [OF assms(3)] assms(1) by (simp add: session_ok_def)
qed

lemma open_received_facts:
  assumes "session_ok p" "status p \<noteq> Deleted" "\<forall>opts \<in> set_option options. \<forall>afi. \<not> CHECK_FLAG (af_caps opts afi SAFI_MPLS_VPN) PEER_CAP_ORF_PREFIX_SM_ADV"
    "open_received S time options p = Some (ret, q)"
  shows "session_ok q \<and> status q = status p \<and> clear_pending q = clear_pending p \<and> set (events p) \<subseteq> set (events q) \<and> set (events q) \<inter> decisive \<noteq> {}"
proof (cases "time < 3 \<and> time \<noteq> 0")
  case True
  then have "bgp_notify_send S BGP_NOTIFY_OPEN_ERR BGP_NOTIFY_OPEN_UNACEP_HOLDTIME p = Some q" using assms(4) by (auto simp: open_received_def bind_eq_Some_conv)
  then show ?thesis by (rule notify_facts [OF assms(1,2)])
next
  case False
  define v where "v = (let send_holdtime = (ucast (if CHECK_FLAG (config p) PEER_CONFIG_TIMER then holdtime p else default_holdtime (bgp_times p)) :: u16)
    in (ucast (if time < send_holdtime then time else send_holdtime) :: u32))"
  let ?p = "p\<lparr>v_holdtime := v, v_keepalive := v div 3\<rparr>"
  have p: "session_ok ?p" "status ?p \<noteq> Deleted" using assms(1,2) by (simp_all add: session_ok_def core_defs)
  show ?thesis
  proof (cases options)
    case None
    then have "bgp_notify_send S BGP_NOTIFY_OPEN_ERR BGP_NOTIFY_OPEN_UNACEP_HOLDTIME ?p = Some q"
      using False assms(4) by (auto simp: open_received_def v_def Let_def bind_eq_Some_conv)
    from notify_facts [OF p this] show ?thesis by simp
  next
    case (Some opts)
    obtain i g where i: "reset_buffer (ibuf p) = Some i" and
      q: "q = ?p\<lparr>afc_recv := recv_afs opts, afc_nego := g, cap := caps opts, af_cap := af_caps opts, v_gr_restart := gr_restart opts, su_local := sockname S, su_remote := peername S,
        events := events p @ [Receive_OPEN_message], packet_size := 0, ibuf := i\<rparr>"
      using False assms(2,4) unfolding open_received_def Some v_def Let_def by (auto simp: BGP_EVENT_ADD_def bind_eq_Some_conv simp del: fold_simps)
    have "core q" using i assms(1,3) by (simp add: q Some session_ok_def core_defs)
    then show ?thesis using assms(1) by (auto simp: q session_ok_def)
  qed
qed

text \<open>Negative codes: the session was deleted, or a start was suppressed, or a connection that is reported as open has no socket.\<close>

definition plain_funcs :: "fsm_func set" where
  "plain_funcs = {bgp_ignore, bgp_stop_event, bgp_clearing_completed, bgp_stop_with_error, bgp_connect_fail, bgp_reconnect, bgp_fsm_open,
     bgp_fsm_keepalive_expire, bgp_fsm_keepalive, bgp_fsm_update, bgp_establish}"

lemma plain_code: "f \<in> plain_funcs \<Longrightarrow> f S p = Some (ret, q) \<Longrightarrow> ret = 0"
  by (auto simp: plain_funcs_def bgp_ignore_def bgp_stop_event_def bgp_clearing_completed_def bgp_stop_with_error_def bgp_connect_fail_def
    bgp_reconnect_def bgp_fsm_open_def bgp_fsm_keepalive_expire_def bgp_fsm_keepalive_def bgp_fsm_update_def bgp_establish_def Let_def bind_eq_Some_conv
    simp del: send_refreshes.simps)

lemma FSM_codes:
  "fst (FSM st ! (event_number e - 1)) \<in> plain_funcs \<or> st \<in> {Idle, Active} \<and> fst (FSM st ! (event_number e - 1)) = bgp_start \<or>
   e = TCP_connection_open \<and> st \<in> {Connect, Active} \<or> fst (FSM st ! (event_number e - 1)) \<in> {bgp_fsm_holdtime_expire, bgp_fsm_event_error}"
  by (cases st; cases e; simp add: plain_funcs_def)

lemma notify_code:
  assumes "bgp_stop_with_notify c s S p = Some (ret, q)" "ret < 0" "core p" "status p \<noteq> Deleted"
  shows "status q = Deleted"
proof -
  obtain n where n: "bgp_notify_send S c s p = Some n" "core n" "status n = status p" by (rule notify_send_facts [OF assms(3,4)])
  have "status n \<noteq> Deleted" using n(3) assms(4) by simp
  then obtain q' where "peer_delete S n = Some q'" "status q' = Deleted" by (rule peer_delete_facts [OF n(2)])
  then show ?thesis using assms(1,2) n(1) by (auto simp: bgp_stop_with_notify_def bind_eq_Some_conv split: if_splits)
qed

lemma negative_code:
  assumes "session_ok p" "bgp_event S e p = Some (ret, q)" "ret < 0"
  shows "status q = Deleted \<or> q = p \<and> (status p \<in> {Idle, Active} \<and> BGP_PEER_START_SUPPRESSED p \<or> status p \<in> {Connect, Active} \<and> e = TCP_connection_open)"
proof (cases "status p = Deleted")
  case True
  then show ?thesis using event_facts(2) [OF assms(1,2)] by simp
next
  case False
  define f where "f = fst (FSM (status p) ! (event_number e - 1))"
  have "core p" using assms(1) by (simp add: session_ok_def)
  have f: "f S p = Some (ret, q)" using assms(2,3) by (auto simp: bgp_event_def f_def bind_eq_Some_conv split: prod.splits if_splits)
  then have "f \<notin> plain_funcs" using plain_code [of f S p ret q] assms(3) by auto
  then consider "status p \<in> {Idle, Active} \<and> f = bgp_start" | "e = TCP_connection_open \<and> status p \<in> {Connect, Active}" | "f \<in> {bgp_fsm_holdtime_expire, bgp_fsm_event_error}"
    using FSM_codes [of "status p" e] unfolding f_def by blast
  then show ?thesis
  proof cases
    case 1
    then have "q = p \<and> BGP_PEER_START_SUPPRESSED p" using f start_returns [OF \<open>core p\<close>, of S] assms(3) by auto
    then show ?thesis using 1 by auto
  next
    case 2
    then show ?thesis using event_facts(4) [OF assms] by blast
  next
    case 3
    then show ?thesis using f notify_code [OF _ assms(3) \<open>core p\<close> False] by (auto simp: bgp_fsm_holdtime_expire_def bgp_fsm_event_error_def)
  qed
qed

text \<open>While routes are cleared no event is lost and no work forgotten until the completion is handled.\<close>

lemma clearing_event:
  assumes "session_ok p" "status p = Clearing" "e \<noteq> Clearing_Completed" "bgp_event S e p = Some (ret, q)"
  shows "status q = Clearing \<and> clear_pending q = clear_pending p \<and> events q = events p"
proof -
  have c: "core p" using assms(1) by (simp add: session_ok_def)
  obtain r where r: "bgp_stop S p = Some r" "core r" "status r = status p" "events r = (if status p = Clearing then events p else [])"
    "clear_pending r = clear_pending p" by (rule bgp_stop_facts [OF c])
  have "FSM (status p) ! (event_number e - 1) \<in> {(bgp_ignore, Clearing), (bgp_stop_event, Clearing)}" using assms(2,3) by (cases e) simp_all
  then obtain x where x: "bgp_timer_set S x = Some q" "core x" "status x = Clearing" "clear_pending x = clear_pending p" "events x = events p"
    using assms(2,4) r c by (auto simp: bgp_event_def bgp_ignore_def bgp_stop_event_def bind_eq_Some_conv)
  have "status q = status x" "clear_pending q = clear_pending x" "events q = events x" by (subst timer_set_frame [OF x(1)], simp)+
  then show ?thesis using x by simp
qed

text \<open>A session can go on: the completion of the clearing is to come, or the timer that leads out of the status runs, or an event that sets it is to be handled.\<close>

definition can_go_on :: "session \<Rightarrow> bool" where
  "can_go_on p \<longleftrightarrow> (if status p = Clearing then clear_pending p \<or> Clearing_Completed \<in> set (events p)
     else armed p \<or> set (events p) \<inter> decisive \<noteq> {})"

lemma event_goes_on:
  assumes "session_ok p" "bgp_event S e p = Some (ret, q)" "0 \<le> ret"
    "status p = Clearing \<Longrightarrow> e \<noteq> Clearing_Completed \<Longrightarrow> clear_pending p \<or> Clearing_Completed \<in> set (events p)"
  shows "can_go_on q"
proof -
  consider "status p = Deleted" | "status p = Clearing" "e \<noteq> Clearing_Completed" | "status p = Clearing" "e = Clearing_Completed" | "status p \<noteq> Deleted" "status p \<noteq> Clearing"
    by blast
  then show ?thesis
  proof cases
    case 1
    then show ?thesis using event_facts(2) [OF assms(1,2)] by (simp add: can_go_on_def armed_def)
  next
    case 2
    then show ?thesis using clearing_event [OF assms(1) _ _ assms(2)] assms(4) by (simp add: can_go_on_def)
  next
    case 3
    then show ?thesis using event_facts(3) [OF assms(1,2,3)] by (simp add: can_go_on_def)
  next
    case 4
    then show ?thesis using event_facts(3,5) [OF assms(1,2,3)] by (auto simp: can_go_on_def)
  qed
qed

lemma queued_event_goes_on:
  assumes "session_ok p" "events p = e # es" "bgp_event S e (p\<lparr>events := es\<rparr>) = Some (ret, q)" "can_go_on p"
  shows "can_go_on q"
proof (cases "0 \<le> ret")
  case True
  have "session_ok (p\<lparr>events := es\<rparr>)" using assms(1) by simp
  then show ?thesis by (rule event_goes_on [OF _ assms(3) True]) (use assms(2,4) in \<open>auto simp: can_go_on_def\<close>)
next
  case False
  have ok: "session_ok (p\<lparr>events := es\<rparr>)" using assms(1) by simp
  have "ret < 0" using False by simp
  from negative_code [OF ok assms(3) this] consider "status q = Deleted" | "q = p\<lparr>events := es\<rparr>" "status p \<in> {Idle, Active}" "BGP_PEER_START_SUPPRESSED p"
    | "q = p\<lparr>events := es\<rparr>" "status p \<in> {Connect, Active}" "e = TCP_connection_open"
    by (auto simp: BGP_PEER_START_SUPPRESSED_def)
  then show ?thesis
    by cases (use assms(2,4) in \<open>auto simp: can_go_on_def armed_def BGP_PEER_START_SUPPRESSED_def\<close>)
qed

lemma expired_goes_on:
  assumes "session_ok p" "timers p t \<noteq> None" "bgp_event S e (expired t p) = Some (ret, q)"
    "(t, e) \<in> {(t_start, BGP_Start), (t_connect, ConnectRetry_timer_expired), (t_holdtime, Hold_Timer_expired), (t_keepalive, KeepAlive_timer_expired)}"
  shows "can_go_on q"
proof -
  have ok: "session_ok (expired t p)" using assms(1) by simp
  have t: "t \<in> allowed (status p)" using assms(1,2) by (simp add: session_ok_def)
  then have st: "status p \<noteq> Clearing" "status p \<noteq> Deleted" using assms(4) by auto
  show ?thesis
  proof (cases "0 \<le> ret")
    case True
    then show ?thesis by (rule event_goes_on [OF ok assms(3)]) (use st in simp_all)
  next
    case False
    then have "ret < 0" by simp
    from negative_code [OF ok assms(3) this] have "status q = Deleted \<or> q = expired t p \<and> status p \<in> {Idle, Active} \<and> BGP_PEER_START_SUPPRESSED p"
      using assms(4) by (auto simp: BGP_PEER_START_SUPPRESSED_def)
    then show ?thesis by (auto simp: can_go_on_def armed_def BGP_PEER_START_SUPPRESSED_def)
  qed
qed

text \<open>How far a session has come, and the events that take it one stage further.\<close>

fun stage :: "fsm_status \<Rightarrow> nat" where
  "stage Idle = 0"
| "stage Connect = 1"
| "stage Active = 1"
| "stage OpenSent = 2"
| "stage OpenConfirm = 3"
| "stage Established = 4"
| "stage Clearing = 0"
| "stage Deleted = 0"

abbreviation handshake :: "fsm_event list" where
  "handshake \<equiv> [BGP_Start, TCP_connection_open, Receive_OPEN_message, Receive_KEEPALIVE_message]"

definition advances :: "fsm_event option \<Rightarrow> nat \<Rightarrow> nat \<Rightarrow> bool" where
  "advances l m n \<longleftrightarrow> n \<le> m \<or> m < 4 \<and> n = Suc m \<and> l = Some (handshake ! m)"

lemma table_advances: "advances (Some e) (stage st) (stage (next_state st e))"
  by (cases st; cases e; simp add: advances_def)

lemma event_advances:
  assumes "session_ok p" "bgp_event S e p = Some (ret, q)"
  shows "advances (Some e) (stage (status p)) (stage (status q))"
proof (cases "0 \<le> ret \<and> status p \<noteq> Deleted")
  case True
  then show ?thesis using event_facts(3) [OF assms] table_advances [of e "status p"] by simp
next
  case False
  then have "status q = Deleted \<or> q = p" using event_facts(2,4) [OF assms] by auto
  then show ?thesis by (auto simp: advances_def)
qed

lemma expired_step:
  assumes "session_ok p" "timers p t \<noteq> None" "bgp_event S e (expired t p) = Some (ret, q)"
    "(t, e) \<in> {(t_start, BGP_Start), (t_connect, ConnectRetry_timer_expired), (t_holdtime, Hold_Timer_expired), (t_keepalive, KeepAlive_timer_expired)}"
  shows "session_ok q \<and> advances (Some e) (stage (status p)) (stage (status q)) \<and> (can_go_on p \<longrightarrow> can_go_on q)"
proof -
  have "session_ok (expired t p)" using assms(1) by simp
  then show ?thesis using event_facts(1) [OF _ assms(3)] event_advances [OF _ assms(3)] expired_goes_on [OF assms] by simp
qed

lemma step_facts:
  "session_step l p q \<Longrightarrow> session_ok p \<Longrightarrow>
   session_ok q \<and> advances l (stage (status p)) (stage (status q)) \<and> (can_go_on p \<longrightarrow> can_go_on q)"
proof (induction rule: session_step.induct)
  case (event p e es S ret q)
  have "session_ok (p\<lparr>events := es\<rparr>)" using event.prems by simp
  then show ?case using event_facts(1) [OF _ event.hyps(2)] event_advances [OF _ event.hyps(2)] queued_event_goes_on [OF event.prems event.hyps(1,2)] by simp
next
  case (start_timer p S ret q)
  show ?case by (rule expired_step [OF start_timer.prems start_timer.hyps(1) start_timer.hyps(2) [unfolded bgp_start_timer_def]]) simp
next
  case (connect_timer p S ret q)
  show ?case by (rule expired_step [OF connect_timer.prems connect_timer.hyps(1) connect_timer.hyps(2) [unfolded bgp_connect_timer_def]]) simp
next
  case (holdtime_timer p S ret q)
  show ?case by (rule expired_step [OF holdtime_timer.prems holdtime_timer.hyps(1) holdtime_timer.hyps(2) [unfolded bgp_holdtime_timer_def]]) simp
next
  case (keepalive_timer p S ret q)
  show ?case by (rule expired_step [OF keepalive_timer.prems keepalive_timer.hyps(1) keepalive_timer.hyps(2) [unfolded bgp_keepalive_timer_def]]) simp
next
  case (routeadv_timer p S)
  then have "status p = Established" by (cases "status p") (auto simp: session_ok_def)
  then show ?case using routeadv_timer.prems
    by (auto simp: bgp_routeadv_timer_def field_forms session_ok_def core_defs advances_def can_go_on_def armed_def)
next
  case (restart_timer p S q)
  from restart_timer_facts [OF restart_timer.prems restart_timer.hyps(2)] show ?case by (simp add: advances_def can_go_on_def)
next
  case (stale_timer p)
  obtain sc where "bgp_graceful_stale_timer_expire p = (expired t_gr_stale p)\<lparr>stale_cleared := sc\<rparr>" using stale_timer_form by blast
  then show ?case using stale_timer.prems
    by (auto simp: advances_def can_go_on_def armed_def BGP_PEER_START_SUPPRESSED_def peer_active_def split: fsm_status.splits)
next
  case (stimulus p e)
  then show ?case by (auto simp: BGP_EVENT_ADD_def advances_def can_go_on_def armed_def BGP_PEER_START_SUPPRESSED_def peer_active_def split: fsm_status.splits)
next
  case (open_message options p S time ret q)
  from open_received_facts [OF open_message.prems open_message.hyps(2,1,3)] show ?case by (auto simp: advances_def can_go_on_def)
next
  case (cleared p)
  then show ?case
    by (auto simp: clear_queue_done_def bgp_clear_node_complete_def BGP_EVENT_ADD_def advances_def can_go_on_def armed_def BGP_PEER_START_SUPPRESSED_def peer_active_def
      split: fsm_status.splits)
qed

lemma subseq_take:
  assumes "subseq (take m hs) es" "n \<le> m"
  shows "subseq (take n hs) (es @ fs)"
proof -
  have "prefix (take n hs) (take m hs)" using assms(2) by (metis min.absorb1 take_is_prefix take_take)
  then show ?thesis using assms(1) by (meson prefix_imp_subseq subseq_order.trans subseq_rev_drop_many)
qed

lemma run_facts:
  assumes "session_ok p"
  shows "session_run p es q \<Longrightarrow> session_ok q \<and> (can_go_on p \<longrightarrow> can_go_on q) \<and> (stage (status p) = 0 \<longrightarrow> subseq (take (stage (status q)) handshake) es)"
proof (induction rule: session_run.induct)
  case (step es q l r)
  let ?fs = "case l of None \<Rightarrow> [] | Some e \<Rightarrow> [e]"
  from step_facts [OF step.hyps(2)] step.IH have r: "session_ok r" "advances l (stage (status q)) (stage (status r))" "can_go_on q \<longrightarrow> can_go_on r" by auto
  have "subseq (take (stage (status r)) handshake) (es @ ?fs)" if "subseq (take (stage (status q)) handshake) es"
  proof (cases "stage (status r) \<le> stage (status q)")
    case True
    then show ?thesis using that by (rule subseq_take [rotated])
  next
    case False
    then have a: "stage (status q) < 4" "stage (status r) = Suc (stage (status q))" "l = Some (handshake ! stage (status q))" using r(2) by (auto simp: advances_def)
    then have "stage (status q) < length handshake" by simp
    then have "take (stage (status r)) handshake = take (stage (status q)) handshake @ ?fs" using a by (simp only: take_Suc_conv_app_nth option.case)
    then show ?thesis using that by (simp add: list_emb_append_mono)
  qed
  then show ?case using r step.IH by blast
qed (use assms in simp)



text \<open>C39.  The clearing of a peer's routes ends too early when the peer has no IPv4 unicast routes: the first table has nothing to clear and signals completion
  at once, so after a stop of an established session the next event takes it to Idle although the work queue of the other tables has not been done.\<close>

theorem clearing_ends_early:
  assumes "session_ok p" "status p = Established" "\<not> clear_pending p" "\<not> has_routes S 1 1" "has_routes S 2 1"
  shows "\<exists>q es r. bgp_event S BGP_Stop p = Some (0, q) \<and> status q = Clearing \<and> clear_pending q \<and> events q = Clearing_Completed # es \<and>
    bgp_event S Clearing_Completed (q\<lparr>events := es\<rparr>) = Some (0, r) \<and> status r = Idle \<and> clear_pending r"
proof -
  have c: "core p" using assms(1) by (simp add: session_ok_def)
  obtain s where s: "bgp_stop S p = Some s" "core s" "status s = status p" "events s = (if status p = Clearing then events p else [])"
    "clear_pending s = clear_pending p" by (rule bgp_stop_facts [OF c])
  define x where "x = bgp_fsm_change_status S Clearing s"
  have "core x" unfolding x_def using s(2,3) assms(2) by (intro change_status_core) simp_all
  then obtain q where q: "bgp_timer_set S x = Some q" "session_ok q" "armed q" "q = x\<lparr>timers := timers q\<rparr>" by (rule timer_set_facts)
  have "status x = Clearing" "clear_pending x" "\<exists>es. events x = Clearing_Completed # es"
    using s(3-5) assms(2-5) by (simp_all add: x_def bgp_fsm_change_status_def clear_all_form early_def)
  moreover have "status q = status x" "clear_pending q = clear_pending x" "events q = events x" by (subst q(4), simp)+
  moreover have "bgp_event S BGP_Stop p = Some (0, q)" using assms(2) s(1,3) q(1) by (simp add: bgp_event_def bgp_stop_event_def x_def)
  ultimately obtain es where q': "bgp_event S BGP_Stop p = Some (0, q)" "status q = Clearing" "clear_pending q" "events q = Clearing_Completed # es" by auto
  have ok: "core (q\<lparr>events := es\<rparr>)" using q(2) by (simp add: session_ok_def)
  obtain t where t: "bgp_stop S (q\<lparr>events := es\<rparr>) = Some t" "core t" "status t = status (q\<lparr>events := es\<rparr>)" "clear_pending t = clear_pending (q\<lparr>events := es\<rparr>)"
    by (rule bgp_stop_facts [OF ok])
  define y where "y = bgp_fsm_change_status S Idle (BGP_EVENT_FLUSH t)"
  have y: "core y" unfolding y_def using t(2,3) q'(2) by (intro change_status_core) simp_all
  have pending: "clear_pending y" using t(4) q'(3) by (simp add: y_def bgp_fsm_change_status_def)
  obtain r where r: "bgp_timer_set S y = Some r" "r = y\<lparr>timers := timers r\<rparr>" by (rule timer_set_facts [OF y])
  have "status r = status y" "clear_pending r = clear_pending y" by (subst r(2), simp)+
  moreover have "bgp_event S Clearing_Completed (q\<lparr>events := es\<rparr>) = Some (0, r)"
    using t(1,3) q'(2) r(1) by (simp add: bgp_event_def bgp_clearing_completed_def y_def)
  ultimately show ?thesis using q' pending by (auto simp: y_def)
qed

text \<open>C40.  The OPEN message that a session in order sends is well formed whatever families, ORF modes, AS numbers and restart options are configured: the optional
  parameters never exceed 230 bytes, so that the one byte before them holds their length, and the message is queued behind what was queued before.\<close>

theorem open_message_fits:
  assumes "session_ok p" "obuf p = Some m"
  shows "\<exists>q b n opts. bgp_open_send p = Some q \<and> obuf q = Some (m @ [(BGP_MSG_OPEN, b @ n # opts)]) \<and> length b = 9 \<and> unat n = length opts \<and>
    length opts \<le> 230"
proof -
  have c: "core p" using assms(1) by (simp add: session_ok_def)
  obtain q b os where o: "bgp_open_send p = Some q" "obuf q = Some (m @ [(BGP_MSG_OPEN, b @ os)])" "length b = 9" "hd os = of_nat (length os - 1)"
    "os \<noteq> []" "length os \<le> 231" by (rule open_send_facts [OF c assms(2)])
  obtain n opts where os: "os = n # opts" using o(5) by (cases os) auto
  have "unat (of_nat (length opts) :: u8) = length opts" using o(6) by (simp add: os unat_of_nat)
  then show ?thesis using o by (auto simp: os)
qed

subsection \<open>Examples\<close>

definition example_session :: "fsm_status \<Rightarrow> fsm_event list \<Rightarrow> session" where
  "example_session st es = \<lparr>
     peer_bgp = \<lparr>bgp_as = 65001, bgp_flags = 0, bgp_config = 0, default_local_pref = 100, confed_id = 0, confed_peers = [], maxpaths = [],
       protocol_of = dbgp_critical_wiser, island_id = 1\<rparr>,
     peer_as = 65002, local_as = 65001, sort_of = BGP_PEER_EBGP, remote_id = 0, local_id = 0x0A000001, su_remote = None,
     bgp_times = \<lparr>default_holdtime = 180, default_keepalive = 60, restart_time = 120, stalepath_time = 360, t_startup = False\<rparr>,
     change_local_as = 0, ibuf = None, obuf = Some [], work = None, status = st, ostatus = Idle, fd = - 1, uptime = 0, resettime = 0, su_local = None,
     afc = (\<lambda>afi safi. afi = 1 \<and> safi = 1), afc_nego = (\<lambda>_ _. False), afc_adv = (\<lambda>_ _. False), afc_recv = (\<lambda>_ _. False), cap = 0, af_cap = (\<lambda>_ _. 0),
     flags = 0, nsf = (\<lambda>_ _. False), af_flags = (\<lambda>_ _. 0), sflags = PEER_STATUS_CAPABILITY_OPEN, af_sflags = (\<lambda>_ _. 0), config = 0, holdtime = 0, keepalive = 0,
     v_start = BGP_INIT_START_TIMER, v_connect = 120, v_holdtime = 180, v_keepalive = 60, v_routeadv = 30, v_gr_restart = 0, t_read = False, t_write = False,
     timers = (\<lambda>t. if st = Idle \<and> t = t_start then Some 5 else None), clear_pending = False, update_time = 0, keepalive_in = 0, notify_out = 0,
     established = 0, dropped = 0, synctime = 0, notify = None, packet_size = 0, orf_entries = (\<lambda>_ _. None), orf_plist = (\<lambda>_ _. False), last_reset = 0,
     events = es, stale_cleared = [], announced_all = 0\<rparr>"

definition example_sys :: sys where
  "example_sys = \<lparr>rand_value = 0, bgp_clock = 0, write_result = 1, socket_result = 5, connect_status = connect_success, sockname = None, peername = None,
     has_routes = (\<lambda>afi safi. afi = 2 \<and> safi = 1)\<rparr>"

lemma example_ok: "session_ok (example_session Idle es)" "session_ok (example_session Established es)"
  by (simp_all add: session_ok_def core_defs example_session_def CHECK_FLAG_def)

theorem session_stays_in_order_witness:
  "\<exists>ret q. bgp_event example_sys BGP_Start (example_session Idle []) = Some (ret, q) \<and> session_ok q \<and> (0 \<le> ret \<longrightarrow> status q = Connect)"
  using session_stays_in_order [OF example_ok(1), of example_sys BGP_Start "[]"] by (auto simp: example_session_def)

theorem clearing_ends_early_witness:
  "\<exists>q es r. bgp_event example_sys BGP_Stop (example_session Established []) = Some (0, q) \<and> status q = Clearing \<and> clear_pending q \<and>
     events q = Clearing_Completed # es \<and>
     bgp_event example_sys Clearing_Completed (q\<lparr>events := es\<rparr>) = Some (0, r) \<and> status r = Idle \<and> clear_pending r"
  by (rule clearing_ends_early [OF example_ok(2)]) (simp_all add: example_session_def example_sys_def)

text \<open>Handling the first event in the queue, and a run that establishes a session.\<close>

definition handle_first :: "session \<Rightarrow> session" where
  "handle_first p = (case events p of [] \<Rightarrow> p | e # es \<Rightarrow> (case bgp_event example_sys e (p\<lparr>events := es\<rparr>) of None \<Rightarrow> p | Some (ret, q) \<Rightarrow> q))"

lemma handle_first_step:
  assumes "session_ok p" "events p = e # es"
  shows "session_step (Some e) p (handle_first p)"
proof -
  have "session_ok (p\<lparr>events := es\<rparr>)" using assms(1) by simp
  then obtain ret q where "bgp_event example_sys e (p\<lparr>events := es\<rparr>) = Some (ret, q)" using event_returns event_Deleted by metis
  then show ?thesis using assms(2) session_step.event [OF assms(2), of example_sys ret q] by (simp add: handle_first_def)
qed

definition opening_run :: "session list" where
  "opening_run = (let p = example_session Idle [BGP_Start]; a = handle_first p; b = handle_first a; c = BGP_EVENT_ADD Receive_OPEN_message b;
     d = handle_first c; e = BGP_EVENT_ADD Receive_KEEPALIVE_message d in [p, a, b, c, d, e, handle_first e])"

lemma opening_run_evaluated:
  "map events opening_run = [[BGP_Start], [TCP_connection_open], [], [Receive_OPEN_message], [], [Receive_KEEPALIVE_message], []]"
  "status (last opening_run) = Established"
  by code_simp+

lemma opening_run_reached: "session_run (example_session Idle [BGP_Start]) handshake (last opening_run)"
proof -
  define p where "p = example_session Idle [BGP_Start]"
  define a where "a = handle_first p"
  define b where "b = handle_first a"
  define c where "c = BGP_EVENT_ADD Receive_OPEN_message b"
  define d where "d = handle_first c"
  define e where "e = BGP_EVENT_ADD Receive_KEEPALIVE_message d"
  have run: "opening_run = [p, a, b, c, d, e, handle_first e]" by (simp add: opening_run_def p_def a_def b_def c_def d_def e_def Let_def)
  have ev: "events p = [BGP_Start]" "events a = [TCP_connection_open]" "events c = [Receive_OPEN_message]" "events e = [Receive_KEEPALIVE_message]"
    using opening_run_evaluated(1) by (simp_all add: run)
  have p: "session_ok p" unfolding p_def by (rule example_ok)
  have a: "session_step (Some BGP_Start) p a" unfolding a_def by (rule handle_first_step [OF p ev(1)])
  have a': "session_ok a" using step_facts [OF a p] by blast
  have b: "session_step (Some TCP_connection_open) a b" unfolding b_def by (rule handle_first_step [OF a' ev(2)])
  have b': "session_ok b" using step_facts [OF b a'] by blast
  have c: "session_step None b c" unfolding c_def by (rule session_step.stimulus)
  have c': "session_ok c" using step_facts [OF c b'] by blast
  have d: "session_step (Some Receive_OPEN_message) c d" unfolding d_def by (rule handle_first_step [OF c' ev(3)])
  have d': "session_ok d" using step_facts [OF d c'] by blast
  have e: "session_step None d e" unfolding e_def by (rule session_step.stimulus)
  have e': "session_ok e" using step_facts [OF e d'] by blast
  have f: "session_step (Some Receive_KEEPALIVE_message) e (handle_first e)" by (rule handle_first_step [OF e' ev(4)])
  have "session_run p handshake (handle_first e)"
    using session_run.step [OF session_run.step [OF session_run.step [OF session_run.step [OF session_run.step [OF session_run.step
      [OF session_run.start a] b] c] d] e] f] by simp
  then show ?thesis by (simp add: run p_def)
qed



theorem open_message_fits_witness:
  "\<exists>q b n opts. bgp_open_send (example_session Idle []) = Some q \<and> obuf q = Some [(BGP_MSG_OPEN, b @ n # opts)] \<and> length b = 9 \<and> unat n = length opts \<and>
    length opts \<le> 230"
  using open_message_fits [OF example_ok(1), of "[]" "[]"] by (simp add: example_session_def)

end
