(* ===== verification/Spec2Isabelle.thy ===== *)
theory Spec2Isabelle
  imports Ztable_Laws Dbgp_Handlers Best_Path Linklist Bgp_Fsm
begin

text \<open>
  A verification library for the Quagga routing suite, version 0.99.24.1, with the D-BGP extensions of
  its BGP daemon (sources under \<^verbatim>\<open>src/quagga-0.99.24.1\<close>).

  \<^bold>\<open>The program.\<close>  Quagga is a set of routing daemons over a common library.  The library (\<^verbatim>\<open>lib/\<close>) has the
  containers and formats that all daemons share: byte streams, prefixes, radix tables of prefixes, hash tables, linked
  lists.  The BGP daemon (\<^verbatim>\<open>bgpd/\<close>) receives routes as path attributes, keeps shared attributes in intern tables,
  compares routes in its decision process and announces the best one.  This repository adds D-BGP: an
  advertisement carries a key of a lookup service (a Redis server) in a transitive attribute, and under the key
  lies an integrated advertisement with control information of other protocols, Wiser (path costs across islands)
  and pathlets (fragments of paths that routers exchange as a graph).

  \<^bold>\<open>The theories\<close>, each the model of some sources and the lemmas about it:

  \<^item> \<open>Quagga_Prelude\<close>: machine words, assertions, big-endian integers, decimal numerals, C strings, address bits.
  \<^item> \<open>Zstream\<close> (\<^verbatim>\<open>lib/stream.c\<close>): buffers with markers.  Every operation keeps \<open>getp \<le> endp \<le> size\<close>; reads abort exactly
    when the data is missing; what is put is got back; the unchecked sum of \<^verbatim>\<open>stream_forward_endp\<close> can wrap.
  \<^item> \<open>Zprefix\<close> (\<^verbatim>\<open>lib/prefix.c\<close>): prefixes.  Matching is containment of bit strings, masks clear host bits, texts are read
    with the lengths they wrap to.
  \<^item> \<open>Ztable\<close>, \<open>Ztable_Laws\<close> (\<^verbatim>\<open>lib/table.c\<close>): the radix tree with parent links and reference counts on an explicit store of
    nodes.  The invariant holds after every sequence of operations; a stored route is found; the match is the
    longest one; nodes are released with their last reference; the iterator's order is the order of keys.
  \<^item> \<open>Zhash\<close> (\<^verbatim>\<open>lib/hash.c\<close>, \<^verbatim>\<open>lib/jhash.c\<close>): hash tables with growing buckets, their invariant, and the locale \<open>hash_client\<close> of
    what a client must provide.
  \<^item> \<open>Linklist\<close> (\<^verbatim>\<open>lib/linklist.c\<close>): doubly linked lists at the level of pointers, refining Isabelle lists.
  \<^item> \<open>Aspath\<close>, \<open>Aspath_Laws\<close> (\<^verbatim>\<open>bgpd/bgp_aspath.c\<close>): AS paths.  Canonical form, text and wire format and their round trips,
    hop counts, reconciliation, aggregation (which loses AS numbers in a case).
  \<^item> \<open>Community\<close>, \<open>Ecommunity\<close> (\<^verbatim>\<open>bgpd/bgp_community.c\<close>, \<^verbatim>\<open>bgpd/bgp_ecommunity.c\<close>): the two community attributes, canonical
    lists, texts with their buffers, matching (the one of extended communities compares misaligned bytes).
  \<^item> \<open>Attr_Intern\<close>: the intern tables of AS paths and communities over \<open>Zhash\<close>.  The locale \<open>counted_objects\<close>, interpreted for
    AS paths, communities and extended communities, refines a table to a reference count per value.
  \<^item> \<open>Bgp_Types\<close>: attributes, peers, instances and routes as records (\<^verbatim>\<open>bgp_attr.h\<close>, \<^verbatim>\<open>bgpd.h\<close>, \<^verbatim>\<open>bgp_common.h\<close>).
  \<^item> \<open>Bgp_Decision\<close> (\<^verbatim>\<open>bgpd/bgp_common.c\<close>, the comparisons of \<^verbatim>\<open>wiser.c\<close> and \<^verbatim>\<open>dbgp.c\<close>): the decision process is the
    lexicographic order of a key when all MEDs are compared, and has cycles when they are not.
  \<^item> \<open>Bgp_Mpath\<close> (\<^verbatim>\<open>bgpd/bgp_mpath.c\<close>): the routes of a table with their linked lists of multipaths.  The update of the set of
    multipaths ends and leaves the list that an abstract choice from the candidates gives; the aggregated attribute.
  \<^item> \<open>Bgp_Rib\<close> (the first part of \<^verbatim>\<open>bgpd/bgp_route.c\<close>): adding, flagging, deleting, restoring and reaping routes, as steps of
    a table.  Prefix counts are exact after every sequence of steps, and one too low between a restore and the next valid flag.
  \<^item> \<open>Best_Path\<close> (\<^verbatim>\<open>bgp_best_selection\<close> in \<^verbatim>\<open>bgpd/bgp_route.c\<close>): the selection of a node, over the three theories before.  Without
    \<^verbatim>\<open>deterministic-med\<close> and multipath it returns the least usable route and takes out the removed ones.
  \<^item> \<open>Bgp_Session\<close> (the session fields of \<^verbatim>\<open>struct peer\<close> in \<^verbatim>\<open>bgpd/bgpd.h\<close>, and parts of \<^verbatim>\<open>bgp_fsm.c\<close>, \<^verbatim>\<open>bgp_packet.c\<close>, \<^verbatim>\<open>bgp_open.c\<close>,
    \<^verbatim>\<open>bgp_route.c\<close>): timers, the event queue, the messages a session sends, the clearing of routes, stopping and deleting.
  \<^item> \<open>Bgp_Fsm\<close> (\<^verbatim>\<open>bgpd/bgp_fsm.c\<close>): the state machine of a session.  The locale \<open>session_func\<close> has the contract of a function of the
    table and is interpreted for each of them.  Every event keeps a session in order; runs establish a session
    only after the handshake and never leave it stuck; clearing can end before its work is done.
  \<^item> \<open>Pathlet_State\<close> (\<^verbatim>\<open>bgpd/pathlet_internal_state.cpp\<close>): the graph of pathlets, searches and their termination.
  \<^item> \<open>Integrated_Advert\<close> (\<^verbatim>\<open>bgpd/integrated_advertisement_functions.cpp\<close>): reading and changing advertisements.
  \<^item> \<open>Dbgp_Lookup\<close> (\<^verbatim>\<open>bgpd/dbgp_lookup.c\<close>): keys, storing and retrieving control information.
  \<^item> \<open>Wiser\<close> (\<^verbatim>\<open>bgpd/wiser.c\<close>, \<^verbatim>\<open>bgpd/wiser_config.cc\<close>, \<^verbatim>\<open>bgpd/general_configuration.cpp\<close>): configuration, costs, normalisation.
  \<^item> \<open>Dbgp_Handlers\<close> (\<^verbatim>\<open>bgpd/dbgp.c\<close>, \<^verbatim>\<open>bgpd/pathlets.c\<close>, \<^verbatim>\<open>bgpd/benchmark.c\<close>): the filters and updates that the daemon calls for
    every route, over the global state of the extensions.
  \<^item> This theory: the properties that run through several components, from a handler of one router over the lookup service
    to the graph of another.

  \<^bold>\<open>Modelling.\<close>  Structures are records, chains and arrays are lists, shared objects with pointers (radix nodes, interned
  objects, list nodes, routes) live in stores from addresses to values.  C integers are words where they can wrap;
  sizes and counters that cannot are numbers.  An operation that can fail an assertion, dereference a null
  pointer, leave an array or not return has type \<open>'a option\<close>, with \<open>None\<close> for that case, so a theorem that states \<open>Some\<close> also
  states that it does not happen.  Error codes are ordinary values.

  \<^bold>\<open>Parameters.\<close>  What is not in the repository is an argument: \<open>codec\<close> (the protocol buffer library; \<open>codec_ok\<close>: parsing undoes
  serialising), \<open>env\<close> (server and \<open>rand\<close>; \<open>redis_ok\<close>: a value that was set is answered, \<open>rand_ok\<close>: at most \<open>RAND_MAX\<close>), the address
  functions of the C library (\<open>inet_ok\<close>: they read dotted addresses), the contents of memory and of
  sockets.  Each hypothesis has a concrete instance: \<open>number_codec\<close>, \<open>store_env\<close>, \<open>dotted_bytes\<close>.

  \<^bold>\<open>Bounds and fuel.\<close>  Loops are recursive functions with termination proofs, or partial functions whose results are
  proved to exist (walks along pointers, \<open>draw_key\<close>).  \<open>retrieve_loop\<close> counts the thousand attempts of the source.  The
  recursion over predecessors in the pathlet graph does not end on every graph: it has the
  remaining stack as an argument, a stack of the size of the graph is enough without cycles, and no
  stack is enough with one.

  \<^bold>\<open>Not modelled.\<close>  The event loop, sockets, clocks and the terminal, which are calls of the operating system (a session takes
  their answers as the record \<open>sys\<close>, and its runs take any order of events and expiring timers); the
  other daemons (RIP, OSPF, IS-IS, Babel, PIM) and zebra; of the BGP daemon the parsers of messages and
  capabilities other than the attributes named above, the queues and policy
  around updates of the routing table, route maps and configuration commands; code generated by the protocol buffer compiler; debug output
  and benchmark clocks.
\<close>

subsection \<open>Pathlets across routers\<close>





end
